(* ===== verification/Prelude.thy ===== *)
theory Prelude
  imports Main "HOL-Library.Word"
begin

text \<open>
  Shared vocabulary of the development: the machine integer types of the kernel, the result
  type of an operation that may stop the machine, the alignment macros of
  \<^verbatim>\<open>kernel/lib/include/util.h\<close> with their arithmetic, and the lemmas on words and lists
  that the component theories use.

  An operation of the kernel either returns or stops the processor. A failed
  \<^verbatim>\<open>assert\<close>, a \<^verbatim>\<open>PANIC\<close>, a dereference of the null pointer, an access outside an array, a
  wait that nobody ends and a loop that never leaves its cycle are the values of \<open>fault\<close>; every component
  returns \<open>fault + 'a\<close>, with \<open>Inr\<close> for the normal return.
\<close>

unbundle bit_operations_syntax

section \<open>Machine integers and results\<close>

type_synonym u8 = "8 word"
type_synonym u16 = "16 word"
type_synonym u32 = "32 word"
type_synonym u64 = "64 word"

datatype fault = AssertFailed | Panicked | NullDeref | OutOfBounds | Blocked | Diverged

type_synonym 'a res = "fault + 'a"

definition bindR :: "'a res \<Rightarrow> ('a \<Rightarrow> 'b res) \<Rightarrow> 'b res" where
  "bindR r f = (case r of Inl e \<Rightarrow> Inl e | Inr x \<Rightarrow> f x)"

definition assertR :: "bool \<Rightarrow> 'a res \<Rightarrow> 'a res" where
  "assertR b r = (if b then r else Inl AssertFailed)"

definition loopR :: "'a res option \<Rightarrow> 'a res" where
  "loopR r = (case r of None \<Rightarrow> Inl Diverged | Some x \<Rightarrow> x)"

named_theorems res_simps \<open>evaluation of results\<close>
named_theorems unat_simps \<open>reading word arithmetic as arithmetic on natural numbers\<close>

lemma bindR_simps [simp, res_simps]:
  "bindR (Inr x) f = f x"
  "bindR (Inl e) f = Inl e"
  by (simp_all add: bindR_def)

lemma bindR_Inr_iff [simp]: "bindR r f = Inr y \<longleftrightarrow> (\<exists>x. r = Inr x \<and> f x = Inr y)"
  by (cases r) auto

lemma assertR_simps [simp, res_simps]:
  "assertR True r = r"
  "assertR False r = Inl AssertFailed"
  by (simp_all add: assertR_def)

lemma assertR_Inr_iff [simp]: "assertR b r = Inr y \<longleftrightarrow> b \<and> r = Inr y"
  by (simp add: assertR_def)

lemma loopR_simps [simp, res_simps]:
  "loopR (Some r) = r"
  "loopR None = Inl Diverged"
  by (simp_all add: loopR_def)

section \<open>The alignment macros of util.h\<close>

definition PAGE_SIZE :: u64 where
  "PAGE_SIZE = 4096"

definition DIV_ROUNDUP :: "u64 \<Rightarrow> u64 \<Rightarrow> u64" where
  "DIV_ROUNDUP v d = (v + (d - 1)) div d"

definition ALIGN_UP :: "u64 \<Rightarrow> u64 \<Rightarrow> u64" where
  "ALIGN_UP v a = DIV_ROUNDUP v a * a"

definition ALIGN_DOWN :: "u64 \<Rightarrow> u64 \<Rightarrow> u64" where
  "ALIGN_DOWN v a = (v div a) * a"

section \<open>Words as natural numbers\<close>

lemma unat_add_nowrap [unat_simps]:
  fixes a b :: "'a::len word"
  assumes "unat a + unat b < 2 ^ LENGTH('a)"
  shows "unat (a + b) = unat a + unat b"
  using assms by (simp add: unat_word_ariths(1))

lemma unat_sub_nowrap [unat_simps]:
  fixes a b :: "'a::len word"
  assumes "unat b \<le> unat a"
  shows "unat (a - b) = unat a - unat b"
  using assms by (simp add: unat_sub word_le_nat_alt)

lemma unat_mult_nowrap [unat_simps]:
  fixes a b :: "'a::len word"
  assumes "unat a * unat b < 2 ^ LENGTH('a)"
  shows "unat (a * b) = unat a * unat b"
  using assms by (simp add: unat_word_ariths(2))

lemma unat_inj: "unat a = unat b \<Longrightarrow> a = b"
  by (simp add: word_unat_eq_iff)

lemma unat_lt_2p64 [simp]: "unat (a :: u64) < 18446744073709551616"
  using unsigned_less [of a] by simp

lemma of_nat_unat_u64: "of_nat (unat (a :: u64)) = a"
  by simp

lemma unat_Suc_u64:
  fixes i n :: u64
  assumes "unat i < unat n"
  shows "unat (i + 1) = unat i + 1"
proof -
  have "unat i + 1 < 18446744073709551616"
    using assms unat_lt_2p64 [of n] by linarith
  then show ?thesis
    by (subst unat_add_nowrap) auto
qed

lemma unat_PAGE_SIZE [simp]: "unat PAGE_SIZE = 4096"
  by (simp add: PAGE_SIZE_def)

lemma unat_pages [unat_simps]:
  fixes a n :: u64
  assumes "unat a + unat n * 4096 < 2 ^ 64"
  shows "unat (a + n * PAGE_SIZE) = unat a + unat n * 4096"
    and "unat (a + PAGE_SIZE * n) = unat a + unat n * 4096"
proof -
  have m: "unat (n * PAGE_SIZE) = unat n * 4096"
    using assms by (subst unat_mult_nowrap) auto
  show "unat (a + n * PAGE_SIZE) = unat a + unat n * 4096"
    using assms m by (subst unat_add_nowrap) auto
  then show "unat (a + PAGE_SIZE * n) = unat a + unat n * 4096"
    by (simp add: mult.commute)
qed

lemma unat_drop_bit_12 [simp]: "unat (drop_bit 12 (x :: u64)) = unat x div 4096"
  by (simp add: drop_bit_eq_div unat_div)

lemma unat_gt_0_u64: "x \<noteq> 0 \<Longrightarrow> 0 < unat (x :: u64)"
  by (simp add: unat_gt_0)

section \<open>Alignment\<close>

lemma unat_ALIGN_DOWN: "unat (ALIGN_DOWN v a) = unat v div unat a * unat a"
proof -
  have "unat v div unat a * unat a < 2 ^ 64"
    by (rule le_less_trans [OF div_times_less_eq_dividend]) simp
  then have "unat (v div a) * unat a < 2 ^ LENGTH(64)"
    by (simp add: unat_div)
  then show ?thesis
    by (simp add: ALIGN_DOWN_def unat_mult_nowrap unat_div)
qed

lemma unat_DIV_ROUNDUP:
  assumes "a \<noteq> 0" and "unat v + unat a \<le> 2 ^ 64"
  shows "unat (DIV_ROUNDUP v a) = (unat v + unat a - 1) div unat a"
proof -
  have "0 < unat a"
    using assms(1) by (rule unat_gt_0_u64)
  then have "unat (a - 1) = unat a - 1"
    by (subst unat_sub_nowrap) auto
  with \<open>0 < unat a\<close> assms(2) have "unat (v + (a - 1)) = unat v + unat a - 1"
    by (subst unat_add_nowrap) auto
  then show ?thesis
    by (simp add: DIV_ROUNDUP_def unat_div)
qed

lemma div_roundup_mult_le:
  fixes v a :: nat
  assumes "0 < a"
  shows "(v + a - 1) div a * a < v + a" and "v \<le> (v + a - 1) div a * a"
proof -
  have "(v + a - 1) div a * a \<le> v + a - 1"
    by simp
  with assms show "(v + a - 1) div a * a < v + a"
    by linarith
  have "v + a - 1 < a * ((v + a - 1) div a) + a"
    using assms by (metis add.commute add_strict_left_mono mod_less_divisor mult_div_mod_eq)
  with assms show "v \<le> (v + a - 1) div a * a"
    by (simp add: mult.commute)
qed

lemma unat_ALIGN_UP:
  assumes "a \<noteq> 0" and "unat v + unat a \<le> 2 ^ 64"
  shows "unat (ALIGN_UP v a) = (unat v + unat a - 1) div unat a * unat a"
proof -
  have "0 < unat a"
    using assms(1) by (rule unat_gt_0_u64)
  then have "(unat v + unat a - 1) div unat a * unat a < 2 ^ 64"
    using div_roundup_mult_le(1) [of "unat a" "unat v"] assms(2) by linarith
  then show ?thesis
    using assms by (simp add: ALIGN_UP_def unat_mult_nowrap unat_DIV_ROUNDUP)
qed

end
