(* ===== verification/WAVLTree.thy ===== *)
theory WAVLTree
  imports Prelude
begin

section \<open>The rank-balanced tree of tree.h\<close>

text \<open>
  A node holds its key and value and, in the two low bits of its parent link, whether the edge
  to its left and to its right child is long (rank difference 2) or short (1). The parent
  pointers of the source are the recursion of the model: a loop that climbs from a leaf is the
  way back from the recursive call, and the flag of the result says whether the climb goes on.
\<close>

datatype 'v rbtree =
    Null
  | RBNode "'v rbtree" bool u64 'v bool "'v rbtree"

definition wAVLTree_compare :: "u64 \<Rightarrow> u64 \<Rightarrow> int" where
  "wAVLTree_compare lhs rhs = (if lhs < rhs then - 1 else if lhs > rhs then 1 else 0)"

subsection \<open>Searching\<close>

fun RB_FIND :: "'v rbtree \<Rightarrow> u64 \<Rightarrow> (u64 \<times> 'v) option" where
  "RB_FIND Null k = None"
| "RB_FIND (RBNode l _ a v _ r) k =
     (if wAVLTree_compare k a < 0 then RB_FIND l k
      else if wAVLTree_compare k a > 0 then RB_FIND r k
      else Some (a, v))"

fun RB_NFIND :: "'v rbtree \<Rightarrow> u64 \<Rightarrow> (u64 \<times> 'v) option \<Rightarrow> (u64 \<times> 'v) option" where
  "RB_NFIND Null k res = res"
| "RB_NFIND (RBNode l _ a v _ r) k res =
     (if wAVLTree_compare k a < 0 then RB_NFIND l k (Some (a, v))
      else if wAVLTree_compare k a > 0 then RB_NFIND r k res
      else Some (a, v))"

fun RB_MINMAX :: "'v rbtree \<Rightarrow> int \<Rightarrow> (u64 \<times> 'v) option \<Rightarrow> (u64 \<times> 'v) option" where
  "RB_MINMAX Null val parent = parent"
| "RB_MINMAX (RBNode l _ a v _ r) val parent =
     RB_MINMAX (if val < 0 then l else r) val (Some (a, v))"

definition RB_MIN :: "'v rbtree \<Rightarrow> (u64 \<times> 'v) option" where
  "RB_MIN t = RB_MINMAX t (- 1) None"

definition RB_MAX :: "'v rbtree \<Rightarrow> (u64 \<times> 'v) option" where
  "RB_MAX t = RB_MINMAX t 1 None"

text \<open>
  \<^verbatim>\<open>RB_NEXT\<close> and \<^verbatim>\<open>RB_PREV\<close> start at a node: the model finds it by its key, and \<open>up\<close>
  is the ancestor at which the source's climb over the parent links stops, the last one that
  was left towards the searched side.
\<close>

fun RB_NEXT :: "'v rbtree \<Rightarrow> u64 \<Rightarrow> (u64 \<times> 'v) option \<Rightarrow> (u64 \<times> 'v) option" where
  "RB_NEXT Null elm up = None"
| "RB_NEXT (RBNode l _ a v _ r) elm up =
     (if wAVLTree_compare elm a < 0 then RB_NEXT l elm (Some (a, v))
      else if wAVLTree_compare elm a > 0 then RB_NEXT r elm up
      else if r \<noteq> Null then RB_MIN r
      else up)"

fun RB_PREV :: "'v rbtree \<Rightarrow> u64 \<Rightarrow> (u64 \<times> 'v) option \<Rightarrow> (u64 \<times> 'v) option" where
  "RB_PREV Null elm up = None"
| "RB_PREV (RBNode l _ a v _ r) elm up =
     (if wAVLTree_compare elm a < 0 then RB_PREV l elm up
      else if wAVLTree_compare elm a > 0 then RB_PREV r elm (Some (a, v))
      else if l \<noteq> Null then RB_MAX l
      else up)"

subsection \<open>Insertion\<close>

text \<open>
  One round of \<^verbatim>\<open>RB_INSERT_COLOR\<close> at a parent whose left (right) subtree \<open>elm\<close> has grown.
  The second component says whether the parent's rank grew in turn.
\<close>

fun RB_INSERT_COLOR_L ::
  "'v rbtree \<Rightarrow> bool \<Rightarrow> u64 \<Rightarrow> 'v \<Rightarrow> bool \<Rightarrow> 'v rbtree \<Rightarrow> 'v rbtree \<times> bool" where
  "RB_INSERT_COLOR_L elm pl k v pr z =
     (if pl then (RBNode elm False k v pr z, False)
      else if \<not> pr then (RBNode elm False k v True z, True)
      else
        (case elm of
           Null \<Rightarrow> (RBNode elm False k v False z, False)
         | RBNode w el ek ev er c \<Rightarrow>
             if el then
               (case c of
                  Null \<Rightarrow> (RBNode elm False k v False z, False)
                | RBNode x cl ck cv cr y \<Rightarrow>
                    (RBNode (RBNode w False ek ev (er \<noteq> cl) x) False ck cv False
                            (RBNode y cr k v False z), False))
             else (RBNode w False ek ev False (RBNode c False k v False z), False)))"

fun RB_INSERT_COLOR_R ::
  "'v rbtree \<Rightarrow> bool \<Rightarrow> u64 \<Rightarrow> 'v \<Rightarrow> bool \<Rightarrow> 'v rbtree \<Rightarrow> 'v rbtree \<times> bool" where
  "RB_INSERT_COLOR_R z pl k v pr elm =
     (if pr then (RBNode z pl k v False elm, False)
      else if \<not> pl then (RBNode z True k v False elm, True)
      else
        (case elm of
           Null \<Rightarrow> (RBNode z False k v False elm, False)
         | RBNode c el ek ev er w \<Rightarrow>
             if er then
               (case c of
                  Null \<Rightarrow> (RBNode z False k v False elm, False)
                | RBNode y cl ck cv cr x \<Rightarrow>
                    (RBNode (RBNode z False k v cl y) False ck cv False
                            (RBNode x (el \<noteq> cr) ek ev False w), False))
             else (RBNode (RBNode z False k v False c) False ek ev False w, False)))"

fun rb_insert :: "'v rbtree \<Rightarrow> u64 \<Rightarrow> 'v \<Rightarrow> 'v rbtree \<times> bool" where
  "rb_insert Null k v = (RBNode Null False k v False Null, True)"
| "rb_insert (RBNode l lb a w rb r) k v =
     (if wAVLTree_compare k a < 0 then
        (case rb_insert l k v of
           (l', grew) \<Rightarrow> if grew then RB_INSERT_COLOR_L l' lb a w rb r
                         else (RBNode l' lb a w rb r, False))
      else if wAVLTree_compare k a > 0 then
        (case rb_insert r k v of
           (r', grew) \<Rightarrow> if grew then RB_INSERT_COLOR_R l lb a w rb r'
                         else (RBNode l lb a w rb r', False))
      else (RBNode l lb a w rb r, False))"

text \<open>The source returns the node that already has the key, and NULL when it linked the new one.\<close>

definition RB_INSERT :: "'v rbtree \<Rightarrow> u64 \<Rightarrow> 'v \<Rightarrow> 'v rbtree \<times> (u64 \<times> 'v) option" where
  "RB_INSERT t k v = (fst (rb_insert t k v), RB_FIND t k)"

subsection \<open>Removal\<close>

text \<open>
  One round of \<^verbatim>\<open>RB_REMOVE_COLOR\<close> at a parent whose left (right) subtree \<open>elm\<close> has shrunk,
  with the test for a leaf of rank 2 that the source makes before its loop. The second
  component says whether the parent's rank shrank in turn.
\<close>

fun RB_REMOVE_COLOR_L ::
  "'v rbtree \<Rightarrow> bool \<Rightarrow> u64 \<Rightarrow> 'v \<Rightarrow> bool \<Rightarrow> 'v rbtree \<Rightarrow> 'v rbtree \<times> bool" where
  "RB_REMOVE_COLOR_L elm pl k v pr sib =
     (if elm = Null \<and> sib = Null then (RBNode Null False k v False Null, True)
      else if \<not> pl then (RBNode elm True k v pr sib, False)
      else if pr then (RBNode elm True k v False sib, True)
      else
        (case sib of
           Null \<Rightarrow> (RBNode elm pl k v pr sib, False)
         | RBNode c sl sk sv sr d \<Rightarrow>
             if sl \<and> sr then (RBNode elm True k v False (RBNode c False sk sv False d), True)
             else if sr then
               (case c of
                  Null \<Rightarrow> (RBNode elm pl k v pr sib, False)
                | RBNode x el ek ev er y \<Rightarrow>
                    (RBNode (RBNode elm False k v el x) True ek ev True
                            (RBNode y er sk sv False d), False))
             else if sl then (RBNode (RBNode elm False k v False c) True sk sv True d, False)
             else (RBNode (RBNode elm True k v False c) False sk sv True d, False)))"

fun RB_REMOVE_COLOR_R ::
  "'v rbtree \<Rightarrow> bool \<Rightarrow> u64 \<Rightarrow> 'v \<Rightarrow> bool \<Rightarrow> 'v rbtree \<Rightarrow> 'v rbtree \<times> bool" where
  "RB_REMOVE_COLOR_R sib pl k v pr elm =
     (if elm = Null \<and> sib = Null then (RBNode Null False k v False Null, True)
      else if \<not> pr then (RBNode sib pl k v True elm, False)
      else if pl then (RBNode sib False k v True elm, True)
      else
        (case sib of
           Null \<Rightarrow> (RBNode sib pl k v pr elm, False)
         | RBNode d sl sk sv sr c \<Rightarrow>
             if sl \<and> sr then (RBNode (RBNode d False sk sv False c) False k v True elm, True)
             else if sl then
               (case c of
                  Null \<Rightarrow> (RBNode sib pl k v pr elm, False)
                | RBNode y el ek ev er x \<Rightarrow>
                    (RBNode (RBNode d False sk sv el y) True ek ev True
                            (RBNode x er k v False elm), False))
             else if sr then (RBNode d True sk sv True (RBNode c False k v False elm), False)
             else (RBNode d True sk sv False (RBNode c False k v True elm), False)))"

text \<open>A child that takes the place of the removed node gets a clean parent link.\<close>

fun rb_relink :: "'v rbtree \<Rightarrow> 'v rbtree" where
  "rb_relink Null = Null"
| "rb_relink (RBNode l _ k v _ r) = RBNode l False k v False r"

text \<open>The leftmost node of a subtree, unlinked: the node \<open>in\<close> of \<^verbatim>\<open>RB_REMOVE\<close>.\<close>

fun rb_unlink_min :: "'v rbtree \<Rightarrow> ('v rbtree \<times> u64 \<times> 'v \<times> bool) option" where
  "rb_unlink_min Null = None"
| "rb_unlink_min (RBNode l lb a v rb r) =
     (case rb_unlink_min l of
        None \<Rightarrow> Some (rb_relink r, a, v, True)
      | Some (l', k, w, shrank) \<Rightarrow>
          if shrank then
            (case RB_REMOVE_COLOR_L l' lb a v rb r of (t, s) \<Rightarrow> Some (t, k, w, s))
          else Some (RBNode l' lb a v rb r, k, w, False))"

fun rb_remove :: "'v rbtree \<Rightarrow> u64 \<Rightarrow> 'v rbtree \<times> bool" where
  "rb_remove Null k = (Null, False)"
| "rb_remove (RBNode l lb a v rb r) k =
     (if wAVLTree_compare k a < 0 then
        (case rb_remove l k of
           (l', shrank) \<Rightarrow> if shrank then RB_REMOVE_COLOR_L l' lb a v rb r
                           else (RBNode l' lb a v rb r, False))
      else if wAVLTree_compare k a > 0 then
        (case rb_remove r k of
           (r', shrank) \<Rightarrow> if shrank then RB_REMOVE_COLOR_R l lb a v rb r'
                           else (RBNode l lb a v rb r', False))
      else if l = Null then (rb_relink r, True)
      else
        (case rb_unlink_min r of
           None \<Rightarrow> (rb_relink l, True)
         | Some (r', k', v', shrank) \<Rightarrow>
             if shrank then RB_REMOVE_COLOR_R l lb k' v' rb r'
             else (RBNode l lb k' v' rb r', False)))"

definition RB_REMOVE :: "'v rbtree \<Rightarrow> u64 \<Rightarrow> 'v rbtree" where
  "RB_REMOVE t k = fst (rb_remove t k)"

section \<open>Balance and order\<close>

definition edge :: "bool \<Rightarrow> nat" where
  "edge long = (if long then 2 else 1)"

fun rank :: "'v rbtree \<Rightarrow> nat" where
  "rank Null = 0"
| "rank (RBNode l lb _ _ _ _) = rank l + edge lb"

fun balanced :: "'v rbtree \<Rightarrow> bool" where
  "balanced Null = True"
| "balanced (RBNode l lb _ _ rb r) =
     (balanced l \<and> balanced r \<and> rank l + edge lb = rank r + edge rb \<and>
      (l = Null \<and> r = Null \<longrightarrow> \<not> lb))"

fun entries :: "'v rbtree \<Rightarrow> (u64 \<times> 'v) list" where
  "entries Null = []"
| "entries (RBNode l _ k v _ r) = entries l @ (k, v) # entries r"

lemma edge_simps [simp]: "edge True = 2" "edge False = 1"
  by (simp_all add: edge_def)

lemma rank_0 [simp]: "rank t = 0 \<longleftrightarrow> t = Null"
  by (cases t) (auto simp: edge_def)

lemma entries_Nil [simp]: "entries t = [] \<longleftrightarrow> t = Null"
  by (cases t) auto

text \<open>A grown subtree is a new leaf or has exactly one long edge, which the rotations rely on.\<close>

fun tilted :: "'v rbtree \<Rightarrow> bool" where
  "tilted Null = False"
| "tilted (RBNode l lb _ _ rb r) = (l = Null \<and> r = Null \<or> lb \<noteq> rb)"

lemma insert_color_L:
  assumes "balanced elm" "balanced z" "tilted elm"
    and "rank elm = Suc n" "n + edge pl = rank z + edge pr"
    and "RB_INSERT_COLOR_L elm pl k v pr z = (t, grew)"
  shows "balanced t" and "rank t = n + edge pl + (if grew then 1 else 0)"
    and "grew \<Longrightarrow> tilted t"
  using assms
  by (auto split: if_splits rbtree.splits bool.splits)

lemma insert_color_R:
  assumes "balanced elm" "balanced z" "tilted elm"
    and "rank elm = Suc n" "rank z + edge pl = n + edge pr"
    and "RB_INSERT_COLOR_R z pl k v pr elm = (t, grew)"
  shows "balanced t" and "rank t = n + edge pr + (if grew then 1 else 0)"
    and "grew \<Longrightarrow> tilted t"
  using assms
  by (auto split: if_splits rbtree.splits bool.splits)

lemma compare_simps [simp]:
  "wAVLTree_compare a b < 0 \<longleftrightarrow> a < b"
  "0 < wAVLTree_compare a b \<longleftrightarrow> b < a"
  by (auto simp: wAVLTree_compare_def)

declare RB_INSERT_COLOR_L.simps [simp del] RB_INSERT_COLOR_R.simps [simp del]

lemma rb_insert_balanced:
  assumes "balanced t" and "rb_insert t k v = (t', grew)"
  shows "balanced t' \<and> rank t' = rank t + (if grew then 1 else 0) \<and> (grew \<longrightarrow> tilted t')"
  using assms
proof (induction t arbitrary: t' grew)
  case Null
  then show ?case by auto
next
  case (RBNode l lb a w rb r)
  consider (left) "k < a" | (right) "a < k" "\<not> k < a" | (same) "k = a"
    by fastforce
  then show ?case
  proof cases
    case left
    obtain l' g where l': "rb_insert l k v = (l', g)"
      by (cases "rb_insert l k v")
    have IH: "balanced l'" "rank l' = rank l + (if g then 1 else 0)" "g \<longrightarrow> tilted l'"
      using RBNode.IH(1) [OF _ l'] RBNode.prems by auto
    show ?thesis
    proof (cases g)
      case True
      then have eq: "RB_INSERT_COLOR_L l' lb a w rb r = (t', grew)"
        using RBNode.prems left l' by simp
      show ?thesis
        using insert_color_L [OF _ _ _ _ _ eq, of "rank l"] IH True RBNode.prems by auto
    next
      case False
      then show ?thesis
        using IH RBNode.prems left l' by auto
    qed
  next
    case right
    obtain r' g where r': "rb_insert r k v = (r', g)"
      by (cases "rb_insert r k v")
    have IH: "balanced r'" "rank r' = rank r + (if g then 1 else 0)" "g \<longrightarrow> tilted r'"
      using RBNode.IH(2) [OF _ r'] RBNode.prems by auto
    show ?thesis
    proof (cases g)
      case True
      then have eq: "RB_INSERT_COLOR_R l lb a w rb r' = (t', grew)"
        using RBNode.prems right r' by simp
      show ?thesis
        using insert_color_R [OF _ _ _ _ _ eq, of "rank r"] IH True RBNode.prems by auto
    next
      case False
      then show ?thesis
        using IH RBNode.prems right r' by auto
    qed
  next
    case same
    then show ?thesis
      using RBNode.prems by auto
  qed
qed

lemma remove_color_L:
  assumes "balanced elm" "balanced sib" "rank elm + 1 = n" "n + edge pl = rank sib + edge pr"
    and "RB_REMOVE_COLOR_L elm pl k v pr sib = (t, shrank)"
  shows "balanced t \<and> rank t + (if shrank then 1 else 0) = n + edge pl"
  using assms
  by (auto simp: edge_def split: if_splits rbtree.splits)

lemma remove_color_R:
  assumes "balanced elm" "balanced sib" "rank elm + 1 = n" "rank sib + edge pl = n + edge pr"
    and "RB_REMOVE_COLOR_R sib pl k v pr elm = (t, shrank)"
  shows "balanced t \<and> rank t + (if shrank then 1 else 0) = n + edge pr"
  using assms
  by (auto simp: edge_def split: if_splits rbtree.splits)

declare RB_REMOVE_COLOR_L.simps [simp del] RB_REMOVE_COLOR_R.simps [simp del]

text \<open>The node with one child, in a balanced tree, has a leaf as that child.\<close>

lemma edge_bounds: "Suc 0 \<le> edge b" "edge b \<le> 2" "edge b = Suc 0 \<longleftrightarrow> \<not> b"
  by (cases b; simp)+

lemma rank_1:
  assumes "balanced t" "rank t = Suc 0"
  obtains a w where "t = RBNode Null False a w False Null"
proof (cases t)
  case (RBNode l lb a w rb r)
  have "rank l + edge lb = 1" "rank r + edge rb = 1"
    using assms RBNode by auto
  then have "rank l = 0" "rank r = 0" "edge lb = Suc 0" "edge rb = Suc 0"
    using edge_bounds(1) [of lb] edge_bounds(1) [of rb] by linarith+
  then show ?thesis
    using RBNode that by (simp add: edge_bounds)
qed (use assms in simp)

lemma rb_relink_leaf:
  assumes "balanced t" "rank t + edge b = edge c"
  shows "balanced (rb_relink t) \<and> rank (rb_relink t) = rank t \<and> (rank t = 0 \<longrightarrow> b = c) \<and>
    (rank t \<noteq> 0 \<longrightarrow> c)"
proof (cases "rank t = 0")
  case True
  then show ?thesis
    using assms by (cases b; cases c) auto
next
  case False
  then have "rank t = Suc 0" "edge c = 2"
    using assms(2) edge_bounds(1) [of b] edge_bounds(2) [of c] by linarith+
  then show ?thesis
    using rank_1 [OF assms(1)] by (metis edge_bounds(3) numeral_2_eq_2 n_not_Suc_n balanced.simps
        rank.simps rb_relink.simps(2) assms(1))
qed

lemma rb_relink_only_child:
  assumes "balanced (RBNode Null lb k v rb r)"
  shows "balanced (rb_relink r)" and "rank (rb_relink r) + 1 = rank (RBNode Null lb k v rb r)"
  using assms rb_relink_leaf [of r rb lb] by (cases lb; cases rb; auto)+

lemma rb_relink_only_child':
  assumes "balanced (RBNode l lb k v rb Null)"
  shows "balanced (rb_relink l)" and "rank (rb_relink l) + 1 = rank (RBNode l lb k v rb Null)"
  using assms rb_relink_leaf [of l lb rb] by (cases lb; cases rb; auto)+

lemma rb_unlink_min_None [simp]: "rb_unlink_min t = None \<longleftrightarrow> t = Null"
  by (cases t) (auto split: option.splits prod.splits if_splits)

lemma rb_unlink_min_balanced:
  assumes "balanced t" and "rb_unlink_min t = Some (t', k, v, shrank)"
  shows "balanced t' \<and> rank t' + (if shrank then 1 else 0) = rank t"
  using assms
proof (induction t arbitrary: t' k v shrank)
  case Null
  then show ?case by simp
next
  case (RBNode l lb a w rb r)
  show ?case
  proof (cases "rb_unlink_min l")
    case None
    then show ?thesis
      using RBNode.prems rb_relink_only_child [of lb a w rb r] by auto
  next
    case (Some q)
    then obtain l' k' v' s where l': "rb_unlink_min l = Some (l', k', v', s)"
      by (cases q) auto
    have IH: "balanced l'" "rank l' + (if s then 1 else 0) = rank l"
      using RBNode.IH(1) [OF _ l'] RBNode.prems by auto
    show ?thesis
    proof (cases s)
      case True
      then obtain u where u: "RB_REMOVE_COLOR_L l' lb a w rb r = (t', u)" "shrank = u"
        using RBNode.prems l' by (auto split: prod.splits)
      show ?thesis
        using remove_color_L [OF IH(1) _ _ _ u(1), of "rank l"] IH True u RBNode.prems by auto
    next
      case False
      then show ?thesis
        using IH l' RBNode.prems by auto
    qed
  qed
qed

lemma rb_remove_balanced:
  assumes "balanced t" and "rb_remove t k = (t', shrank)"
  shows "balanced t' \<and> rank t' + (if shrank then 1 else 0) = rank t"
  using assms
proof (induction t arbitrary: t' shrank)
  case Null
  then show ?case by simp
next
  case (RBNode l lb a w rb r)
  consider (left) "k < a" | (right) "a < k" "\<not> k < a" | (leaf) "k = a" "l = Null"
    | (one) "k = a" "l \<noteq> Null" "r = Null" | (two) "k = a" "l \<noteq> Null" "r \<noteq> Null"
    by fastforce
  then show ?case
  proof cases
    case left
    obtain l' s where l': "rb_remove l k = (l', s)"
      by (cases "rb_remove l k")
    have IH: "balanced l'" "rank l' + (if s then 1 else 0) = rank l"
      using RBNode.IH(1) [OF _ l'] RBNode.prems by auto
    show ?thesis
      using left l' IH RBNode.prems remove_color_L [OF IH(1), of r "rank l" lb rb a w t' shrank]
      by (auto split: if_splits)
  next
    case right
    obtain r' s where r': "rb_remove r k = (r', s)"
      by (cases "rb_remove r k")
    have IH: "balanced r'" "rank r' + (if s then 1 else 0) = rank r"
      using RBNode.IH(2) [OF _ r'] RBNode.prems by auto
    show ?thesis
      using right r' IH RBNode.prems remove_color_R [OF IH(1), of l "rank r" lb rb a w t' shrank]
      by (auto split: if_splits)
  next
    case leaf
    then show ?thesis
      using RBNode.prems rb_relink_only_child [of lb a w rb r] by auto
  next
    case one
    then show ?thesis
      using RBNode.prems rb_relink_only_child' [of l lb a w rb] by auto
  next
    case two
    then obtain r' k' v' s where r': "rb_unlink_min r = Some (r', k', v', s)"
      by (cases "rb_unlink_min r") auto
    have IH: "balanced r'" "rank r' + (if s then 1 else 0) = rank r"
      using rb_unlink_min_balanced [OF _ r'] RBNode.prems by auto
    show ?thesis
      using two r' IH RBNode.prems remove_color_R [OF IH(1), of l "rank r" lb rb k' v' t' shrank]
      by (auto split: if_splits)
  qed
qed

section \<open>The tree as a sorted list of entries\<close>

abbreviation sorted_keys :: "(u64 \<times> 'v) list \<Rightarrow> bool" where
  "sorted_keys ps \<equiv> sorted_wrt (<) (map fst ps)"

fun ins_entry :: "u64 \<Rightarrow> 'v \<Rightarrow> (u64 \<times> 'v) list \<Rightarrow> (u64 \<times> 'v) list" where
  "ins_entry k v [] = [(k, v)]"
| "ins_entry k v (p # ps) =
     (if k < fst p then (k, v) # p # ps else if k = fst p then p # ps else p # ins_entry k v ps)"

definition del_entry :: "u64 \<Rightarrow> (u64 \<times> 'v) list \<Rightarrow> (u64 \<times> 'v) list" where
  "del_entry k ps = filter (\<lambda>p. fst p \<noteq> k) ps"

lemma ins_entry_append:
  assumes "sorted_keys (xs @ p # ys)"
  shows "ins_entry k v (xs @ p # ys) =
    (if k < fst p then ins_entry k v xs @ p # ys else xs @ ins_entry k v (p # ys))"
  using assms
proof (induction xs)
  case Nil
  then show ?case by simp
next
  case (Cons x xs)
  then have "fst x < fst p" and "sorted_keys (xs @ p # ys)"
    by simp_all
  then show ?case
    using Cons.IH order.strict_trans [of k "fst x" "fst p"] by simp
qed

lemma ins_entry_set: "fst ` set (ins_entry k v ps) = insert k (fst ` set ps)"
  by (induction ps) (simp_all add: insert_commute)

lemma ins_entry_sorted: "sorted_keys ps \<Longrightarrow> sorted_keys (ins_entry k v ps)"
proof (induction ps)
  case Nil
  then show ?case by simp
next
  case (Cons p ps)
  have "\<forall>q\<in>set ps. k < fst p \<longrightarrow> k < fst q"
    using Cons.prems order.strict_trans by auto
  moreover have "\<forall>q\<in>set (ins_entry k v ps). fst q = k \<or> fst q \<in> fst ` set ps"
    using ins_entry_set [of k v ps] by auto
  ultimately show ?case
    using Cons by fastforce
qed

lemma map_of_ins_entry:
  "sorted_keys ps \<Longrightarrow>
   map_of (ins_entry k v ps) = (if k \<in> fst ` set ps then map_of ps else (map_of ps)(k \<mapsto> v))"
proof (induction ps)
  case Nil
  then show ?case by simp
next
  case (Cons p ps)
  then have "k < fst p \<Longrightarrow> k \<notin> fst ` set ps"
    using order.asym by fastforce
  then show ?case
    using Cons by (cases p) (auto simp: fun_eq_iff)
qed

lemma del_entry_append [simp]: "del_entry k (xs @ ys) = del_entry k xs @ del_entry k ys"
  by (simp add: del_entry_def)

lemma del_entry_Cons [simp]: "del_entry k (p # ps) = (if fst p = k then del_entry k ps else p # del_entry k ps)"
  by (simp add: del_entry_def)

lemma del_entry_Nil [simp]: "del_entry k [] = []"
  by (simp add: del_entry_def)

lemma del_entry_absent: "k \<notin> fst ` set ps \<Longrightarrow> del_entry k ps = ps"
  by (induction ps) auto

lemma del_entry_set: "fst ` set (del_entry k ps) = fst ` set ps - {k}"
  by (auto simp: del_entry_def)

lemma del_entry_sorted: "sorted_keys ps \<Longrightarrow> sorted_keys (del_entry k ps)"
  by (induction ps) (auto simp: del_entry_def)

lemma map_of_del_entry: "map_of (del_entry k ps) = (map_of ps)(k := None)"
  by (induction ps) (auto simp: fun_eq_iff)

lemma color_entries [simp]:
  "entries (fst (RB_INSERT_COLOR_L l lb k v rb r)) = entries l @ (k, v) # entries r"
  "entries (fst (RB_INSERT_COLOR_R l lb k v rb r)) = entries l @ (k, v) # entries r"
  "entries (fst (RB_REMOVE_COLOR_L l lb k v rb r)) = entries l @ (k, v) # entries r"
  "entries (fst (RB_REMOVE_COLOR_R l lb k v rb r)) = entries l @ (k, v) # entries r"
  by (simp_all add: RB_INSERT_COLOR_L.simps RB_INSERT_COLOR_R.simps RB_REMOVE_COLOR_L.simps
      RB_REMOVE_COLOR_R.simps split: rbtree.split)

lemma rb_relink_entries [simp]: "entries (rb_relink t) = entries t"
  by (cases t) simp_all

lemma sorted_keys_node:
  "sorted_keys (entries (RBNode l lb a w rb r)) \<longleftrightarrow> sorted_keys (entries l) \<and> sorted_keys (entries r) \<and>
   (\<forall>x\<in>fst ` set (entries l). x < a) \<and> (\<forall>x\<in>fst ` set (entries r). a < x)"
  by (fastforce simp: sorted_wrt_append)

lemma rb_insert_entries:
  "sorted_keys (entries t) \<Longrightarrow> entries (fst (rb_insert t k v)) = ins_entry k v (entries t)"
proof (induction t)
  case Null
  then show ?case by simp
next
  case (RBNode l lb a w rb r)
  have srt: "sorted_keys (entries l @ (a, w) # entries r)"
    using RBNode.prems by simp
  show ?case
    using RBNode.IH iffD1 [OF sorted_keys_node RBNode.prems] ins_entry_append [OF srt, of k v]
    by (auto simp: split_beta)
qed

lemma rb_unlink_min_entries:
  "rb_unlink_min t = Some (t', k, v, s) \<Longrightarrow> entries t = (k, v) # entries t'"
proof (induction t arbitrary: t' k v s)
  case (RBNode l lb a w rb r)
  show ?case
  proof (cases "rb_unlink_min l")
    case None
    then show ?thesis
      using RBNode.prems by auto
  next
    case (Some q)
    then obtain l' k' v' s' where l': "rb_unlink_min l = Some (l', k', v', s')"
      by (cases q) auto
    then show ?thesis
      using RBNode.prems RBNode.IH(1) [OF l'] color_entries(3) [of l' lb a w rb r]
      by (cases s'; cases "RB_REMOVE_COLOR_L l' lb a w rb r") auto
  qed
qed simp

lemma rb_remove_entries:
  "sorted_keys (entries t) \<Longrightarrow> entries (fst (rb_remove t k)) = del_entry k (entries t)"
proof (induction t)
  case Null
  then show ?case by simp
next
  case (RBNode l lb a w rb r)
  have l: "k \<notin> fst ` set (entries l)" if "a \<le> k"
    using iffD1 [OF sorted_keys_node RBNode.prems] that leD by blast
  have r: "k \<notin> fst ` set (entries r)" if "k \<le> a"
    using iffD1 [OF sorted_keys_node RBNode.prems] that leD by blast
  consider (left) "k < a" | (right) "a < k" "\<not> k < a" | (same) "k = a"
    by fastforce
  then show ?case
  proof cases
    case left
    then show ?thesis
      using RBNode.IH iffD1 [OF sorted_keys_node RBNode.prems] r
      by (auto simp: split_beta del_entry_absent)
  next
    case right
    then show ?thesis
      using RBNode.IH iffD1 [OF sorted_keys_node RBNode.prems] l
      by (auto simp: split_beta del_entry_absent)
  next
    case same
    then show ?thesis
      using l r rb_unlink_min_entries [of r]
      by (auto simp: del_entry_absent split: option.split)
  qed
qed

section \<open>Searches on the sorted list\<close>

definition hd_opt :: "'a list \<Rightarrow> 'a option" where
  "hd_opt xs = (case xs of [] \<Rightarrow> None | x # _ \<Rightarrow> Some x)"

lemma hd_opt_simps [simp]: "hd_opt [] = None" "hd_opt (x # xs) = Some x"
  "hd_opt (xs @ x # ys) = (case hd_opt xs of None \<Rightarrow> Some x | Some y \<Rightarrow> Some y)"
  by (auto simp: hd_opt_def split: list.split)

lemma hd_opt_None [simp]: "hd_opt xs = None \<longleftrightarrow> xs = []"
  by (auto simp: hd_opt_def split: list.split)

lemma find_append:
  "List.find P (xs @ ys) = (case List.find P xs of None \<Rightarrow> List.find P ys | Some x \<Rightarrow> Some x)"
  by (induction xs) auto

lemma find_none: "(\<forall>x\<in>set xs. \<not> P x) \<Longrightarrow> List.find P xs = None"
  by (simp add: find_None_iff)

lemma find_first: "(\<forall>x\<in>set xs. P x) \<Longrightarrow> List.find P xs = hd_opt xs"
  by (cases xs) auto

lemma RB_FIND_entries:
  "sorted_keys (entries t) \<Longrightarrow> RB_FIND t k = map_option (Pair k) (map_of (entries t) k)"
proof (induction t)
  case (RBNode l lb a w rb r)
  note srt = iffD1 [OF sorted_keys_node RBNode.prems]
  have "map_of (entries r) k = None" if "k \<le> a"
    using srt that leD by (fastforce simp: map_of_eq_None_iff)
  moreover have "map_of (entries l) k = None" if "a \<le> k"
    using srt that leD by (fastforce simp: map_of_eq_None_iff)
  ultimately show ?case
    using RBNode.IH srt by (auto simp: map_add_def split: option.split)
qed simp

lemma RB_MINMAX_entries:
  "RB_MINMAX t (- 1) up = (case hd_opt (entries t) of None \<Rightarrow> up | p \<Rightarrow> p)"
  "RB_MINMAX t 1 up = (case hd_opt (rev (entries t)) of None \<Rightarrow> up | p \<Rightarrow> p)"
  by (induction t arbitrary: up) (auto split: option.split)

lemma RB_MIN_entries: "RB_MIN t = hd_opt (entries t)"
  by (simp add: RB_MIN_def RB_MINMAX_entries split: option.split)

lemma RB_MAX_entries: "RB_MAX t = hd_opt (rev (entries t))"
  by (simp add: RB_MAX_def RB_MINMAX_entries split: option.split)

lemma RB_NFIND_entries:
  "sorted_keys (entries t) \<Longrightarrow>
   RB_NFIND t k up = (case List.find (\<lambda>p. k \<le> fst p) (entries t) of None \<Rightarrow> up | p \<Rightarrow> p)"
proof (induction t arbitrary: up)
  case (RBNode l lb a w rb r)
  note srt = iffD1 [OF sorted_keys_node RBNode.prems]
  have "List.find (\<lambda>p. k \<le> fst p) (entries l) = None" if "a \<le> k"
    using srt that by (intro find_none) fastforce
  then show ?case
    using RBNode.IH srt by (auto simp: find_append split: option.split)
qed simp

lemma RB_NEXT_entries:
  "sorted_keys (entries t) \<Longrightarrow> k \<in> fst ` set (entries t) \<Longrightarrow>
   RB_NEXT t k up = (case List.find (\<lambda>p. k < fst p) (entries t) of None \<Rightarrow> up | p \<Rightarrow> p)"
proof (induction t arbitrary: up)
  case (RBNode l lb a w rb r)
  note srt = iffD1 [OF sorted_keys_node RBNode.prems(1)]
  have l: "List.find (\<lambda>p. k < fst p) (entries l) = None" if "a \<le> k"
    using srt that by (intro find_none) fastforce
  have r: "List.find (\<lambda>p. k < fst p) (entries r) = hd_opt (entries r)" if "k \<le> a"
    using srt that by (intro find_first) fastforce
  have "k \<in> fst ` set (entries l) \<or> k = a \<or> k \<in> fst ` set (entries r)"
    using RBNode.prems(2) by auto
  then have kl: "k < a \<Longrightarrow> k \<in> fst ` set (entries l)" and kr: "a < k \<Longrightarrow> k \<in> fst ` set (entries r)"
    using srt order.asym by blast+
  consider (left) "k < a" | (right) "a < k" "\<not> k < a" | (same) "k = a"
    by fastforce
  then show ?case
    using RBNode.IH srt l r kl kr
    by cases (auto simp: find_append RB_MIN_entries split: option.split)
qed simp

lemma RB_PREV_entries:
  "sorted_keys (entries t) \<Longrightarrow> k \<in> fst ` set (entries t) \<Longrightarrow>
   RB_PREV t k up = (case List.find (\<lambda>p. fst p < k) (rev (entries t)) of None \<Rightarrow> up | p \<Rightarrow> p)"
proof (induction t arbitrary: up)
  case (RBNode l lb a w rb r)
  note srt = iffD1 [OF sorted_keys_node RBNode.prems(1)]
  have r: "List.find (\<lambda>p. fst p < k) (rev (entries r)) = None" if "k \<le> a"
    using srt that by (intro find_none) fastforce
  have l: "List.find (\<lambda>p. fst p < k) (rev (entries l)) = hd_opt (rev (entries l))" if "a \<le> k"
    using srt that by (intro find_first) fastforce
  have "k \<in> fst ` set (entries l) \<or> k = a \<or> k \<in> fst ` set (entries r)"
    using RBNode.prems(2) by auto
  then have kl: "k < a \<Longrightarrow> k \<in> fst ` set (entries l)" and kr: "a < k \<Longrightarrow> k \<in> fst ` set (entries r)"
    using srt order.asym by blast+
  consider (left) "k < a" | (right) "a < k" "\<not> k < a" | (same) "k = a"
    by fastforce
  then show ?case
    using RBNode.IH srt l r kl kr
    by cases (auto simp: find_append RB_MAX_entries split: option.split)
qed simp

section \<open>Depth\<close>

fun depth :: "'v rbtree \<Rightarrow> nat" where
  "depth Null = 0"
| "depth (RBNode l _ _ _ _ r) = Suc (max (depth l) (depth r))"

lemma depth_le_rank: "balanced t \<Longrightarrow> depth t \<le> rank t"
proof (induction t)
  case (RBNode l lb a w rb r)
  then show ?case
    using edge_bounds(1) [of lb] edge_bounds(1) [of rb] by (simp add: max_def)
qed simp

lemma rank_entries: "balanced t \<Longrightarrow> 2 ^ ((rank t + 1) div 2) \<le> length (entries t) + 1"
proof (induction t)
  case (RBNode l lb a w rb r)
  show ?case
  proof (cases "rank (RBNode l lb a w rb r) \<le> 1")
    case True
    then have "rank (RBNode l lb a w rb r) = 1"
      using edge_bounds(1) [of lb] by simp
    then show ?thesis
      by (simp del: rank.simps)
  next
    case False
    define n where "n = rank (RBNode l lb a w rb r) - 2"
    have n: "rank (RBNode l lb a w rb r) = n + 2" "n \<le> rank l" "n \<le> rank r"
      using False RBNode.prems edge_bounds(2) [of lb] edge_bounds(2) [of rb] by (auto simp: n_def)
    have "(2::nat) ^ ((n + 1) div 2) \<le> length (entries l) + 1"
      using n RBNode by (intro le_trans [OF power_increasing RBNode.IH(1)] div_le_mono) auto
    moreover have "(2::nat) ^ ((n + 1) div 2) \<le> length (entries r) + 1"
      using n RBNode by (intro le_trans [OF power_increasing RBNode.IH(2)] div_le_mono) auto
    moreover have "((n + 2) + 1) div 2 = Suc ((n + 1) div 2)"
      by linarith
    ultimately show ?thesis
      unfolding n(1) by simp
  qed
qed simp

lemma depth_entries:
  assumes "balanced t"
  shows "2 ^ ((depth t + 1) div 2) \<le> length (entries t) + 1"
proof -
  have "(2::nat) ^ ((depth t + 1) div 2) \<le> 2 ^ ((rank t + 1) div 2)"
    using depth_le_rank [OF assms] by (auto intro!: power_increasing div_le_mono)
  then show ?thesis
    using rank_entries [OF assms] by (rule le_trans)
qed

end
