(* ===== verification/AVLTree.thy ===== *)
theory AVLTree
  imports WAVLTree
begin

text \<open>
  The class \<^verbatim>\<open>wAVLTree\<close> of AVLTree.hpp and its wrapper \<^verbatim>\<open>HashMap\<close>. A pointer to a node
  that is in the tree is modelled by the node's key, which identifies it; the value of a node
  is any type, since the class stores what its clients cast to 64 bits. The memory of a node
  comes from the kernel heap and is not part of this model: an allocation succeeds.
\<close>

section \<open>The operations of the class\<close>

text \<open>
  The source returns the node it allocated, also when the key was already there and the node
  was not linked. The second component of the result says whether the returned node is in the
  tree.
\<close>

definition wAVLTree_Insert :: "'v rbtree \<Rightarrow> u64 \<Rightarrow> 'v \<Rightarrow> 'v rbtree \<times> bool" where
  "wAVLTree_Insert t key data = (case RB_INSERT t key data of (t', found) \<Rightarrow> (t', found = None))"

definition wAVLTree_Remove :: "'v rbtree \<Rightarrow> u64 \<Rightarrow> 'v rbtree" where
  "wAVLTree_Remove t key =
     (case RB_FIND t key of None \<Rightarrow> t | Some (found_node, _) \<Rightarrow> RB_REMOVE t found_node)"

definition wAVLTree_RemoveNode :: "'v rbtree \<Rightarrow> u64 option \<Rightarrow> 'v rbtree" where
  "wAVLTree_RemoveNode t node = (case node of None \<Rightarrow> t | Some k \<Rightarrow> RB_REMOVE t k)"

definition wAVLTree_Find :: "'v rbtree \<Rightarrow> u64 \<Rightarrow> 'v option" where
  "wAVLTree_Find t key = map_option snd (RB_FIND t key)"

definition wAVLTree_FindNode :: "'v rbtree \<Rightarrow> u64 \<Rightarrow> (u64 \<times> 'v) option" where
  "wAVLTree_FindNode t key = RB_FIND t key"

definition wAVLTree_FindNodeOrHigher :: "'v rbtree \<Rightarrow> u64 \<Rightarrow> (u64 \<times> 'v) option" where
  "wAVLTree_FindNodeOrHigher t key = RB_NFIND t key None"

definition wAVLTree_FindNodeOrLower :: "'v rbtree \<Rightarrow> u64 \<Rightarrow> (u64 \<times> 'v) option" where
  "wAVLTree_FindNodeOrLower t key =
     (case RB_NFIND t key None of
        None \<Rightarrow> RB_MAX t
      | Some (k, v) \<Rightarrow> if k > key then RB_PREV t k None else Some (k, v))"

definition wAVLTree_PreviousNode :: "'v rbtree \<Rightarrow> u64 \<Rightarrow> (u64 \<times> 'v) option" where
  "wAVLTree_PreviousNode t node = RB_PREV t node None"

definition wAVLTree_NextNode :: "'v rbtree \<Rightarrow> u64 \<Rightarrow> (u64 \<times> 'v) option" where
  "wAVLTree_NextNode t node = RB_NEXT t node None"

definition wAVLTree_isEmpty :: "'v rbtree \<Rightarrow> bool" where
  "wAVLTree_isEmpty t = (t = Null)"

text \<open>
  The iterations: \<^verbatim>\<open>RB_FOREACH\<close> goes from \<^verbatim>\<open>RB_MIN\<close> by \<^verbatim>\<open>RB_NEXT\<close>. A callback acts on a
  state of type \<open>'s\<close>, what its data pointer reaches.
\<close>

partial_function (option) forEach_loop ::
  "'v rbtree \<Rightarrow> (u64 \<Rightarrow> 'v \<Rightarrow> 's \<Rightarrow> 's) \<Rightarrow> (u64 \<times> 'v) option \<Rightarrow> 's \<Rightarrow> 's option" where
  "forEach_loop t callback node s =
     (case node of
        None \<Rightarrow> Some s
      | Some p \<Rightarrow> forEach_loop t callback (RB_NEXT t (fst p) None) (callback (fst p) (snd p) s))"

definition wAVLTree_forEach :: "'v rbtree \<Rightarrow> (u64 \<Rightarrow> 'v \<Rightarrow> 's \<Rightarrow> 's) \<Rightarrow> 's \<Rightarrow> 's option" where
  "wAVLTree_forEach t callback s = forEach_loop t callback (RB_MIN t) s"

partial_function (option) forEach_from_loop ::
  "'v rbtree \<Rightarrow> (u64 \<Rightarrow> 'v \<Rightarrow> 's \<Rightarrow> bool \<times> 's) \<Rightarrow> u64 \<Rightarrow> u64 \<Rightarrow> (u64 \<times> 'v) option \<Rightarrow> 's \<Rightarrow> 's option" where
  "forEach_from_loop t callback startingIndex i node s =
     (case node of
        None \<Rightarrow> Some s
      | Some p \<Rightarrow>
          if i \<noteq> startingIndex then
            forEach_from_loop t callback startingIndex (i + 1) (RB_NEXT t (fst p) None) s
          else if \<not> fst (callback (fst p) (snd p) s) then Some (snd (callback (fst p) (snd p) s))
          else forEach_from_loop t callback startingIndex i (RB_NEXT t (fst p) None)
                 (snd (callback (fst p) (snd p) s)))"

definition wAVLTree_forEach_from ::
  "'v rbtree \<Rightarrow> (u64 \<Rightarrow> 'v \<Rightarrow> 's \<Rightarrow> bool \<times> 's) \<Rightarrow> u64 \<Rightarrow> 's \<Rightarrow> 's option" where
  "wAVLTree_forEach_from t callback startingIndex s =
     forEach_from_loop t callback startingIndex 0 (RB_MIN t) s"

partial_function (option) Clear_loop :: "'v rbtree \<Rightarrow> (u64 \<times> 'v) option \<Rightarrow> 'v rbtree option" where
  "Clear_loop t node =
     (case node of
        None \<Rightarrow> Some t
      | Some p \<Rightarrow> Clear_loop (RB_REMOVE t (fst p)) (RB_NEXT t (fst p) None))"

definition wAVLTree_Clear :: "'v rbtree \<Rightarrow> 'v rbtree option" where
  "wAVLTree_Clear t = Clear_loop t (RB_MIN t)"

text \<open>The wrapper HashMap.hpp.\<close>

definition HashMap_insert :: "'v rbtree \<Rightarrow> u64 \<Rightarrow> 'v \<Rightarrow> 'v rbtree" where
  "HashMap_insert m key data = fst (wAVLTree_Insert m key data)"

definition HashMap_remove :: "'v rbtree \<Rightarrow> u64 \<Rightarrow> 'v rbtree" where
  "HashMap_remove m key = wAVLTree_Remove m key"

definition HashMap_get :: "'v rbtree \<Rightarrow> u64 \<Rightarrow> 'v option" where
  "HashMap_get m key = wAVLTree_Find m key"

section \<open>The interface its clients rely on\<close>

lemma find_least:
  assumes "sorted_keys ps" "List.find P ps = Some p"
  shows "p \<in> set ps" "P p" "\<And>q. q \<in> set ps \<Longrightarrow> P q \<Longrightarrow> fst p \<le> fst q"
proof -
  obtain i where i: "i < length ps" "P (ps ! i)" "p = ps ! i" "\<forall>j<i. \<not> P (ps ! j)"
    using assms(2) by (auto simp: find_Some_iff)
  then show "p \<in> set ps" "P p"
    by auto
  fix q
  assume "q \<in> set ps" "P q"
  then obtain j where "j < length ps" "q = ps ! j" "i \<le> j"
    using i(4) by (metis in_set_conv_nth linorder_not_less)
  then show "fst p \<le> fst q"
    using assms(1) i by (cases "i = j") (auto simp: sorted_wrt_iff_nth_less intro: less_imp_le)
qed

lemma find_greatest:
  assumes "sorted_keys ps" "List.find P (rev ps) = Some p"
  shows "p \<in> set ps" "P p" "\<And>q. q \<in> set ps \<Longrightarrow> P q \<Longrightarrow> fst q \<le> fst p"
proof -
  have rev: "sorted_wrt (>) (map fst (rev ps))"
    using assms(1) unfolding rev_map [symmetric] sorted_wrt_rev .
  obtain i where i: "i < length ps" "P (rev ps ! i)" "p = rev ps ! i" "\<forall>j<i. \<not> P (rev ps ! j)"
    using assms(2) by (auto simp: find_Some_iff)
  then show "p \<in> set ps" "P p"
    by (metis length_rev nth_mem set_rev)+
  fix q
  assume "q \<in> set ps" "P q"
  then obtain j where "j < length ps" "q = rev ps ! j" "i \<le> j"
    using i(4) by (metis in_set_conv_nth length_rev linorder_not_less set_rev)
  then show "fst q \<le> fst p"
    using rev i by (cases "i = j") (auto simp: sorted_wrt_iff_nth_less intro: less_imp_le)
qed

locale sorted_map =
  fixes invar :: "'t \<Rightarrow> bool"
    and ents :: "'t \<Rightarrow> (u64 \<times> 'v) list"
    and new :: "'t"
    and ins :: "'t \<Rightarrow> u64 \<Rightarrow> 'v \<Rightarrow> 't"
    and del :: "'t \<Rightarrow> u64 \<Rightarrow> 't"
    and look :: "'t \<Rightarrow> u64 \<Rightarrow> 'v option"
  assumes invar_new: "invar new"
    and invar_ins: "invar t \<Longrightarrow> invar (ins t k v)"
    and invar_del: "invar t \<Longrightarrow> invar (del t k)"
    and invar_sorted: "invar t \<Longrightarrow> sorted_keys (ents t)"
    and ents_new: "ents new = []"
    and ents_ins: "invar t \<Longrightarrow> ents (ins t k v) = ins_entry k v (ents t)"
    and ents_del: "invar t \<Longrightarrow> ents (del t k) = del_entry k (ents t)"
    and look_ents: "invar t \<Longrightarrow> look t k = map_of (ents t) k"
begin

lemma look_new: "look new k = None"
  by (simp add: look_ents invar_new ents_new)

lemma look_ins:
  "invar t \<Longrightarrow> look (ins t k v) j = (if j = k \<and> look t k = None then Some v else look t j)"
  by (auto simp: look_ents invar_ins ents_ins map_of_ins_entry invar_sorted map_of_eq_None_iff)

lemma look_del: "invar t \<Longrightarrow> look (del t k) j = (if j = k then None else look t j)"
  by (simp add: look_ents invar_del ents_del map_of_del_entry)

lemma look_key: "invar t \<Longrightarrow> look t k \<noteq> None \<longleftrightarrow> k \<in> fst ` set (ents t)"
  by (simp add: look_ents map_of_eq_None_iff)

lemma look_entry: "invar t \<Longrightarrow> look t k = Some v \<longleftrightarrow> (k, v) \<in> set (ents t)"
  using invar_sorted [of t] strict_sorted_iff [of "map fst (ents t)"]
  by (simp add: look_ents map_of_eq_Some_iff)

lemma del_ins: "invar t \<Longrightarrow> look t k = None \<Longrightarrow> look (del (ins t k v) k) = look t"
  by (auto simp: fun_eq_iff look_del look_ins invar_ins)

lemma new_iff: "invar t \<Longrightarrow> ents t = [] \<longleftrightarrow> (\<forall>k. look t k = None)"
  by (metis look_key image_is_empty set_empty all_not_in_conv)

end

text \<open>The neighbours of a key, and the nodes next to a node.\<close>

locale sorted_map_nav = sorted_map invar ents new ins del look
  for invar :: "'t \<Rightarrow> bool" and ents :: "'t \<Rightarrow> (u64 \<times> 'v) list" and new ins del look +
  fixes above :: "'t \<Rightarrow> u64 \<Rightarrow> (u64 \<times> 'v) option"
    and below :: "'t \<Rightarrow> u64 \<Rightarrow> (u64 \<times> 'v) option"
    and nxt :: "'t \<Rightarrow> u64 \<Rightarrow> (u64 \<times> 'v) option"
    and prv :: "'t \<Rightarrow> u64 \<Rightarrow> (u64 \<times> 'v) option"
  assumes above_ents: "invar t \<Longrightarrow> above t k = List.find (\<lambda>p. k \<le> fst p) (ents t)"
    and below_ents: "invar t \<Longrightarrow> below t k = List.find (\<lambda>p. fst p \<le> k) (rev (ents t))"
    and nxt_ents: "invar t \<Longrightarrow> look t k \<noteq> None \<Longrightarrow> nxt t k = List.find (\<lambda>p. k < fst p) (ents t)"
    and prv_ents: "invar t \<Longrightarrow> look t k \<noteq> None \<Longrightarrow> prv t k = List.find (\<lambda>p. fst p < k) (rev (ents t))"
begin

text \<open>The node at or above a key is the least such, and none is found only when there is none.\<close>

lemma above_Some:
  assumes "invar t" "above t k = Some (a, v)"
  shows "look t a = Some v" "k \<le> a" "\<And>b. look t b \<noteq> None \<Longrightarrow> k \<le> b \<Longrightarrow> a \<le> b"
  using find_least [OF invar_sorted, of t "\<lambda>p. k \<le> fst p" "(a, v)"] assms
  by (auto simp: above_ents look_entry)

lemma above_None: "invar t \<Longrightarrow> above t k = None \<longleftrightarrow> (\<forall>b. look t b \<noteq> None \<longrightarrow> b < k)"
  by (auto simp: above_ents look_entry find_None_iff not_le)

lemma below_Some:
  assumes "invar t" "below t k = Some (a, v)"
  shows "look t a = Some v" "a \<le> k" "\<And>b. look t b \<noteq> None \<Longrightarrow> b \<le> k \<Longrightarrow> b \<le> a"
  using find_greatest [OF invar_sorted, of t "\<lambda>p. fst p \<le> k" "(a, v)"] assms
  by (auto simp: below_ents look_entry)

lemma below_None: "invar t \<Longrightarrow> below t k = None \<longleftrightarrow> (\<forall>b. look t b \<noteq> None \<longrightarrow> k < b)"
  by (auto simp: below_ents look_entry find_None_iff not_le)

lemma nxt_Some:
  assumes "invar t" "look t k \<noteq> None" "nxt t k = Some (a, v)"
  shows "look t a = Some v" "k < a" "\<And>b. look t b \<noteq> None \<Longrightarrow> k < b \<Longrightarrow> a \<le> b"
  using find_least [OF invar_sorted, of t "\<lambda>p. k < fst p" "(a, v)"] assms
  by (auto simp: nxt_ents look_entry)

lemma prv_Some:
  assumes "invar t" "look t k \<noteq> None" "prv t k = Some (a, v)"
  shows "look t a = Some v" "a < k" "\<And>b. look t b \<noteq> None \<Longrightarrow> b < k \<Longrightarrow> b \<le> a"
  using find_greatest [OF invar_sorted, of t "\<lambda>p. fst p < k" "(a, v)"] assms
  by (auto simp: prv_ents look_entry)

end

section \<open>The tree implements the interface\<close>

definition tree_invar :: "'v rbtree \<Rightarrow> bool" where
  "tree_invar t = (balanced t \<and> sorted_keys (entries t))"

lemma tree_invar_balanced: "tree_invar t \<Longrightarrow> balanced t"
  and tree_invar_sorted: "tree_invar t \<Longrightarrow> sorted_keys (entries t)"
  by (simp_all add: tree_invar_def)

lemma Insert_entries:
  "tree_invar t \<Longrightarrow> entries (fst (wAVLTree_Insert t k v)) = ins_entry k v (entries t)"
  by (simp add: wAVLTree_Insert_def RB_INSERT_def rb_insert_entries tree_invar_sorted)

lemma Insert_invar: "tree_invar t \<Longrightarrow> tree_invar (fst (wAVLTree_Insert t k v))"
  using rb_insert_balanced [of t k v] Insert_entries [of t k v]
  by (cases "rb_insert t k v")
    (auto simp: tree_invar_def wAVLTree_Insert_def RB_INSERT_def ins_entry_sorted)

lemma Insert_linked: "tree_invar t \<Longrightarrow> snd (wAVLTree_Insert t k v) \<longleftrightarrow> map_of (entries t) k = None"
  by (simp add: wAVLTree_Insert_def RB_INSERT_def RB_FIND_entries tree_invar_sorted)

lemma RB_REMOVE_entries: "tree_invar t \<Longrightarrow> entries (RB_REMOVE t k) = del_entry k (entries t)"
  by (simp add: RB_REMOVE_def rb_remove_entries tree_invar_sorted)

lemma RB_REMOVE_invar: "tree_invar t \<Longrightarrow> tree_invar (RB_REMOVE t k)"
  using rb_remove_balanced [of t k] RB_REMOVE_entries [of t k]
  by (cases "rb_remove t k") (auto simp: tree_invar_def RB_REMOVE_def del_entry_sorted)

lemma Find_entries: "tree_invar t \<Longrightarrow> wAVLTree_Find t k = map_of (entries t) k"
  by (simp add: wAVLTree_Find_def RB_FIND_entries tree_invar_sorted option.map_comp comp_def option.map_ident)

lemma Remove_entries: "tree_invar t \<Longrightarrow> entries (wAVLTree_Remove t k) = del_entry k (entries t)"
  by (auto simp: wAVLTree_Remove_def RB_FIND_entries tree_invar_sorted RB_REMOVE_entries
      map_of_eq_None_iff del_entry_absent split: option.split)

lemma Remove_invar: "tree_invar t \<Longrightarrow> tree_invar (wAVLTree_Remove t k)"
  by (simp add: wAVLTree_Remove_def RB_REMOVE_invar split: option.split)

lemma FindNodeOrLower_entries:
  assumes "tree_invar t"
  shows "wAVLTree_FindNodeOrLower t k = List.find (\<lambda>p. fst p \<le> k) (rev (entries t))"
proof (cases "RB_NFIND t k None")
  case None
  then have "\<forall>p\<in>set (rev (entries t)). fst p \<le> k"
    using assms
    by (auto simp: RB_NFIND_entries tree_invar_sorted find_None_iff not_le split: option.splits
        intro: less_imp_le)
  then show ?thesis
    using None by (simp add: wAVLTree_FindNodeOrLower_def RB_MAX_entries find_first)
next
  case (Some p)
  then have p: "List.find (\<lambda>p. k \<le> fst p) (entries t) = Some p"
    using assms by (simp add: RB_NFIND_entries tree_invar_sorted split: option.splits)
  note least = find_least [OF tree_invar_sorted [OF assms] p]
  have key: "fst p \<in> fst ` set (entries t)"
    using least(1) by simp
  show ?thesis
  proof (cases "k < fst p")
    case True
    have "List.find (\<lambda>q. fst q \<le> k) (rev (entries t)) = List.find (\<lambda>q. fst q < fst p) (rev (entries t))"
      using least(3) True by (intro find_cong) (auto, meson leD le_less_trans nle_le)
    then show ?thesis
      using Some True assms key
      by (simp add: wAVLTree_FindNodeOrLower_def RB_PREV_entries tree_invar_sorted split_beta
          split: option.split)
  next
    case False
    then have "fst p = k"
      using least(2) by simp
    have "List.find (\<lambda>p. fst p \<le> k) (rev (entries t)) \<noteq> None"
      unfolding find_None_iff using least(1) \<open>fst p = k\<close> by (metis order_refl set_rev)
    then obtain q where q: "List.find (\<lambda>p. fst p \<le> k) (rev (entries t)) = Some q"
      by blast
    note greatest = find_greatest [OF tree_invar_sorted [OF assms] q]
    have "fst q = fst p"
      using greatest(2) greatest(3) [OF least(1)] \<open>fst p = k\<close> by simp
    moreover have "distinct (map fst (entries t))"
      using tree_invar_sorted [OF assms] by (simp add: strict_sorted_iff)
    ultimately have "q = p"
      using greatest(1) least(1) by (metis eq_key_imp_eq_value prod.collapse)
    then show ?thesis
      using q Some \<open>fst p = k\<close> by (cases p) (simp add: wAVLTree_FindNodeOrLower_def)
  qed
qed

interpretation tree: sorted_map_nav tree_invar entries Null "\<lambda>t k v. fst (wAVLTree_Insert t k v)"
  wAVLTree_Remove wAVLTree_Find wAVLTree_FindNodeOrHigher wAVLTree_FindNodeOrLower
  wAVLTree_NextNode wAVLTree_PreviousNode
proof unfold_locales
  show "tree_invar Null"
    by (simp add: tree_invar_def)
qed (auto simp: Insert_invar Insert_entries Remove_invar Remove_entries Find_entries
    tree_invar_sorted wAVLTree_FindNodeOrHigher_def RB_NFIND_entries FindNodeOrLower_entries
    wAVLTree_NextNode_def wAVLTree_PreviousNode_def RB_NEXT_entries RB_PREV_entries
    map_of_eq_None_iff split: option.split)

interpretation hashmap: sorted_map tree_invar entries Null HashMap_insert HashMap_remove HashMap_get
  unfolding HashMap_insert_def [abs_def] HashMap_remove_def [abs_def] HashMap_get_def [abs_def]
  by (rule tree.sorted_map_axioms)

section \<open>The iterations\<close>

lemma NEXT_entries:
  assumes "tree_invar t" "entries t = xs @ p # ys"
  shows "RB_NEXT t (fst p) None = hd_opt ys"
proof -
  have "sorted_keys (xs @ p # ys)"
    using tree_invar_sorted [OF assms(1)] assms(2) by simp
  then have "\<forall>q\<in>set (xs @ [p]). \<not> fst p < fst q" and ys: "\<forall>q\<in>set ys. fst p < fst q"
    by (auto simp: sorted_wrt_append dest: order.asym)
  then have "List.find (\<lambda>q. fst p < fst q) (xs @ p # ys) = hd_opt ys"
    using find_none [of "xs @ [p]" "\<lambda>q. fst p < fst q"] find_first [OF ys]
    by (simp add: find_append split: option.splits)
  moreover have "fst p \<in> fst ` set (entries t)"
    by (simp add: assms(2))
  ultimately show ?thesis
    using RB_NEXT_entries [OF tree_invar_sorted [OF assms(1)], of "fst p" None]
    by (simp add: assms(2) split: option.splits)
qed

lemma forEach_loop_entries:
  assumes "tree_invar t" "entries t = xs @ ys"
  shows "forEach_loop t f (hd_opt ys) s = Some (fold (\<lambda>p. f (fst p) (snd p)) ys s)"
  using assms(2)
proof (induction ys arbitrary: xs s)
  case Nil
  then show ?case by (simp add: forEach_loop.simps)
next
  case (Cons p ys)
  then show ?case
    using Cons.IH [of "xs @ [p]"] NEXT_entries [OF assms(1) Cons.prems]
    by (simp add: forEach_loop.simps [of t f "Some p"])
qed

text \<open>What the iteration that a callback can stop does on a list.\<close>

fun visit :: "('k \<Rightarrow> 'v \<Rightarrow> 's \<Rightarrow> bool \<times> 's) \<Rightarrow> ('k \<times> 'v) list \<Rightarrow> 's \<Rightarrow> 's" where
  "visit f [] s = s"
| "visit f (p # ps) s =
     (if fst (f (fst p) (snd p) s) then visit f ps (snd (f (fst p) (snd p) s))
      else snd (f (fst p) (snd p) s))"

lemma forEach_from_loop_entries:
  assumes "tree_invar t" "entries t = xs @ ys" "i \<le> n"
  shows "forEach_from_loop t f n i (hd_opt ys) s = Some (visit f (drop (unat n - unat i) ys) s)"
  using assms(2,3)
proof (induction ys arbitrary: xs i s)
  case Nil
  then show ?case by (simp add: forEach_from_loop.simps)
next
  case (Cons p ys)
  have nxt: "RB_NEXT t (fst p) None = hd_opt ys" and split: "entries t = (xs @ [p]) @ ys"
    using NEXT_entries [OF assms(1) Cons.prems(1)] Cons.prems(1) by simp_all
  show ?case
  proof (cases "i = n")
    case True
    then show ?thesis
      using Cons.IH [OF split, of n] by (simp add: forEach_from_loop.simps [of t f n n "Some p"] nxt)
  next
    case False
    then have "i < n"
      using Cons.prems(2) by simp
    then have "unat i < unat n"
      by (simp add: word_less_nat_alt)
    moreover from this have "unat (i + 1) = unat i + 1"
      by (rule unat_Suc_u64)
    ultimately have "unat (i + 1) = unat i + 1" "unat n - unat i = Suc (unat n - unat (i + 1))"
      by simp_all
    then show ?thesis
      using Cons.IH [OF split, of "i + 1"] False \<open>unat i < unat n\<close>
      by (simp add: forEach_from_loop.simps [of t f n i "Some p"] nxt word_le_nat_alt)
  qed
qed

lemma Clear_loop_entries: "tree_invar t \<Longrightarrow> Clear_loop t (hd_opt (entries t)) = Some Null"
proof (induction "entries t" arbitrary: t)
  case Nil
  then have "t = Null"
    by (metis entries_Nil)
  then show ?case by (simp add: Clear_loop.simps)
next
  case (Cons p ys)
  have "sorted_keys (p # ys)"
    using tree_invar_sorted [OF Cons.prems] Cons.hyps(2) by simp
  then have "entries (RB_REMOVE t (fst p)) = ys"
    using RB_REMOVE_entries [OF Cons.prems, of "fst p"] Cons.hyps(2) [symmetric]
    by (auto intro!: del_entry_absent)
  then show ?case
    using Cons.hyps(1) [of "RB_REMOVE t (fst p)"] RB_REMOVE_invar [OF Cons.prems, of "fst p"]
      NEXT_entries [OF Cons.prems, of "[]" p ys] Cons.hyps(2) [symmetric]
    by (simp add: Clear_loop.simps [of t "Some p"])
qed

section \<open>Properties\<close>

text \<open>
  C7. Insertion and removal keep the tree ordered by key and rank balanced, and a search in a
  tree of \<open>n\<close> entries visits a number of nodes that is logarithmic in \<open>n\<close>: the depth \<open>d\<close>
  satisfies \<open>2 ^ ((d + 1) div 2) \<le> n + 1\<close>.
\<close>

theorem tree_update_balanced:
  assumes "tree_invar t"
  shows "tree_invar (fst (wAVLTree_Insert t k v)) \<and> tree_invar (wAVLTree_Remove t k) \<and>
    2 ^ ((depth (fst (wAVLTree_Insert t k v)) + 1) div 2) \<le> length (entries (fst (wAVLTree_Insert t k v))) + 1 \<and>
    2 ^ ((depth (wAVLTree_Remove t k) + 1) div 2) \<le> length (entries (wAVLTree_Remove t k)) + 1"
  using assms by (simp only: Insert_invar Remove_invar tree_invar_balanced depth_entries simp_thms)

lemma tree_update_balanced_witness:
  "tree_invar (wAVLTree_Remove (RBNode Null True 1 (7::nat) False (RBNode Null False 2 8 False Null)) 1)"
proof -
  have "tree_invar (RBNode Null True 1 (7::nat) False (RBNode Null False 2 8 False Null))"
    by (simp add: tree_invar_def)
  from tree_update_balanced [OF this, of 1 0] show ?thesis
    by simp
qed

text \<open>
  C13. The class is a finite map. A lookup after an insertion finds the new value exactly when the
  key was free (a second insertion under a key leaves the first), and the returned node is in the
  tree exactly then; a lookup after a removal finds everything but the removed key.
\<close>

theorem tree_lookup_update:
  assumes "tree_invar t"
  shows "wAVLTree_Find (fst (wAVLTree_Insert t k v)) j =
      (if j = k \<and> wAVLTree_Find t k = None then Some v else wAVLTree_Find t j) \<and>
    (snd (wAVLTree_Insert t k v) \<longleftrightarrow> wAVLTree_Find t k = None) \<and>
    wAVLTree_Find (wAVLTree_Remove t k) j = (if j = k then None else wAVLTree_Find t j)"
  using assms by (simp add: tree.look_ins tree.look_del Insert_linked Find_entries)

lemma tree_lookup_update_witness:
  "wAVLTree_Find (wAVLTree_Remove (RBNode Null False 1 (7::nat) False Null) 1) 1 = None"
  using tree_lookup_update [of "RBNode Null False 1 (7::nat) False Null" 1 0 1]
  by (simp add: tree_invar_def)

text \<open>
  C14. \<^verbatim>\<open>FindNodeOrLower\<close> finds the node with the greatest key that is not above the given one,
  and \<^verbatim>\<open>FindNodeOrHigher\<close> the one with the least key not below it; each returns no node
  only when there is none.
\<close>

theorem tree_nearest:
  assumes "tree_invar t"
  shows "(case wAVLTree_FindNodeOrLower t k of
      None \<Rightarrow> \<forall>b. wAVLTree_Find t b \<noteq> None \<longrightarrow> k < b
    | Some (a, v) \<Rightarrow> wAVLTree_Find t a = Some v \<and> a \<le> k \<and> (\<forall>b. wAVLTree_Find t b \<noteq> None \<longrightarrow> b \<le> k \<longrightarrow> b \<le> a))
    \<and> (case wAVLTree_FindNodeOrHigher t k of
      None \<Rightarrow> \<forall>b. wAVLTree_Find t b \<noteq> None \<longrightarrow> b < k
    | Some (a, v) \<Rightarrow> wAVLTree_Find t a = Some v \<and> k \<le> a \<and> (\<forall>b. wAVLTree_Find t b \<noteq> None \<longrightarrow> k \<le> b \<longrightarrow> a \<le> b))"
  using tree.below_Some [OF assms, of k] tree.below_None [OF assms, of k]
    tree.above_Some [OF assms, of k] tree.above_None [OF assms, of k]
  by (simp split: option.split)

lemma tree_nearest_witness:
  "wAVLTree_Find (RBNode Null False 3 (7::nat) False Null) 3 = Some 7 \<and>
   wAVLTree_FindNodeOrLower (RBNode Null False 3 (7::nat) False Null) 5 = Some (3, 7) \<and> (3::u64) \<le> 5"
  using tree_nearest [of "RBNode Null False 3 (7::nat) False Null" 5]
  by (simp add: tree_invar_def wAVLTree_FindNodeOrLower_def RB_MAX_def)

text \<open>
  C15. The iterations end and visit the entries in ascending key order: \<^verbatim>\<open>forEach\<close> visits all of
  them, the variant with a starting index skips that many and stops when the callback says so,
  and \<^verbatim>\<open>Clear\<close>, which removes a node after asking for the next one, leaves the empty tree.
\<close>

theorem tree_iterations:
  assumes "tree_invar t"
  shows "wAVLTree_forEach t f s = Some (fold (\<lambda>p. f (fst p) (snd p)) (entries t) s) \<and>
    wAVLTree_forEach_from t g n s' = Some (visit g (drop (unat n) (entries t)) s') \<and>
    wAVLTree_Clear t = Some Null"
  by (simp add: wAVLTree_forEach_def wAVLTree_forEach_from_def wAVLTree_Clear_def RB_MIN_entries
      forEach_loop_entries [OF assms, of "[]"] forEach_from_loop_entries [OF assms, of "[]"]
      Clear_loop_entries [OF assms])

lemma tree_iterations_witness:
  "wAVLTree_forEach (RBNode Null True 1 7 False (RBNode Null False 2 8 False Null)) (\<lambda>k v s. s + v) (0::nat)
   = Some 15"
proof -
  have "tree_invar (RBNode Null True 1 (7::nat) False (RBNode Null False 2 8 False Null))"
    by (simp add: tree_invar_def)
  from tree_iterations [OF this, of "\<lambda>k v s. s + v" "0::nat" "\<lambda>k v s. (True, s)" 0 "()"] show ?thesis
    by simp
qed

end
