(* ===== verification/Sync.thy ===== *)
theory Sync
  imports Prelude
begin

text \<open>
  The locks as one thread sees them while it runs alone. \<^verbatim>\<open>Semaphore\<close> counts in \<^verbatim>\<open>m_value\<close>;
  \<^verbatim>\<open>Mutex\<close> is a semaphore of one. A wait for a value that only another thread can provide is
  the fault \<open>Blocked\<close>, so a component that returns \<open>Inr\<close> with its lock at the free value has
  released it on that path, and a path that keeps the lock shows at the next operation.
\<close>

definition Semaphore_Wait :: "u64 \<Rightarrow> u64 res" where
  "Semaphore_Wait m_value = (if m_value > 0 then Inr (m_value - 1) else Inl Blocked)"

definition Semaphore_Signal :: "u64 \<Rightarrow> u64 \<Rightarrow> u64" where
  "Semaphore_Signal m_maxValue m_value = (if m_value < m_maxValue then m_value + 1 else m_value)"

definition Mutex_Lock :: "u64 \<Rightarrow> u64 res" where
  "Mutex_Lock l = Semaphore_Wait l"

definition Mutex_Unlock :: "u64 \<Rightarrow> u64" where
  "Mutex_Unlock l = Semaphore_Signal 1 l"

definition SPINLOCK_DEFAULT_VALUE :: u64 where
  "SPINLOCK_DEFAULT_VALUE = 0"

definition SPINLOCK_LOCKED_VALUE :: u64 where
  "SPINLOCK_LOCKED_VALUE = 1"

definition spinlock_acquire :: "u64 \<Rightarrow> u64 res" where
  "spinlock_acquire l =
     (if l AND 1 = 0 then Inr (l OR 1) else Inl Blocked)"

definition spinlock_release :: "u64 \<Rightarrow> u64" where
  "spinlock_release l = SPINLOCK_DEFAULT_VALUE"

section \<open>What a lock promises\<close>

locale lock =
  fixes acquire :: "u64 \<Rightarrow> u64 res"
    and release :: "u64 \<Rightarrow> u64"
    and free :: u64
    and held :: u64
  assumes acquire_free: "acquire free = Inr held"
    and acquire_held: "acquire held = Inl Blocked"
    and release_held: "release held = free"
begin

lemma section_released: "bindR (acquire free) (\<lambda>l. Inr (release l)) = Inr free"
  by (simp add: acquire_free release_held)

lemma no_reentry: "bindR (acquire free) acquire = Inl Blocked"
  by (simp add: acquire_free acquire_held)

lemma free_not_held: "free \<noteq> held"
  using acquire_free acquire_held by auto

end

interpretation mutex: lock Mutex_Lock Mutex_Unlock 1 0
  by unfold_locales
    (simp_all add: Mutex_Lock_def Mutex_Unlock_def Semaphore_Wait_def Semaphore_Signal_def)

interpretation spin: lock spinlock_acquire spinlock_release SPINLOCK_DEFAULT_VALUE SPINLOCK_LOCKED_VALUE
  by unfold_locales
    (simp_all add: spinlock_acquire_def spinlock_release_def SPINLOCK_DEFAULT_VALUE_def SPINLOCK_LOCKED_VALUE_def)

lemmas lock_simps [simp] =
  mutex.acquire_free mutex.acquire_held mutex.release_held
  spin.acquire_free spin.acquire_held spin.release_held

end
