(* ===== verification/PMM.thy ===== *)
theory PMM
  imports Sync
begin

text \<open>
  The physical memory manager (Memory/PMM.cpp): a list of free blocks, linked through the first
  bytes of the free pages themselves, in ascending address order. The store \<open>mem\<close> gives the
  \<^verbatim>\<open>FreeListNode\<close> found at an address of the higher half direct map; it is total, so a page
  that was in use has some contents when it is freed. The offset \<^verbatim>\<open>g_HHDMOffset\<close> is the
  argument \<open>hhdm\<close>.
\<close>

section \<open>The manager\<close>

record FreeListNode =
  PageCount :: u64
  Next :: u64

record PMM =
  m_FreeListStart :: u64
  m_FreeListEnd :: u64
  m_FreeListNodeCount :: u64
  m_FreePageCount :: u64
  m_usedPageCount :: u64
  m_totalPageCount :: u64
  m_lock :: u64
  mem :: "u64 \<Rightarrow> FreeListNode"

record MemoryMapEntry =
  Base :: u64
  Length :: u64
  EntryType :: u64

definition MEMORY_MAP_ENTRY_USABLE :: u64 where
  "MEMORY_MAP_ENTRY_USABLE = 0"

definition to_HHDM :: "u64 \<Rightarrow> u64 \<Rightarrow> u64" where
  "to_HHDM hhdm address = address + hhdm"

definition from_HHDM :: "u64 \<Rightarrow> u64 \<Rightarrow> u64" where
  "from_HHDM hhdm address = address - hhdm"

definition PMM_new :: "(u64 \<Rightarrow> FreeListNode) \<Rightarrow> PMM" where
  "PMM_new m = \<lparr>m_FreeListStart = 0, m_FreeListEnd = 0, m_FreeListNodeCount = 0, m_FreePageCount = 0,
     m_usedPageCount = 0, m_totalPageCount = 0, m_lock = 1, mem = m\<rparr>"

text \<open>Writes to the fields of the node at an address; a write through the null pointer faults.\<close>

definition set_PageCount :: "PMM \<Rightarrow> u64 \<Rightarrow> u64 \<Rightarrow> PMM res" where
  "set_PageCount s p n =
     (if p = 0 then Inl NullDeref else Inr (s\<lparr>mem := (mem s)(p := (mem s p)\<lparr>PageCount := n\<rparr>)\<rparr>))"

definition set_Next :: "PMM \<Rightarrow> u64 \<Rightarrow> u64 \<Rightarrow> PMM res" where
  "set_Next s p q =
     (if p = 0 then Inl NullDeref else Inr (s\<lparr>mem := (mem s)(p := (mem s p)\<lparr>Next := q\<rparr>)\<rparr>))"

definition load :: "PMM \<Rightarrow> u64 \<Rightarrow> FreeListNode res" where
  "load s p = (if p = 0 then Inl NullDeref else Inr (mem s p))"

section \<open>Initialisation from the memory map\<close>

definition Init_insert :: "u64 \<Rightarrow> PMM \<Rightarrow> MemoryMapEntry \<Rightarrow> PMM res" where
  "Init_insert hhdm s e =
    (let n = drop_bit 12 (Length e);
         s1 = s\<lparr>m_totalPageCount := m_totalPageCount s + n, m_FreePageCount := m_FreePageCount s + n,
               m_FreeListNodeCount := m_FreeListNodeCount s + 1\<rparr>
     in if m_FreeListEnd s1 = 0 then
          (let p = to_HHDM hhdm (Base e) in
           bindR (set_PageCount (s1\<lparr>m_FreeListStart := p\<rparr>) p n) (\<lambda>s2.
           bindR (set_Next s2 p 0) (\<lambda>s3.
           Inr (s3\<lparr>m_FreeListEnd := m_FreeListStart s3\<rparr>))))
        else
          bindR (set_Next s1 (m_FreeListEnd s1) (to_HHDM hhdm (Base e))) (\<lambda>s2.
          let s3 = s2\<lparr>m_FreeListEnd := Next (mem s2 (m_FreeListEnd s2))\<rparr> in
          bindR (set_PageCount s3 (m_FreeListEnd s3) n) (\<lambda>s4.
          set_Next s4 (m_FreeListEnd s4) 0)))"

text \<open>The source adjusts the entry at address 0 in place; the map is returned with that change.\<close>

fun Init_loop :: "u64 \<Rightarrow> PMM \<Rightarrow> MemoryMapEntry list \<Rightarrow> (PMM \<times> MemoryMapEntry list) res" where
  "Init_loop hhdm s [] = Inr (s, [])"
| "Init_loop hhdm s (e # es) =
     (if EntryType e \<noteq> MEMORY_MAP_ENTRY_USABLE then
        bindR (Init_loop hhdm s es) (\<lambda>(s, es). Inr (s, e # es))
      else
        (let e' = (if Base e = 0 then e\<lparr>Base := Base e + PAGE_SIZE, Length := Length e - PAGE_SIZE\<rparr> else e)
         in if Base e = 0 \<and> Length e' < PAGE_SIZE then
              bindR (Init_loop hhdm s es) (\<lambda>(s, es). Inr (s, e' # es))
            else
              bindR (Init_insert hhdm s e') (\<lambda>s.
              bindR (Init_loop hhdm s es) (\<lambda>(s, es). Inr (s, e' # es)))))"

definition Init :: "u64 \<Rightarrow> PMM \<Rightarrow> MemoryMapEntry list \<Rightarrow> (PMM \<times> MemoryMapEntry list) res" where
  "Init hhdm s memoryMap =
     bindR (Init_loop hhdm s memoryMap) (\<lambda>(s, memoryMap). Inr (s\<lparr>m_usedPageCount := 0\<rparr>, memoryMap))"

section \<open>Allocation\<close>

definition AllocatePage :: "u64 \<Rightarrow> PMM \<Rightarrow> (PMM \<times> u64) res" where
  "AllocatePage hhdm s =
     bindR (Mutex_Lock (m_lock s)) (\<lambda>l.
     let s = s\<lparr>m_lock := l\<rparr> in
     assertR (m_FreePageCount s > 0) (
     let node = m_FreeListStart s in
     bindR (load s node) (\<lambda>n.
     bindR
       (if PageCount n = 1 then
          (let s = s\<lparr>m_FreeListStart := Next n, m_FreeListNodeCount := m_FreeListNodeCount s - 1\<rparr>
           in Inr (if node = m_FreeListEnd s then s\<lparr>m_FreeListEnd := 0\<rparr> else s))
        else
          (let s = s\<lparr>m_FreeListStart := node + PAGE_SIZE\<rparr> in
           bindR (set_PageCount s (m_FreeListStart s) (PageCount (mem s node) - 1)) (\<lambda>s.
           bindR (set_Next s (m_FreeListStart s) (Next (mem s node))) (\<lambda>s.
           Inr (if node = m_FreeListEnd s then s\<lparr>m_FreeListEnd := m_FreeListStart s\<rparr> else s)))))
       (\<lambda>s. Inr (s\<lparr>m_FreePageCount := m_FreePageCount s - 1, m_usedPageCount := m_usedPageCount s + 1,
                  m_lock := Mutex_Unlock (m_lock s)\<rparr>, from_HHDM hhdm node)))))"

text \<open>The block \<open>current\<close>, found large enough, is cut or unlinked.\<close>

definition AllocatePages_take :: "PMM \<Rightarrow> u64 \<Rightarrow> u64 \<Rightarrow> u64 \<Rightarrow> PMM res" where
  "AllocatePages_take s pageCount previous current =
     (if PageCount (mem s current) = pageCount then
        (if previous = 0 then
           (let s = s\<lparr>m_FreeListStart := Next (mem s current),
                      m_FreeListNodeCount := m_FreeListNodeCount s - 1\<rparr>
            in Inr (if current = m_FreeListEnd s then s\<lparr>m_FreeListEnd := 0\<rparr> else s))
         else
           bindR (set_Next s previous (Next (mem s current))) (\<lambda>s.
           let s = (if current = m_FreeListEnd s then s\<lparr>m_FreeListEnd := previous\<rparr> else s)
           in Inr (s\<lparr>m_FreeListNodeCount := m_FreeListNodeCount s - 1\<rparr>)))
      else
        (if previous = 0 then
           (let s = s\<lparr>m_FreeListStart := current + PAGE_SIZE * pageCount\<rparr> in
            bindR (set_PageCount s (m_FreeListStart s) (PageCount (mem s current) - pageCount)) (\<lambda>s.
            bindR (set_Next s (m_FreeListStart s) (Next (mem s current))) (\<lambda>s.
            Inr (if current = m_FreeListEnd s then s\<lparr>m_FreeListEnd := m_FreeListStart s\<rparr> else s))))
         else
           bindR (set_Next s previous (current + PAGE_SIZE * pageCount)) (\<lambda>s.
           bindR (set_PageCount s (Next (mem s previous)) (PageCount (mem s current) - pageCount)) (\<lambda>s.
           bindR (set_Next s (Next (mem s previous)) (Next (mem s current))) (\<lambda>s.
           Inr (if current = m_FreeListEnd s then s\<lparr>m_FreeListEnd := Next (mem s previous)\<rparr> else s))))))"

partial_function (option) AllocatePages_loop ::
  "u64 \<Rightarrow> PMM \<Rightarrow> u64 \<Rightarrow> u64 \<Rightarrow> u64 \<Rightarrow> (PMM \<times> u64) res option" where
  "AllocatePages_loop hhdm s pageCount previous current =
     (if current = 0 then Some (Inr (s\<lparr>m_lock := Mutex_Unlock (m_lock s)\<rparr>, 0))
      else if PageCount (mem s current) \<ge> pageCount then
        Some (bindR (AllocatePages_take s pageCount previous current) (\<lambda>s.
          Inr (s\<lparr>m_FreePageCount := m_FreePageCount s - pageCount,
                 m_usedPageCount := m_usedPageCount s + pageCount,
                 m_lock := Mutex_Unlock (m_lock s)\<rparr>, from_HHDM hhdm current)))
      else AllocatePages_loop hhdm s pageCount current (Next (mem s current)))"

definition AllocatePages :: "u64 \<Rightarrow> PMM \<Rightarrow> u64 \<Rightarrow> (PMM \<times> u64) res" where
  "AllocatePages hhdm s pageCount =
     (if pageCount = 1 then AllocatePage hhdm s
      else
        bindR (Mutex_Lock (m_lock s)) (\<lambda>l.
        let s = s\<lparr>m_lock := l\<rparr> in
        assertR (m_FreePageCount s > 0)
          (loopR (AllocatePages_loop hhdm s pageCount 0 (m_FreeListStart s)))))"

section \<open>Release\<close>

definition FreePage_insert :: "PMM \<Rightarrow> u64 \<Rightarrow> u64 \<Rightarrow> u64 \<Rightarrow> PMM res" where
  "FreePage_insert s node previous current =
     (if previous = 0 then
        bindR
          (if node + PAGE_SIZE = current then
             bindR (set_PageCount s node (PageCount (mem s current) + 1)) (\<lambda>s.
             bindR (set_Next s node (Next (mem s current))) (\<lambda>s.
             Inr (if m_FreeListEnd s = current then s\<lparr>m_FreeListEnd := node\<rparr> else s)))
           else
             bindR (set_PageCount s node 1) (\<lambda>s.
             bindR (set_Next s node (m_FreeListStart s)) (\<lambda>s.
             Inr (s\<lparr>m_FreeListNodeCount := m_FreeListNodeCount s + 1\<rparr>))))
          (\<lambda>s. Inr (s\<lparr>m_FreeListStart := node\<rparr>))
      else
        assertR (previous < node) (
        bindR
          (if previous + PageCount (mem s previous) * PAGE_SIZE = node then
             bindR (set_PageCount s previous (PageCount (mem s previous) + 1)) (\<lambda>s.
             Inr (s, previous))
           else
             bindR (set_Next s previous node) (\<lambda>s.
             bindR (set_PageCount (s\<lparr>m_FreeListNodeCount := m_FreeListNodeCount s + 1\<rparr>) node 1) (\<lambda>s.
             Inr (s, node))))
          (\<lambda>(s, node).
             if node + PageCount (mem s node) * PAGE_SIZE = current then
               bindR (set_PageCount s node (PageCount (mem s node) + PageCount (mem s current))) (\<lambda>s.
               bindR (set_Next s node (Next (mem s current))) (\<lambda>s.
               let s = s\<lparr>m_FreeListNodeCount := m_FreeListNodeCount s - 1\<rparr> in
               Inr (if m_FreeListEnd s = current then s\<lparr>m_FreeListEnd := node\<rparr> else s)))
             else set_Next s node current)))"

definition FreePage_append :: "PMM \<Rightarrow> u64 \<Rightarrow> PMM res" where
  "FreePage_append s node =
     (if m_FreeListEnd s = 0 then
        set_Next (s\<lparr>m_FreeListStart := node, m_FreeListEnd := node\<rparr>) node 0
      else if m_FreeListEnd s + PageCount (mem s (m_FreeListEnd s)) * PAGE_SIZE = node then
        set_PageCount s (m_FreeListEnd s) (PageCount (mem s (m_FreeListEnd s)) + 1)
      else
        bindR (set_Next s (m_FreeListEnd s) node) (\<lambda>s.
        bindR (set_Next (s\<lparr>m_FreeListEnd := node\<rparr>) node 0) (\<lambda>s.
        Inr (s\<lparr>m_FreeListNodeCount := m_FreeListNodeCount s + 1\<rparr>))))"

definition FreePage_finish :: "PMM \<Rightarrow> PMM" where
  "FreePage_finish s =
     s\<lparr>m_FreePageCount := m_FreePageCount s + 1, m_usedPageCount := m_usedPageCount s - 1,
       m_lock := Mutex_Unlock (m_lock s)\<rparr>"

partial_function (option) FreePage_loop ::
  "PMM \<Rightarrow> u64 \<Rightarrow> u64 \<Rightarrow> u64 \<Rightarrow> PMM res option" where
  "FreePage_loop s node previous current =
     (if current = 0 then
        Some (bindR (FreePage_append s node) (\<lambda>s. Inr (FreePage_finish s)))
      else if \<not> previous < current then Some (Inl AssertFailed)
      else if current > node then
        Some (bindR (FreePage_insert s node previous current)
                (\<lambda>s. Inr (FreePage_finish s)))
      else FreePage_loop s node current (Next (mem s current)))"

definition FreePage :: "u64 \<Rightarrow> PMM \<Rightarrow> u64 \<Rightarrow> PMM res" where
  "FreePage hhdm s page =
     bindR (Mutex_Lock (m_lock s)) (\<lambda>l.
     let s = s\<lparr>m_lock := l\<rparr> in
     loopR (FreePage_loop s (to_HHDM hhdm page) 0 (m_FreeListStart s)))"

definition FreePages_insert :: "PMM \<Rightarrow> u64 \<Rightarrow> u64 \<Rightarrow> u64 \<Rightarrow> u64 \<Rightarrow> PMM res" where
  "FreePages_insert s node pageCount previous current =
     (if previous = 0 then
        bindR
          (if node + PAGE_SIZE * pageCount = current then
             bindR (set_PageCount s node (PageCount (mem s current) + pageCount)) (\<lambda>s.
             bindR (set_Next s node (Next (mem s current))) (\<lambda>s.
             Inr (if m_FreeListEnd s = current then s\<lparr>m_FreeListEnd := node\<rparr> else s)))
           else
             bindR (set_PageCount s node pageCount) (\<lambda>s.
             bindR (set_Next s node (m_FreeListStart s)) (\<lambda>s.
             Inr (s\<lparr>m_FreeListNodeCount := m_FreeListNodeCount s + 1\<rparr>))))
          (\<lambda>s. Inr (s\<lparr>m_FreeListStart := node\<rparr>))
      else
        assertR (previous < node) (
        bindR
          (if previous + PageCount (mem s previous) * PAGE_SIZE = node then
             bindR (set_PageCount s previous (PageCount (mem s previous) + pageCount)) (\<lambda>s.
             Inr (s, previous))
           else
             bindR (set_Next s previous node) (\<lambda>s.
             bindR (set_PageCount (s\<lparr>m_FreeListNodeCount := m_FreeListNodeCount s + 1\<rparr>) node pageCount) (\<lambda>s.
             Inr (s, node))))
          (\<lambda>(s, node).
             if node + PageCount (mem s node) * PAGE_SIZE = current then
               bindR (set_PageCount s node (PageCount (mem s node) + PageCount (mem s current))) (\<lambda>s.
               bindR (set_Next s node (Next (mem s current))) (\<lambda>s.
               let s = s\<lparr>m_FreeListNodeCount := m_FreeListNodeCount s - 1\<rparr> in
               Inr (if m_FreeListEnd s = current then s\<lparr>m_FreeListEnd := node\<rparr> else s)))
             else set_Next s node current)))"

definition FreePages_append :: "PMM \<Rightarrow> u64 \<Rightarrow> u64 \<Rightarrow> PMM res" where
  "FreePages_append s node pageCount =
     (if m_FreeListEnd s = 0 then
        set_Next (s\<lparr>m_FreeListStart := node, m_FreeListEnd := node\<rparr>) node 0
      else if m_FreeListEnd s + PageCount (mem s (m_FreeListEnd s)) * PAGE_SIZE = node then
        set_PageCount s (m_FreeListEnd s) (PageCount (mem s (m_FreeListEnd s)) + pageCount)
      else
        bindR (set_Next s (m_FreeListEnd s) node) (\<lambda>s.
        bindR (set_Next (s\<lparr>m_FreeListEnd := node\<rparr>) node 0) (\<lambda>s.
        Inr (s\<lparr>m_FreeListNodeCount := m_FreeListNodeCount s + 1\<rparr>))))"

definition FreePages_finish :: "u64 \<Rightarrow> PMM \<Rightarrow> PMM" where
  "FreePages_finish pageCount s =
     s\<lparr>m_FreePageCount := m_FreePageCount s + pageCount, m_usedPageCount := m_usedPageCount s - pageCount,
       m_lock := Mutex_Unlock (m_lock s)\<rparr>"

partial_function (option) FreePages_loop ::
  "PMM \<Rightarrow> u64 \<Rightarrow> u64 \<Rightarrow> u64 \<Rightarrow> u64 \<Rightarrow> PMM res option" where
  "FreePages_loop s node pageCount previous current =
     (if current = 0 then
        Some (bindR (FreePages_append s node pageCount) (\<lambda>s. Inr (FreePages_finish pageCount s)))
      else if \<not> previous < current then Some (Inl AssertFailed)
      else if current > node then
        Some (bindR (FreePages_insert s node pageCount previous current)
                (\<lambda>s. Inr (FreePages_finish pageCount s)))
      else FreePages_loop s node pageCount current (Next (mem s current)))"

definition FreePages :: "u64 \<Rightarrow> PMM \<Rightarrow> u64 \<Rightarrow> u64 \<Rightarrow> PMM res" where
  "FreePages hhdm s pages pageCount =
     bindR (Mutex_Lock (m_lock s)) (\<lambda>l.
     let s = s\<lparr>m_lock := l\<rparr> in
     loopR (FreePages_loop s (to_HHDM hhdm pages) pageCount 0 (m_FreeListStart s)))"

section \<open>The self check\<close>

definition GetFreePageCount :: "PMM \<Rightarrow> u64" where
  "GetFreePageCount s = m_FreePageCount s"

fun Verify_loop :: "PMM \<Rightarrow> nat \<Rightarrow> u64 \<Rightarrow> u64 \<Rightarrow> u64 \<Rightarrow> (u64 \<times> u64 \<times> u64) res" where
  "Verify_loop s 0 previous current pageCount = Inr (previous, current, pageCount)"
| "Verify_loop s (Suc n) previous current pageCount =
     assertR (current \<noteq> 0) (
     assertR (previous \<noteq> 0 \<longrightarrow> previous + PageCount (mem s previous) * PAGE_SIZE \<le> current)
       (Verify_loop s n current (Next (mem s current)) (pageCount + PageCount (mem s current))))"

definition Verify :: "PMM \<Rightarrow> unit res" where
  "Verify s =
     bindR (Verify_loop s (unat (m_FreeListNodeCount s)) 0 (m_FreeListStart s) 0)
       (\<lambda>(previous, current, pageCount).
          assertR (current = 0) (
          assertR (pageCount = m_FreePageCount s) (
          assertR (m_FreeListEnd s = previous) (
          assertR (m_totalPageCount s = m_FreePageCount s + m_usedPageCount s) (Inr ())))))"

end
