(* ===== verification/PMMCorrect.thy ===== *)
theory PMMCorrect
  imports PMM
begin

text \<open>
  The free list of the physical memory manager as a list of blocks (address, pages), the
  invariant of the manager over it, and the refinement of every operation to a function on that
  list: first fit for allocation, sorted insertion with coalescing for release.
\<close>

section \<open>The free list as a list of blocks\<close>

type_synonym block = "u64 \<times> u64"

fun blocks :: "(u64 \<Rightarrow> FreeListNode) \<Rightarrow> u64 \<Rightarrow> block list \<Rightarrow> u64 \<Rightarrow> bool" where
  "blocks m p [] q = (p = q)"
| "blocks m p (b # bs) q =
     (p = fst b \<and> p \<noteq> 0 \<and> PageCount (m p) = snd b \<and> blocks m (Next (m p)) bs q)"

definition block_end :: "block \<Rightarrow> nat" where
  "block_end b = unat (fst b) + unat (snd b) * 4096"

fun wf_blocks :: "nat \<Rightarrow> block list \<Rightarrow> bool" where
  "wf_blocks lo [] = True"
| "wf_blocks lo (b # bs) =
     (lo \<le> unat (fst b) \<and> 4096 dvd unat (fst b) \<and> 0 < unat (snd b) \<and> block_end b < 2 ^ 64 \<and>
      wf_blocks (block_end b) bs)"

fun top_of :: "nat \<Rightarrow> block list \<Rightarrow> nat" where
  "top_of lo [] = lo"
| "top_of lo (b # bs) = top_of (block_end b) bs"

definition page_total :: "block list \<Rightarrow> nat" where
  "page_total bs = sum_list (map (unat \<circ> snd) bs)"

definition last_addr :: "block list \<Rightarrow> u64" where
  "last_addr bs = (if bs = [] then 0 else fst (last bs))"

lemma blocks_append: "blocks m p (xs @ ys) q \<longleftrightarrow> (\<exists>r. blocks m p xs r \<and> blocks m r ys q)"
  by (induction xs arbitrary: p) auto

lemma blocks_upd: "a \<notin> fst ` set bs \<Longrightarrow> blocks (m(a := v)) p bs q = blocks m p bs q"
  by (induction bs arbitrary: p) auto

lemma blocks_nonzero: "blocks m p bs q \<Longrightarrow> 0 \<notin> fst ` set bs"
  by (induction bs arbitrary: p) auto

lemma blocks_first: "blocks m p bs 0 \<Longrightarrow> p = (case bs of [] \<Rightarrow> 0 | b # _ \<Rightarrow> fst b)"
  by (cases bs) auto

lemma page_total_simps [simp]:
  "page_total [] = 0"
  "page_total (b # bs) = unat (snd b) + page_total bs"
  "page_total (xs @ ys) = page_total xs + page_total ys"
  by (simp_all add: page_total_def)

lemma last_addr_simps [simp]:
  "last_addr [] = 0"
  "last_addr [b] = fst b"
  "ys \<noteq> [] \<Longrightarrow> last_addr (b # ys) = last_addr ys"
  "last_addr (xs @ b # ys) = last_addr (b # ys)"
  by (simp_all add: last_addr_def)

lemma wf_top: "wf_blocks lo bs \<Longrightarrow> lo \<le> top_of lo bs"
proof (induction bs arbitrary: lo)
  case (Cons b bs)
  then show ?case
    using Cons.IH [of "block_end b"] by (fastforce simp: block_end_def)
qed simp

lemma wf_append: "wf_blocks lo (xs @ ys) \<longleftrightarrow> wf_blocks lo xs \<and> wf_blocks (top_of lo xs) ys"
  by (induction xs arbitrary: lo) auto

lemma top_append [simp]: "top_of lo (xs @ ys) = top_of (top_of lo xs) ys"
  by (induction xs arbitrary: lo) auto

lemma wf_mono: "wf_blocks lo bs \<Longrightarrow> lo' \<le> lo \<Longrightarrow> wf_blocks lo' bs"
  by (cases bs) auto

lemma wf_member:
  "wf_blocks lo bs \<Longrightarrow> b \<in> set bs \<Longrightarrow> lo \<le> unat (fst b) \<and> block_end b \<le> top_of lo bs \<and> 0 < unat (snd b)"
proof (induction bs arbitrary: lo)
  case (Cons c bs)
  then show ?case
    using Cons.IH [of "block_end c"] wf_top [of "block_end c" bs] by (fastforce simp: block_end_def)
qed simp

lemma wf_top_bound: "wf_blocks lo bs \<Longrightarrow> lo < 2 ^ 64 \<Longrightarrow> top_of lo bs < 2 ^ 64"
  by (induction bs arbitrary: lo) auto

lemma wf_fresh: "wf_blocks lo bs \<Longrightarrow> unat a < lo \<Longrightarrow> a \<notin> fst ` set bs"
  using wf_member by fastforce

lemma wf_fresh_top: "wf_blocks lo bs \<Longrightarrow> top_of lo bs \<le> unat a \<Longrightarrow> a \<notin> fst ` set bs"
  using wf_member [of lo bs] by (fastforce simp: block_end_def)

lemma page_total_bound: "wf_blocks lo bs \<Longrightarrow> lo + page_total bs * 4096 \<le> top_of lo bs"
proof (induction bs arbitrary: lo)
  case (Cons b bs)
  then have "block_end b + page_total bs * 4096 \<le> top_of (block_end b) bs"
    by simp
  then show ?case
    using Cons.prems by (simp add: block_end_def)
qed simp

section \<open>The invariant\<close>

definition pmm_inv :: "u64 \<Rightarrow> PMM \<Rightarrow> block list \<Rightarrow> bool" where
  "pmm_inv hhdm s bs \<longleftrightarrow>
     blocks (mem s) (m_FreeListStart s) bs 0 \<and> wf_blocks (unat hhdm + 4096) bs \<and> unat hhdm + 4096 < 2 ^ 64 \<and>
     m_FreeListEnd s = last_addr bs \<and> unat (m_FreeListNodeCount s) = length bs \<and>
     unat (m_FreePageCount s) = page_total bs \<and>
     unat (m_totalPageCount s) = unat (m_FreePageCount s) + unat (m_usedPageCount s) \<and>
     m_lock s = 1"

lemma blocks_unique: "blocks m p bs 0 \<Longrightarrow> blocks m p bs' 0 \<Longrightarrow> bs' = bs"
proof (induction bs arbitrary: p bs')
  case Nil
  then show ?case
    by (cases bs') auto
next
  case (Cons b bs)
  then show ?case
    by (cases bs') (auto intro!: prod_eqI)
qed

lemma pmm_inv_unique: "pmm_inv hhdm s bs \<Longrightarrow> pmm_inv hhdm s bs' \<Longrightarrow> bs' = bs"
  using blocks_unique by (auto simp: pmm_inv_def)

section \<open>Allocation is first fit\<close>

fun first_fit :: "u64 \<Rightarrow> block list \<Rightarrow> (u64 \<times> block list) option" where
  "first_fit k [] = None"
| "first_fit k (b # bs) =
     (if k \<le> snd b then
        Some (fst b, if snd b = k then bs else (fst b + PAGE_SIZE * k, snd b - k) # bs)
      else map_option (\<lambda>(x, bs'). (x, b # bs')) (first_fit k bs))"

lemma cut_block:
  assumes "block_end b < 2 ^ 64" "k < snd b"
  shows "unat (fst b + PAGE_SIZE * k) = unat (fst b) + unat k * 4096"
    and "unat (snd b - k) = unat (snd b) - unat k"
    and "block_end (fst b + PAGE_SIZE * k, snd b - k) = block_end b"
proof -
  have k: "unat k < unat (snd b)"
    using assms(2) by (simp add: word_less_nat_alt)
  then show addr: "unat (fst b + PAGE_SIZE * k) = unat (fst b) + unat k * 4096"
    using assms(1) by (intro unat_pages(2)) (simp add: block_end_def)
  show cnt: "unat (snd b - k) = unat (snd b) - unat k"
    using k by (intro unat_sub_nowrap) simp
  show "block_end (fst b + PAGE_SIZE * k, snd b - k) = block_end b"
    using k by (simp add: block_end_def addr cnt diff_mult_distrib)
qed

lemma first_fit_wf:
  "wf_blocks lo bs \<Longrightarrow> first_fit k bs = Some (x, bs') \<Longrightarrow>
   wf_blocks lo bs' \<and> page_total bs' + unat k = page_total bs"
proof (induction bs arbitrary: lo bs')
  case (Cons b bs)
  show ?case
  proof (cases "k \<le> snd b")
    case True
    show ?thesis
    proof (cases "snd b = k")
      case True
      then show ?thesis
        using Cons.prems by (auto intro: wf_mono simp: block_end_def)
    next
      case False
      then have "k < snd b"
        using \<open>k \<le> snd b\<close> by simp
      note cut = cut_block [OF _ this]
      have "unat k < unat (snd b)"
        using \<open>k < snd b\<close> by (simp add: word_less_nat_alt)
      then show ?thesis
        using Cons.prems True False cut by auto
    qed
  next
    case False
    then show ?thesis
      using Cons by auto
  qed
qed simp

text \<open>The addresses of a block, of the rest of it and of its neighbours are different.\<close>

lemma block_fresh:
  assumes "wf_blocks lo (pre @ b # post)"
  shows "fst b \<notin> fst ` set pre" and "fst b \<notin> fst ` set post"
    and "\<And>a. block_end b \<le> unat a \<Longrightarrow> a \<notin> fst ` set pre"
    and "\<And>a. unat (fst b) \<le> unat a \<Longrightarrow> a \<notin> fst ` set pre"
    and "\<And>a. unat a < block_end b \<Longrightarrow> a \<notin> fst ` set post"
proof -
  have wf: "wf_blocks lo pre" "top_of lo pre \<le> unat (fst b)" "wf_blocks (block_end b) post" "0 < unat (snd b)"
    using assms by (auto simp: wf_append)
  then show "fst b \<notin> fst ` set pre" "fst b \<notin> fst ` set post"
    using wf_fresh_top [of lo pre "fst b"] wf_fresh [of "block_end b" post "fst b"]
    by (auto simp: block_end_def)
  fix a
  show "a \<notin> fst ` set pre" if "unat (fst b) \<le> unat a"
    using wf that by (intro wf_fresh_top) auto
  then show "a \<notin> fst ` set pre" if "block_end b \<le> unat a"
    using that by (simp add: block_end_def)
  show "a \<notin> fst ` set post" if "unat a < block_end b"
    using wf that by (intro wf_fresh) auto
qed

definition links :: "PMM \<Rightarrow> block list \<Rightarrow> bool" where
  "links s bs \<longleftrightarrow> blocks (mem s) (m_FreeListStart s) bs 0 \<and> m_FreeListEnd s = last_addr bs \<and>
     unat (m_FreeListNodeCount s) = length bs"

lemma pmm_inv_links: "pmm_inv hhdm s bs \<longleftrightarrow>
     links s bs \<and> wf_blocks (unat hhdm + 4096) bs \<and> unat hhdm + 4096 < 2 ^ 64 \<and>
     unat (m_FreePageCount s) = page_total bs \<and>
     unat (m_totalPageCount s) = unat (m_FreePageCount s) + unat (m_usedPageCount s) \<and> m_lock s = 1"
  by (auto simp: pmm_inv_def links_def)

definition same_counts :: "PMM \<Rightarrow> PMM \<Rightarrow> bool" where
  "same_counts s s' \<longleftrightarrow> m_FreePageCount s' = m_FreePageCount s \<and> m_usedPageCount s' = m_usedPageCount s \<and>
     m_totalPageCount s' = m_totalPageCount s \<and> m_lock s' = m_lock s"

lemmas node_writes = set_PageCount_def set_Next_def load_def

lemma unat_minus_1: "0 < unat (n :: u64) \<Longrightarrow> unat (n - 1) = unat n - 1"
  by (subst unat_sub_nowrap) auto

lemma last_addr_fresh: "post \<noteq> [] \<Longrightarrow> a \<notin> fst ` set post \<Longrightarrow> last_addr post \<noteq> a"
  by (auto simp: last_addr_def)

lemma take_first_whole:
  assumes "links s (b # post)" "wf_blocks lo (b # post)"
  shows "\<exists>s'. AllocatePages_take s (snd b) 0 (fst b) = Inr s' \<and> links s' post \<and> same_counts s s' \<and> mem s' = mem s"
proof -
  have "fst b \<notin> fst ` set post"
    using block_fresh(2) [of lo "[]" b post] assms(2) by simp
  then have "post \<noteq> [] \<Longrightarrow> last_addr post \<noteq> fst b"
    using last_addr_fresh by metis
  then show ?thesis
    using assms
    by (cases "post = []") (auto simp: AllocatePages_take_def links_def same_counts_def unat_minus_1 Let_def)
qed

lemma take_first_part:
  assumes "links s (b # post)" "wf_blocks lo (b # post)" "0 < unat k" "k < snd b"
  shows "\<exists>s'. AllocatePages_take s k 0 (fst b) = Inr s' \<and>
    links s' ((fst b + PAGE_SIZE * k, snd b - k) # post) \<and> same_counts s s' \<and>
    (\<forall>a. a \<noteq> fst b + PAGE_SIZE * k \<longrightarrow> mem s' a = mem s a)"
proof -
  let ?n = "fst b + PAGE_SIZE * k"
  have cut: "unat ?n = unat (fst b) + unat k * 4096" "unat k < unat (snd b)"
    using cut_block(1) [of b k] assms by (auto simp: word_less_nat_alt)
  have "?n \<notin> fst ` set post" "fst b \<notin> fst ` set post"
    using block_fresh(5) [of lo "[]" b post ?n] block_fresh(2) [of lo "[]" b post] assms(2) cut
    by (simp_all add: block_end_def)
  moreover have "?n \<noteq> 0" "fst b \<noteq> ?n"
    using cut(1) assms(3) by (metis add_is_0 mult_is_0 not_gr_zero unat_0 zero_neq_numeral,
        metis add_cancel_left_right mult_is_0 not_gr_zero zero_neq_numeral)
  moreover from calculation have "post \<noteq> [] \<Longrightarrow> last_addr post \<noteq> fst b"
    using last_addr_fresh by metis
  moreover have "snd b \<noteq> k"
    using assms(4) by auto
  ultimately show ?thesis
    using assms(1)
    by (cases "post = []")
      (auto simp: AllocatePages_take_def links_def same_counts_def node_writes blocks_upd Let_def)
qed

lemma take_later_whole:
  assumes "links s (pre @ c # b # post)" "wf_blocks lo (pre @ c # b # post)"
  shows "\<exists>s'. AllocatePages_take s (snd b) (fst c) (fst b) = Inr s' \<and> links s' (pre @ c # post) \<and>
    same_counts s s' \<and> (\<forall>a. a \<noteq> fst c \<longrightarrow> mem s' a = mem s a)"
proof -
  have fr: "fst c \<notin> fst ` set pre" "fst c \<notin> fst ` set (b # post)"  "fst b \<notin> fst ` set (pre @ [c])" "fst b \<notin> fst ` set post"
    using block_fresh(1,2) [OF assms(2)] block_fresh(1,2) [of lo "pre @ [c]" b post] assms(2) by auto
  moreover from calculation have "post \<noteq> [] \<Longrightarrow> last_addr post \<noteq> fst b"
    using last_addr_fresh by metis
  ultimately show ?thesis
    using assms(1)
    by (cases "post = []")
      (auto simp: AllocatePages_take_def links_def same_counts_def node_writes blocks_upd blocks_append
        unat_minus_1 Let_def)
qed

lemma take_later_part:
  assumes "links s (pre @ c # b # post)" "wf_blocks lo (pre @ c # b # post)" "0 < unat k" "k < snd b"
  shows "\<exists>s'. AllocatePages_take s k (fst c) (fst b) = Inr s' \<and>
    links s' (pre @ c # (fst b + PAGE_SIZE * k, snd b - k) # post) \<and> same_counts s s' \<and>
    (\<forall>a. a \<noteq> fst c \<and> a \<noteq> fst b + PAGE_SIZE * k \<longrightarrow> mem s' a = mem s a)"
proof -
  let ?n = "fst b + PAGE_SIZE * k"
  have wf: "wf_blocks lo ((pre @ [c]) @ b # post)"
    using assms(2) by simp
  then have cut: "unat ?n = unat (fst b) + unat k * 4096" "unat k < unat (snd b)"
    using cut_block(1) [of b k] assms(3,4) by (auto simp: wf_append word_less_nat_alt)
  have fr: "fst c \<notin> fst ` set pre" "fst c \<notin> fst ` set (b # post)"  "fst b \<notin> fst ` set (pre @ [c])" "fst b \<notin> fst ` set post"
    "?n \<notin> fst ` set (pre @ [c])" "?n \<notin> fst ` set post"
    using block_fresh(1,2) [OF assms(2)] block_fresh(1,2) [OF wf] block_fresh(4,5) [OF wf, of ?n] cut
    by (auto simp: block_end_def)
  have ne: "?n \<noteq> 0" "fst b \<noteq> ?n"
    using cut(1) assms(3) by (metis add_is_0 mult_is_0 not_gr_zero unat_0 zero_neq_numeral,
        metis add_cancel_left_right mult_is_0 not_gr_zero zero_neq_numeral)
  have ln: "blocks (mem s) (m_FreeListStart s) pre (fst c)" "fst c \<noteq> 0" "PageCount (mem s (fst c)) = snd c"
    "Next (mem s (fst c)) = fst b" "fst b \<noteq> 0" "PageCount (mem s (fst b)) = snd b"
    "blocks (mem s) (Next (mem s (fst b))) post 0" "m_FreeListEnd s = last_addr (b # post)"
    "unat (m_FreeListNodeCount s) = length (pre @ c # b # post)"
    using assms(1) by (auto simp: links_def blocks_append)
  have lst: "post \<noteq> [] \<Longrightarrow> last_addr post \<noteq> fst b" "post \<noteq> [] \<Longrightarrow> fst b \<noteq> last_addr post"
    using last_addr_fresh fr(4) by metis+
  have neq: "fst c \<noteq> fst b" "fst b \<noteq> fst c" "?n \<noteq> fst c" "fst c \<noteq> ?n" "?n \<noteq> fst b" "snd b \<noteq> k"
    using fr ne assms(4) by auto
  show ?thesis
    using fr(1) fr(2-6) [simplified] ln(7)
    by (cases "post = []")
      (simp_all add: AllocatePages_take_def links_def same_counts_def node_writes blocks_upd blocks_append
        ln ne neq lst)
qed

definition cut :: "block \<Rightarrow> u64 \<Rightarrow> block list" where
  "cut b k = (if snd b = k then [] else [(fst b + PAGE_SIZE * k, snd b - k)])"

lemma first_fit_cut:
  "first_fit k (b # bs) =
     (if k \<le> snd b then Some (fst b, cut b k @ bs)
      else map_option (\<lambda>(x, bs'). (x, b # bs')) (first_fit k bs))"
  by (simp add: cut_def)

definition only_at :: "u64 set \<Rightarrow> PMM \<Rightarrow> PMM \<Rightarrow> bool" where
  "only_at A s s' \<longleftrightarrow> (\<forall>a. a \<notin> A \<longrightarrow> mem s' a = mem s a)"

lemma take_refines:
  assumes "links s (pre @ b # post)" "wf_blocks lo (pre @ b # post)" "0 < unat k" "k \<le> snd b"
  shows "\<exists>s'. AllocatePages_take s k (last_addr pre) (fst b) = Inr s' \<and> links s' (pre @ cut b k @ post) \<and>
    same_counts s s' \<and> only_at (fst ` set (pre @ b # post) \<union> fst ` set (cut b k)) s s'"
proof (cases pre rule: rev_cases)
  case Nil
  show ?thesis
  proof (cases "snd b = k")
    case True
    then show ?thesis
      using take_first_whole [of s b post lo] assms Nil by (auto simp: cut_def only_at_def)
  next
    case False
    then have "k < snd b"
      using assms(4) by simp
    then show ?thesis
      using False take_first_part [of s b post lo k] assms Nil by (auto simp: cut_def only_at_def)
  qed
next
  case (snoc pre' c)
  show ?thesis
  proof (cases "snd b = k")
    case True
    then show ?thesis
      using take_later_whole [of s pre' c b post lo] assms snoc by (auto simp: cut_def only_at_def)
  next
    case False
    then have "k < snd b"
      using assms(4) by simp
    then show ?thesis
      using False take_later_part [of s pre' c b post lo k] assms snoc by (auto simp: cut_def only_at_def)
  qed
qed

definition allocated :: "u64 \<Rightarrow> PMM \<Rightarrow> u64 \<Rightarrow> block list \<Rightarrow> u64 \<Rightarrow> block list \<Rightarrow> (PMM \<times> u64) res \<Rightarrow> bool" where
  "allocated hhdm s k bs x bs' r \<longleftrightarrow>
     (\<exists>s'. r = Inr (s', x - hhdm) \<and> links s' bs' \<and> m_FreePageCount s' = m_FreePageCount s - k \<and>
        m_usedPageCount s' = m_usedPageCount s + k \<and> m_totalPageCount s' = m_totalPageCount s \<and>
        m_lock s' = Mutex_Unlock (m_lock s) \<and> only_at (fst ` set bs \<union> fst ` set bs') s s')"

lemma AllocatePages_loop_refines:
  assumes "links s (pre @ post)" "wf_blocks lo (pre @ post)" "0 < unat k"
  shows "\<exists>r. AllocatePages_loop hhdm s k (last_addr pre) (case post of [] \<Rightarrow> 0 | b # _ \<Rightarrow> fst b) = Some r \<and>
    (case first_fit k post of
       None \<Rightarrow> r = Inr (s\<lparr>m_lock := Mutex_Unlock (m_lock s)\<rparr>, 0)
     | Some (x, post') \<Rightarrow> allocated hhdm s k (pre @ post) x (pre @ post') r)"
  using assms(1,2)
proof (induction post arbitrary: pre)
  case Nil
  then show ?case
    by (simp add: AllocatePages_loop.simps)
next
  case (Cons b post)
  have b: "fst b \<noteq> 0" "PageCount (mem s (fst b)) = snd b"
    "Next (mem s (fst b)) = (case post of [] \<Rightarrow> 0 | b # _ \<Rightarrow> fst b)"
    using Cons.prems(1) blocks_first [of "mem s" _ post] by (auto simp: links_def blocks_append)
  show ?case
  proof (cases "k \<le> snd b")
    case True
    obtain s' where s': "AllocatePages_take s k (last_addr pre) (fst b) = Inr s'"
      "links s' (pre @ cut b k @ post)" "same_counts s s'"
      "only_at (fst ` set (pre @ b # post) \<union> fst ` set (cut b k)) s s'"
      using take_refines [OF Cons.prems assms(3) True] by blast
    then show ?thesis
      using True b
      by (auto simp: AllocatePages_loop.simps [of hhdm s k _ "fst b"] first_fit_cut allocated_def
          links_def same_counts_def only_at_def from_HHDM_def simp del: first_fit.simps)
  next
    case False
    then show ?thesis
      using Cons.IH [of "pre @ [b]"] Cons.prems b
      by (auto simp: AllocatePages_loop.simps [of hhdm s k _ "fst b"] last_addr_def
          split: option.splits)
  qed
qed

lemma AllocatePage_refines:
  assumes "links s bs" "wf_blocks lo bs" "bs \<noteq> []" "m_FreePageCount s > 0" "m_lock s = 1"
  shows "AllocatePage hhdm s = loopR (AllocatePages_loop hhdm (s\<lparr>m_lock := 0\<rparr>) 1 0 (m_FreeListStart s))"
proof -
  obtain b post where bs: "bs = b # post"
    using assms(3) by (cases bs) auto
  then have b: "m_FreeListStart s = fst b" "fst b \<noteq> 0" "PageCount (mem s (fst b)) = snd b" "1 \<le> snd b"
    using assms(1,2) by (auto simp: links_def word_le_nat_alt)
  then show ?thesis
    using assms(4,5)
    by (simp add: AllocatePage_def AllocatePages_loop.simps [of hhdm _ 1 _ "fst b"] AllocatePages_take_def
        node_writes Let_def)
qed

text \<open>The counters after an allocation.\<close>

lemma allocated_inv:
  assumes "pmm_inv hhdm s bs" "first_fit k bs = Some (x, bs')"
    "allocated hhdm (s\<lparr>m_lock := 0\<rparr>) k bs x bs' r"
  shows "\<exists>s'. r = Inr (s', x - hhdm) \<and> pmm_inv hhdm s' bs' \<and>
    unat (m_usedPageCount s') = unat (m_usedPageCount s) + unat k \<and> only_at (fst ` set bs \<union> fst ` set bs') s s'"
proof -
  have inv: "unat (m_FreePageCount s) = page_total bs" "wf_blocks (unat hhdm + 4096) bs"
    "unat (m_totalPageCount s) = unat (m_FreePageCount s) + unat (m_usedPageCount s)"
    using assms(1) by (auto simp: pmm_inv_links)
  have ff: "wf_blocks (unat hhdm + 4096) bs'" "page_total bs' + unat k = page_total bs"
    using first_fit_wf [OF inv(2) assms(2)] by auto
  have free: "unat (m_FreePageCount s - k) = page_total bs'"
    using inv(1) ff(2) by (subst unat_sub_nowrap) auto
  have "unat (m_usedPageCount s) + unat k < 18446744073709551616"
    using inv ff unat_lt_2p64 [of "m_totalPageCount s"] by linarith
  then have used: "unat (m_usedPageCount s + k) = unat (m_usedPageCount s) + unat k"
    by (subst unat_add_nowrap) simp_all
  show ?thesis
    using assms(1,3) inv ff free used by (auto simp: allocated_def pmm_inv_links only_at_def)
qed

lemma AllocatePages_inv:
  assumes "pmm_inv hhdm s bs" "0 < k" "bs \<noteq> []"
  shows "case first_fit k bs of
      None \<Rightarrow> AllocatePages hhdm s k = Inr (s, 0)
    | Some (x, bs') \<Rightarrow> \<exists>s'. AllocatePages hhdm s k = Inr (s', x - hhdm) \<and> pmm_inv hhdm s' bs' \<and>
        unat (m_usedPageCount s') = unat (m_usedPageCount s) + unat k \<and>
        only_at (fst ` set bs \<union> fst ` set bs') s s'"
proof -
  have inv: "links s bs" "wf_blocks (unat hhdm + 4096) bs" "m_lock s = 1"
    using assms(1) by (auto simp: pmm_inv_links)
  have "0 < page_total bs"
    using inv(2) assms(3) by (cases bs) auto
  then have pos: "m_FreePageCount s > 0"
    using assms(1) by (simp add: pmm_inv_links word_less_nat_alt)
  have k: "0 < unat k"
    using assms(2) by (simp add: word_less_nat_alt)
  have links: "links (s\<lparr>m_lock := 0\<rparr>) ([] @ bs)"
    using inv(1) by (simp add: links_def)
  have start: "m_FreeListStart s = (case bs of [] \<Rightarrow> 0 | b # _ \<Rightarrow> fst b)"
    using inv(1) blocks_first by (auto simp: links_def)
  have "AllocatePages hhdm s k = loopR (AllocatePages_loop hhdm (s\<lparr>m_lock := 0\<rparr>) k 0 (m_FreeListStart s))"
    using AllocatePage_refines [OF inv(1,2) assms(3) pos inv(3), of hhdm] pos inv(3)
    by (simp add: AllocatePages_def)
  moreover obtain r where "AllocatePages_loop hhdm (s\<lparr>m_lock := 0\<rparr>) k 0 (m_FreeListStart s) = Some r"
    "case first_fit k bs of
       None \<Rightarrow> r = Inr (s\<lparr>m_lock := 1\<rparr>, 0)
     | Some (x, bs') \<Rightarrow> allocated hhdm (s\<lparr>m_lock := 0\<rparr>) k bs x bs' r"
    using AllocatePages_loop_refines [OF links _ k, of "unat hhdm + 4096" hhdm] inv(2)
    by (auto simp: start split: option.splits)
  ultimately show ?thesis
    using allocated_inv [OF assms(1), of k] inv(3) by (auto split: option.splits)
qed

lemma AllocatePages_exhausted:
  "pmm_inv hhdm s [] \<Longrightarrow> AllocatePages hhdm s k = Inl AssertFailed"
  by (simp add: pmm_inv_links AllocatePages_def AllocatePage_def unat_eq_0)

section \<open>Release is sorted insertion with coalescing\<close>

definition merge_right :: "block \<Rightarrow> block list \<Rightarrow> block list" where
  "merge_right b post =
     (case post of
        [] \<Rightarrow> [b]
      | c # post' \<Rightarrow> if block_end b = unat (fst c) then (fst b, snd b + snd c) # post' else b # post)"

definition join :: "block list \<Rightarrow> block \<Rightarrow> block list \<Rightarrow> block list" where
  "join pre b post =
     (if pre \<noteq> [] \<and> block_end (last pre) = unat (fst b)
      then butlast pre @ merge_right (fst (last pre), snd (last pre) + snd b) post
      else pre @ merge_right b post)"

definition give_back :: "block \<Rightarrow> block list \<Rightarrow> block list" where
  "give_back b bs = join (takeWhile (\<lambda>c. fst c \<le> fst b) bs) b (dropWhile (\<lambda>c. fst c \<le> fst b) bs)"

text \<open>Two adjacent blocks make one.\<close>

lemma adjacent_block:
  assumes "block_end b = unat (fst c)" "block_end c < 2 ^ 64"
  shows "unat (snd b + snd c) = unat (snd b) + unat (snd c)"
    and "block_end (fst b, snd b + snd c) = block_end c"
proof -
  have "unat (snd b) + unat (snd c) < 18446744073709551616"
    using assms by (simp add: block_end_def)
  then show "unat (snd b + snd c) = unat (snd b) + unat (snd c)"
    by (subst unat_add_nowrap) simp_all
  then show "block_end (fst b, snd b + snd c) = block_end c"
    using assms(1) by (simp add: block_end_def)
qed

lemma block_end_word:
  assumes "block_end b < 2 ^ 64"
  shows "fst b + PAGE_SIZE * snd b = a \<longleftrightarrow> block_end b = unat a"
    and "fst b + snd b * PAGE_SIZE = a \<longleftrightarrow> block_end b = unat a"
  using unat_pages [of "fst b" "snd b"] assms by (auto simp: block_end_def word_unat_eq_iff)

lemma merge_right_wf:
  assumes "wf_blocks lo (b # post)"
  shows "wf_blocks lo (merge_right b post) \<and> page_total (merge_right b post) = page_total (b # post)"
  using assms adjacent_block [of b] by (auto simp: merge_right_def split: list.split)

lemma join_wf:
  assumes "wf_blocks lo (pre @ b # post)"
  shows "wf_blocks lo (join pre b post) \<and> page_total (join pre b post) = page_total (pre @ b # post)"
proof (cases "pre \<noteq> [] \<and> block_end (last pre) = unat (fst b)")
  case True
  then obtain pre' d where pre: "pre = pre' @ [d]" "block_end d = unat (fst b)"
    by (cases pre rule: rev_cases) auto
  have wf: "block_end b < 2 ^ 64" "wf_blocks lo pre'" "wf_blocks (top_of lo pre') (d # b # post)"
    using assms pre by (auto simp: wf_append)
  have ad: "unat (snd d + snd b) = unat (snd d) + unat (snd b)" "block_end (fst d, snd d + snd b) = block_end b"
    using adjacent_block [OF pre(2) wf(1)] by auto
  then have "wf_blocks (top_of lo pre') ((fst d, snd d + snd b) # post)"
    using wf by simp
  then show ?thesis
    using True pre(1) wf(2) ad merge_right_wf [of "top_of lo pre'" "(fst d, snd d + snd b)" post]
    by (simp add: join_def wf_append)
next
  case False
  then show ?thesis
    using assms merge_right_wf [of "top_of lo pre" b post] by (auto simp: join_def wf_append)
qed

text \<open>A block that meets no free block has its place between two of them.\<close>

definition apart :: "block \<Rightarrow> block list \<Rightarrow> bool" where
  "apart b bs \<longleftrightarrow> (\<forall>c\<in>set bs. block_end c \<le> unat (fst b) \<or> block_end b \<le> unat (fst c))"

definition wf_block :: "nat \<Rightarrow> block \<Rightarrow> bool" where
  "wf_block lo b \<longleftrightarrow> lo \<le> unat (fst b) \<and> 4096 dvd unat (fst b) \<and> 0 < unat (snd b) \<and> block_end b < 2 ^ 64"

lemma apart_place:
  assumes "wf_blocks lo bs" "apart b bs" "wf_block lo b"
  shows "wf_blocks lo (takeWhile (\<lambda>c. fst c \<le> fst b) bs @ b # dropWhile (\<lambda>c. fst c \<le> fst b) bs)"
  using assms
proof (induction bs arbitrary: lo)
  case Nil
  then show ?case by (simp add: wf_block_def)
next
  case (Cons c bs)
  show ?case
  proof (cases "fst c \<le> fst b")
    case True
    then have "unat (fst c) \<le> unat (fst b)" "0 < unat (snd b)"
      using Cons.prems by (auto simp: word_le_nat_alt wf_block_def)
    then have "block_end c \<le> unat (fst b)"
      using Cons.prems(2) by (auto simp: apart_def block_end_def)
    then show ?thesis
      using True Cons by (auto simp: apart_def wf_block_def)
  next
    case False
    then have "unat (fst b) < unat (fst c)" "0 < unat (snd c)"
      using Cons.prems(1) by (auto simp: word_le_nat_alt)
    then have "block_end b \<le> unat (fst c)"
      using Cons.prems(2) by (auto simp: apart_def block_end_def)
    then show ?thesis
      using False Cons.prems by (auto simp: wf_block_def)
  qed
qed

lemma insert_first:
  assumes "links s (c # post)" "wf_blocks lo (b # c # post)" "0 < lo"
    "unat (m_FreeListNodeCount s) + 1 < 2 ^ 64"
  shows "\<exists>s'. FreePages_insert s (fst b) (snd b) 0 (fst c) = Inr s' \<and> links s' (merge_right b (c # post)) \<and>
    same_counts s s' \<and> only_at (insert (fst b) (fst ` set (c # post))) s s'"
proof -
  have bend: "fst b + PAGE_SIZE * snd b = fst c \<longleftrightarrow> block_end b = unat (fst c)"
    using assms(2) by (intro block_end_word) simp
  have fr: "fst b \<notin> fst ` set (c # post)" "fst c \<notin> fst ` set post"
    using block_fresh(2) [of lo "[]" b "c # post"] block_fresh(2) [of lo "[b]" c post] assms(2) by auto
  have ne: "fst b \<noteq> 0" "fst b \<noteq> fst c" "fst c \<noteq> fst b" "fst b \<notin> fst ` set post"
    using assms(2,3) fr(1) by auto
  have ln: "m_FreeListStart s = fst c" "fst c \<noteq> 0" "PageCount (mem s (fst c)) = snd c"
    "blocks (mem s) (Next (mem s (fst c))) post 0" "m_FreeListEnd s = last_addr (c # post)"
    "unat (m_FreeListNodeCount s) = length (c # post)"
    using assms(1) by (auto simp: links_def)
  have lst: "post \<noteq> [] \<Longrightarrow> last_addr post \<noteq> fst c" "post \<noteq> [] \<Longrightarrow> fst c \<noteq> last_addr post"
    using last_addr_fresh fr(2) by metis+
  have cnt: "unat (m_FreeListNodeCount s + 1) = unat (m_FreeListNodeCount s) + 1"
    using assms(4) by (subst unat_add_nowrap) auto
  show ?thesis
    using ln(4)
    by (cases "post = []"; cases "block_end b = unat (fst c)")
      (simp_all add: FreePages_insert_def merge_right_def links_def same_counts_def only_at_def node_writes
        blocks_upd ln ne lst bend cnt add.commute [of "snd c" "snd b"])
qed

lemma insert_later_apart:
  assumes "links s (pre @ d # c # post)" "wf_blocks lo (pre @ d # b # c # post)" "0 < lo"
    "unat (m_FreeListNodeCount s) + 1 < 2 ^ 64" "block_end d \<noteq> unat (fst b)"
  shows "\<exists>s'. FreePages_insert s (fst b) (snd b) (fst d) (fst c) = Inr s' \<and>
    links s' (pre @ d # merge_right b (c # post)) \<and>
    same_counts s s' \<and> only_at (insert (fst b) (fst ` set (pre @ d # c # post))) s s'"
proof -
  have wfb: "wf_blocks lo ((pre @ [d]) @ b # c # post)" "wf_blocks lo ((pre @ [d, b]) @ c # post)"
    using assms(2) by simp_all
  have bend: "block_end b < 2 ^ 64" "block_end d < 2 ^ 64" "block_end d < unat (fst b)" "0 < unat (snd d)"
    using assms(2,5) by (auto simp: wf_append)
  note be = block_end_word [OF bend(1)] block_end_word [OF bend(2)]
  have dlt: "fst d < fst b"
    using bend by (simp add: word_less_nat_alt block_end_def)
  have fr: "fst d \<notin> fst ` set pre" "fst d \<notin> fst ` set (b # c # post)" "fst b \<notin> fst ` set (pre @ [d])"
    "fst b \<notin> fst ` set (c # post)" "fst c \<notin> fst ` set (pre @ [d, b])" "fst c \<notin> fst ` set post"
    using block_fresh(1,2) [OF assms(2)] block_fresh(1,2) [OF wfb(1)] block_fresh(1,2) [OF wfb(2)] by auto
  have ne: "fst b \<noteq> 0"
    using bend(3) by auto
  have ln: "blocks (mem s) (m_FreeListStart s) pre (fst d)" "fst d \<noteq> 0" "PageCount (mem s (fst d)) = snd d"
    "Next (mem s (fst d)) = fst c" "fst c \<noteq> 0" "PageCount (mem s (fst c)) = snd c"
    "blocks (mem s) (Next (mem s (fst c))) post 0" "m_FreeListEnd s = last_addr (c # post)"
    "unat (m_FreeListNodeCount s) = length (pre @ d # c # post)"
    using assms(1) by (auto simp: links_def blocks_append)
  have lst: "post \<noteq> [] \<Longrightarrow> last_addr post \<noteq> fst c" "post \<noteq> [] \<Longrightarrow> fst c \<noteq> last_addr post"
    using last_addr_fresh fr(6) by metis+
  have neq: "fst d \<noteq> fst b" "fst b \<noteq> fst d" "fst b \<noteq> fst c" "fst c \<noteq> fst b" "fst d \<noteq> fst c" "fst c \<noteq> fst d"
    using fr by auto
  have cnt: "unat (m_FreeListNodeCount s + 1) = unat (m_FreeListNodeCount s) + 1"
    using assms(4) by (subst unat_add_nowrap) auto
  show ?thesis
    using fr(1) fr(2-6) [simplified] ln(7)
    by (cases "post = []"; cases "block_end b = unat (fst c)")
      (simp_all add: FreePages_insert_def merge_right_def links_def same_counts_def only_at_def node_writes
        blocks_upd blocks_append ln ne neq lst be cnt dlt assms(5))
qed

lemma insert_later_joined:
  assumes "links s (pre @ d # c # post)" "wf_blocks lo (pre @ d # b # c # post)"
    "block_end d = unat (fst b)"
  shows "\<exists>s'. FreePages_insert s (fst b) (snd b) (fst d) (fst c) = Inr s' \<and>
    links s' (pre @ merge_right (fst d, snd d + snd b) (c # post)) \<and>
    same_counts s s' \<and> only_at (fst ` set (pre @ d # c # post)) s s'"
proof -
  have wfb: "wf_blocks lo ((pre @ [d, b]) @ c # post)"
    using assms(2) by simp
  have bend: "block_end b < 2 ^ 64" "block_end d < 2 ^ 64" "0 < unat (snd d)"
    using assms(2) by (auto simp: wf_append)
  have ad: "block_end (fst d, snd d + snd b) = block_end b"
    using adjacent_block [OF assms(3) bend(1)] by simp
  have be: "fst d + (snd d + snd b) * PAGE_SIZE = fst c \<longleftrightarrow> block_end b = unat (fst c)"
    using block_end_word(2) [of "(fst d, snd d + snd b)"] ad bend(1) by simp
  have dlt: "fst d < fst b" and adj: "fst d + snd d * PAGE_SIZE = fst b"
    using bend assms(3) block_end_word(2) [OF bend(2)] by (auto simp: word_less_nat_alt block_end_def)
  have fr: "fst d \<notin> fst ` set pre" "fst d \<notin> fst ` set (b # c # post)" "fst c \<notin> fst ` set (pre @ [d, b])"
    "fst c \<notin> fst ` set post"
    using block_fresh(1,2) [OF assms(2)] block_fresh(1,2) [OF wfb] by auto
  have ln: "blocks (mem s) (m_FreeListStart s) pre (fst d)" "fst d \<noteq> 0" "PageCount (mem s (fst d)) = snd d"
    "Next (mem s (fst d)) = fst c" "fst c \<noteq> 0" "PageCount (mem s (fst c)) = snd c"
    "blocks (mem s) (Next (mem s (fst c))) post 0" "m_FreeListEnd s = last_addr (c # post)"
    "unat (m_FreeListNodeCount s) = length (pre @ d # c # post)"
    using assms(1) by (auto simp: links_def blocks_append)
  have lst: "post \<noteq> [] \<Longrightarrow> last_addr post \<noteq> fst c" "post \<noteq> [] \<Longrightarrow> fst c \<noteq> last_addr post"
    using last_addr_fresh fr(4) by metis+
  have neq: "fst d \<noteq> fst c" "fst c \<noteq> fst d"
    using fr by auto
  have cnt: "unat (m_FreeListNodeCount s - 1) = unat (m_FreeListNodeCount s) - 1"
    using ln(9) by (intro unat_minus_1) simp
  show ?thesis
    using fr(1) fr(2-4) [simplified] ln(7)
    by (cases "post = []"; cases "block_end b = unat (fst c)")
      (simp_all add: FreePages_insert_def merge_right_def links_def same_counts_def only_at_def node_writes
        blocks_upd blocks_append ln neq lst be ad adj cnt dlt assms(3))
qed

lemma insert_refines:
  assumes "links s (pre @ c # post)" "wf_blocks lo (pre @ b # c # post)" "0 < lo"
    "unat (m_FreeListNodeCount s) + 1 < 2 ^ 64"
  shows "\<exists>s'. FreePages_insert s (fst b) (snd b) (last_addr pre) (fst c) = Inr s' \<and>
    links s' (join pre b (c # post)) \<and> same_counts s s' \<and>
    only_at (insert (fst b) (fst ` set (pre @ c # post))) s s'"
proof (cases pre rule: rev_cases)
  case Nil
  then show ?thesis
    using insert_first [of s c post lo b] assms by (simp add: join_def)
next
  case (snoc pre' d)
  then show ?thesis
    using insert_later_apart [of s pre' d c post lo b] insert_later_joined [of s pre' d c post lo b] assms
    by (cases "block_end d = unat (fst b)") (fastforce simp: join_def only_at_def)+
qed

text \<open>
  At the end of the list the source merges with the last block, and otherwise links the node
  without storing its size: the new block has the size that the freed memory happens to hold.
\<close>

lemma append_refines:
  assumes "links s (pre @ [d])" "wf_blocks lo (pre @ [d, b])" "0 < lo"
    "unat (m_FreeListNodeCount s) + 1 < 2 ^ 64"
    "block_end d = unat (fst b) \<or> PageCount (mem s (fst b)) = snd b"
  shows "\<exists>s'. FreePages_append s (fst b) (snd b) = Inr s' \<and> links s' (join (pre @ [d]) b []) \<and>
    same_counts s s' \<and> only_at (insert (fst b) (fst ` set (pre @ [d]))) s s'"
proof -
  have bend: "block_end d < 2 ^ 64" "block_end d \<le> unat (fst b)" "0 < unat (snd d)"
    using assms(2) by (auto simp: wf_append)
  note be = block_end_word [OF bend(1)]
  have "wf_blocks lo ((pre @ [d]) @ [b])"
    using assms(2) by simp
  then have fr: "fst d \<notin> fst ` set pre" "fst b \<noteq> fst d" "fst d \<noteq> fst b" "fst b \<notin> fst ` set pre"
    using block_fresh(1,2) [OF assms(2)] block_fresh(1) [of lo "pre @ [d]" b "[]"] by auto
  have ne: "fst b \<noteq> 0"
    using bend by (auto simp: block_end_def)
  have ln: "blocks (mem s) (m_FreeListStart s) pre (fst d)" "fst d \<noteq> 0" "PageCount (mem s (fst d)) = snd d"
    "Next (mem s (fst d)) = 0" "m_FreeListEnd s = fst d" "unat (m_FreeListNodeCount s) = length pre + 1"
    using assms(1) by (auto simp: links_def blocks_append)
  have cnt: "unat (m_FreeListNodeCount s + 1) = unat (m_FreeListNodeCount s) + 1"
    using assms(4) by (subst unat_add_nowrap) auto
  show ?thesis
    using assms(5)
    by (cases "block_end d = unat (fst b)")
      (simp_all add: FreePages_append_def join_def merge_right_def links_def same_counts_def only_at_def
        node_writes blocks_upd blocks_append ln fr ne be cnt)
qed

lemma last_addr_lt:
  assumes "wf_blocks lo pre" "top_of lo pre \<le> unat a" "a \<noteq> 0"
  shows "last_addr pre < a"
proof (cases "pre = []")
  case True
  then show ?thesis
    using assms(3) by (simp add: word_neq_0_conv)
next
  case False
  then show ?thesis
    using wf_member [OF assms(1), of "last pre"] assms(2)
    by (auto simp: word_less_nat_alt block_end_def last_addr_def)
qed

definition released :: "PMM \<Rightarrow> u64 \<Rightarrow> block list \<Rightarrow> u64 set \<Rightarrow> PMM res \<Rightarrow> bool" where
  "released s k bs' A r \<longleftrightarrow>
     (\<exists>s'. r = Inr s' \<and> links s' bs' \<and> m_FreePageCount s' = m_FreePageCount s + k \<and>
        m_usedPageCount s' = m_usedPageCount s - k \<and> m_totalPageCount s' = m_totalPageCount s \<and>
        m_lock s' = Mutex_Unlock (m_lock s) \<and> only_at A s s')"

lemma FreePages_loop_refines:
  assumes "links s (pre @ mid @ post)" "wf_blocks lo (pre @ mid @ b # post)" "0 < lo"
    "unat (m_FreeListNodeCount s) + 1 < 2 ^ 64"
    "post = [] \<Longrightarrow> pre @ mid \<noteq> [] \<and>
       (block_end (last (pre @ mid)) = unat (fst b) \<or> PageCount (mem s (fst b)) = snd b)"
  shows "\<exists>r. FreePages_loop s (fst b) (snd b) (last_addr pre) (case mid @ post of [] \<Rightarrow> 0 | c # _ \<Rightarrow> fst c) = Some r \<and>
    released s (snd b) (join (pre @ mid) b post) (insert (fst b) (fst ` set (pre @ mid @ post))) r"
  using assms(1,2,5)
proof (induction mid arbitrary: pre)
  case Nil
  show ?case
  proof (cases post)
    case Nil': Nil
    then obtain pre' d where pre: "pre = pre' @ [d]"
      using Nil.prems(3) by (cases pre rule: rev_cases) auto
    obtain s' where "FreePages_append s (fst b) (snd b) = Inr s'" "links s' (join pre b [])"
      "same_counts s s'" "only_at (insert (fst b) (fst ` set pre)) s s'"
      using append_refines [of s pre' d lo b] Nil.prems Nil' pre assms(3,4) by auto
    then show ?thesis
      using Nil' by (auto simp: FreePages_loop.simps FreePages_finish_def released_def links_def
          same_counts_def only_at_def)
  next
    case (Cons c post')
    have c: "fst c \<noteq> 0"
      using Nil.prems(1) Cons by (auto simp: links_def blocks_append)
    have wf: "wf_blocks lo (pre @ b # c # post')" "wf_blocks lo ((pre @ [b]) @ c # post')"
      using Nil.prems(2) Cons by simp_all
    have "fst b < fst c"
      using wf(1) by (auto simp: wf_append word_less_nat_alt block_end_def)
    moreover have "last_addr pre < fst c"
      using wf(1) c by (intro last_addr_lt [of lo]) (auto simp: wf_append block_end_def)
    moreover obtain s' where "FreePages_insert s (fst b) (snd b) (last_addr pre) (fst c) = Inr s'"
      "links s' (join pre b post)" "same_counts s s'" "only_at (insert (fst b) (fst ` set (pre @ post))) s s'"
      using insert_refines [OF _ wf(1) assms(3,4)] Nil.prems(1) Cons by auto
    ultimately show ?thesis
      using Cons c by (auto simp: FreePages_loop.simps [of s _ _ _ "fst c"] FreePages_finish_def released_def
          links_def same_counts_def only_at_def)
  qed
next
  case (Cons c mid)
  have c: "fst c \<noteq> 0" "Next (mem s (fst c)) = (case mid @ post of [] \<Rightarrow> 0 | c # _ \<Rightarrow> fst c)"
    using Cons.prems(1) blocks_first [of "mem s" _ "mid @ post"] by (auto simp: links_def blocks_append)
  have wf: "wf_blocks lo pre" "top_of lo pre \<le> unat (fst c)" "wf_blocks lo (pre @ c # mid @ b # post)"
    "wf_blocks (block_end c) (mid @ b # post)"
    using Cons.prems(2) by (auto simp: wf_append)
  have "\<not> fst b < fst c"
    using wf_member [OF wf(4), of b] by (simp add: block_end_def word_less_nat_alt)
  moreover have "last_addr pre < fst c"
    using wf c by (intro last_addr_lt [of lo]) auto
  moreover have "\<exists>r. FreePages_loop s (fst b) (snd b) (last_addr (pre @ [c])) (case mid @ post of [] \<Rightarrow> 0 | c # _ \<Rightarrow> fst c) = Some r \<and>
    released s (snd b) (join ((pre @ [c]) @ mid) b post) (insert (fst b) (fst ` set ((pre @ [c]) @ mid @ post))) r"
    using Cons.prems by (intro Cons.IH) auto
  ultimately show ?case
    using c by (simp add: FreePages_loop.simps [of s _ _ _ "fst c"])
qed

lemma length_le_total: "wf_blocks lo bs \<Longrightarrow> length bs \<le> page_total bs"
proof (induction bs arbitrary: lo)
  case (Cons b bs)
  then have "length bs \<le> page_total bs" "0 < unat (snd b)"
    by auto
  then show ?case by simp
qed simp

text \<open>
  The condition under which a release stores the size of the block: some free block is above
  it, or it touches the last one, or its memory already holds the size.
\<close>

definition sized_release :: "PMM \<Rightarrow> block list \<Rightarrow> block \<Rightarrow> bool" where
  "sized_release s bs b \<longleftrightarrow> bs \<noteq> [] \<and>
     (fst b < last_addr bs \<or> block_end (last bs) = unat (fst b) \<or> PageCount (mem s (fst b)) = snd b)"

lemma FreePages_inv:
  assumes "pmm_inv hhdm s bs" "wf_block (unat hhdm + 4096) b" "apart b bs" "sized_release s bs b"
    "unat (snd b) \<le> unat (m_usedPageCount s)"
  shows "\<exists>s'. FreePages hhdm s (fst b - hhdm) (snd b) = Inr s' \<and> pmm_inv hhdm s' (give_back b bs) \<and>
    unat (m_usedPageCount s') = unat (m_usedPageCount s) - unat (snd b) \<and>
    only_at (insert (fst b) (fst ` set bs)) s s'"
proof -
  let ?lo = "unat hhdm + 4096"
  define pre where "pre = takeWhile (\<lambda>c. fst c \<le> fst b) bs"
  define post where "post = dropWhile (\<lambda>c. fst c \<le> fst b) bs"
  have bs: "pre @ post = bs"
    by (simp add: pre_def post_def)
  have inv: "links s bs" "wf_blocks ?lo bs" "m_lock s = 1" "unat (m_FreePageCount s) = page_total bs"
    "unat (m_totalPageCount s) = unat (m_FreePageCount s) + unat (m_usedPageCount s)" "unat hhdm + 4096 < 2 ^ 64"
    using assms(1) by (auto simp: pmm_inv_links)
  have wf: "wf_blocks ?lo (pre @ b # post)"
    using apart_place [OF inv(2) assms(3,2)] by (simp add: pre_def post_def)
  have tot: "page_total bs + unat (snd b) < 18446744073709551616"
    using inv(4,5) assms(5) unat_lt_2p64 [of "m_totalPageCount s"] by linarith
  then have cnt: "unat (m_FreeListNodeCount s) + 1 < 2 ^ 64"
    using length_le_total [OF inv(2)] inv(1) assms(2) by (simp add: links_def wf_block_def)
  have end_ok: "pre @ [] \<noteq> [] \<and> (block_end (last (pre @ [])) = unat (fst b) \<or> PageCount (mem s (fst b)) = snd b)"
    if "post = []"
  proof -
    have "pre = bs" "bs \<noteq> []" "last bs \<in> set bs"
      using bs that assms(4) by (auto simp: sized_release_def)
    moreover from this have "fst (last bs) \<le> fst b"
      using set_takeWhileD [of "last bs" "\<lambda>c. fst c \<le> fst b" bs] unfolding pre_def by simp
    moreover from calculation have "\<not> fst b < last_addr bs"
      by (simp add: last_addr_def not_less)
    ultimately show ?thesis
      using assms(4) by (auto simp: sized_release_def)
  qed
  let ?s = "s\<lparr>m_lock := 0\<rparr>"
  have start: "m_FreeListStart s = (case [] @ (pre @ post) of [] \<Rightarrow> 0 | c # _ \<Rightarrow> fst c)"
    using inv(1) bs blocks_first by (auto simp: links_def)
  obtain r where r: "FreePages_loop ?s (fst b) (snd b) 0 (m_FreeListStart s) = Some r"
    "released ?s (snd b) (join pre b post) (insert (fst b) (fst ` set bs)) r"
    using FreePages_loop_refines [of ?s "[]" pre post ?lo b] inv(1) wf cnt end_ok bs start
    by (auto simp: links_def)
  have free: "unat (m_FreePageCount s + snd b) = page_total bs + unat (snd b)"
    using tot inv(4) by (subst unat_add_nowrap) simp_all
  have used: "unat (m_usedPageCount s - snd b) = unat (m_usedPageCount s) - unat (snd b)"
    using assms(5) by (rule unat_sub_nowrap)
  have "FreePages hhdm s (fst b - hhdm) (snd b) = r"
    using r(1) inv(3) by (simp add: FreePages_def to_HHDM_def)
  moreover have "page_total (join pre b post) = page_total bs + unat (snd b)"
    using join_wf [OF wf] bs [symmetric] by simp
  ultimately show ?thesis
    using r(2) inv join_wf [OF wf] free used assms(5)
    by (auto simp: released_def pmm_inv_links give_back_def only_at_def pre_def post_def)
qed

text \<open>\<^verbatim>\<open>FreePage\<close> is the release of one page.\<close>

lemma FreePage_insert_eq: "FreePage_insert s node previous current = FreePages_insert s node 1 previous current"
  by (simp add: FreePage_insert_def FreePages_insert_def)

lemma FreePage_step_eq:
  "FreePage_append s node = FreePages_append s node 1" "FreePage_finish s = FreePages_finish 1 s"
  by (simp_all add: FreePage_append_def FreePages_append_def FreePage_finish_def FreePages_finish_def)

lemmas FreePage_eqs = FreePage_insert_eq FreePage_step_eq

lemma FreePage_loop_to:
  "FreePage_loop s node previous current = Some r \<Longrightarrow> FreePages_loop s node 1 previous current = Some r"
proof (induction rule: FreePage_loop.raw_induct [rotated, consumes 1])
  case (1 loop s node previous current r)
  then show ?case
    by (subst FreePages_loop.simps) (auto simp: FreePage_eqs split: if_splits)
qed

lemma FreePage_loop_from:
  "FreePages_loop s node k previous current = Some r \<Longrightarrow> k = 1 \<Longrightarrow>
   FreePage_loop s node previous current = Some r"
proof (induction rule: FreePages_loop.raw_induct [rotated, consumes 1])
  case (1 loop s node k previous current r)
  then show ?case
    by (subst FreePage_loop.simps) (auto simp: FreePage_eqs split: if_splits)
qed

lemma FreePage_loop_eq:
  "FreePage_loop s node previous current = FreePages_loop s node 1 previous current"
  using FreePage_loop_to [of s node previous current] FreePage_loop_from [of s node 1 previous current]
  by (metis not_None_eq)

section \<open>The self check and the initialisation\<close>

lemma Verify_loop_blocks:
  assumes "blocks (mem s) current post 0" "wf_blocks lo post"
    "previous \<noteq> 0 \<Longrightarrow> block_end (previous, PageCount (mem s previous)) \<le> lo \<and> lo < 2 ^ 64"
  shows "Verify_loop s (length post) previous current n =
    Inr (if post = [] then previous else last_addr post, 0, n + sum_list (map snd post))"
  using assms
proof (induction post arbitrary: lo previous current n)
  case (Cons b post)
  have "previous + PageCount (mem s previous) * PAGE_SIZE \<le> current" if "previous \<noteq> 0"
  proof -
    have "block_end (previous, PageCount (mem s previous)) \<le> unat (fst b)"
      using Cons.prems that by auto
    then show ?thesis
      using Cons.prems that unat_pages(1) [of previous "PageCount (mem s previous)"]
      by (simp add: word_le_nat_alt block_end_def)
  qed
  moreover have "Verify_loop s (length post) current (Next (mem s current)) (n + PageCount (mem s current)) =
    Inr (if post = [] then current else last_addr post, 0, n + PageCount (mem s current) + sum_list (map snd post))"
    using Cons.prems by (intro Cons.IH [of _ "block_end b"]) auto
  ultimately show ?case
    using Cons.prems by (cases "post = []") (auto simp: add.assoc)
qed simp

lemma sum_list_of_nat: "sum_list (map snd bs) = (of_nat (page_total bs) :: u64)"
  by (induction bs) simp_all

lemma Verify_inv: "pmm_inv hhdm s bs \<Longrightarrow> Verify s = Inr ()"
proof -
  assume inv: "pmm_inv hhdm s bs"
  then have "unat (m_FreePageCount s) = page_total bs"
    "unat (m_totalPageCount s) = unat (m_FreePageCount s) + unat (m_usedPageCount s)"
    by (simp_all add: pmm_inv_def)
  then have "of_nat (page_total bs) = m_FreePageCount s"
    "m_totalPageCount s = m_FreePageCount s + m_usedPageCount s"
    by (metis of_nat_unat_u64 of_nat_add)+
  then show ?thesis
    using inv Verify_loop_blocks [of s "m_FreeListStart s" bs "unat hhdm + 4096" 0 0]
    by (auto simp: Verify_def pmm_inv_def sum_list_of_nat)
qed

text \<open>The block that a memory map entry gives, and the entry as the initialisation leaves it.\<close>

definition adjust :: "MemoryMapEntry \<Rightarrow> MemoryMapEntry" where
  "adjust e = (if EntryType e = MEMORY_MAP_ENTRY_USABLE \<and> Base e = 0
     then e\<lparr>Base := PAGE_SIZE, Length := Length e - PAGE_SIZE\<rparr> else e)"

definition entry_block :: "u64 \<Rightarrow> MemoryMapEntry \<Rightarrow> block list" where
  "entry_block hhdm e =
     (if EntryType e \<noteq> MEMORY_MAP_ENTRY_USABLE \<or> Base e = 0 \<and> Length (adjust e) < PAGE_SIZE then []
      else [(Base (adjust e) + hhdm, drop_bit 12 (Length (adjust e)))])"

definition init_blocks :: "u64 \<Rightarrow> MemoryMapEntry list \<Rightarrow> block list" where
  "init_blocks hhdm es = concat (map (entry_block hhdm) es)"

definition init_state :: "PMM \<Rightarrow> block list \<Rightarrow> bool" where
  "init_state s bs \<longleftrightarrow> links s bs \<and> unat (m_FreePageCount s) = page_total bs \<and>
     m_totalPageCount s = m_FreePageCount s \<and> m_lock s = 1"

lemma Init_insert_refines:
  assumes "init_state s bs" "wf_blocks lo (bs @ [b])" "0 < lo" "lo < 2 ^ 64"
    "b = (Base e + hhdm, drop_bit 12 (Length e))"
  shows "\<exists>s'. Init_insert hhdm s e = Inr s' \<and> init_state s' (bs @ [b])"
proof -
  have "lo + page_total (bs @ [b]) * 4096 < 2 ^ 64"
    using page_total_bound [OF assms(2)] wf_top_bound [OF assms(2,4)] by linarith
  then have tot: "page_total bs + unat (snd b) < 18446744073709551616"
    by simp
  have free: "unat (m_FreePageCount s + snd b) = page_total bs + unat (snd b)"
    using tot assms(1) by (subst unat_add_nowrap) (simp_all add: init_state_def)
  have "length bs + 1 \<le> page_total bs + unat (snd b)"
    using length_le_total [OF assms(2)] by simp
  then have cnt: "unat (m_FreeListNodeCount s + 1) = length bs + 1"
    using tot assms(1) by (subst unat_add_nowrap) (simp_all add: init_state_def links_def)
  have b0: "fst b \<noteq> 0"
    using assms(2,3) wf_top [of lo bs] by (auto simp: wf_append)
  show ?thesis
  proof (cases bs rule: rev_cases)
    case Nil
    then show ?thesis
      using assms(1) free cnt b0
      by (simp add: assms(5) init_state_def links_def Init_insert_def node_writes to_HHDM_def Let_def)
  next
    case (snoc pre d)
    have "wf_blocks lo (pre @ d # [b])" "wf_blocks lo ((pre @ [d]) @ [b])"
      using assms(2) snoc by simp_all
    from block_fresh(1,2) [OF this(1)] block_fresh(1) [OF this(2)]
    have fr: "fst d \<notin> fst ` set pre" "fst d \<noteq> fst b" "fst b \<noteq> fst d" "fst b \<notin> fst ` set pre"
      by auto
    have ln: "blocks (mem s) (m_FreeListStart s) pre (fst d)" "fst d \<noteq> 0" "PageCount (mem s (fst d)) = snd d"
      "m_FreeListEnd s = fst d"
      using assms(1) snoc by (auto simp: init_state_def links_def blocks_append)
    show ?thesis
      using assms(1) free cnt b0 fr ln snoc
      by (simp add: assms(5) init_state_def links_def Init_insert_def node_writes to_HHDM_def Let_def
          blocks_append blocks_upd)
  qed
qed

lemma Init_loop_refines:
  assumes "init_state s bs" "wf_blocks lo (bs @ init_blocks hhdm es)" "0 < lo" "lo < 2 ^ 64"
  shows "\<exists>s'. Init_loop hhdm s es = Inr (s', map adjust es) \<and> init_state s' (bs @ init_blocks hhdm es)"
  using assms(1,2)
proof (induction es arbitrary: s bs)
  case Nil
  then show ?case by (simp add: init_blocks_def)
next
  case (Cons e es)
  show ?case
  proof (cases "entry_block hhdm e = []")
    case True
    then show ?thesis
      using Cons by (fastforce simp: init_blocks_def entry_block_def adjust_def split: if_splits)
  next
    case False
    then obtain b where b: "entry_block hhdm e = [b]" "b = (Base (adjust e) + hhdm, drop_bit 12 (Length (adjust e)))"
      by (auto simp: entry_block_def split: if_splits)
    have wf: "wf_blocks lo ((bs @ [b]) @ init_blocks hhdm es)"
      using Cons.prems(2) b(1) by (simp add: init_blocks_def)
    then have "wf_blocks lo (bs @ [b])"
      by (simp add: wf_append)
    then obtain s1 where "Init_insert hhdm s (adjust e) = Inr s1" "init_state s1 (bs @ [b])"
      using Init_insert_refines [OF Cons.prems(1) _ assms(3,4) b(2)] by blast
    moreover from this obtain s2 where "Init_loop hhdm s1 es = Inr (s2, map adjust es)"
      "init_state s2 ((bs @ [b]) @ init_blocks hhdm es)"
      using Cons.IH [OF _ wf] by blast
    ultimately show ?thesis
      using b(1) by (auto simp: init_blocks_def entry_block_def adjust_def Let_def split: if_splits)
  qed
qed

lemma Init_inv:
  assumes "wf_blocks (unat hhdm + 4096) (init_blocks hhdm es)" "unat hhdm + 4096 < 2 ^ 64"
  shows "\<exists>s. Init hhdm (PMM_new m) es = Inr (s, map adjust es) \<and> pmm_inv hhdm s (init_blocks hhdm es) \<and>
    m_usedPageCount s = 0"
proof -
  have "init_state (PMM_new m) []"
    by (simp add: init_state_def links_def PMM_new_def)
  then show ?thesis
    using Init_loop_refines [of "PMM_new m" "[]" "unat hhdm + 4096" hhdm es] assms
    by (auto simp: Init_def pmm_inv_links init_state_def links_def)
qed

section \<open>The free bytes of physical memory\<close>

definition span :: "u64 \<Rightarrow> block \<Rightarrow> nat set" where
  "span hhdm b = {unat (fst b) - unat hhdm ..< block_end b - unat hhdm}"

definition free_bytes :: "u64 \<Rightarrow> block list \<Rightarrow> nat set" where
  "free_bytes hhdm bs = (\<Union>b\<in>set bs. span hhdm b)"

lemma free_bytes_simps [simp]:
  "free_bytes hhdm [] = {}"
  "free_bytes hhdm (b # bs) = span hhdm b \<union> free_bytes hhdm bs"
  "free_bytes hhdm (xs @ ys) = free_bytes hhdm xs \<union> free_bytes hhdm ys"
  by (auto simp: free_bytes_def)

lemma free_bytes_above: "wf_blocks lo bs \<Longrightarrow> a \<in> free_bytes hhdm bs \<Longrightarrow> lo - unat hhdm \<le> a"
  using wf_member [of lo bs] by (fastforce simp: free_bytes_def span_def)

lemma addr_free: "wf_blocks lo bs \<Longrightarrow> b \<in> set bs \<Longrightarrow> unat hhdm \<le> lo \<Longrightarrow> unat (fst b) - unat hhdm \<in> free_bytes hhdm bs"
  using wf_member [of lo bs b] by (force simp: free_bytes_def span_def block_end_def)

lemma cut_span:
  assumes "k \<le> snd b" "block_end b < 2 ^ 64" "0 < unat k" "unat hhdm \<le> unat (fst b)"
  shows "span hhdm (fst b, k) \<subseteq> span hhdm b"
    and "free_bytes hhdm (cut b k) = span hhdm b - span hhdm (fst b, k)"
proof -
  have "unat k \<le> unat (snd b)"
    using assms(1) by (simp add: word_le_nat_alt)
  moreover have "k \<noteq> snd b \<Longrightarrow> k < snd b"
    using assms(1) by simp
  ultimately show "span hhdm (fst b, k) \<subseteq> span hhdm b"
    "free_bytes hhdm (cut b k) = span hhdm b - span hhdm (fst b, k)"
    using cut_block [OF assms(2), of k] assms(4)
    by (auto simp: span_def cut_def block_end_def)
qed

lemma first_fit_bytes:
  assumes "wf_blocks lo bs" "first_fit k bs = Some (x, bs')" "0 < unat k" "unat hhdm \<le> lo"
  shows "span hhdm (x, k) \<subseteq> free_bytes hhdm bs \<and> free_bytes hhdm bs' = free_bytes hhdm bs - span hhdm (x, k) \<and>
    lo \<le> unat x \<and> 4096 dvd unat x"
  using assms
proof (induction bs arbitrary: lo bs')
  case (Cons b bs)
  have b: "lo \<le> unat (fst b)" "block_end b < 2 ^ 64" "wf_blocks (block_end b) bs" "4096 dvd unat (fst b)"
    "unat hhdm \<le> block_end b"
    using Cons.prems(1,4) by (auto simp: block_end_def)
  have apart: "span hhdm b \<inter> free_bytes hhdm bs = {}"
    using free_bytes_above [OF b(3)] by (force simp: span_def)
  show ?case
  proof (cases "k \<le> snd b")
    case True
    then have "x = fst b" "bs' = cut b k @ bs"
      using Cons.prems(2) by (auto simp: first_fit_cut simp del: first_fit.simps)
    then show ?thesis
      using cut_span [OF True b(2) Cons.prems(3), of hhdm] b Cons.prems(4) apart by auto
  next
    case False
    then obtain bs1 where "first_fit k bs = Some (x, bs1)" "bs' = b # bs1"
      using Cons.prems(2) by auto
    then show ?thesis
      using Cons.IH [OF b(3) _ Cons.prems(3) b(5)] apart b(1) by (auto simp: block_end_def)
  qed
qed simp

lemma first_fit_None: "first_fit k bs = None \<longleftrightarrow> (\<forall>b\<in>set bs. snd b < k)"
  by (induction bs) (auto simp: not_le)

lemma merge_right_bytes:
  assumes "wf_blocks lo (b # post)" "unat hhdm \<le> lo"
  shows "free_bytes hhdm (merge_right b post) = free_bytes hhdm (b # post)"
proof (cases post)
  case Nil
  then show ?thesis by (simp add: merge_right_def)
next
  case (Cons c post')
  then show ?thesis
    using assms adjacent_block [of b c] by (auto simp: merge_right_def span_def block_end_def)
qed

lemma join_bytes:
  assumes "wf_blocks lo (pre @ b # post)" "unat hhdm \<le> lo"
  shows "free_bytes hhdm (join pre b post) = free_bytes hhdm (pre @ b # post)"
proof (cases "pre \<noteq> [] \<and> block_end (last pre) = unat (fst b)")
  case True
  then obtain pre' d where pre: "pre = pre' @ [d]" "block_end d = unat (fst b)"
    by (cases pre rule: rev_cases) auto
  have wf: "block_end b < 2 ^ 64" "wf_blocks lo pre'" "wf_blocks (top_of lo pre') (d # b # post)"
    "unat hhdm \<le> top_of lo pre'"
    using assms pre wf_top [of lo pre'] by (auto simp: wf_append)
  have ad: "unat (snd d + snd b) = unat (snd d) + unat (snd b)" "block_end (fst d, snd d + snd b) = block_end b"
    using adjacent_block [OF pre(2) wf(1)] by auto
  then have "wf_blocks (top_of lo pre') ((fst d, snd d + snd b) # post)"
    using wf by simp
  moreover have "span hhdm (fst d, snd d + snd b) = span hhdm d \<union> span hhdm b"
    using ad(2) wf(3,4) pre(2) by (auto simp: span_def block_end_def)
  ultimately show ?thesis
    using True pre(1) merge_right_bytes [of "top_of lo pre'" "(fst d, snd d + snd b)" post hhdm] wf(4)
    by (auto simp: join_def)
next
  case False
  have "wf_blocks (top_of lo pre) (b # post)" "unat hhdm \<le> top_of lo pre"
    using assms wf_top [of lo pre] by (auto simp: wf_append)
  then show ?thesis
    using False merge_right_bytes [of "top_of lo pre" b post hhdm] by (auto simp: join_def)
qed

lemma give_back_bytes:
  assumes "wf_blocks lo bs" "wf_block lo b" "apart b bs" "unat hhdm \<le> lo"
  shows "free_bytes hhdm (give_back b bs) = free_bytes hhdm bs \<union> span hhdm b"
proof -
  have "free_bytes hhdm bs =
      free_bytes hhdm (takeWhile (\<lambda>c. fst c \<le> fst b) bs) \<union> free_bytes hhdm (dropWhile (\<lambda>c. fst c \<le> fst b) bs)"
    by (metis free_bytes_simps(3) takeWhile_dropWhile_id)
  moreover have "free_bytes hhdm (give_back b bs) =
      free_bytes hhdm (takeWhile (\<lambda>c. fst c \<le> fst b) bs) \<union>
      (span hhdm b \<union> free_bytes hhdm (dropWhile (\<lambda>c. fst c \<le> fst b) bs))"
    unfolding give_back_def join_bytes [OF apart_place [OF assms(1,3,2)] assms(4)] by simp
  ultimately show ?thesis
    by blast
qed

section \<open>Free blocks that do not touch\<close>

fun spaced :: "nat \<Rightarrow> block list \<Rightarrow> bool" where
  "spaced lo [] = True"
| "spaced lo (b # bs) = (lo < unat (fst b) \<and> spaced (block_end b) bs)"

text \<open>No two free blocks touch, so that each run of free pages is within one block.\<close>

definition coalesced :: "block list \<Rightarrow> bool" where
  "coalesced bs = spaced 0 bs"

lemma spaced_mono: "spaced lo bs \<Longrightarrow> lo' \<le> lo \<Longrightarrow> spaced lo' bs"
  by (cases bs) auto

lemma spaced_append: "spaced lo (xs @ ys) \<longleftrightarrow> spaced lo xs \<and> spaced (top_of lo xs) ys"
  by (induction xs arbitrary: lo) auto

lemma free_run_block:
  assumes "wf_blocks lo bs" "spaced l bs" "unat hhdm \<le> lo" "{x ..< x + n} \<subseteq> free_bytes hhdm bs" "0 < n"
  shows "\<exists>b\<in>set bs. {x ..< x + n} \<subseteq> span hhdm b"
  using assms
proof (induction bs arbitrary: lo l)
  case (Cons b bs)
  let ?e = "block_end b - unat hhdm"
  have b: "wf_blocks (block_end b) bs" "spaced (block_end b) bs" "unat hhdm \<le> block_end b" "unat hhdm \<le> unat (fst b)"
    using Cons.prems(1-3) by (auto simp: block_end_def)
  have above: "?e < y" if y: "y \<in> free_bytes hhdm bs" for y
  proof -
    obtain c cs where bs: "bs = c # cs"
      using y by (cases bs) auto
    have "wf_blocks (unat (fst c)) bs" "block_end b < unat (fst c)"
      using b(1,2) bs by auto
    then show ?thesis
      using free_bytes_above [OF _ y] b(3) by fastforce
  qed
  have "x \<in> {x ..< x + n}"
    using Cons.prems(5) by simp
  then have x: "x \<in> span hhdm b \<or> x \<in> free_bytes hhdm bs"
    using subsetD [OF Cons.prems(4)] by simp
  show ?case
  proof (cases "x \<in> span hhdm b")
    case True
    have "x + n \<le> ?e"
    proof (rule ccontr)
      assume "\<not> x + n \<le> ?e"
      then have "?e \<in> {x ..< x + n}"
        using True by (auto simp: span_def)
      then have "?e \<in> free_bytes hhdm bs"
        using Cons.prems(4) by (auto simp: span_def)
      then show False
        using above by blast
    qed
    then have "{x ..< x + n} \<subseteq> span hhdm b"
      using True by (auto simp: span_def)
    then show ?thesis
      by simp
  next
    case False
    then have "?e < x"
      using x above by blast
    then have "{x ..< x + n} \<subseteq> free_bytes hhdm bs"
      using Cons.prems(4) by (fastforce simp: span_def)
    then show ?thesis
      using Cons.IH [OF b(1-3) _ Cons.prems(5)] by auto
  qed
qed simp

lemma free_run_fits:
  assumes "wf_blocks (unat hhdm + 4096) bs" "coalesced bs" "0 < k"
  shows "(\<exists>x. {x ..< x + unat k * 4096} \<subseteq> free_bytes hhdm bs) \<longleftrightarrow> (\<exists>b\<in>set bs. k \<le> snd b)"
proof
  assume "\<exists>x. {x ..< x + unat k * 4096} \<subseteq> free_bytes hhdm bs"
  then obtain x where x: "{x ..< x + unat k * 4096} \<subseteq> free_bytes hhdm bs"
    by blast
  have k: "0 < unat k * 4096"
    using assms(3) by (simp add: word_less_nat_alt)
  obtain b where b: "b \<in> set bs" "{x ..< x + unat k * 4096} \<subseteq> span hhdm b"
    using free_run_block [OF assms(1) assms(2) [unfolded coalesced_def] _ x k] by auto
  have "unat hhdm \<le> unat (fst b)"
    using wf_member [OF assms(1) b(1)] by simp
  moreover have "unat (fst b) - unat hhdm \<le> x" "x + unat k * 4096 \<le> unat (fst b) + unat (snd b) * 4096 - unat hhdm"
    using b(2) k by (simp_all add: span_def block_end_def)
  ultimately have "unat k * 4096 \<le> unat (snd b) * 4096"
    by linarith
  then show "\<exists>b\<in>set bs. k \<le> snd b"
    using b(1) by (auto simp: word_le_nat_alt)
next
  assume "\<exists>b\<in>set bs. k \<le> snd b"
  then obtain b where b: "b \<in> set bs" "unat k \<le> unat (snd b)"
    by (auto simp: word_le_nat_alt)
  have "unat hhdm \<le> unat (fst b)"
    using wf_member [OF assms(1) b(1)] by simp
  then have "{unat (fst b) - unat hhdm ..< unat (fst b) - unat hhdm + unat k * 4096} \<subseteq> span hhdm b"
    using b(2) by (auto simp: span_def block_end_def)
  then show "\<exists>x. {x ..< x + unat k * 4096} \<subseteq> free_bytes hhdm bs"
    using b(1) unfolding free_bytes_def by blast
qed

text \<open>Allocation and release keep the blocks apart.\<close>

lemma first_fit_spaced:
  assumes "wf_blocks l bs" "spaced lo bs" "first_fit k bs = Some (x, bs')" "0 < unat k"
  shows "spaced lo bs'"
  using assms
proof (induction bs arbitrary: l lo bs')
  case (Cons b bs)
  have b: "block_end b < 2 ^ 64" "wf_blocks (block_end b) bs" "lo < unat (fst b)" "spaced (block_end b) bs"
    using Cons.prems(1,2) by auto
  then have top: "lo \<le> block_end b"
    by (simp add: block_end_def)
  show ?case
  proof (cases "k \<le> snd b")
    case True
    then have bs': "bs' = cut b k @ bs"
      using Cons.prems(3) by (auto simp: first_fit_cut simp del: first_fit.simps)
    show ?thesis
    proof (cases "snd b = k")
      case True
      then show ?thesis
        using bs' spaced_mono [OF b(4) top] by (simp add: cut_def)
    next
      case False
      then have "k < snd b"
        using True by simp
      then show ?thesis
        using bs' False b cut_block [OF b(1), of k] by (auto simp: cut_def)
    qed
  next
    case False
    then obtain bs1 where "first_fit k bs = Some (x, bs1)" "bs' = b # bs1"
      using Cons.prems(3) by auto
    then show ?thesis
      using Cons.IH [OF b(2,4) _ Cons.prems(4)] b(3) by simp
  qed
qed simp

lemma merge_right_spaced:
  assumes "wf_blocks lo (b # post)" "spaced l post" "l' < unat (fst b)"
  shows "spaced l' (merge_right b post)"
proof (cases post)
  case Nil
  then show ?thesis
    using assms(3) by (simp add: merge_right_def)
next
  case (Cons c post')
  then show ?thesis
    using assms adjacent_block [of b c] by (auto simp: merge_right_def)
qed

lemma give_back_coalesced:
  assumes "wf_blocks lo bs" "wf_block lo b" "apart b bs" "coalesced bs" "0 < lo"
  shows "coalesced (give_back b bs)"
proof -
  define pre where "pre = takeWhile (\<lambda>c. fst c \<le> fst b) bs"
  define post where "post = dropWhile (\<lambda>c. fst c \<le> fst b) bs"
  have bs: "pre @ post = bs"
    by (simp add: pre_def post_def)
  have wf: "wf_blocks lo (pre @ b # post)"
    using apart_place [OF assms(1,3,2)] by (simp add: pre_def post_def)
  have sp: "spaced 0 pre" "spaced (top_of 0 pre) post"
    using assms(4) spaced_append [of 0 pre post] bs by (simp_all add: coalesced_def)
  have wb: "wf_blocks (top_of lo pre) (b # post)"
    using wf by (simp add: wf_append)
  have "spaced 0 (join pre b post)"
  proof (cases pre rule: rev_cases)
    case Nil
    then show ?thesis
      using merge_right_spaced [OF wb sp(2), of 0] assms(2,5) by (simp add: join_def wf_block_def)
  next
    case (snoc pre' d)
    have d: "spaced 0 pre'" "top_of 0 pre' < unat (fst d)" "block_end d \<le> unat (fst b)" "block_end b < 2 ^ 64"
      using sp(1) wb snoc by (auto simp: spaced_append top_append)
    show ?thesis
    proof (cases "block_end d = unat (fst b)")
      case True
      have "wf_blocks (unat (fst d)) ((fst d, snd d + snd b) # post)"
        using adjacent_block [OF True d(4)] wb wf snoc by (auto simp: wf_append)
      then show ?thesis
        using merge_right_spaced [OF _ sp(2), of "unat (fst d)" "(fst d, snd d + snd b)" "top_of 0 pre'"] True snoc d(1,2)
        by (simp add: join_def spaced_append)
    next
      case False
      then show ?thesis
        using merge_right_spaced [OF wb sp(2), of "block_end d"] d snoc by (simp add: join_def spaced_append top_append)
    qed
  qed
  then show ?thesis
    by (simp add: coalesced_def give_back_def pre_def post_def)
qed

text \<open>A release above the last block walks to the end of the list.\<close>

lemma FreePages_loop_walk:
  assumes "blocks (mem s) current bs 0" "wf_blocks lo bs" "\<forall>c\<in>set bs. fst c \<le> x" "unat previous < lo"
  shows "FreePages_loop s x k previous current =
    FreePages_loop s x k (if bs = [] then previous else last_addr bs) 0"
  using assms
proof (induction bs arbitrary: lo previous current)
  case (Cons c bs)
  have "FreePages_loop s x k (fst c) (Next (mem s (fst c))) =
      FreePages_loop s x k (if bs = [] then fst c else last_addr bs) 0"
    using Cons.prems by (intro Cons.IH [of _ "block_end c"]) (auto simp: block_end_def)
  moreover have "previous < current"
    using Cons.prems by (auto simp: word_less_nat_alt)
  ultimately show ?case
    using Cons.prems
    by (cases "bs = []") (auto simp: FreePages_loop.simps [of s x k previous "fst c"] not_less)
qed simp

lemma FreePages_into_empty:
  assumes "pmm_inv hhdm s []" "to_HHDM hhdm p \<noteq> 0"
  shows "\<exists>s'. FreePages hhdm s p k = Inr s' \<and> m_FreeListStart s' = to_HHDM hhdm p \<and>
      PageCount (mem s' (to_HHDM hhdm p)) = PageCount (mem s (to_HHDM hhdm p)) \<and> Verify s' = Inl AssertFailed \<and>
      blocks (mem s') (m_FreeListStart s') [(to_HHDM hhdm p, PageCount (mem s (to_HHDM hhdm p)))] 0"
proof -
  have "m_FreeListStart s = 0" "m_FreeListEnd s = 0" "m_lock s = 1" "m_FreeListNodeCount s = 0"
    using assms(1) by (auto simp: pmm_inv_def unat_eq_0)
  then show ?thesis
    using assms(2)
    by (simp add: FreePages_def FreePages_loop.simps [of _ _ _ 0 0] FreePages_append_def FreePages_finish_def
        node_writes Verify_def)
qed

lemma FreePages_above:
  assumes "pmm_inv hhdm s bs" "bs \<noteq> []" "top_of 0 bs < unat (to_HHDM hhdm p)"
  shows "\<exists>s'. FreePages hhdm s p k = Inr s' \<and> m_FreePageCount s' = m_FreePageCount s + k \<and>
    blocks (mem s') (m_FreeListStart s') (bs @ [(to_HHDM hhdm p, PageCount (mem s (to_HHDM hhdm p)))]) 0"
proof -
  let ?x = "to_HHDM hhdm p"
  obtain pre d where bs: "bs = pre @ [d]"
    using assms(2) by (cases bs rule: rev_cases) auto
  have wf: "wf_blocks (unat hhdm + 4096) bs"
    using assms(1) by (simp add: pmm_inv_def)
  then have wf0: "wf_blocks 0 bs"
    by (rule wf_mono) simp
  have le: "\<forall>c\<in>set bs. fst c \<le> ?x"
    using wf_member [OF wf0] assms(3) by (fastforce simp: block_end_def word_le_nat_alt)
  have ln: "blocks (mem s) (m_FreeListStart s) pre (fst d)" "fst d \<noteq> 0" "PageCount (mem s (fst d)) = snd d"
    "Next (mem s (fst d)) = 0" "m_FreeListEnd s = fst d" "m_lock s = 1"
    using assms(1) bs by (auto simp: pmm_inv_def blocks_append)
  have fr: "fst d \<notin> fst ` set pre" "?x \<notin> fst ` set bs"
    using block_fresh(1) [of 0 pre d "[]"] wf0 bs wf_fresh_top [OF wf0, of ?x] assms(3) by auto
  then have "fst d \<noteq> ?x"
    using bs by auto
  have d: "fst d + snd d * PAGE_SIZE \<noteq> ?x"
    using block_end_word(2) [of d ?x] wf0 bs assms(3) by (auto simp: wf_append)
  have x0: "?x \<noteq> 0"
    using assms(3) by (metis not_less_zero unat_0)
  let ?s = "s\<lparr>m_lock := 0\<rparr>"
  have "FreePages_loop ?s ?x k 0 (m_FreeListStart s) = FreePages_loop ?s ?x k (fst d) 0"
    using FreePages_loop_walk [of ?s "m_FreeListStart s" bs "unat hhdm + 4096" ?x 0 k] wf le assms(1) bs
    by (simp add: pmm_inv_def)
  then have "FreePages hhdm s p k = bindR (FreePages_append ?s ?x k) (\<lambda>s. Inr (FreePages_finish k s))"
    by (simp add: FreePages_def ln FreePages_loop.simps [of _ _ _ _ 0])
  then show ?thesis
    using fr x0 d bs \<open>fst d \<noteq> ?x\<close>
    by (simp add: FreePages_append_def FreePages_finish_def node_writes ln blocks_append blocks_upd)
qed

lemma AllocatePages_spec:
  assumes "pmm_inv hhdm s bs" "0 < k" "bs \<noteq> []"
  shows "\<exists>s' p bs'. AllocatePages hhdm s k = Inr (s', p) \<and> pmm_inv hhdm s' bs' \<and>
    (p = 0 \<longleftrightarrow> (\<forall>b\<in>set bs. snd b < k)) \<and> (p = 0 \<longrightarrow> s' = s) \<and>
    (p \<noteq> 0 \<longrightarrow> 4096 dvd unat p + unat hhdm \<and>
       {unat p ..< unat p + unat k * 4096} \<subseteq> free_bytes hhdm bs \<and>
       free_bytes hhdm bs' = free_bytes hhdm bs - {unat p ..< unat p + unat k * 4096} \<and>
       page_total bs' + unat k = page_total bs \<and> unat p + unat hhdm < 2 ^ 64 \<and>
       unat (m_usedPageCount s') = unat (m_usedPageCount s) + unat k \<and>
       (\<forall>a. unat a - unat hhdm \<notin> free_bytes hhdm bs \<longrightarrow> mem s' a = mem s a))"
proof (cases "first_fit k bs")
  case None
  then have "AllocatePages hhdm s k = Inr (s, 0)" "\<forall>b\<in>set bs. snd b < k"
    using AllocatePages_inv [OF assms] first_fit_None [of k bs] by simp_all
  then show ?thesis
    using assms(1) by (intro exI [of _ s] exI [of _ "0 :: u64"] exI [of _ bs]) simp
next
  case (Some q)
  then obtain x bs' where q: "first_fit k bs = Some (x, bs')"
    by (cases q) auto
  have k: "0 < unat k" and wf: "wf_blocks (unat hhdm + 4096) bs"
    using assms by (auto simp: word_less_nat_alt pmm_inv_def)
  have x: "span hhdm (x, k) \<subseteq> free_bytes hhdm bs" "free_bytes hhdm bs' = free_bytes hhdm bs - span hhdm (x, k)"
    "unat hhdm + 4096 \<le> unat x" "4096 dvd unat x"
    using first_fit_bytes [OF wf q k, of hhdm] by auto
  have p: "unat (x - hhdm) = unat x - unat hhdm"
    using x(3) by (intro unat_sub_nowrap) simp
  then have "x - hhdm \<noteq> 0"
    using x(3) by (metis unat_0 diff_is_0_eq add_leD1 not_le add_le_same_cancel1 zero_neq_numeral
        le_zero_eq le_antisym)
  moreover have sp: "span hhdm (x, k) = {unat (x - hhdm) ..< unat (x - hhdm) + unat k * 4096}"
    using p x(3) by (auto simp: span_def block_end_def)
  moreover obtain s' where s': "AllocatePages hhdm s k = Inr (s', x - hhdm)" "pmm_inv hhdm s' bs'"
    "unat (m_usedPageCount s') = unat (m_usedPageCount s) + unat k" "only_at (fst ` set bs \<union> fst ` set bs') s s'"
    using AllocatePages_inv [OF assms] q by auto
  moreover have "unat a - unat hhdm \<in> free_bytes hhdm bs" if "a \<in> fst ` set bs \<union> fst ` set bs'" for a
    using that addr_free [OF wf, of _ hhdm] addr_free [of "unat hhdm + 4096" bs' _ hhdm] s'(2) x(2)
    by (auto simp: pmm_inv_def)
  then have "\<forall>a. unat a - unat hhdm \<notin> free_bytes hhdm bs \<longrightarrow> mem s' a = mem s a"
    using s'(4) unfolding only_at_def by blast
  moreover have "\<not> (\<forall>b\<in>set bs. snd b < k)"
    using q first_fit_None [of k bs] by auto
  ultimately show ?thesis
    using x p first_fit_wf [OF wf q] unat_lt_2p64 [of x] by (intro exI [of _ s'] exI [of _ "x - hhdm"] exI [of _ bs']) auto
qed

text \<open>What the clients of \<^verbatim>\<open>AllocatePage\<close> rely on.\<close>

lemma AllocatePage_fresh:
  assumes "pmm_inv hhdm s bs" "bs \<noteq> []"
  shows "\<exists>s' p bs'. AllocatePage hhdm s = Inr (s', p) \<and> pmm_inv hhdm s' bs' \<and> p \<noteq> 0 \<and>
    4096 dvd unat p + unat hhdm \<and> unat p + unat hhdm < 2 ^ 64 \<and> unat p \<in> free_bytes hhdm bs \<and>
    free_bytes hhdm bs' = free_bytes hhdm bs - {unat p ..< unat p + 4096} \<and> page_total bs' + 1 = page_total bs"
proof -
  have "\<not> (\<forall>b\<in>set bs. snd b < 1)"
    using assms wf_member [of "unat hhdm + 4096" bs "hd bs"]
    by (auto simp: pmm_inv_def word_less_nat_alt intro!: bexI [of _ "hd bs"])
  then obtain s' p bs' where r: "AllocatePages hhdm s 1 = Inr (s', p)" "pmm_inv hhdm s' bs'" "p \<noteq> 0"
    "4096 dvd unat p + unat hhdm" "{unat p ..< unat p + 4096} \<subseteq> free_bytes hhdm bs"
    "free_bytes hhdm bs' = free_bytes hhdm bs - {unat p ..< unat p + 4096}"
    "page_total bs' + 1 = page_total bs" "unat p + unat hhdm < 2 ^ 64"
    using AllocatePages_spec [OF assms(1) _ assms(2), of 1] by auto
  then have "unat p \<in> free_bytes hhdm bs"
    by auto
  then show ?thesis
    using r by (intro exI [of _ s'] exI [of _ p] exI [of _ bs']) (simp add: AllocatePages_def)
qed

lemma AllocatePages_coalesced:
  assumes "pmm_inv hhdm s bs" "0 < k" "bs \<noteq> []" "coalesced bs"
    and r: "AllocatePages hhdm s k = Inr (s', p)" "pmm_inv hhdm s' bs'"
  shows "coalesced bs'" "p = 0 \<longleftrightarrow> (\<nexists>x. {x ..< x + unat k * 4096} \<subseteq> free_bytes hhdm bs)"
proof -
  have wf: "wf_blocks (unat hhdm + 4096) bs" and k: "0 < unat k"
    using assms(1,2) by (auto simp: pmm_inv_def word_less_nat_alt)
  show "coalesced bs'"
  proof (cases "first_fit k bs")
    case None
    then have "s' = s"
      using AllocatePages_inv [OF assms(1-3)] r(1) by simp
    then show ?thesis
      using pmm_inv_unique [OF r(2)] assms(1,4) by metis
  next
    case (Some q)
    then obtain x bs1 where q: "first_fit k bs = Some (x, bs1)"
      by (cases q) auto
    then have "pmm_inv hhdm s' bs1"
      using AllocatePages_inv [OF assms(1-3)] r(1) by auto
    then show ?thesis
      using pmm_inv_unique [OF r(2)] first_fit_spaced [OF wf assms(4) [unfolded coalesced_def] q k] by (metis coalesced_def)
  qed
  have "p = 0 \<longleftrightarrow> (\<forall>b\<in>set bs. snd b < k)"
    using AllocatePages_spec [OF assms(1-3)] r(1) by auto
  then show "p = 0 \<longleftrightarrow> (\<nexists>x. {x ..< x + unat k * 4096} \<subseteq> free_bytes hhdm bs)"
    using free_run_fits [OF wf assms(4,2)] by (auto simp: not_le)
qed

text \<open>A release that does not store the size breaks the invariant.\<close>

lemma FreePages_unsized:
  assumes inv: "pmm_inv hhdm s bs" and b: "wf_block (unat hhdm + 4096) (to_HHDM hhdm p, k)" "apart (to_HHDM hhdm p, k) bs"
    and un: "\<not> sized_release s bs (to_HHDM hhdm p, k)" and le: "unat k \<le> unat (m_usedPageCount s)"
  shows "\<exists>s'. FreePages hhdm s p k = Inr s' \<and> (\<nexists>bs'. pmm_inv hhdm s' bs') \<and>
    blocks (mem s') (m_FreeListStart s') (bs @ [(to_HHDM hhdm p, PageCount (mem s (to_HHDM hhdm p)))]) 0"
proof (cases "bs = []")
  case True
  have "to_HHDM hhdm p \<noteq> 0"
    using b(1) by (auto simp: wf_block_def)
  then obtain s' where s': "FreePages hhdm s p k = Inr s'" "Verify s' = Inl AssertFailed"
      "blocks (mem s') (m_FreeListStart s') [(to_HHDM hhdm p, PageCount (mem s (to_HHDM hhdm p)))] 0"
    using FreePages_into_empty [of hhdm s p k] inv True by auto
  moreover have "\<not> pmm_inv hhdm s' bs'" for bs'
    using Verify_inv [of hhdm s' bs'] s'(2) by auto
  ultimately show ?thesis
    using True by auto
next
  case False
  let ?x = "to_HHDM hhdm p"
  obtain pre d where bs: "bs = pre @ [d]"
    using False by (cases bs rule: rev_cases) auto
  have "last_addr bs \<le> ?x" "block_end d \<noteq> unat ?x" "PageCount (mem s ?x) \<noteq> k"
    using un False bs by (auto simp: sized_release_def)
  moreover from this(1) have "unat (fst d) \<le> unat ?x"
    using bs by (simp add: word_le_nat_alt)
  moreover have "block_end d \<le> unat ?x \<or> block_end (?x, k) \<le> unat (fst d)"
    using b(2) bs by (simp add: apart_def)
  moreover have "unat ?x < block_end (?x, k)"
    using b(1) by (simp add: wf_block_def block_end_def)
  ultimately have top: "top_of 0 bs < unat ?x" and stale: "PageCount (mem s ?x) \<noteq> k"
    using bs by auto
  obtain s' where s': "FreePages hhdm s p k = Inr s'" "m_FreePageCount s' = m_FreePageCount s + k"
      "blocks (mem s') (m_FreeListStart s') (bs @ [(?x, PageCount (mem s ?x))]) 0"
    using FreePages_above [OF inv False top] by blast
  have "unat (m_FreePageCount s) + unat k < 18446744073709551616" "unat (m_FreePageCount s) = page_total bs"
    using inv le unat_lt_2p64 [of "m_totalPageCount s"] by (auto simp: pmm_inv_def)
  then have free: "unat (m_FreePageCount s') = page_total bs + unat k"
    unfolding s'(2) by (subst unat_add_nowrap) simp_all
  have "\<not> pmm_inv hhdm s' bs'" for bs'
  proof
    assume i: "pmm_inv hhdm s' bs'"
    then have "bs' = bs @ [(?x, PageCount (mem s ?x))]"
      using blocks_unique s'(3) by (auto simp: pmm_inv_def)
    then have "unat (PageCount (mem s ?x)) = unat k"
      using i free by (simp add: pmm_inv_def page_total_def)
    then show False
      using stale by (simp only: word_unat_eq_iff)
  qed
  then show ?thesis
    using s'(1,3) by blast
qed

section \<open>Properties\<close>

text \<open>
  C3. While some memory is free, \<^verbatim>\<open>AllocatePages\<close> returns: address 0 with the manager unchanged exactly when no
  free block is large enough, and otherwise the address of a page aligned range that was wholly free and no longer is,
  with every other byte as free as before, the page counters adjusted, no byte of memory in use written, and the
  lock released. Where no two free blocks touch, none do afterwards, and address 0 is returned exactly when no run of
  that many free pages exists at all.
\<close>

theorem PMM_AllocatePages:
  assumes "pmm_inv hhdm s bs" "0 < k" "bs \<noteq> []"
  shows "\<exists>s' p bs'. AllocatePages hhdm s k = Inr (s', p) \<and> pmm_inv hhdm s' bs' \<and>
    (p = 0 \<longleftrightarrow> (\<forall>b\<in>set bs. snd b < k)) \<and> (p = 0 \<longrightarrow> s' = s) \<and>
    (p \<noteq> 0 \<longrightarrow> 4096 dvd unat p + unat hhdm \<and>
       {unat p ..< unat p + unat k * 4096} \<subseteq> free_bytes hhdm bs \<and>
       free_bytes hhdm bs' = free_bytes hhdm bs - {unat p ..< unat p + unat k * 4096} \<and>
       unat (m_usedPageCount s') = unat (m_usedPageCount s) + unat k \<and>
       (\<forall>a. unat a - unat hhdm \<notin> free_bytes hhdm bs \<longrightarrow> mem s' a = mem s a)) \<and>
    (coalesced bs \<longrightarrow> coalesced bs' \<and> (p = 0 \<longleftrightarrow> (\<nexists>x. {x ..< x + unat k * 4096} \<subseteq> free_bytes hhdm bs)))"
proof -
  obtain s' p bs' where r: "AllocatePages hhdm s k = Inr (s', p)" "pmm_inv hhdm s' bs'"
    "p = 0 \<longleftrightarrow> (\<forall>b\<in>set bs. snd b < k)" "p = 0 \<longrightarrow> s' = s"
    "p \<noteq> 0 \<longrightarrow> 4096 dvd unat p + unat hhdm \<and>
       {unat p ..< unat p + unat k * 4096} \<subseteq> free_bytes hhdm bs \<and>
       free_bytes hhdm bs' = free_bytes hhdm bs - {unat p ..< unat p + unat k * 4096} \<and>
       unat (m_usedPageCount s') = unat (m_usedPageCount s) + unat k \<and>
       (\<forall>a. unat a - unat hhdm \<notin> free_bytes hhdm bs \<longrightarrow> mem s' a = mem s a)"
    using AllocatePages_spec [OF assms] by blast
  moreover have "coalesced bs \<longrightarrow> coalesced bs' \<and> (p = 0 \<longleftrightarrow> (\<nexists>x. {x ..< x + unat k * 4096} \<subseteq> free_bytes hhdm bs))"
    using AllocatePages_coalesced [OF assms _ r(1,2)] by blast
  ultimately show ?thesis
    by blast
qed

definition sample_pmm :: PMM where
  "sample_pmm = \<lparr>m_FreeListStart = 0x8000, m_FreeListEnd = 0x8000, m_FreeListNodeCount = 1, m_FreePageCount = 4,
     m_usedPageCount = 2, m_totalPageCount = 6, m_lock = 1, mem = (\<lambda>a. \<lparr>PageCount = 4, Next = 0\<rparr>)\<rparr>"

lemma sample_pmm_inv: "pmm_inv 0 sample_pmm [(0x8000, 4)]"
  by (simp add: pmm_inv_def sample_pmm_def block_end_def)

lemma PMM_AllocatePages_witness:
  "coalesced [(0x8000, 4)] \<and> (\<exists>s' p. AllocatePages 0 sample_pmm 3 = Inr (s', p) \<and> p \<noteq> 0)"
  using PMM_AllocatePages [OF sample_pmm_inv, of 3] by (fastforce simp: coalesced_def)



text \<open>
  C16. Where that condition fails the size is lost. A release above the last free block links a node whose
  size is whatever the freed memory holds; a release into an empty manager does so too and also leaves the
  node count at 0, so that the manager's own check \<^verbatim>\<open>Verify\<close> stops the machine.
\<close>

theorem PMM_FreePages_size_lost:
  assumes "wf_block (unat hhdm + 4096) (to_HHDM hhdm p, k)"
  shows "(pmm_inv hhdm s [] \<longrightarrow> (\<exists>s'. FreePages hhdm s p k = Inr s' \<and> m_FreeListStart s' = to_HHDM hhdm p \<and>
      PageCount (mem s' (to_HHDM hhdm p)) = PageCount (mem s (to_HHDM hhdm p)) \<and> Verify s' = Inl AssertFailed)) \<and>
    (pmm_inv hhdm t bs \<and> bs \<noteq> [] \<and> top_of 0 bs < unat (to_HHDM hhdm p) \<longrightarrow>
      (\<exists>t'. FreePages hhdm t p k = Inr t' \<and>
        blocks (mem t') (m_FreeListStart t') (bs @ [(to_HHDM hhdm p, PageCount (mem t (to_HHDM hhdm p)))]) 0))"
proof -
  have "to_HHDM hhdm p \<noteq> 0"
    using assms by (auto simp: wf_block_def)
  then show ?thesis
    using FreePages_into_empty [of hhdm s p k] FreePages_above [of hhdm t bs p k] by blast
qed

lemma PMM_FreePages_size_lost_witness:
  "\<exists>t'. FreePages 0 sample_pmm 0x10000 2 = Inr t' \<and>
     blocks (mem t') (m_FreeListStart t') ([(0x8000, 4)] @ [(0x10000, 4)]) 0"
proof -
  have "wf_block (unat (0::u64) + 4096) (to_HHDM 0 0x10000, 2)"
    by (simp add: wf_block_def to_HHDM_def block_end_def)
  from PMM_FreePages_size_lost [OF this, of sample_pmm sample_pmm "[(0x8000, 4)]"] sample_pmm_inv show ?thesis
    by (auto simp: sample_pmm_def to_HHDM_def block_end_def)
qed

text \<open>
  C17. Initialisation from a memory map whose usable entries are page aligned, ascending and disjoint (after
  page 0 has been taken out) establishes the invariant, with exactly those ranges free, and in every state
  that satisfies the invariant the self check \<^verbatim>\<open>Verify\<close> passes.
\<close>

theorem PMM_Init_Verify:
  assumes "wf_blocks (unat hhdm + 4096) (init_blocks hhdm es)" "unat hhdm + 4096 < 2 ^ 64"
  shows "\<exists>s. Init hhdm (PMM_new m) es = Inr (s, map adjust es) \<and> pmm_inv hhdm s (init_blocks hhdm es) \<and>
    m_usedPageCount s = 0 \<and> Verify s = Inr () \<and> (\<forall>t bs. pmm_inv hhdm t bs \<longrightarrow> Verify t = Inr ())"
  using Init_inv [OF assms] Verify_inv by blast

lemma PMM_Init_Verify_witness:
  "\<exists>s es. Init 0 (PMM_new (\<lambda>_. \<lparr>PageCount = 0, Next = 0\<rparr>)) [\<lparr>Base = 0, Length = 0x3000, EntryType = 0\<rparr>, \<lparr>Base = 0x5000, Length = 0x1000, EntryType = 1\<rparr>,
      \<lparr>Base = 0x8000, Length = 0x4000, EntryType = 0\<rparr>] = Inr (s, es) \<and> Verify s = Inr ()"
proof -
  let ?es = "[\<lparr>Base = 0, Length = 0x3000, EntryType = 0\<rparr>, \<lparr>Base = 0x5000, Length = 0x1000, EntryType = 1\<rparr>,
      \<lparr>Base = 0x8000, Length = 0x4000, EntryType = 0\<rparr>] :: MemoryMapEntry list"
  have "wf_blocks (unat (0::u64) + 4096) (init_blocks 0 ?es)"
    by (simp add: init_blocks_def entry_block_def adjust_def MEMORY_MAP_ENTRY_USABLE_def PAGE_SIZE_def block_end_def
        drop_bit_eq_div)
  from PMM_Init_Verify [OF this, of "\<lambda>_. \<lparr>PageCount = 0, Next = 0\<rparr>"] show ?thesis
    by auto
qed

text \<open>
  C18. The special cases agree with the general ones: \<^verbatim>\<open>FreePage\<close> is \<^verbatim>\<open>FreePages\<close> of one page, in every
  state, and a manager with no free page refuses every allocation by stopping the machine.
\<close>

theorem PMM_single_page:
  "FreePage hhdm s page = FreePages hhdm s page 1 \<and> AllocatePages hhdm s 1 = AllocatePage hhdm s \<and>
   (pmm_inv hhdm t [] \<longrightarrow> AllocatePages hhdm t k = Inl AssertFailed)"
  by (simp add: FreePage_def FreePages_def FreePage_loop_eq AllocatePages_exhausted) (simp add: AllocatePages_def)

lemma PMM_single_page_witness:
  "AllocatePages 0 (PMM_new (\<lambda>_. \<lparr>PageCount = 0, Next = 0\<rparr>)) 5 = Inl AssertFailed"
  using PMM_single_page [of 0 "PMM_new (\<lambda>_. \<lparr>PageCount = 0, Next = 0\<rparr>)" 0 "PMM_new (\<lambda>_. \<lparr>PageCount = 0, Next = 0\<rparr>)" 5]
  by (simp add: pmm_inv_def PMM_new_def)

end
