(* ===== verification/PageTables.thy ===== *)
theory PageTables
  imports PMM
begin

text \<open>
  The page tables of arch/x86_64/Memory/PageTables.cpp. The store \<open>pt\<close> gives the 64 bit entry at
  an address of the direct map, and \<open>g_PMM\<close> is the physical memory manager that provides the pages
  of new tables. The nodes of its free list are a store of their own, although they lie in the same physical pages as the
  tables; the theorems keep the pages of linked tables and of the free list apart. Whether the processor has five levels is the argument \<open>la57\<close>, what
  \<^verbatim>\<open>x86_64_Is5LevelPagingSupported\<close> returns, and \<open>hhdm\<close> is the offset of the direct map.
\<close>

record Paging =
  g_PMM :: PMM
  pt :: "u64 \<Rightarrow> u64"

definition set_entry :: "Paging \<Rightarrow> u64 \<Rightarrow> u64 \<Rightarrow> Paging" where
  "set_entry s e v = s\<lparr>pt := (pt s)(e := v)\<rparr>"

definition memset_page :: "Paging \<Rightarrow> u64 \<Rightarrow> Paging" where
  "memset_page s data =
     s\<lparr>pt := (\<lambda>a. if unat data \<le> unat a \<and> unat a < unat data + 4096 then 0 else pt s a)\<rparr>"

definition levels :: "bool \<Rightarrow> nat" where
  "levels la57 = (if la57 then 5 else 4)"

definition entry_index :: "u64 \<Rightarrow> nat \<Rightarrow> u64" where
  "entry_index virtualAddress i = drop_bit (12 + (i - 1) * 9) virtualAddress AND 0x1FF"

definition entry_addr :: "u64 \<Rightarrow> u64 \<Rightarrow> nat \<Rightarrow> u64" where
  "entry_addr pageTable virtualAddress i = pageTable + entry_index virtualAddress i * 8"

text \<open>The bit fields \<^verbatim>\<open>Present\<close> and \<^verbatim>\<open>PageSize\<close> of an entry.\<close>

definition Present :: "u64 \<Rightarrow> bool" where
  "Present entry = bit entry 0"

definition PageSize :: "u64 \<Rightarrow> bool" where
  "PageSize entry = bit entry 7"

section \<open>Walking\<close>

definition x86_64_GetNextPageTable :: "bool \<Rightarrow> (u64 \<Rightarrow> u64) \<Rightarrow> u64 \<Rightarrow> nat \<Rightarrow> u64 res" where
  "x86_64_GetNextPageTable la57 m pageTableEntry index =
     (if index > 5 \<or> index \<le> 1 then
        (if index < 1 \<or> index > 5 then Inl AssertFailed else Inr 0)
      else if pageTableEntry = 0 then Inr 0
      else if index = 5 \<and> \<not> la57 then Inr 0
      else if index = 3 \<and> PageSize (m pageTableEntry) then Inr 0
      else if index = 2 \<and> PageSize (m pageTableEntry) then Inr 0
      else if \<not> Present (m pageTableEntry) then Inr 0
      else Inr (m pageTableEntry AND 0x000FFFFFFFFFF000))"

text \<open>
  As in the code, 0 is the answer for an absent page as well as for one that is mapped to frame 0: the last level is
  read without a test of the present bit.
\<close>

primrec GetPhysicalAddress_loop :: "bool \<Rightarrow> u64 \<Rightarrow> (u64 \<Rightarrow> u64) \<Rightarrow> u64 \<Rightarrow> nat \<Rightarrow> u64 \<Rightarrow> u64 res" where
  "GetPhysicalAddress_loop la57 hhdm m virtualAddress 0 pageTable = Inr 0"
| "GetPhysicalAddress_loop la57 hhdm m virtualAddress (Suc n) pageTable =
     (if pageTable = 0 then Inr 0
      else
        (let i = Suc n; e = entry_addr pageTable virtualAddress i in
         if i = 1 then Inr (m e AND 0x000FFFFFFFFFF000)
         else
           bindR (x86_64_GetNextPageTable la57 m e i) (\<lambda>newPageTable.
           if newPageTable = 0 then
             (if i = 3 \<and> PageSize (m e) \<and> Present (m e) then Inr (m e AND 0x000FFFFFC0000000)
              else if i = 2 \<and> PageSize (m e) \<and> Present (m e) then Inr (m e AND 0x000FFFFFFFE00000)
              else Inr 0)
           else GetPhysicalAddress_loop la57 hhdm m virtualAddress n (to_HHDM hhdm newPageTable))))"

definition x86_64_GetPhysicalAddress :: "bool \<Rightarrow> u64 \<Rightarrow> Paging \<Rightarrow> u64 \<Rightarrow> u64 \<Rightarrow> u64 res" where
  "x86_64_GetPhysicalAddress la57 hhdm s pageTable virtualAddress =
     GetPhysicalAddress_loop la57 hhdm (pt s) virtualAddress (levels la57) pageTable"

section \<open>Mapping\<close>

text \<open>The missing table: a page is allocated and cleared and the entry is made to point to it.\<close>

definition new_table :: "u64 \<Rightarrow> Paging \<Rightarrow> u64 \<Rightarrow> u32 \<Rightarrow> (Paging \<times> u64) res" where
  "new_table hhdm s e flags =
     bindR (AllocatePage hhdm (g_PMM s)) (\<lambda>(pmm, page).
     let data = to_HHDM hhdm page;
         s = memset_page (s\<lparr>g_PMM := pmm\<rparr>) data
     in Inr (set_entry s e (from_HHDM hhdm data OR (ucast flags AND 0xF67) OR 1), data))"

text \<open>The existing table: the entry gets the permissions of the new mapping as well.\<close>

definition widen_entry :: "Paging \<Rightarrow> u64 \<Rightarrow> u32 \<Rightarrow> Paging" where
  "widen_entry s e flags =
     set_entry s e ((pt s e AND 0x000FFFFFFFFFFFFF) OR (ucast flags AND 0xF67))"

definition leaf_4KiB :: "u64 \<Rightarrow> u32 \<Rightarrow> u64" where
  "leaf_4KiB phys flags =
     (phys AND 0x000FFFFFFFFFF000) OR push_bit 36 (ucast flags AND 0x08000000) OR (ucast flags AND 0xFFF) OR 1"

definition leaf_2MiB :: "u64 \<Rightarrow> u32 \<Rightarrow> u64" where
  "leaf_2MiB phys flags =
     (phys AND 0x000FFFFFFFE00000) OR push_bit 36 (ucast flags AND 0x08000000) OR (ucast flags AND 0x1FFF) OR 1 OR 0x80"

definition leaf_1GiB :: "u64 \<Rightarrow> u32 \<Rightarrow> u64" where
  "leaf_1GiB phys flags =
     (phys AND 0x000FFFFFC0000000) OR push_bit 36 (ucast flags AND 0x08000000) OR (ucast flags AND 0x1FFF) OR 1 OR 0x80"

primrec MapPage_loop :: "bool \<Rightarrow> u64 \<Rightarrow> u64 \<Rightarrow> u64 \<Rightarrow> u32 \<Rightarrow> nat \<Rightarrow> u64 \<Rightarrow> Paging \<Rightarrow> Paging res" where
  "MapPage_loop la57 hhdm virtualAddress physicalAddress flags 0 pageTable s = Inr s"
| "MapPage_loop la57 hhdm virtualAddress physicalAddress flags (Suc n) pageTable s =
     (if pageTable = 0 then Inr s
      else
        (let i = Suc n; e = entry_addr pageTable virtualAddress i in
         bindR (x86_64_GetNextPageTable la57 (pt s) e i) (\<lambda>newPageTable.
         if newPageTable = 0 then
           (if i = 3 \<and> PageSize (pt s e) \<and> Present (pt s e) \<or> i = 2 \<and> PageSize (pt s e) \<and> Present (pt s e)
            then Inr s
            else if i = 1 then Inr (set_entry s e (leaf_4KiB physicalAddress flags))
            else
              bindR (new_table hhdm s e flags) (\<lambda>(s, data).
              MapPage_loop la57 hhdm virtualAddress physicalAddress flags n data s))
         else
           MapPage_loop la57 hhdm virtualAddress physicalAddress flags n (to_HHDM hhdm newPageTable)
             (widen_entry s e flags))))"

definition x86_64_MapPage :: "bool \<Rightarrow> u64 \<Rightarrow> Paging \<Rightarrow> u64 \<Rightarrow> u64 \<Rightarrow> u64 \<Rightarrow> u32 \<Rightarrow> Paging res" where
  "x86_64_MapPage la57 hhdm s pageTable virtualAddress physicalAddress flags =
     MapPage_loop la57 hhdm virtualAddress physicalAddress flags (levels la57) pageTable s"

primrec Map2MiBPage_loop :: "bool \<Rightarrow> u64 \<Rightarrow> u64 \<Rightarrow> u64 \<Rightarrow> u32 \<Rightarrow> nat \<Rightarrow> u64 \<Rightarrow> Paging \<Rightarrow> Paging res" where
  "Map2MiBPage_loop la57 hhdm virtualAddress physicalAddress flags 0 pageTable s = Inr s"
| "Map2MiBPage_loop la57 hhdm virtualAddress physicalAddress flags (Suc n) pageTable s =
     (if pageTable = 0 then Inr s
      else
        (let i = Suc n; e = entry_addr pageTable virtualAddress i in
         if i < 2 then Inr s
         else
           bindR (x86_64_GetNextPageTable la57 (pt s) e i) (\<lambda>newPageTable.
           if newPageTable = 0 then
             (if i = 3 \<and> PageSize (pt s e) \<and> Present (pt s e) then Inr s
              else if i = 2 then Inr (set_entry s e (leaf_2MiB physicalAddress flags))
              else
                bindR (new_table hhdm s e flags) (\<lambda>(s, data).
                Map2MiBPage_loop la57 hhdm virtualAddress physicalAddress flags n data s))
           else
             Map2MiBPage_loop la57 hhdm virtualAddress physicalAddress flags n (to_HHDM hhdm newPageTable)
               (widen_entry s e flags))))"

definition x86_64_Map2MiBPage :: "bool \<Rightarrow> u64 \<Rightarrow> Paging \<Rightarrow> u64 \<Rightarrow> u64 \<Rightarrow> u64 \<Rightarrow> u32 \<Rightarrow> Paging res" where
  "x86_64_Map2MiBPage la57 hhdm s pageTable virtualAddress physicalAddress flags =
     Map2MiBPage_loop la57 hhdm virtualAddress physicalAddress flags (levels la57) pageTable s"

primrec Map1GiBPage_loop :: "bool \<Rightarrow> u64 \<Rightarrow> u64 \<Rightarrow> u64 \<Rightarrow> u32 \<Rightarrow> nat \<Rightarrow> u64 \<Rightarrow> Paging \<Rightarrow> Paging res" where
  "Map1GiBPage_loop la57 hhdm virtualAddress physicalAddress flags 0 pageTable s = Inr s"
| "Map1GiBPage_loop la57 hhdm virtualAddress physicalAddress flags (Suc n) pageTable s =
     (if pageTable = 0 then Inr s
      else
        (let i = Suc n; e = entry_addr pageTable virtualAddress i in
         if i < 3 then Inr s
         else
           bindR (x86_64_GetNextPageTable la57 (pt s) e i) (\<lambda>newPageTable.
           if newPageTable = 0 then
             (if i = 3 then Inr (set_entry s e (leaf_1GiB physicalAddress flags))
              else
                bindR (new_table hhdm s e flags) (\<lambda>(s, data).
                Map1GiBPage_loop la57 hhdm virtualAddress physicalAddress flags n data s))
           else
             Map1GiBPage_loop la57 hhdm virtualAddress physicalAddress flags n (to_HHDM hhdm newPageTable)
               (widen_entry s e flags))))"

definition x86_64_Map1GiBPage :: "bool \<Rightarrow> u64 \<Rightarrow> Paging \<Rightarrow> u64 \<Rightarrow> u64 \<Rightarrow> u64 \<Rightarrow> u32 \<Rightarrow> Paging res" where
  "x86_64_Map1GiBPage la57 hhdm s pageTable virtualAddress physicalAddress flags =
     Map1GiBPage_loop la57 hhdm virtualAddress physicalAddress flags (levels la57) pageTable s"

section \<open>Changing a mapping\<close>

definition reflag :: "u64 \<Rightarrow> u64 \<Rightarrow> u64 \<Rightarrow> u32 \<Rightarrow> u64" where
  "reflag keep fl entry flags =
     (entry AND keep) OR (push_bit 36 (ucast flags AND 0x08000000) OR (ucast flags AND fl) OR 1)"

primrec RemapPage_loop :: "bool \<Rightarrow> u64 \<Rightarrow> u64 \<Rightarrow> u32 \<Rightarrow> nat \<Rightarrow> u64 \<Rightarrow> Paging \<Rightarrow> Paging res" where
  "RemapPage_loop la57 hhdm virtualAddress flags 0 pageTable s = Inr s"
| "RemapPage_loop la57 hhdm virtualAddress flags (Suc n) pageTable s =
     (if pageTable = 0 then Inr s
      else
        (let i = Suc n; e = entry_addr pageTable virtualAddress i in
         if i = 1 then Inr (set_entry s e (reflag 0x000FFFFFFFFFF000 0xFFF (pt s e) flags))
         else
           bindR (x86_64_GetNextPageTable la57 (pt s) e i) (\<lambda>newPageTable.
           if newPageTable = 0 then Inr s
           else RemapPage_loop la57 hhdm virtualAddress flags n (to_HHDM hhdm newPageTable)
                  (widen_entry s e flags))))"

definition x86_64_RemapPage :: "bool \<Rightarrow> u64 \<Rightarrow> Paging \<Rightarrow> u64 \<Rightarrow> u64 \<Rightarrow> u32 \<Rightarrow> Paging res" where
  "x86_64_RemapPage la57 hhdm s pageTable virtualAddress flags =
     RemapPage_loop la57 hhdm virtualAddress flags (levels la57) pageTable s"

primrec Remap2MiBPage_loop :: "bool \<Rightarrow> u64 \<Rightarrow> u64 \<Rightarrow> u32 \<Rightarrow> nat \<Rightarrow> u64 \<Rightarrow> Paging \<Rightarrow> Paging res" where
  "Remap2MiBPage_loop la57 hhdm virtualAddress flags 0 pageTable s = Inr s"
| "Remap2MiBPage_loop la57 hhdm virtualAddress flags (Suc n) pageTable s =
     (if pageTable = 0 then Inr s
      else
        (let i = Suc n; e = entry_addr pageTable virtualAddress i in
         if i < 2 then Inr s
         else
           bindR (x86_64_GetNextPageTable la57 (pt s) e i) (\<lambda>newPageTable.
           if newPageTable = 0 then
             (if i = 2 then
                Inr (set_entry s e (reflag 0x000FFFFFFFE00000 0x1FFF (pt s e) flags OR 0x80))
              else Inr s)
           else Remap2MiBPage_loop la57 hhdm virtualAddress flags n (to_HHDM hhdm newPageTable)
                  (widen_entry s e flags))))"

definition x86_64_Remap2MiBPage :: "bool \<Rightarrow> u64 \<Rightarrow> Paging \<Rightarrow> u64 \<Rightarrow> u64 \<Rightarrow> u32 \<Rightarrow> Paging res" where
  "x86_64_Remap2MiBPage la57 hhdm s pageTable virtualAddress flags =
     Remap2MiBPage_loop la57 hhdm virtualAddress flags (levels la57) pageTable s"

primrec Remap1GiBPage_loop :: "bool \<Rightarrow> u64 \<Rightarrow> u64 \<Rightarrow> u32 \<Rightarrow> nat \<Rightarrow> u64 \<Rightarrow> Paging \<Rightarrow> Paging res" where
  "Remap1GiBPage_loop la57 hhdm virtualAddress flags 0 pageTable s = Inr s"
| "Remap1GiBPage_loop la57 hhdm virtualAddress flags (Suc n) pageTable s =
     (if pageTable = 0 then Inr s
      else
        (let i = Suc n; e = entry_addr pageTable virtualAddress i in
         bindR (x86_64_GetNextPageTable la57 (pt s) e i) (\<lambda>newPageTable.
         if newPageTable = 0 then
           (if i = 3 then
              Inr (set_entry s e (reflag 0x000FFFFFC0000000 0x1FFF (pt s e) flags OR 0x80))
            else Inr s)
         else Remap1GiBPage_loop la57 hhdm virtualAddress flags n (to_HHDM hhdm newPageTable)
                (widen_entry s e flags))))"

definition x86_64_Remap1GiBPage :: "bool \<Rightarrow> u64 \<Rightarrow> Paging \<Rightarrow> u64 \<Rightarrow> u64 \<Rightarrow> u64 \<Rightarrow> u32 \<Rightarrow> Paging res" where
  "x86_64_Remap1GiBPage la57 hhdm s pageTable virtualAddress physicalAddress flags =
     Remap1GiBPage_loop la57 hhdm virtualAddress flags (levels la57) pageTable s"

section \<open>Unmapping\<close>

text \<open>
  The way down records the address of the entry of each level above the leaf in the array
  \<^verbatim>\<open>entryStack\<close>. The outcome is \<open>None\<close> when the function returns on the way, and otherwise the
  array and the address of the leaf entry, if the walk came to it.
\<close>

primrec UnmapPage_walk ::
  "bool \<Rightarrow> u64 \<Rightarrow> (u64 \<Rightarrow> u64) \<Rightarrow> u64 \<Rightarrow> nat \<Rightarrow> u64 \<Rightarrow> u64 list \<Rightarrow> (u64 list \<times> u64 option) option res" where
  "UnmapPage_walk la57 hhdm m virtualAddress 0 pageTable entryStack =
     Inr (if pageTable = 0 then Some (entryStack, None) else None)"
| "UnmapPage_walk la57 hhdm m virtualAddress (Suc n) pageTable entryStack =
     (if pageTable = 0 then Inr (Some (entryStack, None))
      else
        (let i = Suc n; e = entry_addr pageTable virtualAddress i in
         if i = 1 then Inr (Some (entryStack, Some e))
         else if i - 2 \<ge> length entryStack then Inl OutOfBounds
         else
           (let entryStack = entryStack[i - 2 := e] in
            bindR (x86_64_GetNextPageTable la57 m e i) (\<lambda>newPageTable.
            if newPageTable = 0 then Inr None
            else UnmapPage_walk la57 hhdm m virtualAddress n (to_HHDM hhdm newPageTable) entryStack))))"

text \<open>The way up frees the tables that have no present entry.\<close>

definition table_used :: "(u64 \<Rightarrow> u64) \<Rightarrow> u64 \<Rightarrow> bool" where
  "table_used m table = list_ex (\<lambda>j. bit (m (table + of_nat j * 8)) 0) [0..<512]"

primrec release_tables :: "u64 \<Rightarrow> u64 list \<Rightarrow> nat \<Rightarrow> nat \<Rightarrow> Paging \<Rightarrow> Paging res" where
  "release_tables hhdm entryStack 0 i s = Inr s"
| "release_tables hhdm entryStack (Suc k) i s =
     (if i \<ge> length entryStack then Inl OutOfBounds
      else
        (let entry = entryStack ! i in
         if entry = 0 then Inr s
         else
           (let table = to_HHDM hhdm (pt s entry AND 0x000FFFFFFFFFF000) in
            if table_used (pt s) table then Inr s
            else
              bindR (FreePage hhdm (g_PMM s) (from_HHDM hhdm table)) (\<lambda>pmm.
              release_tables hhdm entryStack k (i + 1) (set_entry (s\<lparr>g_PMM := pmm\<rparr>) entry 0)))))"

definition x86_64_UnmapPage :: "bool \<Rightarrow> u64 \<Rightarrow> Paging \<Rightarrow> u64 \<Rightarrow> u64 \<Rightarrow> Paging res" where
  "x86_64_UnmapPage la57 hhdm s pageTable virtualAddress =
     bindR (UnmapPage_walk la57 hhdm (pt s) virtualAddress (levels la57) pageTable [0, 0, 0, 0]) (\<lambda>w.
     case w of
       None \<Rightarrow> Inr s
     | Some (entryStack, leaf) \<Rightarrow>
         release_tables hhdm entryStack (levels la57) 0
           (case leaf of None \<Rightarrow> s | Some e \<Rightarrow> set_entry s e 0))"

text \<open>
  For the large pages the array is not initialised: \<open>junk\<close> is what the stack holds when the
  function is entered.
\<close>

primrec UnmapLarge_walk ::
  "nat \<Rightarrow> bool \<Rightarrow> u64 \<Rightarrow> (u64 \<Rightarrow> u64) \<Rightarrow> u64 \<Rightarrow> nat \<Rightarrow> u64 \<Rightarrow> u64 list \<Rightarrow> (u64 list \<times> u64 option) option res" where
  "UnmapLarge_walk lvl la57 hhdm m virtualAddress 0 pageTable entryStack =
     Inr (if pageTable = 0 then Some (entryStack, None) else None)"
| "UnmapLarge_walk lvl la57 hhdm m virtualAddress (Suc n) pageTable entryStack =
     (if pageTable = 0 then Inr (Some (entryStack, None))
      else if Suc n < lvl then Inr None
      else
        (let i = Suc n; e = entry_addr pageTable virtualAddress i in
         if i = lvl then Inr (Some (entryStack, Some e))
         else if i - (lvl + 1) \<ge> length entryStack then Inl OutOfBounds
         else
           (let entryStack = entryStack[i - (lvl + 1) := e] in
            bindR (x86_64_GetNextPageTable la57 m e i) (\<lambda>newPageTable.
            if newPageTable = 0 then Inr None
            else UnmapLarge_walk lvl la57 hhdm m virtualAddress n (to_HHDM hhdm newPageTable) entryStack))))"

definition x86_64_Unmap2MiBPage :: "u64 list \<Rightarrow> bool \<Rightarrow> u64 \<Rightarrow> Paging \<Rightarrow> u64 \<Rightarrow> u64 \<Rightarrow> Paging res" where
  "x86_64_Unmap2MiBPage junk la57 hhdm s pageTable virtualAddress =
     bindR (UnmapLarge_walk 2 la57 hhdm (pt s) virtualAddress (levels la57) pageTable (take 3 junk)) (\<lambda>w.
     case w of
       None \<Rightarrow> Inr s
     | Some (entryStack, leaf) \<Rightarrow>
         release_tables hhdm entryStack 3 0 (case leaf of None \<Rightarrow> s | Some e \<Rightarrow> set_entry s e 0))"

definition x86_64_Unmap1GiBPage :: "u64 list \<Rightarrow> bool \<Rightarrow> u64 \<Rightarrow> Paging \<Rightarrow> u64 \<Rightarrow> u64 \<Rightarrow> Paging res" where
  "x86_64_Unmap1GiBPage junk la57 hhdm s pageTable virtualAddress =
     bindR (UnmapLarge_walk 3 la57 hhdm (pt s) virtualAddress (levels la57) pageTable (take 2 junk)) (\<lambda>w.
     case w of
       None \<Rightarrow> Inr s
     | Some (entryStack, leaf) \<Rightarrow>
         release_tables hhdm entryStack 2 0 (case leaf of None \<Rightarrow> s | Some e \<Rightarrow> set_entry s e 0))"

end
