(* ===== verification/PageMapper.thy ===== *)
theory PageMapper
  imports PageTables Sync
begin

text \<open>
  The page mapper of arch/x86_64/Memory: the flags of a protection and of a cache type (PAT.cpp), the
  class \<^verbatim>\<open>x86_64_PageMapper\<close> (PageMapper.cpp) and the mapping of regions with the largest pages
  (PagingUtil.cpp). The operations on the translation cache are a list of events.
\<close>

section \<open>Protections and cache types\<close>

datatype Protection = NONE | READ | WRITE | EXECUTE | READ_WRITE | READ_EXECUTE | READ_WRITE_EXECUTE

datatype CacheType = UNCACHABLE | WRITE_BACK | WRITE_THROUGH | WRITE_PROTECTED | WRITE_COMBINING

datatype x86_64_PATOffset = WriteBack | WriteThrough | Uncached | Uncachable | WriteProtected | WriteCombining

primrec PATOffset_value :: "x86_64_PATOffset \<Rightarrow> u16" where
  "PATOffset_value WriteBack = 0"
| "PATOffset_value WriteThrough = 1"
| "PATOffset_value Uncached = 2"
| "PATOffset_value Uncachable = 3"
| "PATOffset_value WriteProtected = 4"
| "PATOffset_value WriteCombining = 5"

primrec PATEncoding_value :: "x86_64_PATOffset \<Rightarrow> u64" where
  "PATEncoding_value Uncachable = 0"
| "PATEncoding_value WriteCombining = 1"
| "PATEncoding_value WriteThrough = 4"
| "PATEncoding_value WriteProtected = 5"
| "PATEncoding_value WriteBack = 6"
| "PATEncoding_value Uncached = 7"

text \<open>The value that \<^verbatim>\<open>x86_64_InitPAT\<close> writes to the register.\<close>

definition x86_64_InitPAT :: u64 where
  "x86_64_InitPAT =
     push_bit 0 (PATEncoding_value WriteBack) OR push_bit 8 (PATEncoding_value WriteThrough) OR
     push_bit 16 (PATEncoding_value Uncached) OR push_bit 24 (PATEncoding_value Uncachable) OR
     push_bit 32 (PATEncoding_value WriteProtected) OR push_bit 40 (PATEncoding_value WriteCombining) OR
     push_bit 48 (PATEncoding_value WriteBack) OR push_bit 56 (PATEncoding_value WriteBack)"

definition x86_64_PAT_GetPageMappingFlags :: "x86_64_PATOffset \<Rightarrow> u16" where
  "x86_64_PAT_GetPageMappingFlags off =
     push_bit 3 (PATOffset_value off AND 3) OR push_bit 5 (PATOffset_value off AND 4)"

definition x86_64_PAT_GetLargePageMappingFlags :: "x86_64_PATOffset \<Rightarrow> u16" where
  "x86_64_PAT_GetLargePageMappingFlags off =
     push_bit 3 (PATOffset_value off AND 3) OR push_bit 10 (PATOffset_value off AND 4)"

section \<open>The class x86_64_PageMapper\<close>

record x86_64_PageMapper =
  m_pageTable :: u64
  pm_lock :: u64

definition PageMapper_new :: "u64 \<Rightarrow> x86_64_PageMapper" where
  "PageMapper_new pageTable = \<lparr>m_pageTable = pageTable, pm_lock = SPINLOCK_DEFAULT_VALUE\<rparr>"

primrec prot_flags :: "Protection \<Rightarrow> u32 option" where
  "prot_flags NONE = None"
| "prot_flags READ = Some (1 OR 0x8000000)"
| "prot_flags WRITE = None"
| "prot_flags EXECUTE = None"
| "prot_flags READ_WRITE = Some (1 OR 0x8000002)"
| "prot_flags READ_EXECUTE = Some (1 OR 0)"
| "prot_flags READ_WRITE_EXECUTE = Some (1 OR 2)"

primrec cache_offset :: "CacheType \<Rightarrow> x86_64_PATOffset" where
  "cache_offset UNCACHABLE = Uncachable"
| "cache_offset WRITE_BACK = WriteBack"
| "cache_offset WRITE_THROUGH = WriteThrough"
| "cache_offset WRITE_PROTECTED = WriteProtected"
| "cache_offset WRITE_COMBINING = WriteCombining"

definition page_flags :: "Protection \<Rightarrow> bool \<Rightarrow> CacheType \<Rightarrow> u32 option" where
  "page_flags prot user cacheType =
     (case prot_flags prot of
        None \<Rightarrow> None
      | Some flags \<Rightarrow>
          Some ((if user then flags OR 4 else flags) OR ucast (x86_64_PAT_GetPageMappingFlags (cache_offset cacheType))))"

definition PageMapper_MapPage ::
  "bool \<Rightarrow> u64 \<Rightarrow> Paging \<Rightarrow> x86_64_PageMapper \<Rightarrow> u64 \<Rightarrow> u64 \<Rightarrow> Protection \<Rightarrow> bool \<Rightarrow> CacheType \<Rightarrow>
   (Paging \<times> x86_64_PageMapper \<times> bool) res" where
  "PageMapper_MapPage la57 hhdm s m virt phys prot user cacheType =
     (case page_flags prot user cacheType of
        None \<Rightarrow> Inr (s, m, False)
      | Some flags \<Rightarrow>
          bindR (spinlock_acquire (pm_lock m)) (\<lambda>l.
          bindR (x86_64_MapPage la57 hhdm s (m_pageTable m) virt phys flags) (\<lambda>s.
          Inr (s, m\<lparr>pm_lock := spinlock_release l\<rparr>, True))))"

primrec PageMapper_MapPages_loop ::
  "bool \<Rightarrow> u64 \<Rightarrow> u64 \<Rightarrow> u64 \<Rightarrow> Protection \<Rightarrow> bool \<Rightarrow> CacheType \<Rightarrow> nat \<Rightarrow> u64 \<Rightarrow> Paging \<Rightarrow> x86_64_PageMapper \<Rightarrow>
   (Paging \<times> x86_64_PageMapper \<times> bool) res" where
  "PageMapper_MapPages_loop la57 hhdm virt phys prot user cacheType 0 i s m = Inr (s, m, True)"
| "PageMapper_MapPages_loop la57 hhdm virt phys prot user cacheType (Suc k) i s m =
     bindR (PageMapper_MapPage la57 hhdm s m (virt + i * PAGE_SIZE) (phys + i * PAGE_SIZE) prot user cacheType)
       (\<lambda>(s, m, ok).
        if \<not> ok then Inr (s, m, False)
        else PageMapper_MapPages_loop la57 hhdm virt phys prot user cacheType k (i + 1) s m)"

definition PageMapper_MapPages ::
  "bool \<Rightarrow> u64 \<Rightarrow> Paging \<Rightarrow> x86_64_PageMapper \<Rightarrow> u64 \<Rightarrow> u64 \<Rightarrow> u64 \<Rightarrow> Protection \<Rightarrow> bool \<Rightarrow> CacheType \<Rightarrow>
   (Paging \<times> x86_64_PageMapper \<times> bool) res" where
  "PageMapper_MapPages la57 hhdm s m virt phys count prot user cacheType =
     PageMapper_MapPages_loop la57 hhdm virt phys prot user cacheType (unat count) 0 s m"

definition PageMapper_UnmapPage ::
  "bool \<Rightarrow> u64 \<Rightarrow> Paging \<Rightarrow> x86_64_PageMapper \<Rightarrow> u64 \<Rightarrow> (Paging \<times> x86_64_PageMapper \<times> bool) res" where
  "PageMapper_UnmapPage la57 hhdm s m virt =
     bindR (spinlock_acquire (pm_lock m)) (\<lambda>l.
     bindR (x86_64_UnmapPage la57 hhdm s (m_pageTable m) virt) (\<lambda>s.
     Inr (s, m\<lparr>pm_lock := spinlock_release l\<rparr>, True)))"

primrec PageMapper_UnmapPages_loop ::
  "bool \<Rightarrow> u64 \<Rightarrow> u64 \<Rightarrow> nat \<Rightarrow> u64 \<Rightarrow> Paging \<Rightarrow> x86_64_PageMapper \<Rightarrow> (Paging \<times> x86_64_PageMapper \<times> bool) res" where
  "PageMapper_UnmapPages_loop la57 hhdm virt 0 i s m = Inr (s, m, True)"
| "PageMapper_UnmapPages_loop la57 hhdm virt (Suc k) i s m =
     bindR (PageMapper_UnmapPage la57 hhdm s m (virt + i * PAGE_SIZE)) (\<lambda>(s, m, ok).
     if \<not> ok then Inr (s, m, False) else PageMapper_UnmapPages_loop la57 hhdm virt k (i + 1) s m)"

definition PageMapper_UnmapPages ::
  "bool \<Rightarrow> u64 \<Rightarrow> Paging \<Rightarrow> x86_64_PageMapper \<Rightarrow> u64 \<Rightarrow> u64 \<Rightarrow> (Paging \<times> x86_64_PageMapper \<times> bool) res" where
  "PageMapper_UnmapPages la57 hhdm s m virt count = PageMapper_UnmapPages_loop la57 hhdm virt (unat count) 0 s m"

definition PageMapper_RemapPage ::
  "bool \<Rightarrow> u64 \<Rightarrow> Paging \<Rightarrow> x86_64_PageMapper \<Rightarrow> u64 \<Rightarrow> Protection \<Rightarrow> bool \<Rightarrow> CacheType \<Rightarrow>
   (Paging \<times> x86_64_PageMapper \<times> bool) res" where
  "PageMapper_RemapPage la57 hhdm s m virt prot user cacheType =
     (case page_flags prot user cacheType of
        None \<Rightarrow> Inr (s, m, False)
      | Some flags \<Rightarrow>
          bindR (spinlock_acquire (pm_lock m)) (\<lambda>l.
          bindR (x86_64_RemapPage la57 hhdm s (m_pageTable m) virt flags) (\<lambda>s.
          Inr (s, m\<lparr>pm_lock := spinlock_release l\<rparr>, True))))"

primrec PageMapper_RemapPages_loop ::
  "bool \<Rightarrow> u64 \<Rightarrow> u64 \<Rightarrow> Protection \<Rightarrow> bool \<Rightarrow> CacheType \<Rightarrow> nat \<Rightarrow> u64 \<Rightarrow> Paging \<Rightarrow> x86_64_PageMapper \<Rightarrow>
   (Paging \<times> x86_64_PageMapper \<times> bool) res" where
  "PageMapper_RemapPages_loop la57 hhdm virt prot user cacheType 0 i s m = Inr (s, m, True)"
| "PageMapper_RemapPages_loop la57 hhdm virt prot user cacheType (Suc k) i s m =
     bindR (PageMapper_RemapPage la57 hhdm s m (virt + i * PAGE_SIZE) prot user cacheType) (\<lambda>(s, m, ok).
     if \<not> ok then Inr (s, m, False)
     else PageMapper_RemapPages_loop la57 hhdm virt prot user cacheType k (i + 1) s m)"

definition PageMapper_RemapPages ::
  "bool \<Rightarrow> u64 \<Rightarrow> Paging \<Rightarrow> x86_64_PageMapper \<Rightarrow> u64 \<Rightarrow> u64 \<Rightarrow> Protection \<Rightarrow> bool \<Rightarrow> CacheType \<Rightarrow>
   (Paging \<times> x86_64_PageMapper \<times> bool) res" where
  "PageMapper_RemapPages la57 hhdm s m virt count prot user cacheType =
     PageMapper_RemapPages_loop la57 hhdm virt prot user cacheType (unat count) 0 s m"

definition PageMapper_GetPhysicalAddr ::
  "bool \<Rightarrow> u64 \<Rightarrow> Paging \<Rightarrow> x86_64_PageMapper \<Rightarrow> u64 \<Rightarrow> (x86_64_PageMapper \<times> u64) res" where
  "PageMapper_GetPhysicalAddr la57 hhdm s m virt =
     bindR (spinlock_acquire (pm_lock m)) (\<lambda>l.
     bindR (x86_64_GetPhysicalAddress la57 hhdm s (m_pageTable m) virt) (\<lambda>phys.
     Inr (m\<lparr>pm_lock := spinlock_release l\<rparr>, phys)))"

section \<open>The translation cache\<close>

datatype tlb_event = FlushTLB | InvalidatePage u64 | RaiseINVPAGES u64 u64

definition FULL_FLUSH_THRESHOLD :: u64 where
  "FULL_FLUSH_THRESHOLD = 0x1000"

primrec InvalidatePages_loop :: "u64 \<Rightarrow> nat \<Rightarrow> u64 \<Rightarrow> tlb_event list" where
  "InvalidatePages_loop virtualAddress 0 i = []"
| "InvalidatePages_loop virtualAddress (Suc k) i =
     InvalidatePage (virtualAddress + i * PAGE_SIZE) # InvalidatePages_loop virtualAddress k (i + 1)"

definition x86_64_InvalidatePages :: "u64 \<Rightarrow> u64 \<Rightarrow> tlb_event list" where
  "x86_64_InvalidatePages virtualAddress sz =
     (let pageCount = DIV_ROUNDUP sz PAGE_SIZE in
      if pageCount \<ge> FULL_FLUSH_THRESHOLD then [FlushTLB]
      else InvalidatePages_loop virtualAddress (unat pageCount) 0)"

text \<open>\<open>lapic\<close>: whether there is a current processor with a local interrupt controller.\<close>

definition PageMapper_InvalidatePages :: "bool \<Rightarrow> u64 \<Rightarrow> u64 \<Rightarrow> bool \<Rightarrow> tlb_event list" where
  "PageMapper_InvalidatePages lapic virt count shootdown =
     x86_64_InvalidatePages virt (count * PAGE_SIZE) @
     (if shootdown \<and> lapic then [RaiseINVPAGES virt count] else [])"

definition isPermsReduction :: "Protection \<Rightarrow> Protection \<Rightarrow> bool" where
  "isPermsReduction oldProt newProt =
     (case newProt of
        READ \<Rightarrow> oldProt \<noteq> newProt
      | WRITE \<Rightarrow> oldProt \<noteq> EXECUTE \<and> oldProt \<noteq> READ_EXECUTE \<and> oldProt \<noteq> READ_WRITE_EXECUTE
      | READ_WRITE \<Rightarrow> oldProt \<noteq> EXECUTE \<and> oldProt \<noteq> READ_EXECUTE \<and> oldProt \<noteq> READ_WRITE_EXECUTE
      | EXECUTE \<Rightarrow> oldProt \<noteq> WRITE \<and> oldProt \<noteq> READ_WRITE \<and> oldProt \<noteq> READ_WRITE_EXECUTE
      | READ_EXECUTE \<Rightarrow> oldProt \<noteq> WRITE \<and> oldProt \<noteq> READ_WRITE \<and> oldProt \<noteq> READ_WRITE_EXECUTE
      | READ_WRITE_EXECUTE \<Rightarrow> False
      | NONE \<Rightarrow> True)"

section \<open>Creating and deleting an address space\<close>

definition memcpy_page :: "Paging \<Rightarrow> u64 \<Rightarrow> u64 \<Rightarrow> Paging" where
  "memcpy_page s dst source =
     s\<lparr>pt := (\<lambda>a. if unat dst \<le> unat a \<and> unat a < unat dst + 4096 then pt s (source + (a - dst)) else pt s a)\<rparr>"

definition PageMapper_Create :: "u64 \<Rightarrow> u64 \<Rightarrow> Paging \<Rightarrow> x86_64_PageMapper \<Rightarrow> (Paging \<times> x86_64_PageMapper) res" where
  "PageMapper_Create hhdm kernelPageTable s m =
     bindR (AllocatePage hhdm (g_PMM s)) (\<lambda>(pmm, page).
     let m_pt = to_HHDM hhdm page in
     Inr (memcpy_page (s\<lparr>g_PMM := pmm\<rparr>) m_pt kernelPageTable, m\<lparr>m_pageTable := m_pt\<rparr>))"

definition PageMapper_Delete :: "u64 \<Rightarrow> Paging \<Rightarrow> x86_64_PageMapper \<Rightarrow> (Paging \<times> x86_64_PageMapper) res" where
  "PageMapper_Delete hhdm s m =
     bindR (FreePage hhdm (g_PMM s) (from_HHDM hhdm (m_pageTable m))) (\<lambda>pmm.
     Inr (s\<lparr>g_PMM := pmm\<rparr>, m\<lparr>m_pageTable := 0\<rparr>))"

text \<open>The new value of the register cr3, if it is loaded.\<close>

definition PageMapper_SwapToThis :: "u64 \<Rightarrow> x86_64_PageMapper \<Rightarrow> u64 option" where
  "PageMapper_SwapToThis hhdm m = (if m_pageTable m = 0 then None else Some (from_HHDM hhdm (m_pageTable m)))"

definition CreatePageMapper :: "u64 \<Rightarrow> u64 \<Rightarrow> Paging \<Rightarrow> (Paging \<times> x86_64_PageMapper) res" where
  "CreatePageMapper hhdm kernelPageTable s = PageMapper_Create hhdm kernelPageTable s (PageMapper_new 0)"

definition USER_MEMORY_START :: u64 where
  "USER_MEMORY_START = 0x1000"

definition USER_MEMORY_END :: "bool \<Rightarrow> u64" where
  "USER_MEMORY_END la57 = (if la57 then 0x00FFFFFFFFFFFFFF else 0x00007FFFFFFFFFFF)"

definition GetDefaultUserRegion :: "bool \<Rightarrow> u64 \<times> u64" where
  "GetDefaultUserRegion la57 = (USER_MEMORY_START, USER_MEMORY_END la57)"

definition IsInUserRegion :: "bool \<Rightarrow> u64 \<Rightarrow> bool" where
  "IsInUserRegion la57 addr \<longleftrightarrow> addr \<ge> USER_MEMORY_START \<and> addr \<le> USER_MEMORY_END la57"

section \<open>Mapping a region with the largest pages\<close>

definition LARGE_PAGE_SIZE :: u64 where
  "LARGE_PAGE_SIZE = 2097152"

definition HUGE_PAGE_SIZE :: u64 where
  "HUGE_PAGE_SIZE = 1073741824"

definition x86_64_ConvertToLargePageFlags :: "u32 \<Rightarrow> u32" where
  "x86_64_ConvertToLargePageFlags flags = (flags AND 0x08000F7F) OR push_bit 5 (flags AND 0x80)"

text \<open>The loop \<^verbatim>\<open>for (i = start; i < stop; i += step) body(i)\<close>; the sum wraps around.\<close>

partial_function (option) region_loop ::
  "(u64 \<Rightarrow> 's \<Rightarrow> 's res) \<Rightarrow> u64 \<Rightarrow> u64 \<Rightarrow> u64 \<Rightarrow> 's \<Rightarrow> 's res option" where
  "region_loop body step i limit s =
     (if \<not> i < limit then Some (Inr s)
      else
        (case body i s of
           Inl f \<Rightarrow> Some (Inl f)
         | Inr s \<Rightarrow> region_loop body step (i + step) limit s))"

definition for_region :: "(u64 \<Rightarrow> 's \<Rightarrow> 's res) \<Rightarrow> u64 \<Rightarrow> u64 \<Rightarrow> u64 \<Rightarrow> 's \<Rightarrow> 's res" where
  "for_region body step i limit s = loopR (region_loop body step i limit s)"

definition x86_64_MapRegionWithLargestPages ::
  "bool \<Rightarrow> bool \<Rightarrow> (u64 \<Rightarrow> u64 \<Rightarrow> u32 \<Rightarrow> 's \<Rightarrow> 's res) \<Rightarrow> (u64 \<Rightarrow> u64 \<Rightarrow> u32 \<Rightarrow> 's \<Rightarrow> 's res) \<Rightarrow>
   (u64 \<Rightarrow> u64 \<Rightarrow> u32 \<Rightarrow> 's \<Rightarrow> 's res) \<Rightarrow> u64 \<Rightarrow> u64 \<Rightarrow> u64 \<Rightarrow> u32 \<Rightarrow> 's \<Rightarrow> 's res" where
  "x86_64_MapRegionWithLargestPages has2MiB has1GiB map4K map2M map1G virtualAddress physicalAddress sz flags s =
     (let largeFlags = x86_64_ConvertToLargePageFlags flags;
          small = (\<lambda>i. map4K (i - physicalAddress + virtualAddress) i flags);
          large = (\<lambda>i. map2M (i - physicalAddress + virtualAddress) i largeFlags);
          huge = (\<lambda>i. map1G (i - physicalAddress + virtualAddress) i largeFlags);
          stop = physicalAddress + sz in
      if \<not> has2MiB \<and> \<not> has1GiB \<or> sz < LARGE_PAGE_SIZE \<or> sz < HUGE_PAGE_SIZE \<and> \<not> has2MiB then
        for_region (\<lambda>i. map4K (virtualAddress + i * PAGE_SIZE) (physicalAddress + i * PAGE_SIZE) flags)
          1 0 (DIV_ROUNDUP sz PAGE_SIZE) s
      else if has2MiB \<and> \<not> has1GiB \<or> sz < HUGE_PAGE_SIZE then
        (let StartOf2MiB = ALIGN_UP physicalAddress LARGE_PAGE_SIZE; EndOf2MiB = ALIGN_DOWN stop LARGE_PAGE_SIZE in
         bindR (for_region small PAGE_SIZE physicalAddress StartOf2MiB s) (\<lambda>s.
         bindR (for_region large LARGE_PAGE_SIZE StartOf2MiB EndOf2MiB s) (\<lambda>s.
         for_region small PAGE_SIZE EndOf2MiB stop s)))
      else if \<not> has2MiB \<and> has1GiB then
        (let StartOf1GiB = ALIGN_UP physicalAddress HUGE_PAGE_SIZE; EndOf1GiB = ALIGN_DOWN stop HUGE_PAGE_SIZE in
         bindR (for_region small PAGE_SIZE physicalAddress StartOf1GiB s) (\<lambda>s.
         bindR (for_region huge HUGE_PAGE_SIZE StartOf1GiB EndOf1GiB s) (\<lambda>s.
         for_region small PAGE_SIZE EndOf1GiB stop s)))
      else
        (let StartOf2MiB = ALIGN_UP physicalAddress LARGE_PAGE_SIZE; StartOf1GiB = ALIGN_UP physicalAddress HUGE_PAGE_SIZE;
             EndOf1GiB = ALIGN_DOWN stop HUGE_PAGE_SIZE; EndOf2MiB = ALIGN_DOWN stop LARGE_PAGE_SIZE in
         bindR (for_region small PAGE_SIZE physicalAddress StartOf2MiB s) (\<lambda>s.
         bindR (for_region large LARGE_PAGE_SIZE StartOf2MiB StartOf1GiB s) (\<lambda>s.
         bindR (for_region huge HUGE_PAGE_SIZE StartOf1GiB EndOf1GiB s) (\<lambda>s.
         bindR (for_region large LARGE_PAGE_SIZE EndOf1GiB EndOf2MiB s) (\<lambda>s.
         for_region small PAGE_SIZE EndOf2MiB stop s))))))"

definition MapRegionWithLargestPages ::
  "bool \<Rightarrow> bool \<Rightarrow> bool \<Rightarrow> u64 \<Rightarrow> Paging \<Rightarrow> u64 \<Rightarrow> u64 \<Rightarrow> u64 \<Rightarrow> u64 \<Rightarrow> u32 \<Rightarrow> Paging res" where
  "MapRegionWithLargestPages has2MiB has1GiB la57 hhdm s pageTable virtualAddress physicalAddress sz flags =
     x86_64_MapRegionWithLargestPages has2MiB has1GiB
       (\<lambda>v p f s. x86_64_MapPage la57 hhdm s pageTable v p f)
       (\<lambda>v p f s. x86_64_Map2MiBPage la57 hhdm s pageTable v p f)
       (\<lambda>v p f s. x86_64_Map1GiBPage la57 hhdm s pageTable v p f)
       virtualAddress physicalAddress sz flags s"

end
