(* ===== verification/PageTablesCorrect.thy ===== *)
theory PageTablesCorrect
  imports PageTables PMMCorrect
begin

text \<open>
  The page tables as a tree of table pages. A table page belongs to one place of the tree and is
  not free memory; on that ground a mapping changes the translation of its own page and of no
  other, and an unmapping removes it.
\<close>

section \<open>Entries of a table\<close>

definition pg :: "u64 \<Rightarrow> nat" where
  "pg a = unat a div 4096"

definition aligned :: "u64 \<Rightarrow> bool" where
  "aligned t \<longleftrightarrow> 4096 dvd unat t"

definition slot :: "u64 \<Rightarrow> u64 \<Rightarrow> u64" where
  "slot t x = t + x * 8"

lemma aligned_room: "aligned t \<Longrightarrow> unat t + 4096 \<le> 18446744073709551616"
proof -
  assume "aligned t"
  then obtain q where q: "unat t = 4096 * q"
    by (auto simp: aligned_def)
  then have "4096 * q < 4096 * 4503599627370496"
    using unat_lt_2p64 [of t] by linarith
  then show ?thesis
    using q by simp
qed

lemma unat_slot:
  assumes "aligned t" "x < 512"
  shows "unat (slot t x) = unat t + unat x * 8"
proof -
  have "unat x < 512"
    using assms(2) by (simp add: word_less_nat_alt)
  then have "unat (x * 8) = unat x * 8"
    by (subst unat_mult_nowrap) simp_all
  then show ?thesis
    using aligned_room [OF assms(1)] \<open>unat x < 512\<close>
    by (simp add: slot_def) (subst unat_add_nowrap, simp_all)
qed

lemma pg_slot:
  assumes "aligned t" "x < 512"
  shows "pg (slot t x) = pg t"
proof -
  obtain q where "unat t = 4096 * q"
    using assms(1) by (auto simp: aligned_def)
  moreover have "unat x * 8 < 4096"
    using assms(2) by (simp add: word_less_nat_alt)
  ultimately show ?thesis
    using unat_slot [OF assms] by (simp add: pg_def)
qed

lemma slot_inj:
  assumes "aligned t" "x < 512" "y < 512"
  shows "slot t x = slot t y \<longleftrightarrow> x = y"
  using unat_slot [OF assms(1,2)] unat_slot [OF assms(1,3)] by (auto intro: unat_inj)

lemma slot_nonzero: "aligned t \<Longrightarrow> t \<noteq> 0 \<Longrightarrow> x < 512 \<Longrightarrow> slot t x \<noteq> 0"
  using unat_slot [of t x] by (auto simp: unat_eq_0)

lemma pg_inj: "aligned t \<Longrightarrow> aligned u \<Longrightarrow> pg t = pg u \<Longrightarrow> t = u"
  unfolding aligned_def pg_def by (metis dvd_div_mult_self unat_inj)

lemma entry_index_less: "entry_index va i < 512"
proof -
  have "x AND 0x1FF = take_bit 9 x" for x :: u64
    by (simp add: take_bit_eq_mask mask_eq_exp_minus_1)
  moreover have "take_bit 9 x < 512" for x :: u64
    by (simp add: word_less_nat_alt take_bit_eq_mod unat_mod)
  ultimately show ?thesis
    by (simp add: entry_index_def)
qed

lemma entry_addr_slot: "entry_addr t va i = slot t (entry_index va i)"
  by (simp add: entry_addr_def slot_def)

text \<open>The next table that an entry of level \<open>i\<close> names, 0 for none.\<close>

definition nx :: "nat \<Rightarrow> u64 \<Rightarrow> u64" where
  "nx i v = (if i \<le> 1 \<or> (i = 3 \<or> i = 2) \<and> PageSize v \<or> \<not> Present v then 0 else v AND 0x000FFFFFFFFFF000)"

lemma GetNext_nx:
  "1 \<le> i \<Longrightarrow> i \<le> levels la57 \<Longrightarrow> e \<noteq> 0 \<Longrightarrow> x86_64_GetNextPageTable la57 m e i = Inr (nx i (m e))"
  by (auto simp: x86_64_GetNextPageTable_def nx_def levels_def split: if_splits)

definition child :: "u64 \<Rightarrow> (u64 \<Rightarrow> u64) \<Rightarrow> nat \<Rightarrow> u64 \<Rightarrow> u64 \<Rightarrow> u64 option" where
  "child hhdm m i t x = (if nx i (m (slot t x)) = 0 then None else Some (nx i (m (slot t x)) + hhdm))"

section \<open>The tree of tables\<close>

primrec reach :: "u64 \<Rightarrow> (u64 \<Rightarrow> u64) \<Rightarrow> nat \<Rightarrow> u64 \<Rightarrow> nat set" where
  "reach hhdm m 0 t = {}"
| "reach hhdm m (Suc n) t =
     insert (pg t) (\<Union>x\<in>{x. x < 512}. case child hhdm m (Suc n) t x of None \<Rightarrow> {} | Some c \<Rightarrow> reach hhdm m n c)"

primrec tree :: "u64 \<Rightarrow> (u64 \<Rightarrow> u64) \<Rightarrow> nat \<Rightarrow> u64 \<Rightarrow> bool" where
  "tree hhdm m 0 t \<longleftrightarrow> True"
| "tree hhdm m (Suc n) t \<longleftrightarrow> aligned t \<and> t \<noteq> 0 \<and> (\<forall>x<512. m (slot t x) = 0 \<or> Present (m (slot t x))) \<and>
     (\<forall>x c. x < 512 \<longrightarrow> child hhdm m (Suc n) t x = Some c \<longrightarrow> tree hhdm m n c \<and> pg t \<notin> reach hhdm m n c) \<and>
     (\<forall>x y c d. x < 512 \<longrightarrow> y < 512 \<longrightarrow> x \<noteq> y \<longrightarrow> child hhdm m (Suc n) t x = Some c \<longrightarrow>
        child hhdm m (Suc n) t y = Some d \<longrightarrow> reach hhdm m n c \<inter> reach hhdm m n d = {})"

lemma reach_child:
  "child hhdm m (Suc n) t x = Some c \<Longrightarrow> x < 512 \<Longrightarrow> reach hhdm m n c \<subseteq> reach hhdm m (Suc n) t"
  by force

lemma tree_child:
  assumes "tree hhdm m (Suc n) t" "child hhdm m (Suc n) t x = Some c" "x < 512"
  shows "tree hhdm m n c" "pg t \<notin> reach hhdm m n c"
    "\<And>y d. y < 512 \<Longrightarrow> x \<noteq> y \<Longrightarrow> child hhdm m (Suc n) t y = Some d \<Longrightarrow> reach hhdm m n c \<inter> reach hhdm m n d = {}"
  using assms unfolding tree.simps by blast+

lemma child_cong: "m' (slot t x) = m (slot t x) \<Longrightarrow> child hhdm m' i t x = child hhdm m i t x"
  by (simp add: child_def)

text \<open>A tree depends on the entries of its own pages only.\<close>

lemma tree_frame:
  assumes "tree hhdm m n t" "\<And>a. pg a \<in> reach hhdm m n t \<Longrightarrow> m' a = m a"
  shows "reach hhdm m' n t = reach hhdm m n t \<and> tree hhdm m' n t"
  using assms
proof (induction n arbitrary: t)
  case (Suc n)
  have al: "aligned t"
    using Suc.prems(1) by simp
  have same: "m' (slot t x) = m (slot t x)" if "x < 512" for x
    using Suc.prems(2) pg_slot [OF al that] by simp
  then have ch: "child hhdm m' (Suc n) t x = child hhdm m (Suc n) t x" if "x < 512" for x
    using that child_cong by metis
  have sub: "reach hhdm m' n c = reach hhdm m n c \<and> tree hhdm m' n c"
    if "x < 512" "child hhdm m (Suc n) t x = Some c" for x c
  proof (rule Suc.IH)
    show "tree hhdm m n c"
      using Suc.prems(1) that by simp
    show "m' a = m a" if "pg a \<in> reach hhdm m n c" for a
      using that Suc.prems(2) reach_child \<open>x < 512\<close> \<open>child hhdm m (Suc n) t x = Some c\<close> by blast
  qed
  have "reach hhdm m' (Suc n) t = reach hhdm m (Suc n) t"
    using sub by (auto simp: ch split: option.splits)
  moreover have "tree hhdm m' (Suc n) t"
    using Suc.prems(1) sub by (simp add: ch same)
  ultimately show ?case by simp
qed simp

text \<open>Where a walk ends at an entry of level \<open>i\<close>, what it returns.\<close>

definition stop :: "nat \<Rightarrow> u64 \<Rightarrow> u64" where
  "stop i v =
     (if i = 1 then v AND 0x000FFFFFFFFFF000
      else if i = 3 \<and> PageSize v \<and> Present v then v AND 0x000FFFFFC0000000
      else if i = 2 \<and> PageSize v \<and> Present v then v AND 0x000FFFFFFFE00000
      else 0)"

lemma GetPhysicalAddress_step:
  assumes "aligned t" "t \<noteq> 0" "Suc n \<le> levels la57"
  shows "GetPhysicalAddress_loop la57 hhdm m va (Suc n) t =
    (case child hhdm m (Suc n) t (entry_index va (Suc n)) of
       None \<Rightarrow> Inr (stop (Suc n) (m (slot t (entry_index va (Suc n)))))
     | Some c \<Rightarrow> GetPhysicalAddress_loop la57 hhdm m va n c)"
proof -
  have "slot t (entry_index va (Suc n)) \<noteq> 0"
    using slot_nonzero assms entry_index_less by blast
  then show ?thesis
    using assms
    by (cases "n = 0") (auto simp: entry_addr_slot GetNext_nx child_def stop_def Let_def to_HHDM_def nx_def)
qed

declare GetPhysicalAddress_loop.simps(2) [simp del]

lemma GetPhysicalAddress_frame:
  assumes "tree hhdm m n t" "\<And>a. pg a \<in> reach hhdm m n t \<Longrightarrow> m' a = m a" "n \<le> levels la57"
  shows "GetPhysicalAddress_loop la57 hhdm m' va n t = GetPhysicalAddress_loop la57 hhdm m va n t"
  using assms
proof (induction n arbitrary: t)
  case (Suc n)
  let ?x = "entry_index va (Suc n)"
  have al: "aligned t" "t \<noteq> 0"
    using Suc.prems(1) by simp_all
  have same: "m' (slot t ?x) = m (slot t ?x)"
    using Suc.prems(2) pg_slot [OF al(1) entry_index_less] by simp
  have ch: "child hhdm m' (Suc n) t ?x = child hhdm m (Suc n) t ?x"
    using same by (rule child_cong)
  show ?case
  proof (cases "child hhdm m (Suc n) t ?x")
    case None
    then show ?thesis
      using same by (simp add: GetPhysicalAddress_step al Suc.prems(3) ch)
  next
    case (Some c)
    have "GetPhysicalAddress_loop la57 hhdm m' va n c = GetPhysicalAddress_loop la57 hhdm m va n c"
    proof (rule Suc.IH)
      show "tree hhdm m n c"
        using tree_child(1) [OF Suc.prems(1) Some entry_index_less] .
      show "m' a = m a" if "pg a \<in> reach hhdm m n c" for a
        using that Suc.prems(2) reach_child [OF Some entry_index_less] by blast
    qed (use Suc.prems(3) in simp)
    then show ?thesis
      using Some by (simp add: GetPhysicalAddress_step al Suc.prems(3) ch)
  qed
qed simp

text \<open>
  Replacing what hangs below one entry of a table: the other entries and their trees are as
  before, and what the entry names now is a tree apart from them.
\<close>

lemma tree_replace:
  assumes tr: "tree hhdm m (Suc n) t" and x: "x < 512"
    and entry: "m' (slot t x) = 0 \<or> Present (m' (slot t x))"
    and others: "\<And>y. y < 512 \<Longrightarrow> y \<noteq> x \<Longrightarrow> m' (slot t y) = m (slot t y)"
    and below: "\<And>y d a. y < 512 \<Longrightarrow> y \<noteq> x \<Longrightarrow> child hhdm m (Suc n) t y = Some d \<Longrightarrow>
      pg a \<in> reach hhdm m n d \<Longrightarrow> m' a = m a"
    and new: "\<And>c. child hhdm m' (Suc n) t x = Some c \<Longrightarrow> tree hhdm m' n c \<and> pg t \<notin> reach hhdm m' n c \<and>
      (\<forall>y d. y < 512 \<longrightarrow> y \<noteq> x \<longrightarrow> child hhdm m (Suc n) t y = Some d \<longrightarrow> reach hhdm m' n c \<inter> reach hhdm m n d = {})"
  shows "tree hhdm m' (Suc n) t"
    and "reach hhdm m' (Suc n) t \<subseteq> reach hhdm m (Suc n) t \<union>
      (case child hhdm m' (Suc n) t x of None \<Rightarrow> {} | Some c \<Rightarrow> reach hhdm m' n c)"
proof -
  have ch: "child hhdm m' (Suc n) t y = child hhdm m (Suc n) t y" if "y < 512" "y \<noteq> x" for y
    using others [OF that] by (rule child_cong)
  have sub: "reach hhdm m' n d = reach hhdm m n d" "tree hhdm m' n d"
    if "y < 512" "y \<noteq> x" "child hhdm m (Suc n) t y = Some d" for y d
    using tree_frame [OF tree_child(1) [OF tr that(3,1)], of m'] below [OF that] by auto
  have al: "aligned t" "t \<noteq> 0" and ent: "\<forall>y<512. m (slot t y) = 0 \<or> Present (m (slot t y))"
    using tr by simp_all
  have "m' (slot t y) = 0 \<or> Present (m' (slot t y))" if "y < 512" for y
    using that entry others ent by (cases "y = x") auto
  moreover have "tree hhdm m' n c \<and> pg t \<notin> reach hhdm m' n c"
    if "y < 512" "child hhdm m' (Suc n) t y = Some c" for y c
    using that new ch sub tree_child(2) [OF tr] by (cases "y = x") auto
  moreover have "reach hhdm m' n c \<inter> reach hhdm m' n d = {}"
    if "y < 512" "z < 512" "y \<noteq> z" "child hhdm m' (Suc n) t y = Some c" "child hhdm m' (Suc n) t z = Some d" for y z c d
  proof (cases "y = x \<or> z = x")
    case True
    then show ?thesis
      using that new [of c] new [of d] ch sub by (metis inf_commute)
  next
    case False
    then show ?thesis
      using that ch sub tree_child(3) [OF tr, of y c z d] by simp
  qed
  ultimately show "tree hhdm m' (Suc n) t"
    using al unfolding tree.simps by blast
  show "reach hhdm m' (Suc n) t \<subseteq> reach hhdm m (Suc n) t \<union>
      (case child hhdm m' (Suc n) t x of None \<Rightarrow> {} | Some c \<Rightarrow> reach hhdm m' n c)"
  proof
    fix q
    assume "q \<in> reach hhdm m' (Suc n) t"
    then consider "q = pg t" | y c where "y < 512" "child hhdm m' (Suc n) t y = Some c" "q \<in> reach hhdm m' n c"
      by (auto split: option.splits)
    then show "q \<in> reach hhdm m (Suc n) t \<union>
      (case child hhdm m' (Suc n) t x of None \<Rightarrow> {} | Some c \<Rightarrow> reach hhdm m' n c)"
    proof cases
      case 2
      show ?thesis
      proof (cases "y = x")
        case False
        then have "child hhdm m (Suc n) t y = Some c" "q \<in> reach hhdm m n c"
          using 2 ch sub by auto
        then show ?thesis
          using reach_child [OF _ 2(1)] by blast
      qed (use 2 in simp)
    qed simp
  qed
qed

section \<open>The bits of an entry\<close>

definition widened :: "u64 \<Rightarrow> u32 \<Rightarrow> u64" where
  "widened v flags = (v AND 0x000FFFFFFFFFFFFF) OR (ucast flags AND 0xF67)"

lemma widened_addr: "widened v flags AND 0x000FFFFFFFFFF000 = v AND 0x000FFFFFFFFFF000"
  by (simp add: widened_def bit.conj_disj_distrib2 and.assoc)

lemma widened_bits [simp]:
  "Present v \<Longrightarrow> Present (widened v flags)"
  "PageSize (widened v flags) = PageSize v"
  by (simp_all add: Present_def PageSize_def widened_def bit_or_iff bit_and_iff)

lemma nx_widened: "nx i v \<noteq> 0 \<Longrightarrow> nx i (widened v flags) = nx i v"
  by (auto simp: nx_def widened_addr split: if_splits)

lemma aligned_low_bits: "aligned p \<Longrightarrow> k < 12 \<Longrightarrow> \<not> bit p k"
proof -
  assume "aligned p" "k < 12"
  then have "unat (take_bit 12 p) = 0"
    by (simp add: aligned_def take_bit_eq_mod unat_mod)
  then have "take_bit 12 p = 0"
    by (simp add: unat_eq_0)
  then have "\<not> bit (take_bit 12 p) k"
    by simp
  then show ?thesis
    using \<open>k < 12\<close> by (simp add: bit_take_bit_iff)
qed

lemma addr_field:
  assumes "aligned p" "unat p < 4503599627370496"
  shows "p AND 0x000FFFFFFFFFF000 = p"
proof -
  have "unat (take_bit 52 p) = unat p"
    using assms(2) by (simp add: take_bit_eq_mod unat_mod)
  then have "take_bit 52 p = p"
    by (rule unat_inj)
  then have "bit p k \<Longrightarrow> k < 52" for k
    by (metis bit_take_bit_iff)
  moreover have "(0x000FFFFFFFFFF000 :: u64) = push_bit 12 (mask 40)"
    by (simp add: mask_eq_exp_minus_1 push_bit_eq_mult)
  then have "bit (0x000FFFFFFFFFF000 :: u64) k \<longleftrightarrow> 12 \<le> k \<and> k < 52" for k
    unfolding bit_push_bit_iff by (simp only: bit_push_bit_iff bit_mask_iff) auto
  moreover have "bit p k \<Longrightarrow> 12 \<le> k" for k
    using aligned_low_bits [OF assms(1), of k] by (cases "k < 12") auto
  ultimately show ?thesis
    by (intro bit_word_eqI) (auto simp: bit_and_iff)
qed

definition table_entry :: "u64 \<Rightarrow> u32 \<Rightarrow> u64" where
  "table_entry page flags = page OR (ucast flags AND 0xF67) OR 1"

lemma table_entry_bits:
  assumes "aligned p"
  shows "Present (table_entry p flags)" "\<not> PageSize (table_entry p flags)"
  using aligned_low_bits [OF assms, of 7]
  by (simp_all add: table_entry_def Present_def PageSize_def bit_or_iff bit_and_iff)

lemma nx_table_entry:
  assumes "aligned p" "unat p < 4503599627370496" "2 \<le> i"
  shows "nx i (table_entry p flags) = p"
proof -
  have "table_entry p flags AND 0x000FFFFFFFFFF000 = p AND 0x000FFFFFFFFFF000"
    by (simp add: table_entry_def bit.conj_disj_distrib2 and.assoc)
  then show ?thesis
    using assms table_entry_bits [OF assms(1), of flags] addr_field [OF assms(1,2)] by (simp add: nx_def)
qed

lemma leaf_bits:
  "Present (leaf_4KiB pa flags)" "Present (leaf_2MiB pa flags)" "Present (leaf_1GiB pa flags)"
  "PageSize (leaf_2MiB pa flags)" "PageSize (leaf_1GiB pa flags)"
  by (simp_all add: leaf_4KiB_def leaf_2MiB_def leaf_1GiB_def Present_def PageSize_def bit_or_iff)

lemma leaf_nx: "nx 1 (leaf_4KiB pa flags) = 0" "nx 2 (leaf_2MiB pa flags) = 0" "nx 3 (leaf_1GiB pa flags) = 0"
  by (simp_all add: nx_def leaf_bits)

lemma leaf_stop:
  "stop 1 (leaf_4KiB pa flags) = pa AND 0x000FFFFFFFFFF000"
  "stop 2 (leaf_2MiB pa flags) = pa AND 0x000FFFFFFFE00000"
  "stop 3 (leaf_1GiB pa flags) = pa AND 0x000FFFFFC0000000"
  using leaf_bits [of pa flags]
  by (simp_all add: stop_def leaf_4KiB_def leaf_2MiB_def leaf_1GiB_def bit.conj_disj_distrib2 and.assoc push_bit_and)

section \<open>Mapping, for the three page sizes at once\<close>

text \<open>
  \<open>map_gen l lf\<close> maps the leaf entry \<open>lf\<close> at level \<open>l\<close>; the three functions of the source are its
  instances.
\<close>

primrec map_gen :: "nat \<Rightarrow> u64 \<Rightarrow> bool \<Rightarrow> u64 \<Rightarrow> u64 \<Rightarrow> u32 \<Rightarrow> nat \<Rightarrow> u64 \<Rightarrow> Paging \<Rightarrow> Paging res" where
  "map_gen l lf la57 hhdm va flags 0 t s = Inr s"
| "map_gen l lf la57 hhdm va flags (Suc n) t s =
     (if t = 0 \<or> Suc n < l then Inr s
      else
        (let e = entry_addr t va (Suc n) in
         bindR (x86_64_GetNextPageTable la57 (pt s) e (Suc n)) (\<lambda>nt.
         if nt = 0 then
           (if l < Suc n \<and> (Suc n = 3 \<or> Suc n = 2) \<and> PageSize (pt s e) \<and> Present (pt s e) then Inr s
            else if Suc n = l then Inr (set_entry s e lf)
            else bindR (new_table hhdm s e flags) (\<lambda>(s, data). map_gen l lf la57 hhdm va flags n data s))
         else map_gen l lf la57 hhdm va flags n (to_HHDM hhdm nt) (widen_entry s e flags))))"

lemma map_gen_instances:
  "MapPage_loop la57 hhdm va pa flags n t s = map_gen 1 (leaf_4KiB pa flags) la57 hhdm va flags n t s"
  "Map2MiBPage_loop la57 hhdm va pa flags n t s = map_gen 2 (leaf_2MiB pa flags) la57 hhdm va flags n t s"
  "Map1GiBPage_loop la57 hhdm va pa flags n t s = map_gen 3 (leaf_1GiB pa flags) la57 hhdm va flags n t s"
  subgoal by (induction n arbitrary: t s) (auto simp: Let_def fun_eq_iff intro!: arg_cong2 [where f = bindR])
  subgoal by (induction n arbitrary: t s) (auto simp: Let_def fun_eq_iff intro!: arg_cong2 [where f = bindR])
  subgoal by (induction n arbitrary: t s) (auto simp: Let_def fun_eq_iff intro!: arg_cong2 [where f = bindR])
  done

text \<open>The path of an address is free for a page of level \<open>l\<close>: no larger page and no table is in the way.\<close>

primrec mappable :: "nat \<Rightarrow> u64 \<Rightarrow> (u64 \<Rightarrow> u64) \<Rightarrow> u64 \<Rightarrow> nat \<Rightarrow> u64 \<Rightarrow> bool" where
  "mappable l hhdm m va 0 t = False"
| "mappable l hhdm m va (Suc n) t =
     (case child hhdm m (Suc n) t (entry_index va (Suc n)) of
        Some c \<Rightarrow> l < Suc n \<and> mappable l hhdm m va n c
      | None \<Rightarrow> l \<le> Suc n \<and>
          (l < Suc n \<longrightarrow> \<not> ((Suc n = 3 \<or> Suc n = 2) \<and> PageSize (m (slot t (entry_index va (Suc n)))) \<and>
                           Present (m (slot t (entry_index va (Suc n)))))))"

definition page_free :: "u64 \<Rightarrow> block list \<Rightarrow> nat \<Rightarrow> bool" where
  "page_free hhdm bs q \<longleftrightarrow> q * 4096 - unat hhdm \<in> free_bytes hhdm bs"

definition differ :: "nat \<Rightarrow> nat \<Rightarrow> u64 \<Rightarrow> u64 \<Rightarrow> bool" where
  "differ l n va va' \<longleftrightarrow> (\<exists>i. l \<le> i \<and> i \<le> n \<and> entry_index va i \<noteq> entry_index va' i)"

lemma differ_Suc: "l \<le> Suc n \<Longrightarrow>
  differ l (Suc n) va va' \<longleftrightarrow> entry_index va (Suc n) \<noteq> entry_index va' (Suc n) \<or> differ l n va va'"
  unfolding differ_def by (metis le_Suc_eq)

text \<open>
  The entry at which the walk of an address ends, and that the tables above it grant what
  \<open>flags\<close> asks for: the bits for writing and for user mode are set and execution is not disabled.
\<close>

primrec leaf_of :: "u64 \<Rightarrow> (u64 \<Rightarrow> u64) \<Rightarrow> u64 \<Rightarrow> nat \<Rightarrow> u64 \<Rightarrow> u64" where
  "leaf_of hhdm m va 0 t = 0"
| "leaf_of hhdm m va (Suc n) t =
     (case child hhdm m (Suc n) t (entry_index va (Suc n)) of
        None \<Rightarrow> m (slot t (entry_index va (Suc n)))
      | Some c \<Rightarrow> leaf_of hhdm m va n c)"

definition grants :: "u32 \<Rightarrow> u64 \<Rightarrow> bool" where
  "grants flags v \<longleftrightarrow> (ucast flags AND 0xF67) AND v = ucast flags AND 0xF67 \<and> \<not> bit v 63"

primrec path_grants :: "u32 \<Rightarrow> u64 \<Rightarrow> (u64 \<Rightarrow> u64) \<Rightarrow> u64 \<Rightarrow> nat \<Rightarrow> u64 \<Rightarrow> bool" where
  "path_grants flags hhdm m va 0 t = True"
| "path_grants flags hhdm m va (Suc n) t =
     (case child hhdm m (Suc n) t (entry_index va (Suc n)) of
        None \<Rightarrow> True
      | Some c \<Rightarrow> grants flags (m (slot t (entry_index va (Suc n)))) \<and> path_grants flags hhdm m va n c)"

lemma grants_widened: "grants flags (widened v flags)"
proof -
  have "(ucast flags AND 0xF67) AND widened v flags = ucast flags AND 0xF67"
    unfolding widened_def by (rule bit_word_eqI) (auto simp: bit_and_iff bit_or_iff)
  then show ?thesis
    by (simp add: grants_def widened_def bit_or_iff bit_and_iff)
qed

lemma grants_table_entry:
  assumes "aligned p" "unat p < 4503599627370496"
  shows "grants flags (table_entry p flags)"
proof -
  have "bit p 63 \<longleftrightarrow> bit (p AND 0x000FFFFFFFFFF000) 63"
    using addr_field [OF assms] by simp
  then have "\<not> bit p 63"
    by (simp add: bit_and_iff)
  moreover have "(ucast flags AND 0xF67) AND table_entry p flags = ucast flags AND 0xF67"
    unfolding table_entry_def by (rule bit_word_eqI) (auto simp: bit_and_iff bit_or_iff)
  ultimately show ?thesis
    by (simp add: grants_def table_entry_def bit_or_iff bit_and_iff)
qed

text \<open>The memory that page tables and the physical memory manager share.\<close>

definition pool :: "u64 \<Rightarrow> Paging \<Rightarrow> block list \<Rightarrow> bool" where
  "pool hhdm s bs \<longleftrightarrow> pmm_inv hhdm (g_PMM s) bs \<and> aligned hhdm \<and> free_bytes hhdm bs \<subseteq> {..<4503599627370496}"

text \<open>What a mapping of the leaf \<open>lf\<close> at level \<open>l\<close> does to the tree below a table.\<close>

definition mapped ::
  "nat \<Rightarrow> u64 \<Rightarrow> u32 \<Rightarrow> bool \<Rightarrow> u64 \<Rightarrow> u64 \<Rightarrow> nat \<Rightarrow> u64 \<Rightarrow> Paging \<Rightarrow> block list \<Rightarrow> Paging \<Rightarrow> block list \<Rightarrow> bool" where
  "mapped l lf flags la57 hhdm va n t s bs s' bs' \<longleftrightarrow>
     tree hhdm (pt s') n t \<and> pool hhdm s' bs' \<and> free_bytes hhdm bs' \<subseteq> free_bytes hhdm bs \<and>
     (\<forall>a. pg a \<notin> reach hhdm (pt s) n t \<longrightarrow> \<not> page_free hhdm bs (pg a) \<longrightarrow> pt s' a = pt s a) \<and>
     (\<forall>q\<in>reach hhdm (pt s') n t. (q \<in> reach hhdm (pt s) n t \<or> page_free hhdm bs q) \<and> \<not> page_free hhdm bs' q) \<and>
     GetPhysicalAddress_loop la57 hhdm (pt s') va n t = Inr (stop l lf) \<and>
     leaf_of hhdm (pt s') va n t = lf \<and> path_grants flags hhdm (pt s') va n t \<and>
     (\<forall>va'. differ l n va va' \<longrightarrow>
        GetPhysicalAddress_loop la57 hhdm (pt s') va' n t = GetPhysicalAddress_loop la57 hhdm (pt s) va' n t) \<and>
     (\<forall>va'. mappable l hhdm (pt s) va' n t \<longrightarrow> mappable l hhdm (pt s') va' n t) \<and>
     page_total bs \<le> page_total bs' + (n - l)"

lemma mappable_frame:
  assumes "tree hhdm m n t" "\<And>a. pg a \<in> reach hhdm m n t \<Longrightarrow> m' a = m a"
  shows "mappable l hhdm m' va n t = mappable l hhdm m va n t"
  using assms
proof (induction n arbitrary: t)
  case (Suc n)
  let ?x = "entry_index va (Suc n)"
  have same: "m' (slot t ?x) = m (slot t ?x)"
    using Suc.prems pg_slot [of t ?x] entry_index_less by simp
  then have ch: "child hhdm m' (Suc n) t ?x = child hhdm m (Suc n) t ?x"
    by (rule child_cong)
  have "mappable l hhdm m' va n c = mappable l hhdm m va n c" if "child hhdm m (Suc n) t ?x = Some c" for c
    using tree_child(1) [OF Suc.prems(1) that entry_index_less] reach_child [OF that entry_index_less] Suc.prems(2)
    by (intro Suc.IH) blast+
  then show ?case
    using ch same by (simp split: option.split)
qed simp

text \<open>
  One level of the descent: the entry on the path names the table \<open>c\<close> in \<open>s1\<close>, the mapping below
  \<open>c\<close> succeeds, and so does the mapping from the table above.
\<close>

lemma mapped_descend:
  assumes tr: "tree hhdm (pt s) (Suc n) t" and lev: "Suc n \<le> levels la57" "l \<le> n"
    and own: "\<forall>q\<in>reach hhdm (pt s) (Suc n) t. \<not> page_free hhdm bs q"
    and x: "x = entry_index va (Suc n)" "child hhdm (pt s1) (Suc n) t x = Some c" "Present (pt s1 (slot t x))"
      "grants flags (pt s1 (slot t x))"
    and others: "\<And>y. y < 512 \<Longrightarrow> y \<noteq> x \<Longrightarrow> pt s1 (slot t y) = pt s (slot t y)"
    and below: "\<And>y d a. y < 512 \<Longrightarrow> y \<noteq> x \<Longrightarrow> child hhdm (pt s) (Suc n) t y = Some d \<Longrightarrow>
      pg a \<in> reach hhdm (pt s) n d \<Longrightarrow> pt s1 a = pt s a"
    and apart: "pg t \<notin> reach hhdm (pt s1) n c" "\<And>y d. y < 512 \<Longrightarrow> y \<noteq> x \<Longrightarrow> child hhdm (pt s) (Suc n) t y = Some d \<Longrightarrow>
      reach hhdm (pt s1) n c \<inter> reach hhdm (pt s) n d = {}"
    and within: "\<forall>q\<in>reach hhdm (pt s1) n c. q \<in> reach hhdm (pt s) (Suc n) t \<or> page_free hhdm bs q"
    and bs1: "free_bytes hhdm bs1 \<subseteq> free_bytes hhdm bs"
    and frame: "\<And>a. pg a \<notin> reach hhdm (pt s) (Suc n) t \<Longrightarrow> \<not> page_free hhdm bs (pg a) \<Longrightarrow> pt s1 a = pt s a"
    and same: "\<And>va'. entry_index va' (Suc n) = x \<Longrightarrow>
      GetPhysicalAddress_loop la57 hhdm (pt s1) va' n c = GetPhysicalAddress_loop la57 hhdm (pt s) va' (Suc n) t"
    and map1: "\<And>va'. entry_index va' (Suc n) = x \<Longrightarrow> mappable l hhdm (pt s) va' (Suc n) t \<Longrightarrow> mappable l hhdm (pt s1) va' n c"
    and total: "page_total bs \<le> page_total bs1 + 1"
    and rec: "mapped l lf flags la57 hhdm va n c s1 bs1 s' bs'"
  shows "mapped l lf flags la57 hhdm va (Suc n) t s bs s' bs'"
proof -
  have al: "aligned t" "t \<noteq> 0" "x < 512"
    using tr x(1) entry_index_less by simp_all
  have free1: "page_free hhdm bs1 q \<Longrightarrow> page_free hhdm bs q" for q
    using bs1 by (auto simp: page_free_def)
  have keep: "pt s' a = pt s1 a" if "pg a \<notin> reach hhdm (pt s1) n c" "\<not> page_free hhdm bs (pg a)" for a
    using rec that free1 by (auto simp: mapped_def)
  have pgt: "\<not> page_free hhdm bs (pg t)"
    using own by simp
  have slots: "pt s' (slot t y) = pt s1 (slot t y)" if "y < 512" for y
    using keep apart(1) pgt pg_slot [OF al(1) that] by simp
  have ch: "child hhdm (pt s') (Suc n) t x = Some c"
    using x(2) child_cong [of "pt s'" t x "pt s1"] slots [OF al(3)] by simp
  have below': "pt s' a = pt s a" if "y < 512" "y \<noteq> x" "child hhdm (pt s) (Suc n) t y = Some d" "pg a \<in> reach hhdm (pt s) n d" for y d a
  proof -
    have "pg a \<in> reach hhdm (pt s) (Suc n) t"
      using reach_child [OF that(3,1)] that(4) by blast
    then show ?thesis
      using keep [of a] below [OF that] apart(2) [OF that(1-3)] that(4) own by auto
  qed
  have new: "tree hhdm (pt s') n c \<and> pg t \<notin> reach hhdm (pt s') n c \<and>
      (\<forall>y d. y < 512 \<longrightarrow> y \<noteq> x \<longrightarrow> child hhdm (pt s) (Suc n) t y = Some d \<longrightarrow> reach hhdm (pt s') n c \<inter> reach hhdm (pt s) n d = {})"
  proof (intro conjI allI impI)
    show "tree hhdm (pt s') n c"
      using rec by (simp add: mapped_def)
    show "pg t \<notin> reach hhdm (pt s') n c"
      using rec apart(1) pgt free1 by (auto simp: mapped_def)
    fix y d
    assume y: "y < 512" "y \<noteq> x" "child hhdm (pt s) (Suc n) t y = Some d"
    have "q \<notin> reach hhdm (pt s') n c" if "q \<in> reach hhdm (pt s) n d" for q
    proof -
      have "\<not> page_free hhdm bs q"
        using own reach_child [OF y(3,1)] that by blast
      then show ?thesis
        using rec apart(2) [OF y] that free1 by (auto simp: mapped_def)
    qed
    then show "reach hhdm (pt s') n c \<inter> reach hhdm (pt s) n d = {}"
      by blast
  qed
  note repl = tree_replace [OF tr al(3), of "pt s'"]
  have tree': "tree hhdm (pt s') (Suc n) t"
    and reach': "reach hhdm (pt s') (Suc n) t \<subseteq> reach hhdm (pt s) (Suc n) t \<union> reach hhdm (pt s') n c"
    using repl below' new slots others x(3) ch al(3) by auto
  have "GetPhysicalAddress_loop la57 hhdm (pt s') va' (Suc n) t = GetPhysicalAddress_loop la57 hhdm (pt s) va' (Suc n) t"
    if "differ l (Suc n) va va'" for va'
  proof (cases "entry_index va' (Suc n) = x")
    case True
    then have "differ l n va va'"
      using that lev(2) x(1) by (simp add: differ_Suc)
    then have "GetPhysicalAddress_loop la57 hhdm (pt s') va' n c = GetPhysicalAddress_loop la57 hhdm (pt s1) va' n c"
      using rec by (simp add: mapped_def)
    then show ?thesis
      using same [OF True] True ch by (simp add: GetPhysicalAddress_step al lev(1))
  next
    case False
    let ?y = "entry_index va' (Suc n)"
    have sl: "pt s' (slot t ?y) = pt s (slot t ?y)"
      using slots [OF entry_index_less] others [OF entry_index_less False] by simp
    then have ch': "child hhdm (pt s') (Suc n) t ?y = child hhdm (pt s) (Suc n) t ?y"
      by (rule child_cong)
    have "GetPhysicalAddress_loop la57 hhdm (pt s') va' n d = GetPhysicalAddress_loop la57 hhdm (pt s) va' n d"
      if "child hhdm (pt s) (Suc n) t ?y = Some d" for d
      using tree_child(1) [OF tr that entry_index_less] below' [OF entry_index_less False that] lev(1)
      by (intro GetPhysicalAddress_frame) auto
    then show ?thesis
      using sl ch' by (simp add: GetPhysicalAddress_step al lev(1) split: option.splits)
  qed
  moreover have "GetPhysicalAddress_loop la57 hhdm (pt s') va (Suc n) t = Inr (stop l lf)"
    using rec ch x(1) by (simp add: GetPhysicalAddress_step al lev(1) mapped_def)
  moreover have "(q \<in> reach hhdm (pt s) (Suc n) t \<or> page_free hhdm bs q) \<and> \<not> page_free hhdm bs' q"
    if "q \<in> reach hhdm (pt s') (Suc n) t" for q
  proof -
    have "page_free hhdm bs' q \<Longrightarrow> page_free hhdm bs q"
      using rec bs1 by (auto simp: mapped_def page_free_def)
    moreover have "q \<in> reach hhdm (pt s') n c \<Longrightarrow>
        (q \<in> reach hhdm (pt s1) n c \<or> page_free hhdm bs1 q) \<and> \<not> page_free hhdm bs' q"
      using rec by (simp add: mapped_def)
    ultimately show ?thesis
      using that reach' within own free1 by blast
  qed
  moreover have "pt s' a = pt s a" if "pg a \<notin> reach hhdm (pt s) (Suc n) t" "\<not> page_free hhdm bs (pg a)" for a
    using that keep [of a] frame [of a] within by auto
  moreover have "leaf_of hhdm (pt s') va (Suc n) t = lf \<and> path_grants flags hhdm (pt s') va (Suc n) t"
    using rec ch x(1,4) slots [OF al(3)] by (simp add: mapped_def)
  moreover have "mappable l hhdm (pt s') va' (Suc n) t" if "mappable l hhdm (pt s) va' (Suc n) t" for va'
  proof (cases "entry_index va' (Suc n) = x")
    case True
    then have "mappable l hhdm (pt s') va' n c"
      using map1 [OF True that] rec by (simp add: mapped_def)
    then show ?thesis
      using True ch lev(2) by simp
  next
    case False
    let ?y = "entry_index va' (Suc n)"
    have sl: "pt s' (slot t ?y) = pt s (slot t ?y)"
      using slots [OF entry_index_less] others [OF entry_index_less False] by simp
    then have ch': "child hhdm (pt s') (Suc n) t ?y = child hhdm (pt s) (Suc n) t ?y"
      by (rule child_cong)
    have "mappable l hhdm (pt s') va' n d = mappable l hhdm (pt s) va' n d" if "child hhdm (pt s) (Suc n) t ?y = Some d" for d
      using tree_child(1) [OF tr that entry_index_less] below' [OF entry_index_less False that]
      by (intro mappable_frame) auto
    then show ?thesis
      using that sl ch' by (simp split: option.splits)
  qed
  moreover have "page_total bs \<le> page_total bs' + (Suc n - l)"
    using total rec lev(2) by (simp add: mapped_def Suc_diff_le)
  ultimately show ?thesis
    using tree' rec bs1 unfolding mapped_def by blast
qed

text \<open>A table that was just cleared.\<close>

lemma zero_table:
  assumes "aligned c" "c \<noteq> 0" "\<forall>a. pg a = pg c \<longrightarrow> m a = 0"
  shows "tree hhdm m n c" "reach hhdm m n c \<subseteq> {pg c}"
    "n \<le> levels la57 \<Longrightarrow> GetPhysicalAddress_loop la57 hhdm m va n c = Inr 0"
    "1 \<le> l \<Longrightarrow> l \<le> n \<Longrightarrow> mappable l hhdm m va n c"
proof -
  have z: "m (slot c x) = 0" if "x < 512" for x
    using assms(3) pg_slot [OF assms(1) that] by simp
  have ch: "child hhdm m i c x = None" if "x < 512" for i x
    using z [OF that] by (simp add: child_def nx_def Present_def)
  show "tree hhdm m n c" "reach hhdm m n c \<subseteq> {pg c}"
    using assms(1,2) z ch by (cases n; simp)+
  show "GetPhysicalAddress_loop la57 hhdm m va n c = Inr 0" if "n \<le> levels la57"
    using assms(1,2) z [OF entry_index_less] ch [OF entry_index_less] that
    by (cases n) (simp_all add: GetPhysicalAddress_step stop_def Present_def)
  show "mappable l hhdm m va n c" if "1 \<le> l" "l \<le> n"
    using z [OF entry_index_less] ch [OF entry_index_less] that by (cases n) (simp_all add: Present_def)
qed

lemma memset_page_pg:
  assumes "aligned c"
  shows "pt (memset_page s c) a = (if pg a = pg c then 0 else pt s a)"
proof -
  obtain q where "unat c = 4096 * q"
    using assms by (auto simp: aligned_def)
  then have "unat c \<le> unat a \<and> unat a < unat c + 4096 \<longleftrightarrow> unat a div 4096 = unat c div 4096"
    by (auto simp: div_nat_eqI)
  then show ?thesis
    by (simp add: memset_page_def pg_def)
qed

lemma memset_page_pmm [simp]: "g_PMM (memset_page s c) = g_PMM s"
  by (simp add: memset_page_def)

lemma new_table_ok:
  assumes "pool hhdm s bs" "0 < page_total bs"
  shows "\<exists>s1 p bs1. new_table hhdm s e flags = Inr (s1, p + hhdm) \<and> pool hhdm s1 bs1 \<and>
    aligned p \<and> p \<noteq> 0 \<and> unat p < 4503599627370496 \<and> aligned (p + hhdm) \<and> p + hhdm \<noteq> 0 \<and>
    page_free hhdm bs (pg (p + hhdm)) \<and> \<not> page_free hhdm bs1 (pg (p + hhdm)) \<and>
    free_bytes hhdm bs1 \<subseteq> free_bytes hhdm bs \<and> page_total bs1 + 1 = page_total bs \<and>
    pt s1 = (\<lambda>a. if a = e then table_entry p flags else if pg a = pg (p + hhdm) then 0 else pt s a)"
proof -
  have "bs \<noteq> []"
    using assms(2) by auto
  then obtain pmm p bs1 where p: "AllocatePage hhdm (g_PMM s) = Inr (pmm, p)" "pmm_inv hhdm pmm bs1" "p \<noteq> 0"
    "4096 dvd unat p + unat hhdm" "unat p + unat hhdm < 2 ^ 64" "unat p \<in> free_bytes hhdm bs"
    "free_bytes hhdm bs1 = free_bytes hhdm bs - {unat p ..< unat p + 4096}" "page_total bs1 + 1 = page_total bs"
    using AllocatePage_fresh [of hhdm "g_PMM s" bs] assms(1) by (auto simp: pool_def)
  have c: "unat (p + hhdm) = unat p + unat hhdm"
    using p(5) by (subst unat_add_nowrap) simp_all
  have al: "aligned hhdm" "aligned (p + hhdm)"
    using assms(1) p(4) c by (simp_all add: pool_def aligned_def)
  then have alp: "aligned p"
    using c p(4) by (simp add: aligned_def dvd_add_left_iff)
  have "pg (p + hhdm) * 4096 - unat hhdm = unat p"
    using al c by (simp add: pg_def aligned_def)
  then have free: "page_free hhdm bs (pg (p + hhdm))" "\<not> page_free hhdm bs1 (pg (p + hhdm))"
    using p(6,7) by (simp_all add: page_free_def)
  have "p + hhdm \<noteq> 0"
    using c p(3) by (metis add_is_0 unat_0 unat_eq_0)
  moreover have "unat p < 4503599627370496" "free_bytes hhdm bs1 \<subseteq> {..<4503599627370496}"
    using assms(1) p(6,7) by (auto simp: pool_def)
  ultimately show ?thesis
    using p al alp free
    by (intro exI [of _ "set_entry (memset_page (s\<lparr>g_PMM := pmm\<rparr>) (p + hhdm)) e (table_entry p flags)"]
        exI [of _ p] exI [of _ bs1])
      (auto simp: new_table_def to_HHDM_def from_HHDM_def Let_def set_entry_def table_entry_def pool_def
        memset_page_pg fun_eq_iff)
qed

text \<open>An entry that names no table is written.\<close>

lemma leaf_update:
  assumes tr: "tree hhdm m (Suc n) t" and lev: "Suc n \<le> levels la57" and x: "x = entry_index va (Suc n)"
    and lf: "lf = 0 \<or> Present lf" "nx (Suc n) lf = 0" and m': "m' = m(slot t x := lf)"
  shows "tree hhdm m' (Suc n) t" "reach hhdm m' (Suc n) t \<subseteq> reach hhdm m (Suc n) t"
    "GetPhysicalAddress_loop la57 hhdm m' va (Suc n) t = Inr (stop (Suc n) lf)"
    "leaf_of hhdm m' va (Suc n) t = lf" "path_grants flags hhdm m' va (Suc n) t"
    "\<And>va'. entry_index va' (Suc n) \<noteq> x \<Longrightarrow>
      GetPhysicalAddress_loop la57 hhdm m' va' (Suc n) t = GetPhysicalAddress_loop la57 hhdm m va' (Suc n) t"
    "\<And>a. pg a \<noteq> pg t \<Longrightarrow> m' a = m a"
    "\<And>c. child hhdm m (Suc n) t x = Some c \<Longrightarrow> reach hhdm m' (Suc n) t \<inter> reach hhdm m n c = {}"
proof -
  have al: "aligned t" "t \<noteq> 0" and x5: "x < 512"
    using tr x entry_index_less by simp_all
  have pgx: "pg (slot t x) = pg t"
    using pg_slot [OF al(1) x5] .
  show same: "m' a = m a" if "pg a \<noteq> pg t" for a
    using that pgx by (auto simp: m')
  have others: "m' (slot t y) = m (slot t y)" if "y < 512" "y \<noteq> x" for y
    using that slot_inj [OF al(1) that(1) x5] by (simp add: m')
  have below: "m' a = m a" if "y < 512" "child hhdm m (Suc n) t y = Some d" "pg a \<in> reach hhdm m n d" for y d a
    using tree_child(2) [OF tr that(2,1)] that(3) by (intro same) auto
  have leaf: "child hhdm m' (Suc n) t x = None"
    using lf(2) by (simp add: child_def m')
  have entry: "m' (slot t x) = 0 \<or> Present (m' (slot t x))"
    using lf(1) by (simp add: m')
  have "tree hhdm m' (Suc n) t \<and> reach hhdm m' (Suc n) t \<subseteq> reach hhdm m (Suc n) t \<union>
      (case child hhdm m' (Suc n) t x of None \<Rightarrow> {} | Some c \<Rightarrow> reach hhdm m' n c)"
    by (intro conjI tree_replace [OF tr x5 entry others]) (use below leaf in auto)
  then show "tree hhdm m' (Suc n) t" "reach hhdm m' (Suc n) t \<subseteq> reach hhdm m (Suc n) t"
    using leaf by (simp_all del: tree.simps reach.simps)
  show "GetPhysicalAddress_loop la57 hhdm m' va (Suc n) t = Inr (stop (Suc n) lf)"
    "leaf_of hhdm m' va (Suc n) t = lf" "path_grants flags hhdm m' va (Suc n) t"
    using leaf x by (simp_all add: GetPhysicalAddress_step al lev m')
  have ch: "child hhdm m' (Suc n) t y = child hhdm m (Suc n) t y" if "y < 512" "y \<noteq> x" for y
    using others [OF that] by (rule child_cong)
  show "GetPhysicalAddress_loop la57 hhdm m' va' (Suc n) t = GetPhysicalAddress_loop la57 hhdm m va' (Suc n) t"
    if "entry_index va' (Suc n) \<noteq> x" for va'
  proof -
    let ?y = "entry_index va' (Suc n)"
    have "GetPhysicalAddress_loop la57 hhdm m' va' n d = GetPhysicalAddress_loop la57 hhdm m va' n d"
      if "child hhdm m (Suc n) t ?y = Some d" for d
      using tree_child(1) [OF tr that entry_index_less] below [OF entry_index_less that] lev
      by (intro GetPhysicalAddress_frame) auto
    then show ?thesis
      using others [OF entry_index_less that] ch [OF entry_index_less that]
      by (simp add: GetPhysicalAddress_step al lev split: option.splits)
  qed
  show "reach hhdm m' (Suc n) t \<inter> reach hhdm m n c = {}" if "child hhdm m (Suc n) t x = Some c" for c
  proof -
    have "reach hhdm m' n d \<inter> reach hhdm m n c = {}" if y: "y < 512" "child hhdm m' (Suc n) t y = Some d" for y d
    proof -
      have ne: "y \<noteq> x"
        using y(2) leaf by auto
      have d: "child hhdm m (Suc n) t y = Some d"
        using y(2) ch [OF y(1) ne] by simp
      have "reach hhdm m' n d = reach hhdm m n d"
        using tree_frame [OF tree_child(1) [OF tr d y(1)], of m'] below [OF y(1) d] by blast
      then show ?thesis
        using tree_child(3) [OF tr \<open>child hhdm m (Suc n) t x = Some c\<close> x5 y(1) _ d] ne by auto
    qed
    moreover have "pg t \<notin> reach hhdm m n c"
      using tree_child(2) [OF tr that x5] .
    ultimately show ?thesis
      unfolding reach.simps by (fastforce split: option.splits)
  qed
qed

lemma map_leaf:
  assumes "tree hhdm (pt s) (Suc n) t" "Suc n \<le> levels la57" "pool hhdm s bs"
    "\<forall>q\<in>reach hhdm (pt s) (Suc n) t. \<not> page_free hhdm bs q" "Present lf" "nx (Suc n) lf = 0"
  shows "mapped (Suc n) lf flags la57 hhdm va (Suc n) t s bs (set_entry s (slot t (entry_index va (Suc n))) lf) bs"
proof -
  note up = leaf_update [OF assms(1,2) refl disjI2 [OF assms(5)] assms(6) refl]
  have "differ (Suc n) (Suc n) va va' \<Longrightarrow> entry_index va' (Suc n) \<noteq> entry_index va (Suc n)" for va'
    unfolding differ_def by (metis le_antisym)
  moreover have "pg a \<noteq> pg t" if "pg a \<notin> reach hhdm (pt s) (Suc n) t" for a
    using that by auto
  moreover have "mappable (Suc n) hhdm ((pt s)(slot t (entry_index va (Suc n)) := lf)) va' (Suc n) t"
    if "mappable (Suc n) hhdm (pt s) va' (Suc n) t" for va'
    using that assms(6) by (auto simp: child_def split: option.splits if_splits)
  ultimately show ?thesis
    using up assms(3,4) unfolding mapped_def set_entry_def pool_def
    by (simp del: tree.simps reach.simps leaf_of.simps path_grants.simps mappable.simps) blast
qed

lemma mapped_new:
  assumes tr: "tree hhdm (pt s) (Suc n) t" and lev: "Suc n \<le> levels la57" "1 \<le> l" "l \<le> n"
    and own: "\<forall>q\<in>reach hhdm (pt s) (Suc n) t. \<not> page_free hhdm bs q"
    and x: "x = entry_index va (Suc n)" "child hhdm (pt s) (Suc n) t x = None" "stop (Suc n) (pt s (slot t x)) = 0"
    and p: "aligned p" "p \<noteq> 0" "unat p < 4503599627370496" "aligned c" "c \<noteq> 0" "c = p + hhdm" "page_free hhdm bs (pg c)"
    and bs1: "free_bytes hhdm bs1 \<subseteq> free_bytes hhdm bs" "page_total bs1 + 1 = page_total bs"
    and s1: "pt s1 = (\<lambda>a. if a = slot t x then table_entry p flags else if pg a = pg c then 0 else pt s a)"
    and rec: "mapped l lf flags la57 hhdm va n c s1 bs1 s' bs'"
  shows "mapped l lf flags la57 hhdm va (Suc n) t s bs s' bs'"
proof (rule mapped_descend [OF tr lev(1,3) own x(1) _ _ _ _ _ _ _ _ bs1(1) _ _ _ _ rec])
  have al: "aligned t" "t \<noteq> 0" and x5: "x < 512"
    using tr x(1) entry_index_less by simp_all
  have pgc: "pg c \<notin> reach hhdm (pt s) (Suc n) t"
    using own p(7) by blast
  then have pgt: "pg t \<noteq> pg c"
    by auto
  have zero: "\<forall>a. pg a = pg c \<longrightarrow> pt s1 a = 0"
    using pg_slot [OF al(1) x5] pgt by (auto simp: s1)
  note zt = zero_table [where m = "pt s1" and c = c and hhdm = hhdm, OF p(4,5) zero]
  show "child hhdm (pt s1) (Suc n) t x = Some c"
    using nx_table_entry [OF p(1,3), of "Suc n"] p(2,6) lev(2,3) by (simp add: child_def s1)
  show "Present (pt s1 (slot t x))" "grants flags (pt s1 (slot t x))"
    using table_entry_bits(1) [OF p(1)] grants_table_entry [OF p(1,3)] by (simp_all add: s1)
  show "pt s1 (slot t y) = pt s (slot t y)" if "y < 512" "y \<noteq> x" for y
    using that slot_inj [OF al(1) that(1) x5] pg_slot [OF al(1) that(1)] pgt by (simp add: s1)
  show "pt s1 a = pt s a" if "y < 512" "child hhdm (pt s) (Suc n) t y = Some d" "pg a \<in> reach hhdm (pt s) n d" for y d a
    using that pgc reach_child [OF that(2,1)] tree_child(2) [OF tr that(2,1)] pg_slot [OF al(1) x5]
    by (auto simp: s1)
  show "pg t \<notin> reach hhdm (pt s1) n c"
    using zt(2) pgt by blast
  show "reach hhdm (pt s1) n c \<inter> reach hhdm (pt s) n d = {}"
    if "y < 512" "child hhdm (pt s) (Suc n) t y = Some d" for y d
    using zt(2) pgc reach_child [OF that(2,1)] by blast
  show "\<forall>q\<in>reach hhdm (pt s1) n c. q \<in> reach hhdm (pt s) (Suc n) t \<or> page_free hhdm bs q"
    using zt(2) p(7) by blast
  show "pt s1 a = pt s a" if "pg a \<notin> reach hhdm (pt s) (Suc n) t" "\<not> page_free hhdm bs (pg a)" for a
    using that p(7) pg_slot [OF al(1) x5] by (auto simp: s1)
  show "GetPhysicalAddress_loop la57 hhdm (pt s1) va' n c = GetPhysicalAddress_loop la57 hhdm (pt s) va' (Suc n) t"
    if "entry_index va' (Suc n) = x" for va'
  proof -
    have "GetPhysicalAddress_loop la57 hhdm (pt s1) va' n c = Inr 0"
      using Suc_leD [OF lev(1)] by (rule zt(3))
    then show ?thesis
      using lev(1) that x(2,3) by (simp add: GetPhysicalAddress_step al)
  qed
  show "mappable l hhdm (pt s1) va' n c" for va'
    using lev(2,3) by (rule zt(4))
  show "page_total bs \<le> page_total bs1 + 1"
    using bs1(2) by simp
qed

lemma widen_below:
  assumes "tree hhdm (pt s) (Suc n) t" "child hhdm (pt s) (Suc n) t x = Some c" "x < 512"
  shows "reach hhdm (pt (widen_entry s (slot t x) flags)) n c = reach hhdm (pt s) n c"
    "tree hhdm (pt (widen_entry s (slot t x) flags)) n c"
    "mappable l hhdm (pt (widen_entry s (slot t x) flags)) va n c = mappable l hhdm (pt s) va n c"
    "\<And>a. pg a \<noteq> pg t \<Longrightarrow> pt (widen_entry s (slot t x) flags) a = pt s a"
proof -
  let ?m = "pt (widen_entry s (slot t x) flags)"
  have "pg (slot t x) = pg t"
    using assms by (intro pg_slot) simp_all
  then show same: "?m a = pt s a" if "pg a \<noteq> pg t" for a
    using that by (auto simp: widen_entry_def set_entry_def)
  have agree: "?m a = pt s a" if "pg a \<in> reach hhdm (pt s) n c" for a
    using that tree_child(2) [OF assms] by (intro same) auto
  show "reach hhdm ?m n c = reach hhdm (pt s) n c" "tree hhdm ?m n c"
    "mappable l hhdm ?m va n c = mappable l hhdm (pt s) va n c"
    using tree_frame [OF tree_child(1) [OF assms] agree] mappable_frame [OF tree_child(1) [OF assms] agree] by blast+
qed

lemma mapped_old:
  assumes tr: "tree hhdm (pt s) (Suc n) t" and lev: "Suc n \<le> levels la57" "l \<le> n"
    and own: "\<forall>q\<in>reach hhdm (pt s) (Suc n) t. \<not> page_free hhdm bs q"
    and x: "x = entry_index va (Suc n)" "child hhdm (pt s) (Suc n) t x = Some c"
    and rec: "mapped l lf flags la57 hhdm va n c (widen_entry s (slot t x) flags) bs s' bs'"
  shows "mapped l lf flags la57 hhdm va (Suc n) t s bs s' bs'"
proof -
  let ?s1 = "widen_entry s (slot t x) flags"
  have al: "aligned t" "t \<noteq> 0" and x5: "x < 512"
    using tr x(1) entry_index_less by simp_all
  have s1: "pt ?s1 = (pt s)(slot t x := widened (pt s (slot t x)) flags)"
    by (simp add: widen_entry_def set_entry_def widened_def)
  note c = tree_child [OF tr x(2) x5]
  note fr = widen_below(1,2) [OF tr x(2) x5] and same = widen_below(4) [OF tr x(2) x5]
  have nx: "nx (Suc n) (pt s (slot t x)) \<noteq> 0" "c = nx (Suc n) (pt s (slot t x)) + hhdm"
    using x(2) by (auto simp: child_def split: if_splits)
  show ?thesis
  proof (rule mapped_descend [OF tr lev own x(1) _ _ _ _ _ _ _ _ _ _ _ _ _ rec])
    show "child hhdm (pt ?s1) (Suc n) t x = Some c"
      using nx_widened [OF nx(1)] nx by (simp add: child_def s1)
    show "Present (pt ?s1 (slot t x))" "grants flags (pt ?s1 (slot t x))"
      using nx(1) grants_widened by (auto simp: s1 nx_def split: if_splits)
    show "pt ?s1 (slot t y) = pt s (slot t y)" if "y < 512" "y \<noteq> x" for y
      using that slot_inj [OF al(1) that(1) x5] by (simp add: s1)
    show "pt ?s1 a = pt s a" if "y < 512" "child hhdm (pt s) (Suc n) t y = Some d" "pg a \<in> reach hhdm (pt s) n d" for y d a
      using that tree_child(2) [OF tr that(2,1)] by (intro same) auto
    show "pg t \<notin> reach hhdm (pt ?s1) n c"
      using c(2) fr(1) by simp
    show "reach hhdm (pt ?s1) n c \<inter> reach hhdm (pt s) n d = {}"
      if "y < 512" "y \<noteq> x" "child hhdm (pt s) (Suc n) t y = Some d" for y d
      using c(3) [of y d] that fr(1) by auto
    show "\<forall>q\<in>reach hhdm (pt ?s1) n c. q \<in> reach hhdm (pt s) (Suc n) t \<or> page_free hhdm bs q"
      using reach_child [OF x(2) x5] fr(1) by blast
    show "pt ?s1 a = pt s a" if "pg a \<notin> reach hhdm (pt s) (Suc n) t" for a
      using that by (intro same) auto
    show "GetPhysicalAddress_loop la57 hhdm (pt ?s1) va' n c = GetPhysicalAddress_loop la57 hhdm (pt s) va' (Suc n) t"
      if "entry_index va' (Suc n) = x" for va'
    proof -
      have "pt ?s1 a = pt s a" if "pg a \<in> reach hhdm (pt s) n c" for a
        using that c(2) by (intro same) auto
      from GetPhysicalAddress_frame [OF c(1) this, of la57 va'] show ?thesis
        using that x(2) lev(1) by (simp add: GetPhysicalAddress_step al)
    qed
    show "mappable l hhdm (pt ?s1) va' n c"
      if "entry_index va' (Suc n) = x" "mappable l hhdm (pt s) va' (Suc n) t" for va'
      using that x(2) widen_below(3) [OF tr x(2) x5] by simp
  qed simp_all
qed

lemma map_gen_ok:
  assumes "tree hhdm (pt s) n t" "n \<le> levels la57" "1 \<le> l" "pool hhdm s bs"
    "\<forall>q\<in>reach hhdm (pt s) n t. \<not> page_free hhdm bs q" "n - l \<le> page_total bs"
    "mappable l hhdm (pt s) va n t" "Present lf" "nx l lf = 0"
  shows "\<exists>s' bs'. map_gen l lf la57 hhdm va flags n t s = Inr s' \<and> mapped l lf flags la57 hhdm va n t s bs s' bs'"
  using assms
proof (induction n arbitrary: t s bs)
  case (Suc n)
  let ?x = "entry_index va (Suc n)"
  have al: "aligned t" "t \<noteq> 0"
    using Suc.prems(1) by simp_all
  have e: "entry_addr t va (Suc n) = slot t ?x" "slot t ?x \<noteq> 0"
    using entry_addr_slot slot_nonzero [OF al entry_index_less] by auto
  have nxt: "x86_64_GetNextPageTable la57 (pt s) (slot t ?x) (Suc n) = Inr (nx (Suc n) (pt s (slot t ?x)))"
    using GetNext_nx e(2) Suc.prems(2) by simp
  show ?case
  proof (cases "child hhdm (pt s) (Suc n) t ?x")
    case None
    then have nx0: "nx (Suc n) (pt s (slot t ?x)) = 0"
      by (simp add: child_def split: if_splits)
    show ?thesis
    proof (cases "Suc n = l")
      case True
      have "map_gen l lf la57 hhdm va flags (Suc n) t s = Inr (set_entry s (slot t ?x) lf)"
        using nxt nx0 al e by (simp add: True [symmetric])
      then show ?thesis
        using map_leaf [OF Suc.prems(1,2,4,5,8), of flags va] Suc.prems(9) True by blast
    next
      case False
      then have l: "l \<le> n" "l < Suc n" "0 < page_total bs"
        using Suc.prems(6,7) None by auto
      have notbig: "\<not> ((Suc n = 3 \<or> Suc n = 2) \<and> PageSize (pt s (slot t ?x)) \<and> Present (pt s (slot t ?x)))"
        using Suc.prems(7) None l by simp
      then have stop: "stop (Suc n) (pt s (slot t ?x)) = 0"
        using l Suc.prems(3) by (auto simp: stop_def)
      obtain s1 p bs1 where n1: "new_table hhdm s (slot t ?x) flags = Inr (s1, p + hhdm)" "pool hhdm s1 bs1"
        "aligned p" "p \<noteq> 0" "unat p < 4503599627370496" "aligned (p + hhdm)" "p + hhdm \<noteq> 0"
        "page_free hhdm bs (pg (p + hhdm))" "\<not> page_free hhdm bs1 (pg (p + hhdm))"
        "free_bytes hhdm bs1 \<subseteq> free_bytes hhdm bs" "page_total bs1 + 1 = page_total bs"
        "pt s1 = (\<lambda>a. if a = slot t ?x then table_entry p flags else if pg a = pg (p + hhdm) then 0 else pt s a)"
        using new_table_ok [OF Suc.prems(4) l(3), of "slot t ?x" flags] by blast
      have "pg (slot t ?x) \<noteq> pg (p + hhdm)"
        using pg_slot [OF al(1) entry_index_less] Suc.prems(5) n1(8) by auto
      then have zero: "\<forall>a. pg a = pg (p + hhdm) \<longrightarrow> pt s1 a = 0"
        by (auto simp: n1(12))
      note zt = zero_table [where m = "pt s1" and c = "p + hhdm" and hhdm = hhdm, OF n1(6,7) zero]
      have "\<forall>q\<in>reach hhdm (pt s1) n (p + hhdm). \<not> page_free hhdm bs1 q" "n - l \<le> page_total bs1"
        using zt(2) n1(9,11) Suc.prems(6) by auto
      then obtain s' bs' where r: "map_gen l lf la57 hhdm va flags n (p + hhdm) s1 = Inr s'"
        "mapped l lf flags la57 hhdm va n (p + hhdm) s1 bs1 s' bs'"
        using Suc.IH [OF zt(1) _ Suc.prems(3) n1(2) _ _ zt(4) [OF Suc.prems(3) l(1)] Suc.prems(8,9)] Suc.prems(2)
        by (meson Suc_leD)
      have "map_gen l lf la57 hhdm va flags (Suc n) t s = Inr s'"
        using n1(1) nxt nx0 al e l notbig r(1) by (auto simp: Let_def)
      then show ?thesis
        using mapped_new [OF Suc.prems(1,2,3) l(1) Suc.prems(5) refl None stop n1(3-7) refl n1(8,10,11,12) r(2)]
        by blast
    qed
  next
    case (Some c)
    let ?s1 = "widen_entry s (slot t ?x) flags"
    have l: "l \<le> n" "mappable l hhdm (pt s) va n c"
      using Suc.prems(7) Some by auto
    note wb = widen_below [OF Suc.prems(1) Some entry_index_less]
    have "pool hhdm ?s1 bs"
      using Suc.prems(4) by (simp add: pool_def widen_entry_def set_entry_def)
    moreover have "\<forall>q\<in>reach hhdm (pt ?s1) n c. \<not> page_free hhdm bs q"
      using Suc.prems(5) reach_child [OF Some entry_index_less] wb(1) by blast
    ultimately obtain s' bs' where r: "map_gen l lf la57 hhdm va flags n c ?s1 = Inr s'"
      "mapped l lf flags la57 hhdm va n c ?s1 bs s' bs'"
      using Suc.IH [OF wb(2) Suc_leD [OF Suc.prems(2)] Suc.prems(3) _ _ _ _ Suc.prems(8,9)] Suc.prems(6) l wb(3)
      by (metis Suc_diff_le Suc_leD)
    have "nx (Suc n) (pt s (slot t ?x)) \<noteq> 0" "c = to_HHDM hhdm (nx (Suc n) (pt s (slot t ?x)))"
      using Some by (auto simp: child_def to_HHDM_def split: if_splits)
    then have "map_gen l lf la57 hhdm va flags (Suc n) t s = Inr s'"
      using r(1) nxt al e l(1) by simp
    then show ?thesis
      using mapped_old [OF Suc.prems(1,2) l(1) Suc.prems(5) refl Some r(2)] by blast
  qed
qed simp

end
