(* ===== verification/PMMTotal.thy ===== *)
theory PMMTotal
  imports PMMCorrect
begin

text \<open>
  The release of pages never stops the machine: it needs the links of the free list in ascending
  order only, not the sizes, and keeps them so. The page tables rely on this when they give back
  empty tables.
\<close>

fun chain :: "(u64 \<Rightarrow> FreeListNode) \<Rightarrow> u64 \<Rightarrow> u64 list \<Rightarrow> u64 \<Rightarrow> bool" where
  "chain m p [] q = (p = q)"
| "chain m p (x # xs) q = (p = x \<and> x \<noteq> 0 \<and> chain m (Next (m x)) xs q)"

definition last_or_0 :: "u64 list \<Rightarrow> u64" where
  "last_or_0 xs = (if xs = [] then 0 else last xs)"

definition list_ok :: "PMM \<Rightarrow> u64 list \<Rightarrow> bool" where
  "list_ok s xs \<longleftrightarrow> chain (mem s) (m_FreeListStart s) xs 0 \<and> sorted_wrt (<) xs \<and> m_FreeListEnd s = last_or_0 xs"

lemma chain_append: "chain m p (xs @ ys) q \<longleftrightarrow> (\<exists>r. chain m p xs r \<and> chain m r ys q)"
  by (induction xs arbitrary: p) auto

lemma chain_upd: "a \<notin> set xs \<Longrightarrow> chain (m(a := v)) p xs q = chain m p xs q"
  by (induction xs arbitrary: p) auto

lemma chain_first: "chain m p xs 0 \<Longrightarrow> p = (case xs of [] \<Rightarrow> 0 | x # _ \<Rightarrow> x)"
  by (cases xs) auto

lemma last_or_0_simps [simp]:
  "last_or_0 [] = 0" "last_or_0 [x] = x" "ys \<noteq> [] \<Longrightarrow> last_or_0 (x # ys) = last_or_0 ys"
  "last_or_0 (xs @ x # ys) = last_or_0 (x # ys)"
  by (simp_all add: last_or_0_def)

lemma blocks_chain: "blocks m p bs q \<Longrightarrow> chain m p (map fst bs) q"
  by (induction bs arbitrary: p) auto

lemma pmm_inv_list_ok: "pmm_inv hhdm s bs \<Longrightarrow> list_ok s (map fst bs)"
proof -
  assume inv: "pmm_inv hhdm s bs"
  have "sorted_wrt (<) (map fst bs)" if "wf_blocks lo bs" for lo
    using that
  proof (induction bs arbitrary: lo)
    case (Cons b bs)
    have "fst b < fst c" if "c \<in> set bs" for c
    proof -
      have "block_end b \<le> unat (fst c)" "0 < unat (snd b)"
        using Cons.prems wf_member [of "block_end b" bs c] that by auto
      then show ?thesis
        by (simp add: word_less_nat_alt block_end_def)
    qed
    moreover have "sorted_wrt (<) (map fst bs)"
      using Cons.prems by (intro Cons.IH [of "block_end b"]) simp
    ultimately show ?case by simp
  qed simp
  then show ?thesis
    using inv blocks_chain
    by (auto simp: list_ok_def pmm_inv_def last_or_0_def last_addr_def last_map)
qed

lemma insert_total:
  assumes "list_ok s (pre @ c # post)" "\<forall>y\<in>set pre. y < x" "x < c" "x \<noteq> 0"
  shows "\<exists>s' xs. FreePages_insert s x k (last_or_0 pre) c = Inr s' \<and> list_ok s' xs \<and>
    set xs \<subseteq> insert x (set (pre @ c # post)) \<and> m_lock s' = m_lock s"
proof (cases pre rule: rev_cases)
  case Nil
  have ln: "m_FreeListStart s = c" "c \<noteq> 0" "chain (mem s) (Next (mem s c)) post 0" "m_FreeListEnd s = last_or_0 (c # post)"
    "sorted_wrt (<) (c # post)"
    using assms(1) Nil by (auto simp: list_ok_def)
  have ne: "x \<noteq> c" "x \<notin> set post" "c \<notin> set post"
    using assms(3) ln(5) by (auto dest: order.strict_trans)
  have lst: "post \<noteq> [] \<Longrightarrow> last_or_0 post \<noteq> c"
    using ne(3) by (auto simp: last_or_0_def)
  show ?thesis
  proof (cases "x + PAGE_SIZE * k = c")
    case True
    then have "\<exists>s'. FreePages_insert s x k 0 c = Inr s' \<and> list_ok s' (x # post) \<and> m_lock s' = m_lock s"
      using ln ne lst assms(3,4) order.strict_trans [OF assms(3)]
      by (cases "post = []") (auto simp: FreePages_insert_def node_writes list_ok_def chain_upd)
    then obtain s' where "FreePages_insert s x k 0 c = Inr s'" "list_ok s' (x # post)" "m_lock s' = m_lock s"
      by blast
    then show ?thesis
      using Nil by (intro exI [of _ s'] exI [of _ "x # post"]) auto
  next
    case False
    then have "\<exists>s'. FreePages_insert s x k 0 c = Inr s' \<and> list_ok s' (x # c # post) \<and> m_lock s' = m_lock s"
      using ln ne assms(3,4) order.strict_trans [OF assms(3)]
      by (auto simp: FreePages_insert_def node_writes list_ok_def chain_upd)
    then obtain s' where "FreePages_insert s x k 0 c = Inr s'" "list_ok s' (x # c # post)" "m_lock s' = m_lock s"
      by blast
    then show ?thesis
      using Nil by (intro exI [of _ s'] exI [of _ "x # c # post"]) auto
  qed
next
  case (snoc pre' d)
  have ln: "chain (mem s) (m_FreeListStart s) pre' d" "d \<noteq> 0" "Next (mem s d) = c" "c \<noteq> 0"
    "chain (mem s) (Next (mem s c)) post 0" "m_FreeListEnd s = last_or_0 (c # post)" "sorted_wrt (<) (pre' @ d # c # post)"
    using assms(1) snoc by (auto simp: list_ok_def chain_append)
  have dx: "d < x"
    using assms(2) snoc by simp
  have ne: "x \<noteq> c" "c \<noteq> x" "x \<notin> set post" "c \<notin> set post" "d \<noteq> x" "x \<noteq> d" "d \<noteq> c" "c \<noteq> d" "d \<notin> set post" "d \<notin> set pre'" "x \<notin> set pre'" "c \<notin> set pre'"
    using assms(2,3) ln(7) snoc dx by (auto simp: sorted_wrt_append dest: order.strict_trans)
  have lst: "post \<noteq> [] \<Longrightarrow> last_or_0 post \<noteq> c" "post \<noteq> [] \<Longrightarrow> c \<noteq> last_or_0 post"
    using ne(4) by (auto simp: last_or_0_def)
  define xs where "xs = pre' @ d #
    (if d + PageCount (mem s d) * PAGE_SIZE = x
     then (if d + (PageCount (mem s d) + k) * PAGE_SIZE = c then post else c # post)
     else (if x + k * PAGE_SIZE = c then x # post else x # c # post))"
  have "sorted_wrt (<) xs"
    using ln(7) dx assms(2,3) snoc by (auto simp: xs_def sorted_wrt_append)
  then have "\<exists>s'. FreePages_insert s x k d c = Inr s' \<and> list_ok s' xs \<and> m_lock s' = m_lock s"
    using ln(5)
    by (cases "post = []"; cases "d + PageCount (mem s d) * PAGE_SIZE = x")
      (simp_all add: FreePages_insert_def node_writes list_ok_def chain_upd chain_append xs_def ln(1-4,6) ne lst dx
        assms(4))
  then obtain s' where "FreePages_insert s x k d c = Inr s'" "list_ok s' xs" "m_lock s' = m_lock s"
    by blast
  then show ?thesis
    using snoc by (intro exI [of _ s'] exI [of _ xs]) (auto simp: xs_def split: if_splits)
qed

lemma append_total:
  assumes "list_ok s xs" "\<forall>y\<in>set xs. y < x" "x \<noteq> 0"
  shows "\<exists>s' ys. FreePages_append s x k = Inr s' \<and> list_ok s' ys \<and> set ys \<subseteq> insert x (set xs) \<and>
    m_lock s' = m_lock s"
proof (cases xs rule: rev_cases)
  case Nil
  then have "\<exists>s'. FreePages_append s x k = Inr s' \<and> list_ok s' [x] \<and> m_lock s' = m_lock s"
    using assms by (auto simp: FreePages_append_def node_writes list_ok_def)
  then show ?thesis
    using Nil by fastforce
next
  case (snoc pre d)
  have ln: "chain (mem s) (m_FreeListStart s) pre d" "d \<noteq> 0" "Next (mem s d) = 0" "m_FreeListEnd s = d"
    "sorted_wrt (<) (pre @ [d])"
    using assms(1) snoc by (auto simp: list_ok_def chain_append)
  have ne: "d \<notin> set pre" "x \<notin> set pre" "x \<noteq> d" "d \<noteq> x" "\<forall>y\<in>set pre. y < d" "d < x"
    using ln(5) assms(2) snoc by (auto simp: sorted_wrt_append)
  define ys where "ys = (if d + PageCount (mem s d) * PAGE_SIZE = x then pre @ [d] else pre @ [d, x])"
  have "sorted_wrt (<) ys"
    using ln(5) ne assms(2) snoc by (auto simp: ys_def sorted_wrt_append)
  then have "\<exists>s'. FreePages_append s x k = Inr s' \<and> list_ok s' ys \<and> m_lock s' = m_lock s"
    by (cases "d + PageCount (mem s d) * PAGE_SIZE = x")
      (simp_all add: FreePages_append_def node_writes list_ok_def chain_upd chain_append ys_def ln(1-4) ne assms(3))
  then obtain s' where "FreePages_append s x k = Inr s'" "list_ok s' ys" "m_lock s' = m_lock s"
    by blast
  then show ?thesis
    using snoc by (intro exI [of _ s'] exI [of _ ys]) (auto simp: ys_def split: if_splits)
qed

lemma FreePages_loop_total:
  assumes "list_ok s (pre @ post)" "\<forall>y\<in>set pre. y < x" "x \<noteq> 0" "x \<notin> set post"
  shows "\<exists>s' ys. FreePages_loop s x k (last_or_0 pre) (case post of [] \<Rightarrow> 0 | c # _ \<Rightarrow> c) = Some (Inr s') \<and>
    list_ok s' ys \<and> set ys \<subseteq> insert x (set (pre @ post)) \<and> m_lock s' = Mutex_Unlock (m_lock s)"
  using assms
proof (induction post arbitrary: pre)
  case Nil
  then show ?case
    using append_total [of s pre x k]
    by (auto simp: FreePages_loop.simps [of s x k _ 0] FreePages_finish_def list_ok_def)
next
  case (Cons c post)
  have c: "c \<noteq> 0" "Next (mem s c) = (case post of [] \<Rightarrow> 0 | c # _ \<Rightarrow> c)" "\<forall>y\<in>set pre. y < c"
    using Cons.prems(1) chain_first [of "mem s" _ post]
    by (auto simp: list_ok_def chain_append sorted_wrt_append)
  have lt: "last_or_0 pre < c"
    using c by (auto simp: last_or_0_def word_neq_0_conv)
  show ?case
  proof (cases "x < c")
    case True
    obtain s' ys where "FreePages_insert s x k (last_or_0 pre) c = Inr s'" "list_ok s' ys"
      "set ys \<subseteq> insert x (set (pre @ c # post))" "m_lock s' = m_lock s"
      using insert_total [OF Cons.prems(1,2) True Cons.prems(3)] by blast
    then show ?thesis
      using True lt c(1)
      by (intro exI [of _ "FreePages_finish k s'"] exI [of _ ys])
        (auto simp: FreePages_loop.simps [of s x k _ c] FreePages_finish_def list_ok_def)
  next
    case False
    then have "c < x"
      using Cons.prems(4) by auto
    then show ?thesis
      using False lt c(1,2) Cons.IH [of "pre @ [c]"] Cons.prems
      by (auto simp: FreePages_loop.simps [of s x k _ c])
  qed
qed

lemma FreePage_total:
  assumes "list_ok s xs" "m_lock s = 1" "to_HHDM hhdm p \<noteq> 0" "to_HHDM hhdm p \<notin> set xs"
  shows "\<exists>s' ys. FreePage hhdm s p = Inr s' \<and> list_ok s' ys \<and> m_lock s' = 1 \<and>
    set ys \<subseteq> insert (to_HHDM hhdm p) (set xs)"
proof -
  have "list_ok (s\<lparr>m_lock := 0\<rparr>) ([] @ xs)"
    using assms(1) by (simp add: list_ok_def)
  moreover have "m_FreeListStart s = (case xs of [] \<Rightarrow> 0 | c # _ \<Rightarrow> c)"
    using assms(1) chain_first by (auto simp: list_ok_def)
  ultimately show ?thesis
    using FreePages_loop_total [of "s\<lparr>m_lock := 0\<rparr>" "[]" xs "to_HHDM hhdm p" 1] assms
    by (auto simp: FreePage_def FreePage_loop_eq)
qed

end
