(* ===== verification/PageTablesUnmap.thy ===== *)
theory PageTablesUnmap
  imports PageTablesCorrect PMMTotal
begin

text \<open>
  Unmapping: the leaf entry is cleared, and the tables that became empty are unlinked and given
  back, from the bottom up.
\<close>

section \<open>The unmapping as a recursion on the levels\<close>

text \<open>The flag of the result says whether every table below was released, so that the climb goes on.\<close>

primrec unmap_tree :: "u64 \<Rightarrow> u64 \<Rightarrow> nat \<Rightarrow> u64 \<Rightarrow> Paging \<Rightarrow> (Paging \<times> bool) res" where
  "unmap_tree hhdm va 0 t s = Inr (s, False)"
| "unmap_tree hhdm va (Suc n) t s =
     (let e = slot t (entry_index va (Suc n)) in
      if n = 0 then Inr (set_entry s e 0, True)
      else
        (case child hhdm (pt s) (Suc n) t (entry_index va (Suc n)) of
           None \<Rightarrow> Inr (s, False)
         | Some c \<Rightarrow>
             bindR (unmap_tree hhdm va n c s) (\<lambda>(s, go).
             let table = to_HHDM hhdm (pt s e AND 0x000FFFFFFFFFF000) in
             if \<not> go \<or> table_used (pt s) table then Inr (s, False)
             else
               bindR (FreePage hhdm (g_PMM s) (from_HHDM hhdm table)) (\<lambda>pmm.
               Inr (set_entry (s\<lparr>g_PMM := pmm\<rparr>) e 0, True)))))"

text \<open>The loop over the recorded entries, as a loop over a list.\<close>

fun release_list :: "u64 \<Rightarrow> u64 list \<Rightarrow> Paging \<Rightarrow> (Paging \<times> bool) res" where
  "release_list hhdm [] s = Inr (s, True)"
| "release_list hhdm (e # es) s =
     (let table = to_HHDM hhdm (pt s e AND 0x000FFFFFFFFFF000) in
      if table_used (pt s) table then Inr (s, False)
      else
        bindR (FreePage hhdm (g_PMM s) (from_HHDM hhdm table)) (\<lambda>pmm.
        release_list hhdm es (set_entry (s\<lparr>g_PMM := pmm\<rparr>) e 0)))"

lemma release_list_snoc:
  "release_list hhdm (es @ [e]) s =
     bindR (release_list hhdm es s) (\<lambda>(s, go). if go then release_list hhdm [e] s else Inr (s, False))"
proof (induction es arbitrary: s)
  case (Cons d es)
  show ?case
    by (cases "FreePage hhdm (g_PMM s) (from_HHDM hhdm (to_HHDM hhdm (pt s d AND 0x000FFFFFFFFFF000)))")
      (simp_all add: Let_def Cons)
qed (simp add: Let_def)

text \<open>The entries on the path of an address, from level 2 upwards, and the leaf.\<close>

primrec path :: "u64 \<Rightarrow> (u64 \<Rightarrow> u64) \<Rightarrow> u64 \<Rightarrow> nat \<Rightarrow> u64 \<Rightarrow> (u64 list \<times> u64) option" where
  "path hhdm m va 0 t = None"
| "path hhdm m va (Suc n) t =
     (let e = slot t (entry_index va (Suc n)) in
      if n = 0 then Some ([], e)
      else
        (case child hhdm m (Suc n) t (entry_index va (Suc n)) of
           None \<Rightarrow> None
         | Some c \<Rightarrow> map_option (\<lambda>(es, leaf). (es @ [e], leaf)) (path hhdm m va n c)))"

lemma unmap_tree_path:
  "unmap_tree hhdm va n t s =
     (case path hhdm (pt s) va n t of
        None \<Rightarrow> Inr (s, False)
      | Some (es, leaf) \<Rightarrow> release_list hhdm es (set_entry s leaf 0))"
proof (induction n arbitrary: t)
  case (Suc n)
  show ?case
    by (auto simp: Let_def Suc release_list_snoc split: option.split intro!: arg_cong2 [where f = bindR])
qed simp

lemma path_length: "path hhdm m va n t = Some (es, leaf) \<Longrightarrow> Suc (length es) = n"
  by (induction n arbitrary: t es) (auto simp: Let_def split: if_splits option.splits)

lemma UnmapPage_walk_path:
  assumes "tree hhdm m n t" "n \<le> levels la57" "n - 1 \<le> length st" "1 \<le> n"
  shows "UnmapPage_walk la57 hhdm m va n t st =
    Inr (map_option (\<lambda>(es, leaf). (es @ drop (length es) st, Some leaf)) (path hhdm m va n t))"
  using assms
proof (induction n arbitrary: t st)
  case (Suc n)
  let ?x = "entry_index va (Suc n)"
  have al: "aligned t" "t \<noteq> 0"
    using Suc.prems(1) by simp_all
  have e: "entry_addr t va (Suc n) = slot t ?x" "slot t ?x \<noteq> 0"
    using entry_addr_slot slot_nonzero [OF al entry_index_less] by auto
  have nxt: "x86_64_GetNextPageTable la57 m (slot t ?x) (Suc n) = Inr (nx (Suc n) (m (slot t ?x)))"
    using GetNext_nx e(2) Suc.prems(2) by simp
  show ?case
  proof (cases "n = 0")
    case True
    then show ?thesis
      using al e by simp
  next
    case False
    show ?thesis
    proof (cases "child hhdm m (Suc n) t ?x")
      case None
      then have "nx (Suc n) (m (slot t ?x)) = 0"
        by (simp add: child_def split: if_splits)
      then show ?thesis
        using False None al e nxt Suc.prems(3) by (simp add: Let_def)
    next
      case (Some c)
      then have nx: "nx (Suc n) (m (slot t ?x)) \<noteq> 0" "c = to_HHDM hhdm (nx (Suc n) (m (slot t ?x)))"
        by (auto simp: child_def to_HHDM_def split: if_splits)
      have IH: "UnmapPage_walk la57 hhdm m va n c (st[n - 1 := slot t ?x]) =
        Inr (map_option (\<lambda>(es, leaf). (es @ drop (length es) (st[n - 1 := slot t ?x]), Some leaf)) (path hhdm m va n c))"
        using Suc.prems False tree_child(1) [OF Suc.prems(1) Some entry_index_less] by (intro Suc.IH) auto
      have "n - 1 < length st" "Suc n - 2 = n - 1"
        using Suc.prems(3) False by auto
      moreover have "drop (length es) (st[n - 1 := slot t ?x]) = slot t ?x # drop (Suc (length es)) st"
        if "path hhdm m va n c = Some (es, leaf)" for es leaf
        using path_length [OF that] \<open>n - 1 < length st\<close>
        by (auto simp: Cons_nth_drop_Suc [symmetric] drop_update_cancel nth_list_update)
      ultimately show ?thesis
        using False Some al e nxt nx IH by (cases "path hhdm m va n c") (auto simp: Let_def)
    qed
  qed
qed simp

lemma release_tables_list:
  assumes "0 \<notin> set es" "st = pre @ es @ [0]"
  shows "release_tables hhdm st (Suc (length es)) (length pre) s =
    bindR (release_list hhdm es s) (\<lambda>(s, go). Inr s)"
  using assms
proof (induction es arbitrary: pre s)
  case Nil
  then show ?case by simp
next
  case (Cons e es)
  let ?t = "to_HHDM hhdm (pt s e AND 0x000FFFFFFFFFF000)"
  have st: "st = (pre @ [e]) @ es @ [0]"
    using Cons.prems(2) by simp
  have IH: "release_tables hhdm st (Suc (length es)) (length (pre @ [e])) s' =
      bindR (release_list hhdm es s') (\<lambda>(s, go). Inr s)" for s'
    using Cons.prems(1) st by (intro Cons.IH) simp_all
  have "e \<noteq> 0" "st ! length pre = e" "length pre < length st"
    using Cons.prems by (auto simp: nth_append)
  then show ?case
    using IH by (cases "FreePage hhdm (g_PMM s) (from_HHDM hhdm ?t)")
      (auto simp: Let_def simp del: release_tables.simps(2)
        simp: release_tables.simps(2) [of hhdm st "Suc (length es)"])
qed

lemma path_nonzero:
  "tree hhdm m n t \<Longrightarrow> path hhdm m va n t = Some (es, leaf) \<Longrightarrow> 0 \<notin> set es"
proof (induction n arbitrary: t es)
  case (Suc n)
  have "slot t (entry_index va (Suc n)) \<noteq> 0"
    using Suc.prems(1) slot_nonzero [of t "entry_index va (Suc n)"] entry_index_less by simp
  then show ?case
    using Suc.prems Suc.IH tree_child(1) [OF Suc.prems(1) _ entry_index_less]
    by (auto simp: Let_def simp del: tree.simps split: if_splits option.splits) blast
qed simp

lemma UnmapPage_tree:
  assumes "tree hhdm (pt s) 4 t"
  shows "x86_64_UnmapPage False hhdm s t va = bindR (unmap_tree hhdm va 4 t s) (\<lambda>(s, go). Inr s)"
proof (cases "path hhdm (pt s) va 4 t")
  case None
  then show ?thesis
    using UnmapPage_walk_path [OF assms, of False "[0, 0, 0, 0]" va] unmap_tree_path [of hhdm va 4 t s]
    by (simp add: x86_64_UnmapPage_def levels_def)
next
  case (Some q)
  then obtain es leaf where q: "path hhdm (pt s) va 4 t = Some (es, leaf)"
    by (cases q) auto
  then have len: "length es = 3"
    using path_length by fastforce
  have "UnmapPage_walk False hhdm (pt s) va 4 t [0, 0, 0, 0] = Inr (Some (es @ [0], Some leaf))"
    using UnmapPage_walk_path [OF assms, of False "[0, 0, 0, 0]" va] q len by (simp add: levels_def)
  moreover have "release_tables hhdm (es @ [0]) 4 0 s' = bindR (release_list hhdm es s') (\<lambda>(s, go). Inr s)" for s'
    using release_tables_list [of es "es @ [0]" "[]" hhdm s'] path_nonzero [OF assms q] len
    by (simp add: numeral_eq_Suc)
  ultimately show ?thesis
    using unmap_tree_path [of hhdm va 4 t s] q by (simp add: x86_64_UnmapPage_def levels_def)
qed

text \<open>With five levels the array has no unused place: the climb that released every table reads past its end.\<close>

lemma release_tables_overrun:
  assumes "0 \<notin> set es" "st = pre @ es"
  shows "release_tables hhdm st (Suc (length es)) (length pre) s =
    bindR (release_list hhdm es s) (\<lambda>(s, go). if go then Inl OutOfBounds else Inr s)"
  using assms
proof (induction es arbitrary: pre s)
  case Nil
  then show ?case by simp
next
  case (Cons e es)
  let ?t = "to_HHDM hhdm (pt s e AND 0x000FFFFFFFFFF000)"
  have IH: "release_tables hhdm st (Suc (length es)) (length (pre @ [e])) s' =
      bindR (release_list hhdm es s') (\<lambda>(s, go). if go then Inl OutOfBounds else Inr s)" for s'
    using Cons.prems by (intro Cons.IH) simp_all
  have "e \<noteq> 0" "st ! length pre = e" "length pre < length st"
    using Cons.prems by (auto simp: nth_append)
  then show ?case
    using IH by (cases "FreePage hhdm (g_PMM s) (from_HHDM hhdm ?t)")
      (auto simp: Let_def simp del: release_tables.simps(2)
        simp: release_tables.simps(2) [of hhdm st "Suc (length es)"])
qed

lemma UnmapPage_tree_la57:
  assumes "tree hhdm (pt s) 5 t"
  shows "x86_64_UnmapPage True hhdm s t va =
    bindR (unmap_tree hhdm va 5 t s) (\<lambda>(s, go). if go then Inl OutOfBounds else Inr s)"
proof (cases "path hhdm (pt s) va 5 t")
  case None
  then show ?thesis
    using UnmapPage_walk_path [OF assms, of True "[0, 0, 0, 0]" va] unmap_tree_path [of hhdm va 5 t s]
    by (simp add: x86_64_UnmapPage_def levels_def)
next
  case (Some q)
  then obtain es leaf where q: "path hhdm (pt s) va 5 t = Some (es, leaf)"
    by (cases q) auto
  then have len: "length es = 4"
    using path_length by fastforce
  have "UnmapPage_walk True hhdm (pt s) va 5 t [0, 0, 0, 0] = Inr (Some (es, Some leaf))"
    using UnmapPage_walk_path [OF assms, of True "[0, 0, 0, 0]" va] q len by (simp add: levels_def)
  moreover have "release_tables hhdm es 5 0 s' =
      bindR (release_list hhdm es s') (\<lambda>(s, go). if go then Inl OutOfBounds else Inr s)" for s'
    using release_tables_overrun [of es es "[]" hhdm s'] path_nonzero [OF assms q] len
    by (simp add: numeral_eq_Suc)
  ultimately show ?thesis
    using unmap_tree_path [of hhdm va 5 t s] q by (simp add: x86_64_UnmapPage_def levels_def)
qed

section \<open>The tables under the unmapping\<close>

text \<open>What a change below one table does to the table above it.\<close>

lemma shrink_below:
  assumes tr: "tree hhdm m (Suc n) t" and lev: "Suc n \<le> levels la57"
    and x: "x < 512" "child hhdm m (Suc n) t x = Some c"
    and new: "tree hhdm m1 n c" "reach hhdm m1 n c \<subseteq> reach hhdm m n c"
    and frame: "\<And>a. pg a \<notin> reach hhdm m n c \<Longrightarrow> m1 a = m a"
  shows "tree hhdm m1 (Suc n) t" "reach hhdm m1 (Suc n) t \<subseteq> reach hhdm m (Suc n) t"
    "child hhdm m1 (Suc n) t x = Some c" "reach hhdm m1 (Suc n) t \<inter> reach hhdm m n c \<subseteq> reach hhdm m1 n c"
    "\<And>va. GetPhysicalAddress_loop la57 hhdm m1 va (Suc n) t =
       (if entry_index va (Suc n) = x then GetPhysicalAddress_loop la57 hhdm m1 va n c
        else GetPhysicalAddress_loop la57 hhdm m va (Suc n) t)"
proof -
  have al: "aligned t" "t \<noteq> 0"
    using tr by simp_all
  note c = tree_child [OF tr x(2,1)]
  have slots: "m1 (slot t y) = m (slot t y)" if "y < 512" for y
    using frame [of "slot t y"] c(2) pg_slot [OF al(1) that] by simp
  have ch: "child hhdm m1 (Suc n) t y = child hhdm m (Suc n) t y" if "y < 512" for y
    using slots [OF that] by (rule child_cong)
  show cx: "child hhdm m1 (Suc n) t x = Some c"
    using ch [OF x(1)] x(2) by simp
  have below: "m1 a = m a"
    if "y < 512" "y \<noteq> x" "child hhdm m (Suc n) t y = Some d" "pg a \<in> reach hhdm m n d" for y d a
    using that c(3) [of y d] by (intro frame) auto
  have entry: "m1 (slot t x) = 0 \<or> Present (m1 (slot t x))"
    using tr slots [OF x(1)] x(1) by simp
  have new': "tree hhdm m1 n c' \<and> pg t \<notin> reach hhdm m1 n c' \<and>
      (\<forall>y d. y < 512 \<longrightarrow> y \<noteq> x \<longrightarrow> child hhdm m (Suc n) t y = Some d \<longrightarrow> reach hhdm m1 n c' \<inter> reach hhdm m n d = {})"
    if "child hhdm m1 (Suc n) t x = Some c'" for c'
  proof -
    have "c' = c"
      using cx that by simp
    then show ?thesis
      using new c by blast
  qed
  show "tree hhdm m1 (Suc n) t"
    by (rule tree_replace(1) [where m' = m1, OF tr x(1) entry]; (rule slots below new'; assumption))
  have "reach hhdm m1 (Suc n) t \<subseteq> reach hhdm m (Suc n) t \<union>
      (case child hhdm m1 (Suc n) t x of None \<Rightarrow> {} | Some c \<Rightarrow> reach hhdm m1 n c)"
    by (rule tree_replace(2) [where m' = m1, OF tr x(1) entry]; (rule slots below new'; assumption))
  then show "reach hhdm m1 (Suc n) t \<subseteq> reach hhdm m (Suc n) t"
    using cx new(2) reach_child [OF x(2,1)] by (auto simp del: tree.simps reach.simps)
  have sub: "reach hhdm m1 n d = reach hhdm m n d" if "y < 512" "y \<noteq> x" "child hhdm m (Suc n) t y = Some d" for y d
    using tree_frame [OF tree_child(1) [OF tr that(3,1)], of m1] below [OF that] by blast
  show "reach hhdm m1 (Suc n) t \<inter> reach hhdm m n c \<subseteq> reach hhdm m1 n c"
  proof
    fix q
    assume q: "q \<in> reach hhdm m1 (Suc n) t \<inter> reach hhdm m n c"
    then have "q \<noteq> pg t"
      using c(2) by auto
    then obtain y d where y: "y < 512" "child hhdm m1 (Suc n) t y = Some d" "q \<in> reach hhdm m1 n d"
      using q by (auto split: option.splits)
    then show "q \<in> reach hhdm m1 n c"
      using cx ch [OF y(1)] sub [of y d] c(3) [of y d] q by (cases "y = x") auto
  qed
  fix va
  have "GetPhysicalAddress_loop la57 hhdm m1 va n d = GetPhysicalAddress_loop la57 hhdm m va n d"
    if "entry_index va (Suc n) \<noteq> x" "child hhdm m (Suc n) t (entry_index va (Suc n)) = Some d" for d
    using tree_child(1) [OF tr that(2) entry_index_less] below [OF entry_index_less that] lev
    by (intro GetPhysicalAddress_frame) auto
  then show "GetPhysicalAddress_loop la57 hhdm m1 va (Suc n) t =
       (if entry_index va (Suc n) = x then GetPhysicalAddress_loop la57 hhdm m1 va n c
        else GetPhysicalAddress_loop la57 hhdm m va (Suc n) t)"
    using ch [OF entry_index_less] slots [OF entry_index_less] cx
    by (auto simp: GetPhysicalAddress_step al lev split: option.splits)
qed

lemma table_used_slots:
  "table_used m c \<longleftrightarrow> (\<exists>x<512. Present (m (slot c x)))"
proof
  assume "table_used m c"
  then obtain j where "j < 512" "Present (m (slot c (of_nat j)))"
    by (auto simp: table_used_def list_ex_iff Present_def slot_def)
  moreover have "(of_nat j :: u64) < 512"
    using \<open>j < 512\<close> by (simp add: word_less_nat_alt unat_of_nat)
  ultimately show "\<exists>x<512. Present (m (slot c x))"
    by blast
next
  assume "\<exists>x<512. Present (m (slot c x))"
  then obtain x where x: "x < 512" "Present (m (slot c x))"
    by blast
  moreover have "unat x < 512" "(of_nat (unat x) :: u64) = x"
    using x(1) by (simp_all add: word_less_nat_alt)
  ultimately show "table_used m c"
    unfolding table_used_def list_ex_iff Present_def slot_def
    by (intro bexI [of _ "unat x"]) simp_all
qed

lemma unused_table:
  assumes "tree hhdm m (Suc n) c" "\<not> table_used m c" "Suc n \<le> levels la57"
  shows "GetPhysicalAddress_loop la57 hhdm m va (Suc n) c = Inr 0"
proof -
  have "m (slot c (entry_index va (Suc n))) = 0"
    using assms(1,2) entry_index_less by (auto simp: table_used_slots)
  then show ?thesis
    using assms(1,3) by (simp add: GetPhysicalAddress_step child_def nx_def stop_def Present_def)
qed

text \<open>The walk of an address ends at no large page.\<close>

primrec small_path :: "u64 \<Rightarrow> (u64 \<Rightarrow> u64) \<Rightarrow> u64 \<Rightarrow> nat \<Rightarrow> u64 \<Rightarrow> bool" where
  "small_path hhdm m va 0 t = True"
| "small_path hhdm m va (Suc n) t =
     (case child hhdm m (Suc n) t (entry_index va (Suc n)) of
        None \<Rightarrow> n = 0 \<or> stop (Suc n) (m (slot t (entry_index va (Suc n)))) = 0
      | Some c \<Rightarrow> small_path hhdm m va n c)"

definition unmapped ::
  "bool \<Rightarrow> u64 \<Rightarrow> u64 \<Rightarrow> nat \<Rightarrow> u64 \<Rightarrow> Paging \<Rightarrow> u64 list \<Rightarrow> Paging \<Rightarrow> u64 list \<Rightarrow> bool" where
  "unmapped la57 hhdm va n t s xs s' ys \<longleftrightarrow>
     tree hhdm (pt s') n t \<and> reach hhdm (pt s') n t \<subseteq> reach hhdm (pt s) n t \<and>
     list_ok (g_PMM s') ys \<and> m_lock (g_PMM s') = 1 \<and>
     (\<forall>a\<in>set ys. pg a \<notin> reach hhdm (pt s') n t \<and> (a \<in> set xs \<or> pg a \<in> reach hhdm (pt s) n t)) \<and>
     (\<forall>a. pg a \<notin> reach hhdm (pt s) n t \<longrightarrow> pt s' a = pt s a) \<and>
     GetPhysicalAddress_loop la57 hhdm (pt s') va n t = Inr 0 \<and>
     (\<forall>va'. differ 1 n va va' \<longrightarrow>
        GetPhysicalAddress_loop la57 hhdm (pt s') va' n t = GetPhysicalAddress_loop la57 hhdm (pt s) va' n t)"

lemma unmap_leaf:
  assumes "tree hhdm (pt s) 1 t" "1 \<le> levels la57" "list_ok (g_PMM s) xs" "m_lock (g_PMM s) = 1"
    "\<forall>a\<in>set xs. pg a \<notin> reach hhdm (pt s) 1 t"
  shows "unmapped la57 hhdm va 1 t s xs (set_entry s (slot t (entry_index va 1)) 0) xs"
proof -
  have one: "(1::nat) = Suc 0"
    by simp
  have "nx (Suc 0) 0 = 0"
    by (simp add: nx_def)
  note up = leaf_update [OF assms(1,2) [unfolded one] refl disjI1 [OF refl] this refl]
  have "differ 1 (Suc 0) va va' \<Longrightarrow> entry_index va' (Suc 0) \<noteq> entry_index va (Suc 0)" for va'
    unfolding differ_def by (metis le_antisym One_nat_def)
  moreover have "pg a \<noteq> pg t" if "pg a \<notin> reach hhdm (pt s) (Suc 0) t" for a
    using that by auto
  moreover have "stop (Suc 0) 0 = 0"
    by (simp add: stop_def)
  ultimately show ?thesis
    using up assms(3-5) unfolding unmapped_def one set_entry_def
    by (simp del: tree.simps reach.simps) blast
qed

lemma unmapped_keep:
  assumes tr: "tree hhdm (pt s) (Suc n) t" and lev: "Suc n \<le> levels la57" "1 \<le> n"
    and x: "child hhdm (pt s) (Suc n) t (entry_index va (Suc n)) = Some c"
    and own: "\<forall>a\<in>set xs. pg a \<notin> reach hhdm (pt s) (Suc n) t"
    and rec: "unmapped la57 hhdm va n c s xs s1 ys"
  shows "unmapped la57 hhdm va (Suc n) t s xs s1 ys"
proof -
  have al: "aligned t" "t \<noteq> 0"
    using tr by simp_all
  have frame: "pt s1 a = pt s a" if "pg a \<notin> reach hhdm (pt s) n c" for a
    using rec that by (simp add: unmapped_def)
  have new: "tree hhdm (pt s1) n c" "reach hhdm (pt s1) n c \<subseteq> reach hhdm (pt s) n c"
    using rec by (simp_all add: unmapped_def)
  note sh = shrink_below [OF tr lev(1) entry_index_less x new frame]
  have sub: "reach hhdm (pt s) n c \<subseteq> reach hhdm (pt s) (Suc n) t"
    using reach_child [OF x entry_index_less] .
  have "pg a \<notin> reach hhdm (pt s1) (Suc n) t \<and> (a \<in> set xs \<or> pg a \<in> reach hhdm (pt s) (Suc n) t)" if "a \<in> set ys" for a
  proof -
    have "pg a \<notin> reach hhdm (pt s1) n c" "a \<in> set xs \<or> pg a \<in> reach hhdm (pt s) n c"
      using rec that by (auto simp: unmapped_def)
    then show ?thesis
      using own sub sh(2,4) by blast
  qed
  moreover have "GetPhysicalAddress_loop la57 hhdm (pt s1) va' (Suc n) t = GetPhysicalAddress_loop la57 hhdm (pt s) va' (Suc n) t"
    if "differ 1 (Suc n) va va'" for va'
    using that rec x sh(5) [of va'] lev
    by (cases "entry_index va' (Suc n) = entry_index va (Suc n)")
      (simp_all add: differ_Suc unmapped_def GetPhysicalAddress_step al)
  moreover have "GetPhysicalAddress_loop la57 hhdm (pt s1) va (Suc n) t = Inr 0"
    using rec sh(5) [of va] by (simp add: unmapped_def)
  ultimately show ?thesis
    using rec sh(1,2) frame sub unfolding unmapped_def by blast
qed

lemma unmapped_free:
  assumes lev: "Suc n \<le> levels la57" "n = Suc k"
    and up: "unmapped la57 hhdm va (Suc n) t s xs s1 ys"
    and x: "child hhdm (pt s1) (Suc n) t (entry_index va (Suc n)) = Some c" "\<not> table_used (pt s1) c"
    and pmm: "list_ok pmm zs" "m_lock pmm = 1" "set zs \<subseteq> insert c (set ys)"
  shows "unmapped la57 hhdm va (Suc n) t s xs (set_entry (s1\<lparr>g_PMM := pmm\<rparr>) (slot t (entry_index va (Suc n))) 0) zs"
proof -
  let ?x = "entry_index va (Suc n)"
  let ?m = "(pt s1)(slot t ?x := 0)"
  have tr: "tree hhdm (pt s1) (Suc n) t"
    using up by (simp add: unmapped_def)
  have nx0: "nx (Suc n) 0 = 0"
    by (simp add: nx_def Present_def)
  note lu = leaf_update [OF tr lev(1) refl disjI1 [OF refl] nx0 refl]
  have stop0: "stop (Suc n) 0 = 0"
    by (simp add: stop_def)
  have al: "aligned t" "t \<noteq> 0"
    using tr by simp_all
  have pgc: "pg c \<in> reach hhdm (pt s1) n c"
    using lev(2) by simp
  have "pg c \<in> reach hhdm (pt s1) (Suc n) t"
    using reach_child [OF x(1) entry_index_less] pgc by blast
  moreover have "pg c \<notin> reach hhdm ?m (Suc n) t"
    using lu(8) [OF x(1)] pgc by blast
  ultimately have "\<forall>a\<in>set zs. pg a \<notin> reach hhdm ?m (Suc n) t \<and> (a \<in> set xs \<or> pg a \<in> reach hhdm (pt s) (Suc n) t)"
    using up pmm(3) lu(2) unfolding unmapped_def by blast
  moreover have "GetPhysicalAddress_loop la57 hhdm ?m va' (Suc n) t = GetPhysicalAddress_loop la57 hhdm (pt s) va' (Suc n) t"
    if d: "differ 1 (Suc n) va va'" for va'
  proof -
    have "GetPhysicalAddress_loop la57 hhdm ?m va' (Suc n) t = GetPhysicalAddress_loop la57 hhdm (pt s1) va' (Suc n) t"
    proof (cases "entry_index va' (Suc n) = ?x")
      case True
      have "GetPhysicalAddress_loop la57 hhdm (pt s1) va' n c = Inr 0"
        using unused_table [of hhdm "pt s1" k c la57 va'] tree_child(1) [OF tr x(1) entry_index_less] x(2) lev by simp
      then have "GetPhysicalAddress_loop la57 hhdm (pt s1) va' (Suc n) t = Inr 0"
        using True x(1) by (simp add: GetPhysicalAddress_step al lev(1))
      moreover have "GetPhysicalAddress_loop la57 hhdm ?m va' (Suc n) t = Inr 0"
        using leaf_update(3) [OF tr lev(1) refl disjI1 [OF refl] nx0 refl, of va'] True stop0 by simp
      ultimately show ?thesis by simp
    qed (use lu(6) in blast)
    then show ?thesis
      using up d by (simp add: unmapped_def)
  qed
  moreover have "GetPhysicalAddress_loop la57 hhdm ?m va (Suc n) t = Inr 0"
    using lu(3) stop0 by simp
  moreover have "?m a = pt s a" if "pg a \<notin> reach hhdm (pt s) (Suc n) t" for a
    using that lu(7) [of a] up by (auto simp: unmapped_def)
  ultimately show ?thesis
    using lu(1,2) up pmm(1,2) unfolding unmapped_def set_entry_def
    by (simp del: tree.simps reach.simps) blast
qed

lemma unmap_tree_ok:
  assumes "tree hhdm (pt s) n t" "n \<le> levels la57" "1 \<le> n" "list_ok (g_PMM s) xs" "m_lock (g_PMM s) = 1"
    "\<forall>a\<in>set xs. pg a \<notin> reach hhdm (pt s) n t" "small_path hhdm (pt s) va n t"
  shows "\<exists>s' go ys. unmap_tree hhdm va n t s = Inr (s', go) \<and> unmapped la57 hhdm va n t s xs s' ys"
  using assms
proof (induction n arbitrary: t)
  case (Suc n)
  let ?x = "entry_index va (Suc n)"
  have al: "aligned t" "t \<noteq> 0"
    using Suc.prems(1) by simp_all
  show ?case
  proof (cases n)
    case 0
    then show ?thesis
      using unmap_leaf [of hhdm s t la57 xs va] Suc.prems by (auto simp: Let_def)
  next
    case (Suc k)
    show ?thesis
    proof (cases "child hhdm (pt s) (Suc n) t ?x")
      case None
      then have "GetPhysicalAddress_loop la57 hhdm (pt s) va (Suc n) t = Inr 0"
        using Suc.prems(2,7) Suc by (simp add: GetPhysicalAddress_step al)
      then have "unmapped la57 hhdm va (Suc n) t s xs s xs"
        using Suc.prems by (simp add: unmapped_def)
      then show ?thesis
        using None Suc by (auto simp: Let_def)
    next
      case (Some c)
      note c = tree_child [OF Suc.prems(1) Some entry_index_less]
      have "\<forall>a\<in>set xs. pg a \<notin> reach hhdm (pt s) n c"
        using Suc.prems(6) reach_child [OF Some entry_index_less] by blast
      then obtain s1 go ys where r: "unmap_tree hhdm va n c s = Inr (s1, go)" "unmapped la57 hhdm va n c s xs s1 ys"
        using Suc.IH [OF c(1)] Suc.prems Suc Some by auto
      have up: "unmapped la57 hhdm va (Suc n) t s xs s1 ys"
        using unmapped_keep [OF Suc.prems(1,2) _ Some Suc.prems(6) r(2)] Suc by simp
      have "pg (slot t ?x) \<notin> reach hhdm (pt s) n c"
        using c(2) pg_slot [OF al(1) entry_index_less] by simp
      then have same: "pt s1 (slot t ?x) = pt s (slot t ?x)"
        using r(2) by (simp add: unmapped_def)
      then have ch: "child hhdm (pt s1) (Suc n) t ?x = Some c"
        using Some child_cong [of "pt s1" t ?x "pt s"] by simp
      then have tab: "to_HHDM hhdm (pt s1 (slot t ?x) AND 0x000FFFFFFFFFF000) = c"
        by (auto simp: child_def nx_def to_HHDM_def split: if_splits)
      show ?thesis
      proof (cases "\<not> go \<or> table_used (pt s1) c")
        case True
        then have "unmap_tree hhdm va (Suc n) t s = Inr (s1, False)"
          using Some Suc r(1) tab by (auto simp: Let_def)
        then show ?thesis
          using up by blast
      next
        case False
        have "tree hhdm (pt s1) n c"
          using r(2) by (simp add: unmapped_def)
        then have c0: "c \<noteq> 0" "pg c \<in> reach hhdm (pt s1) n c"
          using Suc by simp_all
        then have "c \<notin> set ys"
          using r(2) by (auto simp: unmapped_def)
        moreover have "to_HHDM hhdm (from_HHDM hhdm c) = c"
          by (simp add: to_HHDM_def from_HHDM_def)
        ultimately obtain pmm zs where p: "FreePage hhdm (g_PMM s1) (from_HHDM hhdm c) = Inr pmm" "list_ok pmm zs"
          "m_lock pmm = 1" "set zs \<subseteq> insert c (set ys)"
          using FreePage_total [of "g_PMM s1" ys hhdm "from_HHDM hhdm c"] r(2) c0(1) by (auto simp: unmapped_def)
        have "unmap_tree hhdm va (Suc n) t s = Inr (set_entry (s1\<lparr>g_PMM := pmm\<rparr>) (slot t ?x) 0, True)"
          using Some Suc r(1) tab False p(1) by (simp add: Let_def)
        then show ?thesis
          using unmapped_free [OF Suc.prems(2) Suc up ch _ p(2-4)] False by blast
      qed
    qed
  qed
qed simp

text \<open>The only page of the address space: no other entry of a table on the path is in use.\<close>

primrec lone :: "u64 \<Rightarrow> (u64 \<Rightarrow> u64) \<Rightarrow> u64 \<Rightarrow> nat \<Rightarrow> u64 \<Rightarrow> bool" where
  "lone hhdm m va 0 t = True"
| "lone hhdm m va (Suc n) t \<longleftrightarrow>
     (\<forall>x<512. x \<noteq> entry_index va (Suc n) \<longrightarrow> m (slot t x) = 0) \<and>
     (case child hhdm m (Suc n) t (entry_index va (Suc n)) of None \<Rightarrow> n = 0 | Some c \<Rightarrow> lone hhdm m va n c)"

lemma lone_small: "lone hhdm m va n t \<Longrightarrow> small_path hhdm m va n t"
  by (induction n arbitrary: t) (auto split: option.splits)

lemma unmap_lone:
  assumes "tree hhdm (pt s) n t" "n \<le> levels la57" "1 \<le> n" "list_ok (g_PMM s) xs" "m_lock (g_PMM s) = 1"
    "\<forall>a\<in>set xs. pg a \<notin> reach hhdm (pt s) n t" "lone hhdm (pt s) va n t" "unmap_tree hhdm va n t s = Inr (s', go)"
  shows "go \<and> (\<forall>x<512. pt s' (slot t x) = 0)"
  using assms
proof (induction n arbitrary: t s' go)
  case (Suc n)
  let ?x = "entry_index va (Suc n)"
  have al: "aligned t" "t \<noteq> 0"
    using Suc.prems(1) by simp_all
  have zero: "pt s (slot t y) = 0" if "y < 512" "slot t y \<noteq> slot t ?x" for y
    using Suc.prems(7) that by fastforce
  show ?case
  proof (cases n)
    case 0
    then show ?thesis
      using Suc.prems(8) zero by (auto simp: Let_def set_entry_def)
  next
    case (Suc k)
    then obtain c where Some: "child hhdm (pt s) (Suc n) t ?x = Some c" and lone: "lone hhdm (pt s) va n c"
      using Suc.prems(7) by (auto split: option.splits)
    note c = tree_child [OF Suc.prems(1) Some entry_index_less]
    have free: "\<forall>a\<in>set xs. pg a \<notin> reach hhdm (pt s) n c"
      using Suc.prems(6) reach_child [OF Some entry_index_less] by blast
    moreover have lev: "n \<le> levels la57" "1 \<le> n"
      using Suc.prems(2) Suc by simp_all
    ultimately obtain s1 g1 ys where r: "unmap_tree hhdm va n c s = Inr (s1, g1)" "unmapped la57 hhdm va n c s xs s1 ys"
      using unmap_tree_ok [OF c(1) _ _ Suc.prems(4,5) _ lone_small [OF lone]] by blast
    have IH: "g1" "\<not> table_used (pt s1) c"
      using Suc.IH [OF c(1) lev Suc.prems(4,5) free lone r(1)] by (auto simp: table_used_slots Present_def)
    have same: "pt s1 (slot t y) = pt s (slot t y)" if "y < 512" for y
      using r(2) c(2) pg_slot [OF al(1) that] by (simp add: unmapped_def)
    have tab: "to_HHDM hhdm (pt s1 (slot t ?x) AND 0x000FFFFFFFFFF000) = c"
      using Some same [OF entry_index_less] by (auto simp: child_def nx_def to_HHDM_def split: if_splits)
    obtain pmm where "s' = set_entry (s1\<lparr>g_PMM := pmm\<rparr>) (slot t ?x) 0" "go"
      using Suc.prems(8) Some Suc r(1) tab IH
      by (cases "FreePage hhdm (g_PMM s1) (from_HHDM hhdm c)") (auto simp: Let_def)
    then show ?thesis
      using same zero by (auto simp: set_entry_def)
  qed
qed simp

end
