(* ===== verification/PageTablesRemap.thy ===== *)
theory PageTablesRemap
  imports PageTablesUnmap
begin

text \<open>
  Changing the permissions of a mapping: what \<^verbatim>\<open>x86_64_GetPhysicalAddress\<close> answers stays as it is for every address. What the
  processor translates may change, since an absent page becomes a mapping of frame 0; \<open>mapping\<close> tells the two apart.
\<close>

section \<open>Rewriting an entry in place\<close>

lemma entry_rewrite:
  assumes tr: "tree hhdm m (Suc n) t" and lev: "Suc n \<le> levels la57" and x: "x < 512"
    and v: "v = 0 \<or> Present v" "nx (Suc n) v = nx (Suc n) (m (slot t x))"
      "nx (Suc n) v = 0 \<Longrightarrow> stop (Suc n) v = stop (Suc n) (m (slot t x))"
    and m': "m' = m(slot t x := v)"
  shows "tree hhdm m' (Suc n) t" "reach hhdm m' (Suc n) t = reach hhdm m (Suc n) t"
    "child hhdm m' (Suc n) t y = child hhdm m (Suc n) t y"
    "GetPhysicalAddress_loop la57 hhdm m' va (Suc n) t = GetPhysicalAddress_loop la57 hhdm m va (Suc n) t"
    "\<And>a. pg a \<noteq> pg t \<Longrightarrow> m' a = m a"
proof -
  have al: "aligned t" "t \<noteq> 0"
    using tr by simp_all
  have pgx: "pg (slot t x) = pg t"
    using pg_slot [OF al(1) x] .
  show same: "m' a = m a" if "pg a \<noteq> pg t" for a
    using that pgx by (auto simp: m')
  have ch: "child hhdm m' (Suc n) t y = child hhdm m (Suc n) t y" for y
    using v(2) by (simp add: child_def m')
  then show "child hhdm m' (Suc n) t y = child hhdm m (Suc n) t y" .
  have agree: "m' a = m a" if "y < 512" "child hhdm m (Suc n) t y = Some d" "pg a \<in> reach hhdm m n d" for y d a
    using that tree_child(2) [OF tr that(2,1)] by (intro same) auto
  have sub: "reach hhdm m' n d = reach hhdm m n d \<and> tree hhdm m' n d"
    if "y < 512" "child hhdm m (Suc n) t y = Some d" for y d
    using tree_frame [OF tree_child(1) [OF tr that(2,1)], of m'] agree [OF that] by blast
  have ent: "m' (slot t y) = 0 \<or> Present (m' (slot t y))" if "y < 512" for y
    using tr that v(1) by (auto simp: m')
  show "reach hhdm m' (Suc n) t = reach hhdm m (Suc n) t"
    unfolding reach.simps ch using sub by (intro arg_cong2 [where f = insert] SUP_cong) (simp_all split: option.split)
  show "tree hhdm m' (Suc n) t"
    unfolding tree.simps ch
  proof (intro conjI allI impI)
    fix y z c d
    assume yz: "y < 512" "z < 512" "y \<noteq> z"
      and cd: "child hhdm m (Suc n) t y = Some c" "child hhdm m (Suc n) t z = Some d"
    show "reach hhdm m' n c \<inter> reach hhdm m' n d = {}"
      using tree_child(3) [OF tr cd(1) yz(1,2,3) cd(2)] sub [OF yz(1) cd(1)] sub [OF yz(2) cd(2)] by simp
  qed (use al ent sub tree_child(2) [OF tr] in simp_all)
  have "GetPhysicalAddress_loop la57 hhdm m' va n d = GetPhysicalAddress_loop la57 hhdm m va n d"
    if "child hhdm m (Suc n) t (entry_index va (Suc n)) = Some d" for d
    using tree_child(1) [OF tr that entry_index_less] agree [OF entry_index_less that] lev
    by (intro GetPhysicalAddress_frame) auto
  moreover have "stop (Suc n) (m' (slot t (entry_index va (Suc n)))) = stop (Suc n) (m (slot t (entry_index va (Suc n))))"
    if "child hhdm m (Suc n) t (entry_index va (Suc n)) = None"
    using that v(2,3) by (auto simp: m' child_def split: if_splits)
  ultimately show "GetPhysicalAddress_loop la57 hhdm m' va (Suc n) t = GetPhysicalAddress_loop la57 hhdm m va (Suc n) t"
    by (simp add: GetPhysicalAddress_step al lev ch split: option.splits)
qed

definition remapped :: "bool \<Rightarrow> u64 \<Rightarrow> u64 \<Rightarrow> u32 \<Rightarrow> nat \<Rightarrow> u64 \<Rightarrow> Paging \<Rightarrow> Paging \<Rightarrow> bool" where
  "remapped la57 hhdm va flags n t s s' \<longleftrightarrow>
     tree hhdm (pt s') n t \<and> reach hhdm (pt s') n t \<subseteq> reach hhdm (pt s) n t \<and> g_PMM s' = g_PMM s \<and>
     (\<forall>a. pg a \<notin> reach hhdm (pt s) n t \<longrightarrow> pt s' a = pt s a) \<and>
     (\<forall>va'. GetPhysicalAddress_loop la57 hhdm (pt s') va' n t = GetPhysicalAddress_loop la57 hhdm (pt s) va' n t) \<and>
     (path hhdm (pt s) va n t \<noteq> None \<longrightarrow>
        leaf_of hhdm (pt s') va n t = reflag 0x000FFFFFFFFFF000 0xFFF (leaf_of hhdm (pt s) va n t) flags \<and>
        path_grants flags hhdm (pt s') va n t)"

lemma reflag_bits:
  "Present (reflag 0x000FFFFFFFFFF000 0xFFF v flags)"
  "stop 1 (reflag 0x000FFFFFFFFFF000 0xFFF v flags) = stop 1 v"
  by (simp_all add: reflag_def Present_def stop_def bit_or_iff bit.conj_disj_distrib2 and.assoc push_bit_and)

lemma remap_leaf:
  assumes "tree hhdm (pt s) 1 t" "1 \<le> levels la57"
  shows "remapped la57 hhdm va flags 1 t s
    (set_entry s (slot t (entry_index va 1)) (reflag 0x000FFFFFFFFFF000 0xFFF (pt s (slot t (entry_index va 1))) flags))"
proof -
  let ?x = "entry_index va 1"
  let ?v = "reflag 0x000FFFFFFFFFF000 0xFFF (pt s (slot t ?x)) flags"
  have one: "(1::nat) = Suc 0"
    by simp
  have nx0: "nx (Suc 0) v = 0" for v
    by (simp add: nx_def)
  have er: "tree hhdm ((pt s)(slot t ?x := ?v)) 1 t" "reach hhdm ((pt s)(slot t ?x := ?v)) 1 t = reach hhdm (pt s) 1 t"
    "\<And>va'. GetPhysicalAddress_loop la57 hhdm ((pt s)(slot t ?x := ?v)) va' 1 t = GetPhysicalAddress_loop la57 hhdm (pt s) va' 1 t"
    "\<And>a. pg a \<noteq> pg t \<Longrightarrow> ((pt s)(slot t ?x := ?v)) a = pt s a"
    using entry_rewrite [OF assms [unfolded one] entry_index_less, where v = ?v, OF disjI2 [OF reflag_bits(1)] _ _ refl]
      reflag_bits(2) nx0 unfolding one by simp_all
  have "child hhdm m 1 t y = None" for m y
    by (simp add: child_def nx_def)
  then have "leaf_of hhdm m va 1 t = m (slot t ?x)" "path_grants flags hhdm m va 1 t" for m
    unfolding one by simp_all
  moreover have "pg a \<noteq> pg t" if "pg a \<notin> reach hhdm (pt s) 1 t" for a
    using that by auto
  ultimately show ?thesis
    using er unfolding remapped_def set_entry_def by (simp del: tree.simps reach.simps)
qed

lemma walk_frame:
  assumes "tree hhdm m n t" "\<And>a. pg a \<in> reach hhdm m n t \<Longrightarrow> m' a = m a"
  shows "leaf_of hhdm m' va n t = leaf_of hhdm m va n t \<and> path hhdm m' va n t = path hhdm m va n t"
  using assms
proof (induction n arbitrary: t)
  case (Suc n)
  let ?x = "entry_index va (Suc n)"
  have "aligned t"
    using Suc.prems(1) by simp
  then have sl: "m' (slot t ?x) = m (slot t ?x)"
    using Suc.prems(2) [of "slot t ?x"] pg_slot [OF _ entry_index_less] by simp
  have ch: "child hhdm m' (Suc n) t ?x = child hhdm m (Suc n) t ?x"
    using sl by (rule child_cong)
  have "leaf_of hhdm m' va n c = leaf_of hhdm m va n c \<and> path hhdm m' va n c = path hhdm m va n c"
    if "child hhdm m (Suc n) t ?x = Some c" for c
    using Suc.IH [OF tree_child(1) [OF Suc.prems(1) that entry_index_less]] Suc.prems(2)
      reach_child [OF that entry_index_less] by blast
  then show ?case
    using sl ch by (cases n; cases "child hhdm m (Suc n) t ?x") (simp_all add: Let_def)
qed simp

lemma remapped_descend:
  assumes tr: "tree hhdm (pt s) (Suc n) t" and lev: "Suc n \<le> levels la57" "1 \<le> n"
    and x: "child hhdm (pt s) (Suc n) t (entry_index va (Suc n)) = Some c"
    and rec: "remapped la57 hhdm va flags n c (widen_entry s (slot t (entry_index va (Suc n))) flags) s'"
  shows "remapped la57 hhdm va flags (Suc n) t s s'"
proof -
  let ?x = "entry_index va (Suc n)"
  let ?v = "widened (pt s (slot t ?x)) flags"
  define m where "m = (pt s)(slot t ?x := ?v)"
  have nx: "nx (Suc n) (pt s (slot t ?x)) \<noteq> 0"
    using x by (simp add: child_def split: if_splits)
  have s1: "pt (widen_entry s (slot t ?x) flags) = m" "g_PMM (widen_entry s (slot t ?x) flags) = g_PMM s"
    by (simp_all add: widen_entry_def set_entry_def widened_def m_def)
  have pres: "Present (pt s (slot t ?x))"
    using nx by (simp add: nx_def split: if_splits)
  note er = entry_rewrite [OF tr lev(1) entry_index_less, where v = ?v and m' = m,
      OF disjI2 [OF widened_bits(1) [OF pres]] nx_widened [OF nx] _ m_def]
  have nz: "nx (Suc n) ?v = 0 \<Longrightarrow> stop (Suc n) ?v = stop (Suc n) (pt s (slot t ?x))"
    using nx nx_widened [OF nx] by simp
  have x1: "child hhdm m (Suc n) t ?x = Some c"
    using er(3) [OF nz, of ?x] x by simp
  have agree: "m a = pt s a" if "pg a \<in> reach hhdm (pt s) n c" for a
    using that tree_child(2) [OF tr x entry_index_less] by (intro er(5) [OF nz]) auto
  note fr = tree_frame [OF tree_child(1) [OF tr x entry_index_less], of m, OF agree]
  have rc: "reach hhdm m n c = reach hhdm (pt s) n c"
    using fr by blast
  have rec': "tree hhdm (pt s') n c" "reach hhdm (pt s') n c \<subseteq> reach hhdm m n c" "g_PMM s' = g_PMM s"
    "\<And>a. pg a \<notin> reach hhdm m n c \<Longrightarrow> pt s' a = m a"
    "\<And>va'. GetPhysicalAddress_loop la57 hhdm (pt s') va' n c = GetPhysicalAddress_loop la57 hhdm m va' n c"
    "path hhdm m va n c \<noteq> None \<Longrightarrow>
      leaf_of hhdm (pt s') va n c = reflag 0x000FFFFFFFFFF000 0xFFF (leaf_of hhdm m va n c) flags \<and> path_grants flags hhdm (pt s') va n c"
    using rec unfolding remapped_def s1 by blast+
  have sb: "tree hhdm (pt s') (Suc n) t" "reach hhdm (pt s') (Suc n) t \<subseteq> reach hhdm m (Suc n) t"
    "child hhdm (pt s') (Suc n) t ?x = Some c"
    "\<And>va'. GetPhysicalAddress_loop la57 hhdm (pt s') va' (Suc n) t =
       (if entry_index va' (Suc n) = ?x then GetPhysicalAddress_loop la57 hhdm (pt s') va' n c
        else GetPhysicalAddress_loop la57 hhdm m va' (Suc n) t)"
    using shrink_below [OF er(1) [OF nz] lev(1) entry_index_less x1 rec'(1,2)] rec'(4) by blast+
  have "pt s' (slot t ?x) = ?v"
    using rec'(4) [of "slot t ?x"] pg_slot [OF _ entry_index_less] tr tree_child(2) [OF tr x entry_index_less] rc
    by (simp add: m_def)
  then have gr: "grants flags (pt s' (slot t ?x))"
    by (simp add: grants_widened)
  have al: "aligned t" "t \<noteq> 0"
    using tr by simp_all
  have "GetPhysicalAddress_loop la57 hhdm m va' (Suc n) t = GetPhysicalAddress_loop la57 hhdm m va' n c"
    if "entry_index va' (Suc n) = ?x" for va'
    using that x1 by (simp add: GetPhysicalAddress_step al lev(1))
  then have "GetPhysicalAddress_loop la57 hhdm (pt s') va' (Suc n) t = GetPhysicalAddress_loop la57 hhdm (pt s) va' (Suc n) t" for va'
    using sb(4) er(4) [OF nz] rec'(5) by simp
  moreover have "pt s' a = pt s a" if "pg a \<notin> reach hhdm (pt s) (Suc n) t" for a
    using that rec'(4) [of a] er(5) [OF nz, of a] rc reach_child [OF x entry_index_less] by auto
  moreover have "leaf_of hhdm m va n c = leaf_of hhdm (pt s) va n c" "path hhdm m va n c = path hhdm (pt s) va n c"
    using walk_frame [OF tree_child(1) [OF tr x entry_index_less] agree] by auto
  then have "leaf_of hhdm (pt s') va (Suc n) t = reflag 0x000FFFFFFFFFF000 0xFFF (leaf_of hhdm (pt s) va (Suc n) t) flags \<and>
      path_grants flags hhdm (pt s') va (Suc n) t" if "path hhdm (pt s) va (Suc n) t \<noteq> None"
    using that rec'(6) x sb(3) gr lev(2) by (simp add: Let_def)
  ultimately show ?thesis
    using sb(1,2) er(2) [OF nz] rec'(3) unfolding remapped_def by blast
qed

lemma RemapPage_loop_ok:
  assumes "tree hhdm (pt s) n t" "n \<le> levels la57"
  shows "\<exists>s'. RemapPage_loop la57 hhdm va flags n t s = Inr s' \<and> remapped la57 hhdm va flags n t s s'"
  using assms
proof (induction n arbitrary: t s)
  case 0
  then show ?case
    by (simp add: remapped_def)
next
  case (Suc n)
  let ?x = "entry_index va (Suc n)"
  have al: "aligned t" "t \<noteq> 0"
    using Suc.prems(1) by simp_all
  have e: "entry_addr t va (Suc n) = slot t ?x" "slot t ?x \<noteq> 0"
    using entry_addr_slot slot_nonzero [OF al entry_index_less] by auto
  have nxt: "x86_64_GetNextPageTable la57 (pt s) (slot t ?x) (Suc n) = Inr (nx (Suc n) (pt s (slot t ?x)))"
    using GetNext_nx e(2) Suc.prems(2) by simp
  consider "n = 0" | "1 \<le> n" "child hhdm (pt s) (Suc n) t ?x = None"
    | c where "1 \<le> n" "child hhdm (pt s) (Suc n) t ?x = Some c"
    by (cases "child hhdm (pt s) (Suc n) t ?x"; cases n) auto
  then show ?case
  proof cases
    case 1
    then show ?thesis
      using remap_leaf [of hhdm s t la57 va flags] Suc.prems al e by (simp add: Let_def)
  next
    case 2
    then have "nx (Suc n) (pt s (slot t ?x)) = 0"
      by (simp add: child_def split: if_splits)
    moreover have "path hhdm (pt s) va (Suc n) t = None"
      using 2 by (simp add: Let_def)
    ultimately show ?thesis
      using 2 al e nxt Suc.prems(1) by (simp add: Let_def remapped_def del: tree.simps reach.simps path.simps)
  next
    case 3
    let ?s = "widen_entry s (slot t ?x) flags"
    have nx: "nx (Suc n) (pt s (slot t ?x)) \<noteq> 0" "c = to_HHDM hhdm (nx (Suc n) (pt s (slot t ?x)))"
      using 3(2) by (auto simp: child_def to_HHDM_def split: if_splits)
    have "pt ?s a = pt s a" if "pg a \<in> reach hhdm (pt s) n c" for a
      using that tree_child(2) [OF Suc.prems(1) 3(2) entry_index_less] pg_slot [OF al(1) entry_index_less, of va "Suc n"]
      by (auto simp: widen_entry_def set_entry_def)
    then have "tree hhdm (pt ?s) n c"
      using tree_frame [OF tree_child(1) [OF Suc.prems(1) 3(2) entry_index_less], of "pt ?s"] by blast
    then obtain s' where "RemapPage_loop la57 hhdm va flags n c ?s = Inr s'" "remapped la57 hhdm va flags n c ?s s'"
      using Suc.IH Suc.prems(2) by auto
    then show ?thesis
      using remapped_descend [OF Suc.prems 3, of flags s'] 3(1) nx al e nxt by (auto simp: Let_def)
  qed
qed

section \<open>What the processor finds\<close>

text \<open>
  The translation by the processor: there is none where an entry on the way, the last one included, is absent. In this
  it differs from \<^verbatim>\<open>x86_64_GetPhysicalAddress\<close>, which returns 0 for an absent page as for a page in frame 0.
\<close>

primrec mapping :: "u64 \<Rightarrow> (u64 \<Rightarrow> u64) \<Rightarrow> u64 \<Rightarrow> nat \<Rightarrow> u64 \<Rightarrow> u64 option" where
  "mapping hhdm m va 0 t = None"
| "mapping hhdm m va (Suc n) t =
     (case child hhdm m (Suc n) t (entry_index va (Suc n)) of
        Some c \<Rightarrow> mapping hhdm m va n c
      | None \<Rightarrow>
          (let v = m (slot t (entry_index va (Suc n))) in
           if Present v \<and> (n = 0 \<or> (Suc n = 2 \<or> Suc n = 3) \<and> PageSize v) then Some (stop (Suc n) v) else None))"

lemma mapping_frame:
  assumes "tree hhdm m n t" "\<And>a. pg a \<in> reach hhdm m n t \<Longrightarrow> m' a = m a"
  shows "mapping hhdm m' va n t = mapping hhdm m va n t"
  using assms
proof (induction n arbitrary: t)
  case (Suc n)
  let ?x = "entry_index va (Suc n)"
  have "aligned t"
    using Suc.prems(1) by simp
  then have sl: "m' (slot t ?x) = m (slot t ?x)"
    using Suc.prems(2) [of "slot t ?x"] pg_slot [OF _ entry_index_less] by simp
  have ch: "child hhdm m' (Suc n) t ?x = child hhdm m (Suc n) t ?x"
    using sl by (rule child_cong)
  have "mapping hhdm m' va n c = mapping hhdm m va n c" if "child hhdm m (Suc n) t ?x = Some c" for c
    using Suc.IH [OF tree_child(1) [OF Suc.prems(1) that entry_index_less]] Suc.prems(2)
      reach_child [OF that entry_index_less] by blast
  then show ?case
    using sl ch by (simp split: option.split)
qed simp

text \<open>An entry and the tables below it change, all else stays.\<close>

lemma mapping_below:
  assumes tr: "tree hhdm m (Suc n) t" and x: "x < 512" "child hhdm m (Suc n) t x = Some c" "child hhdm m' (Suc n) t x = Some c"
    and frame: "\<And>a. pg a \<notin> reach hhdm m n c \<Longrightarrow> a \<noteq> slot t x \<Longrightarrow> m' a = m a"
  shows "mapping hhdm m' va (Suc n) t = (if entry_index va (Suc n) = x then mapping hhdm m' va n c else mapping hhdm m va (Suc n) t)"
proof (cases "entry_index va (Suc n) = x")
  case False
  let ?y = "entry_index va (Suc n)"
  have al: "aligned t"
    using tr by simp
  note c = tree_child [OF tr x(2,1)]
  have sl: "m' (slot t ?y) = m (slot t ?y)"
    using frame [of "slot t ?y"] slot_inj [OF al entry_index_less x(1)] False c(2) pg_slot [OF al entry_index_less] by simp
  have ch: "child hhdm m' (Suc n) t ?y = child hhdm m (Suc n) t ?y"
    using sl by (rule child_cong)
  have "mapping hhdm m' va n d = mapping hhdm m va n d" if d: "child hhdm m (Suc n) t ?y = Some d" for d
  proof (rule mapping_frame [OF tree_child(1) [OF tr d entry_index_less]])
    fix a
    assume a: "pg a \<in> reach hhdm m n d"
    have "pg a \<noteq> pg t" "pg a \<notin> reach hhdm m n c"
      using a tree_child(2) [OF tr d entry_index_less] c(3) [OF entry_index_less _ d] False by auto
    then show "m' a = m a"
      using frame pg_slot [OF al x(1)] by auto
  qed
  then show ?thesis
    using False sl ch by (simp split: option.split)
qed (simp add: x(3))

lemma RemapPage_loop_mapping:
  assumes "tree hhdm (pt s) n t" "n \<le> levels la57" "RemapPage_loop la57 hhdm va flags n t s = Inr s'"
  shows "mapping hhdm (pt s') va' n t =
    (if path hhdm (pt s) va n t \<noteq> None \<and> mapping hhdm (pt s) va n t = None \<and> \<not> differ 1 n va va' then Some 0
     else mapping hhdm (pt s) va' n t)"
  using assms
proof (induction n arbitrary: t s)
  case (Suc n)
  let ?x = "entry_index va (Suc n)" and ?y = "entry_index va' (Suc n)"
  have al: "aligned t" "t \<noteq> 0"
    using Suc.prems(1) by simp_all
  have e: "entry_addr t va (Suc n) = slot t ?x" "slot t ?x \<noteq> 0"
    using entry_addr_slot slot_nonzero [OF al entry_index_less] by auto
  have nxt: "x86_64_GetNextPageTable la57 (pt s) (slot t ?x) (Suc n) = Inr (nx (Suc n) (pt s (slot t ?x)))"
    using GetNext_nx e(2) Suc.prems(2) by simp
  have df: "differ 1 (Suc n) va va' \<longleftrightarrow> ?x \<noteq> ?y \<or> differ 1 n va va'"
    by (rule differ_Suc) simp
  consider "n = 0" | "1 \<le> n" "child hhdm (pt s) (Suc n) t ?x = None"
    | c where "1 \<le> n" "child hhdm (pt s) (Suc n) t ?x = Some c"
    by (cases "child hhdm (pt s) (Suc n) t ?x"; cases n) auto
  then show ?case
  proof cases
    case 1
    let ?v = "pt s (slot t ?x)"
    have s': "pt s' = (pt s)(slot t ?x := reflag 0x000FFFFFFFFFF000 0xFFF ?v flags)"
      using Suc.prems(3) 1 al e by (simp add: Let_def set_entry_def) auto
    have "child hhdm m (Suc n) t y = None" for m y
      using 1 by (simp add: child_def nx_def)
    then have leaf: "mapping hhdm m u (Suc n) t =
        (let v = m (slot t (entry_index u (Suc n))) in if Present v then Some (stop 1 v) else None)" for m u
      using 1 by (simp add: Let_def)
    have pth: "path hhdm (pt s) va (Suc n) t \<noteq> None"
      using 1 by simp
    show ?thesis
    proof (cases "?x = ?y")
      case True
      have "\<not> differ 1 (Suc n) va va'"
        using df True 1 by (simp add: differ_def)
      moreover have "?v = 0 \<or> Present ?v"
        using Suc.prems(1) entry_index_less unfolding tree.simps by blast
      then have "Present ?v \<or> stop 1 ?v = 0"
        by (metis stop_def and_zero_eq bit.conj_zero_left)
      ultimately show ?thesis
        unfolding leaf using pth True s' reflag_bits [of ?v flags] by (auto simp: Let_def)
    next
      case False
      then have "slot t ?y \<noteq> slot t ?x"
        using slot_inj [OF al(1) entry_index_less entry_index_less] by metis
      then show ?thesis
        unfolding leaf using df False s' by (simp add: Let_def)
    qed
  next
    case 2
    then have "nx (Suc n) (pt s (slot t ?x)) = 0"
      by (simp add: child_def split: if_splits)
    then have "s' = s"
      using 2 al e nxt Suc.prems(3) by (simp add: Let_def)
    moreover have "path hhdm (pt s) va (Suc n) t = None"
      using 2 by (simp add: Let_def)
    ultimately show ?thesis
      by simp
  next
    case 3
    let ?s = "widen_entry s (slot t ?x) flags"
    have nx: "nx (Suc n) (pt s (slot t ?x)) \<noteq> 0" "c = to_HHDM hhdm (nx (Suc n) (pt s (slot t ?x)))"
      using 3(2) by (auto simp: child_def to_HHDM_def split: if_splits)
    have run: "RemapPage_loop la57 hhdm va flags n c ?s = Inr s'"
      using Suc.prems(3) 3(1) nx al e nxt by (auto simp: Let_def)
    have agree: "pt ?s a = pt s a" if "pg a \<in> reach hhdm (pt s) n c" for a
      using that tree_child(2) [OF Suc.prems(1) 3(2) entry_index_less] pg_slot [OF al(1) entry_index_less, of va "Suc n"]
      by (auto simp: widen_entry_def set_entry_def)
    note tc = tree_child(1) [OF Suc.prems(1) 3(2) entry_index_less]
    have tr: "tree hhdm (pt ?s) n c" "reach hhdm (pt ?s) n c = reach hhdm (pt s) n c"
      using tree_frame [OF tc, of "pt ?s"] agree by blast+
    have rm: "remapped la57 hhdm va flags n c ?s s'"
      using RemapPage_loop_ok [OF tr(1), of la57 va flags] Suc.prems(2) run by auto
    have out: "pt s' a = pt s a" if "pg a \<notin> reach hhdm (pt s) n c" "a \<noteq> slot t ?x" for a
      using that rm tr(2) unfolding remapped_def by (simp add: widen_entry_def set_entry_def)
    have "pt s' (slot t ?x) = widened (pt s (slot t ?x)) flags"
      using rm tr(2) tree_child(2) [OF Suc.prems(1) 3(2) entry_index_less] pg_slot [OF al(1) entry_index_less, of va "Suc n"]
      unfolding remapped_def by (simp add: widen_entry_def set_entry_def widened_def)
    then have ch: "child hhdm (pt s') (Suc n) t ?x = Some c"
      using 3(2) nx(1) nx_widened [OF nx(1)] by (simp add: child_def)
    have same: "mapping hhdm (pt ?s) u n c = mapping hhdm (pt s) u n c" for u
      by (rule mapping_frame [OF tc agree])
    have "path hhdm (pt ?s) va n c = path hhdm (pt s) va n c"
      using walk_frame [OF tc agree] by blast
    then have ih: "mapping hhdm (pt s') va' n c =
        (if path hhdm (pt s) va n c \<noteq> None \<and> mapping hhdm (pt s) va n c = None \<and> \<not> differ 1 n va va' then Some 0
         else mapping hhdm (pt s) va' n c)"
      using Suc.IH [OF tr(1) _ run] Suc.prems(2) same by simp
    have "path hhdm (pt s) va (Suc n) t \<noteq> None \<longleftrightarrow> path hhdm (pt s) va n c \<noteq> None"
      "mapping hhdm (pt s) va (Suc n) t = mapping hhdm (pt s) va n c"
      using 3 by (simp_all add: Let_def)
    moreover have "?y = ?x \<Longrightarrow> mapping hhdm (pt s) va' (Suc n) t = mapping hhdm (pt s) va' n c"
      using 3(2) by simp
    moreover have "mapping hhdm (pt s') va' (Suc n) t = (if ?y = ?x then mapping hhdm (pt s') va' n c else mapping hhdm (pt s) va' (Suc n) t)"
      by (rule mapping_below [OF Suc.prems(1) entry_index_less 3(2) ch]) (rule out)
    ultimately show ?thesis
      unfolding ih df by (cases "?y = ?x") (simp_all del: mapping.simps path.simps)
  qed
qed simp

end
