(* ===== verification/PageTablesProps.thy ===== *)
theory PageTablesProps
  imports PageTablesRemap
begin

text \<open>
  What the page table functions promise: a mapping is what a later walk finds, nothing else
  changes, unmapping undoes it and gives empty tables back, remapping changes permissions only.
\<close>

section \<open>Which addresses share a page\<close>

lemma bit_entry_index: "bit (entry_index va i) k \<longleftrightarrow> k < 9 \<and> bit va (12 + (i - 1) * 9 + k)"
proof -
  have m9: "(0x1FF :: u64) = mask 9"
    by (simp add: mask_eq_exp_minus_1)
  show ?thesis
    unfolding entry_index_def m9 by (auto simp: bit_and_iff bit_mask_iff bit_drop_bit_eq add.commute)
qed

text \<open>Two addresses differ in an index of a level iff they differ in the bits above the offset.\<close>

lemma differ_bits:
  "differ l n va va' \<longleftrightarrow> (\<exists>k. 12 + (l - 1) * 9 \<le> k \<and> k < 12 + n * 9 \<and> bit va k \<noteq> bit va' k)" if "1 \<le> l"
proof
  assume "differ l n va va'"
  then obtain i where i: "l \<le> i" "i \<le> n" "entry_index va i \<noteq> entry_index va' i"
    by (auto simp: differ_def)
  then obtain k where k: "k < 9" "bit va (12 + (i - 1) * 9 + k) \<noteq> bit va' (12 + (i - 1) * 9 + k)"
    by (metis bit_eqI bit_entry_index)
  have "(l - 1) * 9 \<le> (i - 1) * 9" "(i - 1) * 9 + 9 \<le> n * 9"
    using i that by (simp_all add: diff_mult_distrib)
  then have "12 + (l - 1) * 9 \<le> 12 + (i - 1) * 9 + k" "12 + (i - 1) * 9 + k < 12 + n * 9"
    using k(1) by linarith+
  then show "\<exists>k. 12 + (l - 1) * 9 \<le> k \<and> k < 12 + n * 9 \<and> bit va k \<noteq> bit va' k"
    using k(2) by blast
next
  assume "\<exists>k. 12 + (l - 1) * 9 \<le> k \<and> k < 12 + n * 9 \<and> bit va k \<noteq> bit va' k"
  then obtain k where k: "12 + (l - 1) * 9 \<le> k" "k < 12 + n * 9" "bit va k \<noteq> bit va' k"
    by blast
  define i where "i = (k - 12) div 9 + 1"
  have "k = 12 + (i - 1) * 9 + (k - 12) mod 9"
    using k(1) by (simp add: i_def)
  then have "bit (entry_index va i) ((k - 12) mod 9) \<noteq> bit (entry_index va' i) ((k - 12) mod 9)"
    using k(3) by (simp add: bit_entry_index)
  moreover have "l \<le> i"
  proof -
    have "(l - 1) * 9 \<le> k - 12"
      using k(1) by linarith
    then have "l - 1 \<le> (k - 12) div 9"
      by (simp add: less_eq_div_iff_mult_less_eq)
    then show ?thesis
      by (simp add: i_def)
  qed
  moreover have "i \<le> n"
  proof -
    have "k - 12 < n * 9"
      using k(1,2) by linarith
    then show ?thesis
      by (simp add: i_def less_mult_imp_div_less Suc_leI)
  qed
  ultimately show "differ l n va va'"
    by (auto simp: differ_def)
qed

section \<open>Small trees for the examples\<close>

lemma tree_zero:
  assumes "aligned t" "t \<noteq> 0" "\<forall>x<512. m (slot t x) = 0"
  shows "tree hhdm m (Suc n) t \<and> reach hhdm m (Suc n) t = {pg t}"
proof -
  have "child hhdm m (Suc n) t x = None" if "x < 512" for x
    using assms(3) that by (simp add: child_def nx_def Present_def)
  then show ?thesis
    using assms by auto
qed

lemma tree_one:
  assumes "aligned t" "t \<noteq> 0" "x < 512" "\<forall>y<512. y \<noteq> x \<longrightarrow> m (slot t y) = 0"
    "child hhdm m (Suc n) t x = Some c" "tree hhdm m n c" "pg t \<notin> reach hhdm m n c"
  shows "tree hhdm m (Suc n) t \<and> reach hhdm m (Suc n) t = insert (pg t) (reach hhdm m n c)"
proof -
  have none: "child hhdm m (Suc n) t y = None" if "y < 512" "y \<noteq> x" for y
    using assms(4) that by (simp add: child_def nx_def Present_def)
  have "Present (m (slot t x))"
    using assms(5) by (auto simp: child_def nx_def split: if_splits)
  then have ent: "m (slot t y) = 0 \<or> Present (m (slot t y))" if "y < 512" for y
    using assms(4) that by (cases "y = x") auto
  have only: "y = x \<and> d = c" if "y < 512" "child hhdm m (Suc n) t y = Some d" for y d
    using none [OF that(1)] that(2) assms(5) by (cases "y = x") auto
  have "(case child hhdm m (Suc n) t y of None \<Rightarrow> {} | Some c \<Rightarrow> reach hhdm m n c) =
      (if y = x then reach hhdm m n c else {})" if "y < 512" for y
    using none [OF that] assms(5) by simp
  then have "reach hhdm m (Suc n) t = insert (pg t) (reach hhdm m n c)"
    using assms(3) by auto
  moreover have "tree hhdm m (Suc n) t"
    unfolding tree.simps
  proof (intro conjI allI impI)
    fix y d
    assume "y < 512" "child hhdm m (Suc n) t y = Some d"
    then show "tree hhdm m n d" "pg t \<notin> reach hhdm m n d"
      using assms(6,7) only by blast+
  next
    fix y z d e
    assume "y < 512" "z < 512" "y \<noteq> z" "child hhdm m (Suc n) t y = Some d" "child hhdm m (Suc n) t z = Some e"
    then show "reach hhdm m n d \<inter> reach hhdm m n e = {}"
      using only by blast
  qed (use assms(1,2) ent in simp_all)
  ultimately show ?thesis
    by blast
qed

text \<open>An address space with one page: virtual page 0 at physical address 0x900000.\<close>

definition sample_pt :: "u64 \<Rightarrow> u64" where
  "sample_pt a = (if a = 0x1000 then 0x2003 else if a = 0x2000 then 0x3003 else if a = 0x3000 then 0x4003
     else if a = 0x4000 then 0x900003 else 0)"

definition sample_paging :: Paging where
  "sample_paging = \<lparr>g_PMM = sample_pmm, pt = sample_pt\<rparr>"

lemma sample_slot:
  assumes "t \<in> {0x1000, 0x2000, 0x3000, 0x4000}" "x < 512" "x \<noteq> 0"
  shows "sample_pt (slot t x) = 0"
proof -
  have al: "aligned t"
    using assms(1) by (auto simp: aligned_def)
  have "unat x < 512" "unat x \<noteq> 0"
    using assms(2,3) by (auto simp: word_less_nat_alt unat_eq_0)
  then have "\<not> 4096 dvd unat x * 8"
    by (intro nat_dvd_not_less) simp_all
  then have "\<not> 4096 dvd unat (slot t x)"
    using unat_slot [OF al assms(2)] al by (simp add: aligned_def dvd_add_right_iff)
  then have "slot t x \<noteq> u" if "4096 dvd unat u" for u
    using that by auto
  then show ?thesis
    by (simp add: sample_pt_def)
qed

lemma sample_child:
  "child 0 sample_pt (Suc (Suc n)) 0x1000 0 = Some 0x2000" "child 0 sample_pt (Suc (Suc n)) 0x2000 0 = Some 0x3000"
  "child 0 sample_pt (Suc (Suc n)) 0x3000 0 = Some 0x4000"
  by (simp_all add: child_def nx_def slot_def sample_pt_def PageSize_def Present_def bit_numeral_rec)

lemma sample_tree: "tree 0 sample_pt 4 0x1000 \<and> reach 0 sample_pt 4 0x1000 = {1, 2, 3, 4}"
proof -
  have pgs: "pg 0x1000 = 1" "pg 0x2000 = 2" "pg 0x3000 = 3" "pg 0x4000 = 4"
    by (simp_all add: pg_def)
  have als: "aligned 0x1000" "aligned 0x2000" "aligned 0x3000" "aligned 0x4000"
    by (simp_all add: aligned_def)
  have ent: "sample_pt (slot 0x4000 x) = 0 \<or> Present (sample_pt (slot 0x4000 x))" if "x < 512" for x
    using sample_slot [where t = "0x4000" and x = x] that by (cases "x = 0") (auto simp: sample_pt_def slot_def Present_def bit_numeral_rec)
  have none: "child 0 sample_pt (Suc 0) 0x4000 x = None" for x
    by (simp add: child_def nx_def)
  have 1: "tree 0 sample_pt (Suc 0) 0x4000 \<and> reach 0 sample_pt (Suc 0) 0x4000 = {4}"
    unfolding tree.simps reach.simps none pgs using ent als by simp
  have 2: "tree 0 sample_pt (Suc (Suc 0)) 0x3000 \<and> reach 0 sample_pt (Suc (Suc 0)) 0x3000 = {3, 4}"
    using tree_one [OF als(3) _ _ _ sample_child(3) conjunct1 [OF 1]] sample_slot [where t = "0x3000"]
    unfolding conjunct2 [OF 1] pgs by (simp del: tree.simps reach.simps)
  have 3: "tree 0 sample_pt (Suc (Suc (Suc 0))) 0x2000 \<and> reach 0 sample_pt (Suc (Suc (Suc 0))) 0x2000 = {2, 3, 4}"
    using tree_one [OF als(2) _ _ _ sample_child(2) conjunct1 [OF 2]] sample_slot [where t = "0x2000"]
    unfolding conjunct2 [OF 2] pgs by (simp del: tree.simps reach.simps)
  have "tree 0 sample_pt (Suc (Suc (Suc (Suc 0)))) 0x1000 \<and> reach 0 sample_pt (Suc (Suc (Suc (Suc 0)))) 0x1000 = {1, 2, 3, 4}"
    using tree_one [OF als(1) _ _ _ sample_child(1) conjunct1 [OF 3]] sample_slot [where t = "0x1000"]
    unfolding conjunct2 [OF 3] pgs by (simp del: tree.simps reach.simps)
  then have four: "tree 0 sample_pt n 0x1000 \<and> reach 0 sample_pt n 0x1000 = {1, 2, 3, 4}" if "n = Suc (Suc (Suc (Suc 0)))" for n
    using that by blast
  show ?thesis
    by (rule four) simp
qed

lemma sample_pool: "pool 0 sample_paging [(0x8000, 4)]"
  "\<forall>q\<in>reach 0 sample_pt 4 0x1000. \<not> page_free 0 [(0x8000, 4)] q"
  using sample_pmm_inv sample_tree
  by (auto simp: pool_def sample_paging_def aligned_def free_bytes_def page_free_def block_end_def span_def)

section \<open>Properties\<close>

text \<open>
  C2. Mapping a 4 KiB page. On a tree of tables that shares no page with the free memory, with enough free
  pages for the missing tables and no large page in the way, \<^verbatim>\<open>x86_64_MapPage\<close> returns; the address then
  translates to the given frame through an entry with exactly the given flags, every table above that
  entry grants what the flags ask for, every address of another page translates as before, the tables
  are again a tree that shares no page with the free memory, and no memory but the tables and pages that
  were free is written.
\<close>

theorem PageTables_MapPage:
  assumes "tree hhdm (pt s) (levels la57) cr3" "pool hhdm s bs"
    "\<forall>q\<in>reach hhdm (pt s) (levels la57) cr3. \<not> page_free hhdm bs q" "levels la57 - 1 \<le> page_total bs"
    "mappable 1 hhdm (pt s) va (levels la57) cr3"
  shows "\<exists>s' bs'. x86_64_MapPage la57 hhdm s cr3 va pa flags = Inr s' \<and>
    x86_64_GetPhysicalAddress la57 hhdm s' cr3 va = Inr (pa AND 0x000FFFFFFFFFF000) \<and>
    leaf_of hhdm (pt s') va (levels la57) cr3 = leaf_4KiB pa flags \<and>
    path_grants flags hhdm (pt s') va (levels la57) cr3 \<and>
    (\<forall>va'. differ 1 (levels la57) va va' \<longrightarrow>
       x86_64_GetPhysicalAddress la57 hhdm s' cr3 va' = x86_64_GetPhysicalAddress la57 hhdm s cr3 va') \<and>
    tree hhdm (pt s') (levels la57) cr3 \<and> pool hhdm s' bs' \<and>
    (\<forall>q\<in>reach hhdm (pt s') (levels la57) cr3. \<not> page_free hhdm bs' q) \<and>
    (\<forall>a. pg a \<notin> reach hhdm (pt s) (levels la57) cr3 \<longrightarrow> \<not> page_free hhdm bs (pg a) \<longrightarrow> pt s' a = pt s a)"
proof -
  obtain s' bs' where "map_gen 1 (leaf_4KiB pa flags) la57 hhdm va flags (levels la57) cr3 s = Inr s'"
    "mapped 1 (leaf_4KiB pa flags) flags la57 hhdm va (levels la57) cr3 s bs s' bs'"
    using map_gen_ok [OF assms(1) order.refl order.refl assms(2-5) leaf_bits(1) leaf_nx(1)] by blast
  then show ?thesis
    unfolding x86_64_MapPage_def x86_64_GetPhysicalAddress_def map_gen_instances mapped_def leaf_stop
    by (intro exI [of _ s'] exI [of _ bs']) blast
qed

lemma sample_index:
  "entry_index 0x40000000 4 = 0" "entry_index 0x40000000 3 = 1" "entry_index 0 i = 0"
  by (simp_all add: entry_index_def drop_bit_eq_div)

lemma sample_gap: "child 0 sample_pt i 0x2000 1 = None" "sample_pt (slot 0x2000 1) = 0"
  by (simp_all add: child_def nx_def sample_pt_def slot_def Present_def)

lemma sample_mappable: "1 \<le> l \<Longrightarrow> l \<le> 3 \<Longrightarrow> mappable l 0 sample_pt 0x40000000 4 0x1000"
  using sample_child(1) [of 2] sample_gap sample_index(1,2) by (simp add: numeral_eq_Suc Present_def)

lemma PageTables_MapPage_witness:
  "\<exists>s'. x86_64_MapPage False 0 sample_paging 0x1000 0x40000000 0xABC000 3 = Inr s' \<and>
     x86_64_GetPhysicalAddress False 0 s' 0x1000 0x40000000 = Inr 0xABC000"
  using PageTables_MapPage [of 0 sample_paging False "0x1000" "[(0x8000, 4)]" "0x40000000" "0xABC000" 3]
    sample_pool sample_tree sample_mappable [of 1] by (auto simp: sample_paging_def levels_def)

text \<open>
  C19. Mapping a large page. The same for \<^verbatim>\<open>x86_64_Map2MiBPage\<close> and \<^verbatim>\<open>x86_64_Map1GiBPage\<close>, at level 2 and
  level 3, when no larger page and no table is where the page goes: the walk then ends at the new entry,
  which translates to the given frame cut to the size of the page, and no other page of that size changes.
\<close>

theorem PageTables_MapLarge:
  assumes "tree hhdm (pt s) (levels la57) cr3" "pool hhdm s bs"
    "\<forall>q\<in>reach hhdm (pt s) (levels la57) cr3. \<not> page_free hhdm bs q" "levels la57 - 2 \<le> page_total bs"
  shows "(mappable 2 hhdm (pt s) va (levels la57) cr3 \<longrightarrow>
     (\<exists>s' bs'. x86_64_Map2MiBPage la57 hhdm s cr3 va pa flags = Inr s' \<and>
        mapped 2 (leaf_2MiB pa flags) flags la57 hhdm va (levels la57) cr3 s bs s' bs' \<and>
        x86_64_GetPhysicalAddress la57 hhdm s' cr3 va = Inr (pa AND 0x000FFFFFFFE00000))) \<and>
   (mappable 3 hhdm (pt s) va (levels la57) cr3 \<longrightarrow>
     (\<exists>s' bs'. x86_64_Map1GiBPage la57 hhdm s cr3 va pa flags = Inr s' \<and>
        mapped 3 (leaf_1GiB pa flags) flags la57 hhdm va (levels la57) cr3 s bs s' bs' \<and>
        x86_64_GetPhysicalAddress la57 hhdm s' cr3 va = Inr (pa AND 0x000FFFFFC0000000)))"
proof -
  have room: "levels la57 - 3 \<le> page_total bs" and l: "1 \<le> (2::nat)" "1 \<le> (3::nat)"
    using assms(4) by simp_all
  have walk: "mapped l lf flags la57 hhdm va (levels la57) cr3 s bs s' bs' \<Longrightarrow>
      GetPhysicalAddress_loop la57 hhdm (pt s') va (levels la57) cr3 = Inr (stop l lf)" for l lf s' bs'
    by (simp add: mapped_def)
  show ?thesis
    unfolding x86_64_Map2MiBPage_def x86_64_Map1GiBPage_def x86_64_GetPhysicalAddress_def map_gen_instances
    using map_gen_ok [OF assms(1) order.refl l(1) assms(2-4) _ leaf_bits(2) leaf_nx(2), of va pa flags flags]
      map_gen_ok [OF assms(1) order.refl l(2) assms(2,3) room _ leaf_bits(3) leaf_nx(3), of va pa flags flags]
      walk [of 2 "leaf_2MiB pa flags"] walk [of 3 "leaf_1GiB pa flags"] unfolding leaf_stop by blast
qed

lemma PageTables_MapLarge_witness:
  "\<exists>s'. x86_64_Map1GiBPage False 0 sample_paging 0x1000 0x40000000 0x80000000 3 = Inr s' \<and>
     x86_64_GetPhysicalAddress False 0 s' 0x1000 0x40000000 = Inr 0x80000000"
  using PageTables_MapLarge [of 0 sample_paging False "0x1000" "[(0x8000, 4)]" "0x40000000" "0x80000000" 3]
    sample_pool sample_tree sample_mappable [of 3] by (auto simp: sample_paging_def levels_def)

text \<open>
  C8. Unmapping a 4 KiB page with four levels. \<^verbatim>\<open>x86_64_UnmapPage\<close> returns; the address no longer
  translates, every address of another page translates as before, the tables are a smaller tree, and a
  page that has become free is none of the remaining tables.
\<close>

theorem PageTables_UnmapPage:
  assumes "tree hhdm (pt s) 4 cr3" "pmm_inv hhdm (g_PMM s) bs" "\<forall>b\<in>set bs. pg (fst b) \<notin> reach hhdm (pt s) 4 cr3"
    "small_path hhdm (pt s) va 4 cr3"
  shows "\<exists>s' ys. x86_64_UnmapPage False hhdm s cr3 va = Inr s' \<and>
    x86_64_GetPhysicalAddress False hhdm s' cr3 va = Inr 0 \<and>
    (\<forall>va'. differ 1 4 va va' \<longrightarrow>
       x86_64_GetPhysicalAddress False hhdm s' cr3 va' = x86_64_GetPhysicalAddress False hhdm s cr3 va') \<and>
    tree hhdm (pt s') 4 cr3 \<and> reach hhdm (pt s') 4 cr3 \<subseteq> reach hhdm (pt s) 4 cr3 \<and>
    list_ok (g_PMM s') ys \<and> (\<forall>a\<in>set ys. pg a \<notin> reach hhdm (pt s') 4 cr3) \<and>
    (\<forall>a\<in>set ys. a \<in> set (map fst bs) \<or> pg a \<in> reach hhdm (pt s) 4 cr3)"
proof -
  have "m_lock (g_PMM s) = 1" "\<forall>a\<in>set (map fst bs). pg a \<notin> reach hhdm (pt s) 4 cr3" "4 \<le> levels False" "1 \<le> (4::nat)"
    using assms(2,3) by (auto simp: pmm_inv_def levels_def)
  then obtain s' go ys where "unmap_tree hhdm va 4 cr3 s = Inr (s', go)" "unmapped False hhdm va 4 cr3 s (map fst bs) s' ys"
    using unmap_tree_ok [OF assms(1) _ _ pmm_inv_list_ok [OF assms(2)] _ _ assms(4)] by blast
  then show ?thesis
    unfolding UnmapPage_tree [OF assms(1)] x86_64_GetPhysicalAddress_def unmapped_def levels_def
    by (intro exI [of _ s'] exI [of _ ys]) simp
qed

lemma PageTables_UnmapPage_witness:
  "\<exists>s'. x86_64_UnmapPage False 0 sample_paging 0x1000 0 = Inr s' \<and>
     x86_64_GetPhysicalAddress False 0 sample_paging 0x1000 0 = Inr 0x900000 \<and>
     x86_64_GetPhysicalAddress False 0 s' 0x1000 0 = Inr 0"
proof -
  have four: "(4::nat) = Suc (Suc (Suc (Suc 0)))"
    by simp
  have leaf: "child 0 sample_pt (Suc 0) 0x4000 0 = None"
    by (simp add: child_def nx_def)
  have "small_path 0 sample_pt 0 4 0x1000"
    unfolding four using sample_child leaf by (simp add: sample_index)
  moreover have "GetPhysicalAddress_loop False 0 sample_pt 0 4 0x1000 = Inr 0x900000"
    unfolding four using sample_child leaf
    by (simp add: GetPhysicalAddress_step levels_def aligned_def sample_index stop_def sample_pt_def slot_def
        del: GetPhysicalAddress_loop.simps)
  moreover have "\<forall>b\<in>set [(0x8000, 4)]. pg (fst b) \<notin> reach 0 sample_pt 4 0x1000"
    unfolding conjunct2 [OF sample_tree] by (simp add: pg_def)
  ultimately show ?thesis
    using PageTables_UnmapPage [of 0 sample_paging "0x1000" "[(0x8000, 4)]" 0] sample_tree sample_pmm_inv
    by (auto simp: sample_paging_def x86_64_GetPhysicalAddress_def levels_def simp del: GetPhysicalAddress_loop.simps)
qed

text \<open>
  C20. Remapping. \<^verbatim>\<open>x86_64_RemapPage\<close> returns and no page loses or changes its translation. Where the walk comes to a level 1
  entry, that entry keeps its frame, has exactly the new flags and is present, and the tables above grant them; so a page
  that had no translation, although it has a level 1 table, is mapped to frame 0 afterwards, and this is the
  only translation that appears. The result of \<^verbatim>\<open>x86_64_GetPhysicalAddress\<close>, which is 0 for an absent page too, is the
  same for every address. No page is allocated and no memory outside the tables is written.
\<close>

theorem PageTables_RemapPage:
  assumes "tree hhdm (pt s) (levels la57) cr3"
  shows "\<exists>s'. x86_64_RemapPage la57 hhdm s cr3 va flags = Inr s' \<and>
    (\<forall>va'. mapping hhdm (pt s') va' (levels la57) cr3 =
       (if path hhdm (pt s) va (levels la57) cr3 \<noteq> None \<and> mapping hhdm (pt s) va (levels la57) cr3 = None \<and> \<not> differ 1 (levels la57) va va'
        then Some 0 else mapping hhdm (pt s) va' (levels la57) cr3)) \<and>
    (\<forall>va'. x86_64_GetPhysicalAddress la57 hhdm s' cr3 va' = x86_64_GetPhysicalAddress la57 hhdm s cr3 va') \<and>
    (path hhdm (pt s) va (levels la57) cr3 \<noteq> None \<longrightarrow>
       leaf_of hhdm (pt s') va (levels la57) cr3 =
         reflag 0x000FFFFFFFFFF000 0xFFF (leaf_of hhdm (pt s) va (levels la57) cr3) flags \<and>
       Present (leaf_of hhdm (pt s') va (levels la57) cr3) \<and>
       path_grants flags hhdm (pt s') va (levels la57) cr3) \<and>
    tree hhdm (pt s') (levels la57) cr3 \<and> g_PMM s' = g_PMM s \<and>
    (\<forall>a. pg a \<notin> reach hhdm (pt s) (levels la57) cr3 \<longrightarrow> pt s' a = pt s a)"
proof -
  obtain s' where s': "RemapPage_loop la57 hhdm va flags (levels la57) cr3 s = Inr s'" "remapped la57 hhdm va flags (levels la57) cr3 s s'"
    using RemapPage_loop_ok [OF assms order.refl] by blast
  then show ?thesis
    using RemapPage_loop_mapping [OF assms order.refl s'(1)] reflag_bits(1)
    unfolding x86_64_RemapPage_def x86_64_GetPhysicalAddress_def remapped_def by (intro exI [of _ s']) simp
qed

text \<open>In the sample tables, page 1 shares the level 1 table of page 0 and is absent.\<close>

lemma sample_page_1:
  "entry_index 0x1000 (Suc 0) = 1" "entry_index 0x1000 (Suc (Suc 0)) = 0" "entry_index 0x1000 (Suc (Suc (Suc 0))) = 0"
  "entry_index 0x1000 (Suc (Suc (Suc (Suc 0)))) = 0" "sample_pt (slot 0x4000 1) = 0"
  by (simp_all add: entry_index_def drop_bit_eq_div slot_def sample_pt_def)

lemma PageTables_RemapPage_witness:
  "mapping 0 (pt sample_paging) 0x1000 (levels False) 0x1000 = None \<and>
   (\<exists>s'. x86_64_RemapPage False 0 sample_paging 0x1000 0x1000 1 = Inr s' \<and> mapping 0 (pt s') 0x1000 (levels False) 0x1000 = Some 0 \<and>
     mapping 0 (pt s') 0 (levels False) 0x1000 = mapping 0 (pt sample_paging) 0 (levels False) 0x1000)"
proof -
  have tr: "tree 0 (pt sample_paging) (levels False) 0x1000"
    using sample_tree by (auto simp: sample_paging_def levels_def)
  have lv: "levels False = Suc (Suc (Suc (Suc 0)))"
    by (simp add: levels_def)
  have ch: "child 0 sample_pt (Suc 0) t x = None" for t x
    by (simp add: child_def nx_def)
  have "entry_index 0x1000 1 \<noteq> entry_index 0 1"
    using sample_page_1(1) by (simp add: entry_index_def)
  then have d: "differ 1 (levels False) 0x1000 0" "\<not> differ 1 (levels False) 0x1000 0x1000"
    unfolding differ_def lv by (intro exI [of _ 1], simp) simp
  have "path 0 (pt sample_paging) 0x1000 (levels False) 0x1000 \<noteq> None" "mapping 0 (pt sample_paging) 0x1000 (levels False) 0x1000 = None"
    unfolding lv by (simp_all add: sample_paging_def sample_page_1 sample_child ch Let_def Present_def)
  then show ?thesis
    using PageTables_RemapPage [OF tr, of "0x1000" 1] d by auto
qed

text \<open>
  C21. Unmapping with five levels. The array that records the way down has four places and all of them are
  used, so the climb has no end mark: when the page is the only one of the address space, every table is
  released and \<^verbatim>\<open>x86_64_UnmapPage\<close> then reads past the end of the array.
\<close>

theorem PageTables_UnmapPage_overrun:
  assumes "tree hhdm (pt s) 5 cr3" "pmm_inv hhdm (g_PMM s) bs" "\<forall>b\<in>set bs. pg (fst b) \<notin> reach hhdm (pt s) 5 cr3"
    "lone hhdm (pt s) va 5 cr3"
  shows "x86_64_UnmapPage True hhdm s cr3 va = Inl OutOfBounds"
proof -
  have a: "m_lock (g_PMM s) = 1" "\<forall>a\<in>set (map fst bs). pg a \<notin> reach hhdm (pt s) 5 cr3" "5 \<le> levels True" "1 \<le> (5::nat)"
    using assms(2,3) by (auto simp: pmm_inv_def levels_def)
  note ok = pmm_inv_list_ok [OF assms(2)]
  obtain s' go ys where r: "unmap_tree hhdm va 5 cr3 s = Inr (s', go)" "unmapped True hhdm va 5 cr3 s (map fst bs) s' ys"
    using unmap_tree_ok [OF assms(1) a(3,4) ok a(1,2) lone_small [OF assms(4)]] by blast
  have "go"
    using unmap_lone [OF assms(1) a(3,4) ok a(1,2) assms(4) r(1)] by blast
  then show ?thesis
    using UnmapPage_tree_la57 [OF assms(1)] r(1) by simp
qed

definition sample_la57 :: Paging where
  "sample_la57 = \<lparr>g_PMM = sample_pmm, pt = (\<lambda>a. if a = 0x5000 then 0x1003 else sample_pt a)\<rparr>"

lemma sample_la57_lone: "lone 0 (pt sample_la57) 0 (Suc (Suc (Suc (Suc (Suc 0))))) 0x5000"
proof -
  let ?m = "pt sample_la57"
  have same: "?m a = sample_pt a" if "a \<noteq> 0x5000" for a
    using that by (simp add: sample_la57_def)
  have zero: "?m (slot t x) = 0" if "t \<in> {0x1000, 0x2000, 0x3000, 0x4000}" "x < 512" "x \<noteq> 0" for t x
  proof -
    have "pg (slot t x) = pg t" "pg t \<noteq> pg 0x5000"
      using that(1) pg_slot [OF _ that(2), of t] by (auto simp: aligned_def pg_def)
    then show ?thesis
      using sample_slot [OF that] same [of "slot t x"] by metis
  qed
  have top: "?m (slot 0x5000 x) = 0" if "x < 512" "x \<noteq> 0" for x
  proof -
    have "aligned 0x5000" "pg 0x5000 \<notin> {1, 2, 3, 4}"
      by (simp_all add: aligned_def pg_def)
    then have "slot 0x5000 x \<noteq> 0x5000" "pg (slot 0x5000 x) \<notin> {1, 2, 3, 4}"
      using slot_inj [of "0x5000" x 0] pg_slot [of "0x5000" x] that by (auto simp: slot_def)
    then show ?thesis
      using same [of "slot 0x5000 x"] by (auto simp: sample_pt_def pg_def)
  qed
  have ch: "child 0 ?m (Suc (Suc n)) 0x1000 0 = Some 0x2000" "child 0 ?m (Suc (Suc n)) 0x2000 0 = Some 0x3000"
    "child 0 ?m (Suc (Suc n)) 0x3000 0 = Some 0x4000" "child 0 ?m (Suc (Suc (Suc (Suc n)))) 0x5000 0 = Some 0x1000"
    "child 0 ?m (Suc 0) 0x4000 0 = None" for n
    by (simp_all add: child_def nx_def slot_def sample_la57_def sample_pt_def PageSize_def Present_def bit_numeral_rec)
  show ?thesis
    using zero top ch by (simp add: sample_index)
qed

lemma sample_la57_tree: "tree 0 (pt sample_la57) 5 0x5000 \<and> reach 0 (pt sample_la57) 5 0x5000 = {1, 2, 3, 4, 5}"
proof -
  let ?m = "pt sample_la57"
  have pg: "pg 0x5000 = 5" "aligned 0x5000"
    by (simp_all add: pg_def aligned_def)
  have same: "?m a = sample_pt a" if "pg a \<in> {1, 2, 3, 4}" for a
    using that pg by (auto simp: sample_la57_def)
  have four: "tree 0 ?m 4 0x1000" "reach 0 ?m 4 0x1000 = {1, 2, 3, 4}"
    using tree_frame [of 0 sample_pt 4 "0x1000" ?m] sample_tree same by auto
  have five: "(5::nat) = Suc 4"
    by simp
  have "child 0 ?m 5 0x5000 0 = Some 0x1000"
    by (simp add: child_def nx_def slot_def sample_la57_def Present_def)
  moreover have "\<forall>y<512. y \<noteq> 0 \<longrightarrow> ?m (slot 0x5000 y) = 0"
    using sample_la57_lone sample_index(3) by simp
  ultimately have "tree 0 ?m (Suc 4) 0x5000 \<and> reach 0 ?m (Suc 4) 0x5000 = insert (pg 0x5000) (reach 0 ?m 4 0x1000)"
    using tree_one [OF pg(2), of 0 ?m 0 4 "0x1000"] four pg(1) unfolding five
    by (simp del: tree.simps reach.simps)
  then show ?thesis
    unfolding four(2) pg(1) five by auto
qed

lemma PageTables_UnmapPage_overrun_witness: "x86_64_UnmapPage True 0 sample_la57 0x5000 0 = Inl OutOfBounds"
proof -
  have "lone 0 (pt sample_la57) 0 5 0x5000"
    using sample_la57_lone by (simp add: numeral_eq_Suc)
  moreover have "\<forall>b\<in>set [(0x8000, 4)]. pg (fst b) \<notin> reach 0 (pt sample_la57) 5 0x5000"
    unfolding conjunct2 [OF sample_la57_tree] by (simp add: pg_def)
  ultimately show ?thesis
    using PageTables_UnmapPage_overrun [OF conjunct1 [OF sample_la57_tree], of "[(0x8000, 4)]" 0] sample_pmm_inv
    by (simp add: sample_la57_def)
qed

end
