(* ===== verification/RegionMap.thy ===== *)
theory RegionMap
  imports PageMapper
begin

text \<open>
  Mapping a region with the largest pages: the calls that
  \<^verbatim>\<open>x86_64_MapRegionWithLargestPages\<close> makes cover the region without gap or overlap.
\<close>

section \<open>Loops as sequences of steps\<close>

primrec run :: "('s \<Rightarrow> 's res) list \<Rightarrow> 's \<Rightarrow> 's res" where
  "run [] s = Inr s"
| "run (f # fs) s = bindR (f s) (run fs)"

lemma run_append: "run (fs @ gs) = (\<lambda>s. bindR (run fs s) (run gs))"
proof
  show "run (fs @ gs) s = bindR (run fs s) (run gs)" for s
  proof (induction fs arbitrary: s)
    case (Cons f fs)
    show ?case
      by (cases "f s") (simp_all add: Cons)
  qed simp
qed

text \<open>The positions of the loop: as many as fit below the limit, the last one rounded up.\<close>

definition rounds :: "nat \<Rightarrow> nat \<Rightarrow> nat" where
  "rounds len step = (len + step - 1) div step"

lemma rounds_0 [simp]: "0 < step \<Longrightarrow> rounds 0 step = 0"
  by (simp add: rounds_def)

lemma rounds_Suc: "0 < step \<Longrightarrow> 0 < len \<Longrightarrow> rounds len step = Suc (rounds (len - step) step)"
  by (cases "len \<le> step") (auto simp: rounds_def div_add_self2 [symmetric] le_div_geq)

lemma rounds_bound: "0 < step \<Longrightarrow> len \<le> rounds len step * step \<and> rounds len step * step < len + step"
proof (induction len rule: less_induct)
  case (less len)
  show ?case
  proof (cases "len = 0")
    case False
    then show ?thesis
      using less.IH [of "len - step"] less.prems rounds_Suc [of step len] by (cases "step \<le> len") auto
  qed (use less.prems in simp)
qed

lemma rounds_exact: "0 < step \<Longrightarrow> step dvd len \<Longrightarrow> rounds len step * step = len"
proof -
  assume "0 < step" "step dvd len"
  then obtain k where k: "len = k * step"
    by (auto elim!: dvdE)
  have "k * step \<le> rounds len step * step" "rounds len step * step < Suc k * step"
    using rounds_bound [OF \<open>0 < step\<close>, of len] k by simp_all
  then have "k \<le> rounds len step" "rounds len step < Suc k"
    using \<open>0 < step\<close> mult_less_cancel2 by (simp, blast)
  then show ?thesis
    using k by simp
qed

lemma for_region_run:
  assumes "unat limit + unat step < 18446744073709551616" "0 < unat step"
  shows "for_region body step i limit s =
    run (map (\<lambda>k. body (i + of_nat k * step)) [0..<rounds (unat limit - unat i) (unat step)]) s"
  using assms
proof (induction "rounds (unat limit - unat i) (unat step)" arbitrary: i s)
  case 0
  then have "unat limit - unat i = 0"
    using rounds_Suc [of "unat step" "unat limit - unat i"] by (cases "unat limit - unat i") auto
  then show ?case
    using 0 by (simp add: for_region_def region_loop.simps word_less_nat_alt)
next
  case (Suc n)
  have less: "unat i < unat limit"
    using Suc.hyps(2) Suc.prems(2) by (cases "unat i < unat limit") auto
  then have next_i: "unat (i + step) = unat i + unat step"
    using Suc.prems(1) by (subst unat_add_nowrap) simp_all
  then have n: "n = rounds (unat limit - unat (i + step)) (unat step)"
    using Suc.hyps(2) Suc.prems(2) rounds_Suc [of "unat step" "unat limit - unat i"] less by (simp add: diff_diff_left)
  have shift: "map (\<lambda>k. body (i + of_nat k * step)) [0..<Suc n] =
      body i # map (\<lambda>k. body (i + step + of_nat k * step)) [0..<n]"
    by (simp add: upt_conv_Cons map_Suc_upt [symmetric] o_def algebra_simps del: upt_Suc)
  have "for_region body step i limit s = bindR (body i s) (for_region body step (i + step) limit)"
    using less by (cases "body i s") (simp_all add: for_region_def region_loop.simps [of body step i] word_less_nat_alt)
  also have "\<dots> = bindR (body i s) (run (map (\<lambda>k. body (i + step + of_nat k * step)) [0..<n]))"
    using Suc.hyps(1) [OF n Suc.prems] n by (intro arg_cong2 [where f = bindR] ext) simp_all
  also have "\<dots> = run (map (\<lambda>k. body (i + of_nat k * step)) [0..<Suc n]) s"
    unfolding shift by simp
  finally show ?case
    using Suc.hyps(2) by simp
qed

section \<open>The calls and what they cover\<close>

datatype page_kind = Small | Large | Huge

primrec kind_size :: "page_kind \<Rightarrow> nat" where
  "kind_size Small = 4096"
| "kind_size Large = 2097152"
| "kind_size Huge = 1073741824"

type_synonym map_call = "page_kind \<times> u64 \<times> u64 \<times> u32"

fun exec :: "(u64 \<Rightarrow> u64 \<Rightarrow> u32 \<Rightarrow> 's \<Rightarrow> 's res) \<Rightarrow> (u64 \<Rightarrow> u64 \<Rightarrow> u32 \<Rightarrow> 's \<Rightarrow> 's res) \<Rightarrow>
    (u64 \<Rightarrow> u64 \<Rightarrow> u32 \<Rightarrow> 's \<Rightarrow> 's res) \<Rightarrow> map_call \<Rightarrow> 's \<Rightarrow> 's res" where
  "exec m4 m2 m1 (Small, v, p, f) = m4 v p f"
| "exec m4 m2 m1 (Large, v, p, f) = m2 v p f"
| "exec m4 m2 m1 (Huge, v, p, f) = m1 v p f"

text \<open>
  The calls lie one after the other from the offset \<open>a\<close> to the offset \<open>e\<close>, each at the same offset
  in the virtual and in the physical range, and a large page has an aligned frame and large page flags.
\<close>

fun covers :: "u64 \<Rightarrow> u64 \<Rightarrow> u32 \<Rightarrow> nat \<Rightarrow> map_call list \<Rightarrow> nat \<Rightarrow> bool" where
  "covers va pa flags a [] e \<longleftrightarrow> a = e"
| "covers va pa flags a ((k, v, p, f) # cs) e \<longleftrightarrow>
     v = va + of_nat a \<and> p = pa + of_nat a \<and> f = (if k = Small then flags else x86_64_ConvertToLargePageFlags flags) \<and>
     kind_size k dvd unat p \<and> covers va pa flags (a + kind_size k) cs e"

lemma covers_append:
  "covers va pa flags a cs b \<Longrightarrow> covers va pa flags b ds e \<Longrightarrow> covers va pa flags a (cs @ ds) e"
  by (induction cs arbitrary: a) auto

definition calls :: "page_kind \<Rightarrow> u64 \<Rightarrow> u64 \<Rightarrow> u32 \<Rightarrow> nat \<Rightarrow> nat \<Rightarrow> map_call list" where
  "calls k va pa f a n = map (\<lambda>j. (k, va + of_nat (a + j * kind_size k), pa + of_nat (a + j * kind_size k), f)) [0..<n]"

lemma covers_calls:
  assumes "unat pa + a + n * kind_size k < 18446744073709551616" "kind_size k dvd unat pa + a"
  shows "covers va pa flags a (calls k va pa (if k = Small then flags else x86_64_ConvertToLargePageFlags flags) a n)
    (a + n * kind_size k)"
  using assms
proof (induction n arbitrary: a)
  case (Suc n)
  have ua: "unat (pa + of_nat a) = unat pa + a"
    using Suc.prems(1) by (subst unat_add_nowrap) (simp_all add: unat_of_nat)
  have "unat pa + (a + kind_size k) + n * kind_size k < 18446744073709551616"
    using Suc.prems(1) by simp
  moreover have "kind_size k dvd unat pa + (a + kind_size k)"
    using Suc.prems(2) unfolding add.assoc [symmetric] by (simp only: dvd_add_triv_right_iff)
  ultimately have "covers va pa flags (a + kind_size k)
      (calls k va pa (if k = Small then flags else x86_64_ConvertToLargePageFlags flags) (a + kind_size k) n)
      (a + kind_size k + n * kind_size k)"
    by (intro Suc.IH)
  moreover have "calls k va pa f a (Suc n) = (k, va + of_nat a, pa + of_nat a, f) # calls k va pa f (a + kind_size k) n" for f
    by (simp add: calls_def upt_conv_Cons map_Suc_upt [symmetric] o_def algebra_simps del: upt_Suc)
  ultimately show ?case
    using Suc.prems(2) ua by (simp add: add.assoc)
qed (simp add: calls_def)

lemma for_region_calls:
  assumes "unat step = kind_size k" "unat limit + kind_size k < 18446744073709551616" "unat i = unat pa + a"
    "\<And>v p. exec m4 m2 m1 (k, v, p, f) = m v p f"
  shows "for_region (\<lambda>i. m (i - pa + va) i f) step i limit s =
    run (map (exec m4 m2 m1) (calls k va pa f a (rounds (unat limit - unat i) (kind_size k)))) s"
proof -
  have "0 < unat step"
    using assms(1) by (cases k) auto
  moreover have "step = of_nat (kind_size k)" "i = pa + of_nat a"
    using assms(1,3) by (metis of_nat_unat_u64, metis of_nat_add of_nat_unat_u64)
  then have "i + of_nat j * step = pa + of_nat (a + j * kind_size k)"
    "i + of_nat j * step - pa + va = va + of_nat (a + j * kind_size k)" for j
    by (simp_all add: algebra_simps)
  ultimately show ?thesis
    using for_region_run [of limit step "\<lambda>i. m (i - pa + va) i f" i s] assms by (simp add: calls_def o_def ac_simps)
qed

section \<open>The whole region\<close>

lemma ALIGN_bounds:
  assumes "a = LARGE_PAGE_SIZE \<or> a = HUGE_PAGE_SIZE" "unat p + unat a < 18446744073709551616"
  shows "unat a dvd unat (ALIGN_UP p a)" "unat p \<le> unat (ALIGN_UP p a)" "unat (ALIGN_UP p a) < unat p + unat a"
    "unat a dvd unat (ALIGN_DOWN p a)" "unat (ALIGN_DOWN p a) \<le> unat p" "unat p < unat (ALIGN_DOWN p a) + unat a"
proof -
  have a: "0 < unat a" "a \<noteq> 0"
    using assms(1) by (auto simp: LARGE_PAGE_SIZE_def HUGE_PAGE_SIZE_def)
  have up: "unat (ALIGN_UP p a) = rounds (unat p) (unat a) * unat a"
    using unat_ALIGN_UP [of a p] assms(2) a by (simp add: rounds_def)
  show "unat a dvd unat (ALIGN_UP p a)" "unat p \<le> unat (ALIGN_UP p a)" "unat (ALIGN_UP p a) < unat p + unat a"
    using up rounds_bound [OF a(1), of "unat p"] by simp_all
  have down: "unat (ALIGN_DOWN p a) = unat p div unat a * unat a"
    by (rule unat_ALIGN_DOWN)
  show "unat a dvd unat (ALIGN_DOWN p a)" "unat (ALIGN_DOWN p a) \<le> unat p"
    by (simp_all add: down div_times_less_eq_dividend)
  show "unat p < unat (ALIGN_DOWN p a) + unat a"
    using a by (simp add: down dividend_less_div_times add.commute)
qed

text \<open>A part of the region that is done by one of the loops.\<close>

definition kind_map :: "page_kind \<Rightarrow> (u64 \<Rightarrow> u64 \<Rightarrow> u32 \<Rightarrow> 's \<Rightarrow> 's res) \<Rightarrow> (u64 \<Rightarrow> u64 \<Rightarrow> u32 \<Rightarrow> 's \<Rightarrow> 's res) \<Rightarrow>
    (u64 \<Rightarrow> u64 \<Rightarrow> u32 \<Rightarrow> 's \<Rightarrow> 's res) \<Rightarrow> u64 \<Rightarrow> u64 \<Rightarrow> u32 \<Rightarrow> 's \<Rightarrow> 's res" where
  "kind_map k m4 m2 m1 v p f = exec m4 m2 m1 (k, v, p, f)"

lemma kind_map_simps [simp]:
  "kind_map Small m4 m2 m1 v p f = m4 v p f" "kind_map Large m4 m2 m1 v p f = m2 v p f" "kind_map Huge m4 m2 m1 v p f = m1 v p f"
  by (simp_all add: kind_map_def)

definition segment :: "page_kind \<Rightarrow> u64 \<Rightarrow> u64 \<Rightarrow> u32 \<Rightarrow> u64 \<Rightarrow> u64 \<Rightarrow> map_call list" where
  "segment k va pa flags i limit =
     calls k va pa (if k = Small then flags else x86_64_ConvertToLargePageFlags flags) (unat i - unat pa)
       (rounds (unat limit - unat i) (kind_size k))"

lemma segment_run:
  assumes "unat step = kind_size k" "unat limit + kind_size k < 18446744073709551616" "unat pa \<le> unat i"
    "f = (if k = Small then flags else x86_64_ConvertToLargePageFlags flags)"
  shows "for_region (\<lambda>i. kind_map k m4 m2 m1 (i - pa + va) i f) step i limit s =
    run (map (exec m4 m2 m1) (segment k va pa flags i limit)) s"
  using for_region_calls [of step k limit i pa "unat i - unat pa" m4 m2 m1 f "kind_map k m4 m2 m1" va s] assms
  by (simp add: segment_def kind_map_def)

lemma segment_covers:
  assumes "unat limit + kind_size k < 18446744073709551616" "unat pa \<le> unat i" "unat i \<le> unat limit" "kind_size k dvd unat i"
  shows "covers va pa flags (unat i - unat pa) (segment k va pa flags i limit)
      (unat i - unat pa + rounds (unat limit - unat i) (kind_size k) * kind_size k)"
    "kind_size k dvd unat limit \<Longrightarrow>
      unat i - unat pa + rounds (unat limit - unat i) (kind_size k) * kind_size k = unat limit - unat pa"
proof -
  have pos: "0 < kind_size k"
    by (cases k) simp_all
  note rb = rounds_bound [OF pos, of "unat limit - unat i"]
  have "unat pa + (unat i - unat pa) + rounds (unat limit - unat i) (kind_size k) * kind_size k < 18446744073709551616"
    using assms(1-3) rb by linarith
  moreover have "kind_size k dvd unat pa + (unat i - unat pa)"
    using assms(2,4) by simp
  ultimately show "covers va pa flags (unat i - unat pa) (segment k va pa flags i limit)
      (unat i - unat pa + rounds (unat limit - unat i) (kind_size k) * kind_size k)"
    unfolding segment_def by (rule covers_calls)
  show "unat i - unat pa + rounds (unat limit - unat i) (kind_size k) * kind_size k = unat limit - unat pa"
    if "kind_size k dvd unat limit"
    using rounds_exact [OF pos dvd_diff_nat [OF that assms(4)]] assms(2,3) by simp
qed

lemma dvd_below: "(d::nat) dvd x \<Longrightarrow> d dvd y \<Longrightarrow> x < y + d \<Longrightarrow> x \<le> y"
proof -
  assume "d dvd x" "d dvd y" "x < y + d"
  then obtain i j where "x = d * i" "y = d * j" "d * i < d * Suc j"
    by (auto elim!: dvdE)
  then show ?thesis
    by (metis less_Suc_eq_le mult_less_cancel1 mult_le_mono2)
qed

text \<open>A last loop of small pages after parts that are covered already.\<close>

lemma covers_tail:
  assumes "covers va pa flags 0 cs (unat i - unat pa)" "unat limit + 4096 < 18446744073709551616"
    "unat pa \<le> unat i" "unat i \<le> unat limit" "4096 dvd unat i"
  shows "\<exists>e. covers va pa flags 0 (cs @ segment Small va pa flags i limit) e \<and>
    unat limit - unat pa \<le> e \<and> e < unat limit - unat pa + 4096"
proof -
  let ?r = "rounds (unat limit - unat i) 4096 * 4096"
  have "covers va pa flags (unat i - unat pa) (segment Small va pa flags i limit) (unat i - unat pa + ?r)"
    using segment_covers(1) [of limit Small pa i va flags] assms by simp
  then have "covers va pa flags 0 (cs @ segment Small va pa flags i limit) (unat i - unat pa + ?r)"
    using assms(1) covers_append by blast
  moreover have "unat limit - unat i \<le> ?r \<and> ?r < unat limit - unat i + 4096"
    by (rule rounds_bound) simp
  then have "unat limit - unat pa \<le> unat i - unat pa + ?r \<and> unat i - unat pa + ?r < unat limit - unat pa + 4096"
    using assms(3,4) by linarith
  ultimately show ?thesis
    by blast
qed

text \<open>A loop up to an aligned address after parts that are covered already.\<close>

lemma covers_step:
  assumes "covers va pa flags 0 cs (unat i - unat pa)" "unat limit + kind_size k < 18446744073709551616"
    "unat pa \<le> unat i" "unat i \<le> unat limit" "kind_size k dvd unat i" "kind_size k dvd unat limit"
  shows "covers va pa flags 0 (cs @ segment k va pa flags i limit) (unat limit - unat pa)"
  using segment_covers(1) [OF assms(2-5), of va flags] segment_covers(2) [OF assms(2-6)]
    covers_append [OF assms(1)] by metis

lemma small_region:
  assumes "4096 dvd unat pa" "unat pa + unat sz + 4096 < 18446744073709551616"
  shows "for_region (\<lambda>i. m4 (va + i * PAGE_SIZE) (pa + i * PAGE_SIZE) flags) 1 0 (DIV_ROUNDUP sz PAGE_SIZE) s =
      run (map (exec m4 m2 m1) (calls Small va pa flags 0 (rounds (unat sz) 4096))) s"
    "covers va pa flags 0 (calls Small va pa flags 0 (rounds (unat sz) 4096)) (rounds (unat sz) 4096 * 4096)"
proof -
  have n: "unat (DIV_ROUNDUP sz PAGE_SIZE) = rounds (unat sz) 4096"
    using unat_DIV_ROUNDUP [of PAGE_SIZE sz] assms(2) by (simp add: rounds_def PAGE_SIZE_def)
  have rb: "rounds (unat sz) 4096 * 4096 < unat sz + 4096"
    using rounds_bound [of 4096 "unat sz"] by simp
  then have lt: "unat (DIV_ROUNDUP sz PAGE_SIZE) + unat (1::u64) < 18446744073709551616"
    using assms(2) n by simp
  have one: "rounds k (Suc 0) = k" for k
    by (simp add: rounds_def)
  show "for_region (\<lambda>i. m4 (va + i * PAGE_SIZE) (pa + i * PAGE_SIZE) flags) 1 0 (DIV_ROUNDUP sz PAGE_SIZE) s =
      run (map (exec m4 m2 m1) (calls Small va pa flags 0 (rounds (unat sz) 4096))) s"
    using for_region_run [OF lt, of "\<lambda>i. m4 (va + i * PAGE_SIZE) (pa + i * PAGE_SIZE) flags" 0 s]
    by (simp add: n [unfolded PAGE_SIZE_def] one calls_def o_def PAGE_SIZE_def)
  show "covers va pa flags 0 (calls Small va pa flags 0 (rounds (unat sz) 4096)) (rounds (unat sz) 4096 * 4096)"
    using covers_calls [of pa 0 "rounds (unat sz) 4096" Small va flags] assms rb by simp
qed

lemma large_region:
  assumes "4096 dvd unat pa" "unat pa + unat sz + 2147483648 < 18446744073709551616"
    "(k, a) = (Large, LARGE_PAGE_SIZE) \<or> (k, a) = (Huge, HUGE_PAGE_SIZE)" "kind_size k \<le> unat sz"
  shows "\<exists>cs e. covers va pa flags 0 cs e \<and> unat sz \<le> e \<and> e < unat sz + 4096 \<and>
    (\<forall>m4 m2 m1 s. bindR (for_region (\<lambda>i. m4 (i - pa + va) i flags) PAGE_SIZE pa (ALIGN_UP pa a) s) (\<lambda>s.
       bindR (for_region (\<lambda>i. kind_map k m4 m2 m1 (i - pa + va) i (x86_64_ConvertToLargePageFlags flags)) a
         (ALIGN_UP pa a) (ALIGN_DOWN (pa + sz) a) s) (\<lambda>s.
       for_region (\<lambda>i. m4 (i - pa + va) i flags) PAGE_SIZE (ALIGN_DOWN (pa + sz) a) (pa + sz) s)) =
     run (map (exec m4 m2 m1) cs) s)"
proof -
  have ka: "unat a = kind_size k" "k \<noteq> Small" "4096 dvd kind_size k" "kind_size k \<le> 1073741824"
    "a = LARGE_PAGE_SIZE \<or> a = HUGE_PAGE_SIZE" "unat PAGE_SIZE = kind_size Small"
    using assms(3) by (auto simp: LARGE_PAGE_SIZE_def HUGE_PAGE_SIZE_def PAGE_SIZE_def)
  have limit: "unat (pa + sz) = unat pa + unat sz"
    using assms(2) by (subst unat_add_nowrap) simp_all
  have r1: "unat pa + unat a < 18446744073709551616" and r2: "unat (pa + sz) + unat a < 18446744073709551616"
    using assms(2) ka(1,4) limit by linarith+
  note up = ALIGN_bounds(1-3) [OF ka(5) r1, unfolded ka(1)]
  note down = ALIGN_bounds(4-6) [OF ka(5) r2, unfolded ka(1) limit]
  let ?u = "ALIGN_UP pa a" and ?d = "ALIGN_DOWN (pa + sz) a"
  have ud: "unat ?u \<le> unat ?d"
    using up(3) down(3) assms(4) by (intro dvd_below [OF up(1) down(1)]) linarith
  have b: "unat ?u + kind_size Small < 18446744073709551616" "unat ?d + kind_size k < 18446744073709551616"
    "unat (pa + sz) + kind_size Small < 18446744073709551616" "unat pa \<le> unat ?d" "unat ?d \<le> unat (pa + sz)"
    using up down ud assms(2) ka(4) limit by simp_all
  have d4: "4096 dvd unat ?u" "4096 dvd unat ?d"
    using up(1) down(1) ka(3) dvd_trans by blast+
  let ?c1 = "segment Small va pa flags pa ?u" and ?c2 = "segment k va pa flags ?u ?d"
    and ?c3 = "segment Small va pa flags ?d (pa + sz)"
  have "covers va pa flags 0 ([] @ ?c1) (unat ?u - unat pa)"
    using b(1) up(2) assms(1) d4 by (intro covers_step [where cs = "[]" and i = pa]) simp_all
  then have "covers va pa flags 0 (([] @ ?c1) @ ?c2) (unat ?d - unat pa)"
    by (rule covers_step) (use b up ud down in simp_all)
  from covers_tail [OF this b(3) [unfolded kind_size.simps] b(4,5) d4(2)]
  obtain e where e: "covers va pa flags 0 ((([] @ ?c1) @ ?c2) @ ?c3) e" "unat sz \<le> e" "e < unat sz + 4096"
    unfolding limit add_diff_cancel_left' by blast
  have seg: "bindR (for_region (\<lambda>i. m4 (i - pa + va) i flags) PAGE_SIZE pa ?u s) (\<lambda>s.
       bindR (for_region (\<lambda>i. kind_map k m4 m2 m1 (i - pa + va) i (x86_64_ConvertToLargePageFlags flags)) a ?u ?d s) (\<lambda>s.
       for_region (\<lambda>i. m4 (i - pa + va) i flags) PAGE_SIZE ?d (pa + sz) s)) =
     run (map (exec m4 m2 m1) ((([] @ ?c1) @ ?c2) @ ?c3)) s" for m4 m2 m1 :: "u64 \<Rightarrow> u64 \<Rightarrow> u32 \<Rightarrow> 's \<Rightarrow> 's res" and s
    using segment_run [OF ka(6) b(1) order.refl [of "unat pa"], of flags flags m4 m2 m1 va s]
      segment_run [OF ka(1) b(2) up(2), of "x86_64_ConvertToLargePageFlags flags" flags m4 m2 m1 va]
      segment_run [OF ka(6) b(3) b(4), of flags flags m4 m2 m1 va] ka(2)
    by (simp add: run_append)
  show ?thesis
    by (intro exI conjI allI) (rule e seg)+
qed

lemma both_region:
  assumes "4096 dvd unat pa" "unat pa + unat sz + 2147483648 < 18446744073709551616" "1073741824 \<le> unat sz"
  shows "\<exists>cs e. covers va pa flags 0 cs e \<and> unat sz \<le> e \<and> e < unat sz + 4096 \<and>
    (\<forall>m4 m2 m1 s. bindR (for_region (\<lambda>i. m4 (i - pa + va) i flags) PAGE_SIZE pa (ALIGN_UP pa LARGE_PAGE_SIZE) s) (\<lambda>s.
       bindR (for_region (\<lambda>i. m2 (i - pa + va) i (x86_64_ConvertToLargePageFlags flags)) LARGE_PAGE_SIZE
         (ALIGN_UP pa LARGE_PAGE_SIZE) (ALIGN_UP pa HUGE_PAGE_SIZE) s) (\<lambda>s.
       bindR (for_region (\<lambda>i. m1 (i - pa + va) i (x86_64_ConvertToLargePageFlags flags)) HUGE_PAGE_SIZE
         (ALIGN_UP pa HUGE_PAGE_SIZE) (ALIGN_DOWN (pa + sz) HUGE_PAGE_SIZE) s) (\<lambda>s.
       bindR (for_region (\<lambda>i. m2 (i - pa + va) i (x86_64_ConvertToLargePageFlags flags)) LARGE_PAGE_SIZE
         (ALIGN_DOWN (pa + sz) HUGE_PAGE_SIZE) (ALIGN_DOWN (pa + sz) LARGE_PAGE_SIZE) s) (\<lambda>s.
       for_region (\<lambda>i. m4 (i - pa + va) i flags) PAGE_SIZE (ALIGN_DOWN (pa + sz) LARGE_PAGE_SIZE) (pa + sz) s)))) =
     run (map (exec m4 m2 m1) cs) s)"
proof -
  have sizes: "unat PAGE_SIZE = kind_size Small" "unat LARGE_PAGE_SIZE = kind_size Large" "unat HUGE_PAGE_SIZE = kind_size Huge"
    by (simp_all add: LARGE_PAGE_SIZE_def HUGE_PAGE_SIZE_def PAGE_SIZE_def)
  have limit: "unat (pa + sz) = unat pa + unat sz"
    using assms(2) by (subst unat_add_nowrap) simp_all
  let ?u2 = "ALIGN_UP pa LARGE_PAGE_SIZE" and ?u1 = "ALIGN_UP pa HUGE_PAGE_SIZE"
    and ?d1 = "ALIGN_DOWN (pa + sz) HUGE_PAGE_SIZE" and ?d2 = "ALIGN_DOWN (pa + sz) LARGE_PAGE_SIZE"
  have "unat pa + unat LARGE_PAGE_SIZE < 18446744073709551616" "unat pa + unat HUGE_PAGE_SIZE < 18446744073709551616"
    "unat (pa + sz) + unat LARGE_PAGE_SIZE < 18446744073709551616" "unat (pa + sz) + unat HUGE_PAGE_SIZE < 18446744073709551616"
    using assms(2) limit sizes by simp_all
  note al = ALIGN_bounds(1-3) [OF disjI1 [OF refl] this(1)] ALIGN_bounds(1-3) [OF disjI2 [OF refl] this(2)]
    ALIGN_bounds(4-6) [OF disjI1 [OF refl] this(3)] ALIGN_bounds(4-6) [OF disjI2 [OF refl] this(4)]
  note al = al [unfolded sizes limit kind_size.simps]
  have big: "(2097152::nat) dvd 1073741824" "(4096::nat) dvd 2097152"
    by simp_all
  have dv: "2097152 dvd unat ?u1" "2097152 dvd unat ?d1" "4096 dvd unat ?u2" "4096 dvd unat ?d2"
    using al(1,4,7,10) big dvd_trans by blast+
  have ord: "unat ?u2 \<le> unat ?u1" "unat ?u1 \<le> unat ?d1" "unat ?d1 \<le> unat ?d2"
    using al assms(3) dvd_below [OF al(1) dv(1)] dvd_below [OF al(4) al(10)] dvd_below [OF dv(2) al(7)] by linarith+
  let ?c1 = "segment Small va pa flags pa ?u2" and ?c2 = "segment Large va pa flags ?u2 ?u1"
    and ?c3 = "segment Huge va pa flags ?u1 ?d1" and ?c4 = "segment Large va pa flags ?d1 ?d2"
    and ?c5 = "segment Small va pa flags ?d2 (pa + sz)"
  have b: "unat ?u2 + kind_size Small < 18446744073709551616" "unat ?u1 + kind_size Large < 18446744073709551616"
    "unat ?d1 + kind_size Huge < 18446744073709551616" "unat ?d2 + kind_size Large < 18446744073709551616"
    "unat (pa + sz) + kind_size Small < 18446744073709551616"
    using al ord assms(2) limit by simp_all
  have p: "unat pa \<le> unat ?u1" "unat pa \<le> unat ?d1" "unat pa \<le> unat ?d2" "unat ?d2 \<le> unat (pa + sz)"
    using al ord limit by linarith+
  have "covers va pa flags 0 ([] @ ?c1) (unat ?u2 - unat pa)"
    by (rule covers_step) (use b(1) al(2) assms(1) dv in simp_all)
  then have "covers va pa flags 0 (([] @ ?c1) @ ?c2) (unat ?u1 - unat pa)"
    by (rule covers_step) (use b(2) al(1,2) ord(1) dv(1) in simp_all)
  then have "covers va pa flags 0 ((([] @ ?c1) @ ?c2) @ ?c3) (unat ?d1 - unat pa)"
    by (rule covers_step) (use b(3) p(1) ord(2) al(4,10) in simp_all)
  then have "covers va pa flags 0 (((([] @ ?c1) @ ?c2) @ ?c3) @ ?c4) (unat ?d2 - unat pa)"
    by (rule covers_step) (use b(4) p(2) ord(3) al(7) dv(2) in simp_all)
  from covers_tail [OF this b(5) [unfolded kind_size.simps] p(3,4) dv(4)]
  obtain e where e: "covers va pa flags 0 ((((([] @ ?c1) @ ?c2) @ ?c3) @ ?c4) @ ?c5) e" "unat sz \<le> e" "e < unat sz + 4096"
    unfolding limit add_diff_cancel_left' by blast
  show ?thesis
  proof (intro exI conjI allI)
    fix m4 m2 m1 :: "u64 \<Rightarrow> u64 \<Rightarrow> u32 \<Rightarrow> 's \<Rightarrow> 's res" and s
    show "bindR (for_region (\<lambda>i. m4 (i - pa + va) i flags) PAGE_SIZE pa ?u2 s) (\<lambda>s.
       bindR (for_region (\<lambda>i. m2 (i - pa + va) i (x86_64_ConvertToLargePageFlags flags)) LARGE_PAGE_SIZE ?u2 ?u1 s) (\<lambda>s.
       bindR (for_region (\<lambda>i. m1 (i - pa + va) i (x86_64_ConvertToLargePageFlags flags)) HUGE_PAGE_SIZE ?u1 ?d1 s) (\<lambda>s.
       bindR (for_region (\<lambda>i. m2 (i - pa + va) i (x86_64_ConvertToLargePageFlags flags)) LARGE_PAGE_SIZE ?d1 ?d2 s) (\<lambda>s.
       for_region (\<lambda>i. m4 (i - pa + va) i flags) PAGE_SIZE ?d2 (pa + sz) s)))) =
     run (map (exec m4 m2 m1) ((((([] @ ?c1) @ ?c2) @ ?c3) @ ?c4) @ ?c5)) s"
      using segment_run [OF sizes(1) b(1) order.refl [of "unat pa"], of flags flags m4 m2 m1 va]
        segment_run [OF sizes(2) b(2) al(2), of "x86_64_ConvertToLargePageFlags flags" flags m4 m2 m1 va]
        segment_run [OF sizes(3) b(3) p(1), of "x86_64_ConvertToLargePageFlags flags" flags m4 m2 m1 va]
        segment_run [OF sizes(2) b(4) p(2), of "x86_64_ConvertToLargePageFlags flags" flags m4 m2 m1 va]
        segment_run [OF sizes(1) b(5) p(3), of flags flags m4 m2 m1 va]
      by (simp add: run_append)
  qed (use e in simp_all)
qed

section \<open>Properties\<close>

text \<open>
  C22. Mapping a region. For a page aligned frame and a region that does not reach the end of the address
  space, whatever page sizes the processor has, \<^verbatim>\<open>x86_64_MapRegionWithLargestPages\<close> makes a sequence of mapping
  calls, one after the other: they lie side by side from the start of the region to its end rounded up to a
  page, each at the same offset in the virtual and in the physical range, each large page with an aligned frame
  and with the flag for the cache type at the place where a large page has it.
\<close>

theorem MapRegion_covers:
  assumes "4096 dvd unat pa" "unat pa + unat sz + 2147483648 < 2 ^ 64"
  shows "\<exists>cs e. covers va pa flags 0 cs e \<and> unat sz \<le> e \<and> e < unat sz + 4096 \<and>
    (\<forall>m4 m2 m1 s. x86_64_MapRegionWithLargestPages has2MiB has1GiB m4 m2 m1 va pa sz flags s = run (map (exec m4 m2 m1) cs) s)"
proof -
  have lim: "unat pa + unat sz + 2147483648 < 18446744073709551616"
    using assms(2) by simp
  have sizes: "unat LARGE_PAGE_SIZE = 2097152" "unat HUGE_PAGE_SIZE = 1073741824"
    by (simp_all add: LARGE_PAGE_SIZE_def HUGE_PAGE_SIZE_def)
  consider (small) "\<not> has2MiB \<and> \<not> has1GiB \<or> sz < LARGE_PAGE_SIZE \<or> sz < HUGE_PAGE_SIZE \<and> \<not> has2MiB"
    | (large) "2097152 \<le> unat sz" "has2MiB" "has2MiB \<and> \<not> has1GiB \<or> sz < HUGE_PAGE_SIZE" "\<not> sz < LARGE_PAGE_SIZE"
    | (huge) "1073741824 \<le> unat sz" "\<not> has2MiB" "has1GiB" "\<not> sz < HUGE_PAGE_SIZE" "\<not> sz < LARGE_PAGE_SIZE"
    | (both) "1073741824 \<le> unat sz" "has2MiB" "has1GiB" "\<not> sz < HUGE_PAGE_SIZE" "\<not> sz < LARGE_PAGE_SIZE"
    unfolding word_less_nat_alt sizes by fastforce
  then show ?thesis
  proof cases
    case small
    have lim4: "unat pa + unat sz + 4096 < 18446744073709551616"
      using lim by simp
    have "unat sz \<le> rounds (unat sz) 4096 * 4096 \<and> rounds (unat sz) 4096 * 4096 < unat sz + 4096"
      by (rule rounds_bound) simp
    then show ?thesis
      unfolding x86_64_MapRegionWithLargestPages_def Let_def if_P [OF small]
      by (intro exI conjI allI) (assumption | rule small_region [OF assms(1) lim4] | erule conjunct1 conjunct2)+
  next
    case large
    then show ?thesis
      using large_region [OF assms(1) lim, of Large LARGE_PAGE_SIZE va flags]
      by (simp add: x86_64_MapRegionWithLargestPages_def Let_def)
  next
    case huge
    then show ?thesis
      using large_region [OF assms(1) lim, of Huge HUGE_PAGE_SIZE va flags]
      by (simp add: x86_64_MapRegionWithLargestPages_def Let_def)
  next
    case both
    then show ?thesis
      using both_region [OF assms(1) lim both(1), of va flags]
      by (simp add: x86_64_MapRegionWithLargestPages_def Let_def)
  qed
qed

lemma MapRegion_covers_witness:
  "\<exists>cs e. covers 0xFFFF800000000000 0x1FF000 3 0 cs e \<and> 2101248 \<le> e \<and> e < 2105344 \<and>
     (\<forall>m4 m2 m1 s. x86_64_MapRegionWithLargestPages True False m4 m2 m1 0xFFFF800000000000 0x1FF000 0x201000 3 (s :: Paging) =
        run (map (exec m4 m2 m1) cs) s)"
  using MapRegion_covers [of "0x1FF000" "0x201000" "0xFFFF800000000000" 3 True False] by simp

end
