(* ===== verification/PageMapperProps.thy ===== *)
theory PageMapperProps
  imports PageMapper PageTablesProps RegionMap
begin

text \<open>
  What the page mapper promises on top of the page tables: the hardware reads the protection and
  the cache type that were asked for, runs of pages are mapped page by page, and an address space
  starts as a copy of the kernel's.
\<close>

section \<open>Protection and cache type as the hardware reads them\<close>

primrec can_write :: "Protection \<Rightarrow> bool" where
  "can_write NONE = False" | "can_write READ = False" | "can_write WRITE = True" | "can_write EXECUTE = False"
| "can_write READ_WRITE = True" | "can_write READ_EXECUTE = False" | "can_write READ_WRITE_EXECUTE = True"

primrec can_execute :: "Protection \<Rightarrow> bool" where
  "can_execute NONE = False" | "can_execute READ = False" | "can_execute WRITE = False" | "can_execute EXECUTE = True"
| "can_execute READ_WRITE = False" | "can_execute READ_EXECUTE = True" | "can_execute READ_WRITE_EXECUTE = True"

primrec can_read :: "Protection \<Rightarrow> bool" where
  "can_read NONE = False" | "can_read READ = True" | "can_read WRITE = False" | "can_read EXECUTE = False"
| "can_read READ_WRITE = True" | "can_read READ_EXECUTE = True" | "can_read READ_WRITE_EXECUTE = True"

text \<open>The index that bits 3, 4 and 7 of a level 1 entry form, and the field of the register that it selects.\<close>

definition pat_index :: "u64 \<Rightarrow> nat" where
  "pat_index v = (if bit v 3 then 1 else 0) + (if bit v 4 then 2 else 0) + (if bit v 7 then 4 else 0)"

definition pat_field :: "u64 \<Rightarrow> nat \<Rightarrow> u64" where
  "pat_field r i = take_bit 8 (drop_bit (8 * i) r)"

definition entry_of :: "Protection \<Rightarrow> bool \<Rightarrow> CacheType \<Rightarrow> u64 \<Rightarrow> bool" where
  "entry_of prot user ct v \<longleftrightarrow> Present v \<and> (bit v 1 \<longleftrightarrow> can_write prot) \<and> (bit v 63 \<longleftrightarrow> \<not> can_execute prot) \<and>
     (bit v 2 \<longleftrightarrow> user) \<and> pat_field x86_64_InitPAT (pat_index v) = PATEncoding_value (cache_offset ct)"

lemma leaf_low_bit: "k \<in> {1, 2, 3, 4, 7} \<Longrightarrow> bit (leaf_4KiB pa flags) k \<longleftrightarrow> bit flags k"
  by (auto simp: leaf_4KiB_def bit_or_iff bit_and_iff bit_push_bit_iff bit_ucast_iff bit_numeral_rec)

lemma leaf_nx_bit: "bit (leaf_4KiB pa flags) 63 \<longleftrightarrow> bit flags 27"
  by (auto simp: leaf_4KiB_def bit_or_iff bit_and_iff bit_push_bit_iff bit_ucast_iff bit_numeral_rec)

lemma page_flags_None: "page_flags prot user ct = None \<longleftrightarrow> prot \<in> {NONE, WRITE, EXECUTE}"
  by (cases prot) (simp_all add: page_flags_def)

lemma InitPAT_value: "x86_64_InitPAT = 0x0606010500070406"
  by (simp add: x86_64_InitPAT_def)

lemma page_flags_bits:
  assumes "page_flags prot user ct = Some flags"
  shows "bit flags 1 \<longleftrightarrow> can_write prot" "bit flags 27 \<longleftrightarrow> \<not> can_execute prot" "bit flags 2 \<longleftrightarrow> user"
    "bit flags 3 \<longleftrightarrow> ct \<in> {UNCACHABLE, WRITE_THROUGH, WRITE_COMBINING}" "bit flags 4 \<longleftrightarrow> ct = UNCACHABLE"
    "bit flags 7 \<longleftrightarrow> ct \<in> {WRITE_PROTECTED, WRITE_COMBINING}"
  using assms
  by (cases prot; cases user; cases ct;
      force simp: page_flags_def x86_64_PAT_GetPageMappingFlags_def bit_numeral_rec bit_or_iff)+

lemma leaf_entry_of:
  assumes "page_flags prot user ct = Some flags"
  shows "entry_of prot user ct (leaf_4KiB pa flags)"
proof -
  note pb = page_flags_bits [OF assms]
  have "pat_field x86_64_InitPAT (pat_index (leaf_4KiB pa flags)) = PATEncoding_value (cache_offset ct)"
    by (cases ct) (simp_all add: pat_index_def leaf_low_bit pb pat_field_def InitPAT_value)
  then show ?thesis
    using pb by (simp add: entry_of_def leaf_bits leaf_nx_bit leaf_low_bit)
qed

section \<open>Mapping one page and a run of pages\<close>

lemma spin_zero: "spinlock_acquire 0 = Inr 1" "spinlock_release l = 0"
  by (simp_all add: spinlock_acquire_def spinlock_release_def SPINLOCK_DEFAULT_VALUE_def)

lemma PageMapper_MapPage_ok:
  assumes "pm_lock m = 0" "page_flags prot user ct = Some flags" "tree hhdm (pt s) (levels la57) (m_pageTable m)"
    "pool hhdm s bs" "\<forall>q\<in>reach hhdm (pt s) (levels la57) (m_pageTable m). \<not> page_free hhdm bs q"
    "levels la57 - 1 \<le> page_total bs" "mappable 1 hhdm (pt s) va (levels la57) (m_pageTable m)"
  shows "\<exists>s' bs'. PageMapper_MapPage la57 hhdm s m va pa prot user ct = Inr (s', m, True) \<and>
    mapped 1 (leaf_4KiB pa flags) flags la57 hhdm va (levels la57) (m_pageTable m) s bs s' bs'"
proof -
  obtain s' bs' where "map_gen 1 (leaf_4KiB pa flags) la57 hhdm va flags (levels la57) (m_pageTable m) s = Inr s'"
    "mapped 1 (leaf_4KiB pa flags) flags la57 hhdm va (levels la57) (m_pageTable m) s bs s' bs'"
    using map_gen_ok [OF assms(3) order.refl order.refl assms(4-7) leaf_bits(1) leaf_nx(1)] by blast
  then show ?thesis
    using assms(1,2) by (auto simp: PageMapper_MapPage_def x86_64_MapPage_def map_gen_instances spin_zero)
qed

lemma unat_add_mod: "n \<le> 64 \<Longrightarrow> unat (a + d :: u64) mod 2 ^ n = (unat a + unat d) mod 2 ^ n"
  using mod_mod_cancel [OF le_imp_power_dvd [of n 64 "2::nat"], of "unat a + unat d"] by (simp add: unat_word_ariths)

text \<open>Two positions of a run that is not longer than the address space are in different pages.\<close>

lemma run_differ:
  assumes "i < j" "j < 2 ^ 36"
  shows "differ 1 (levels la57) (va + of_nat i * 4096) (va + of_nat j * 4096)"
proof (rule ccontr)
  assume "\<not> ?thesis"
  then have eq: "bit (va + of_nat i * 4096) k = bit (va + of_nat j * 4096) k" if "12 \<le> k" "k < 48" for k
    using that by (auto simp: differ_bits levels_def split: if_splits)
  let ?a = "va + of_nat i * 4096 :: u64" and ?b = "va + of_nat j * 4096 :: u64"
  let ?d = "of_nat ((j - i) * 4096) :: u64"
  have d: "unat ?d = (j - i) * 4096" "0 < (j - i) * 4096" "(j - i) * 4096 < 2 ^ 48"
    using assms by (simp_all only: unat_of_nat) simp_all
  have ab: "?b = ?a + ?d"
    using assms(1) by (simp add: of_nat_diff algebra_simps)
  have sum: "unat (?a + ?d) mod 2 ^ n = (unat ?a + (j - i) * 4096) mod 2 ^ n" if "n \<le> 64" for n
    using unat_add_mod [OF that, of ?a ?d] unfolding d(1) .
  have bits: "bit (unat (?a + ?d)) k = bit (unat ?a) k" if "k < 48" for k
  proof (cases "k < 12")
    case True
    have "take_bit 12 (unat (?a + ?d)) = take_bit 12 (unat ?a)"
      using sum [of 12] by (simp add: take_bit_eq_mod)
    then show ?thesis
      using True by (metis bit_take_bit_iff)
  next
    case False
    then show ?thesis
      using eq [of k] that unfolding ab by (simp add: bit_unsigned_iff)
  qed
  have "take_bit 48 (unat (?a + ?d)) = take_bit 48 (unat ?a)"
    using bits by (intro bit_eqI) (auto simp: bit_take_bit_iff)
  moreover have "take_bit 48 (unat (?a + ?d)) = (unat ?a + (j - i) * 4096) mod 2 ^ 48"
    using sum [of 48] by (simp add: take_bit_eq_mod)
  ultimately have "(unat ?a + (j - i) * 4096) mod 2 ^ 48 = unat ?a mod 2 ^ 48"
    by (simp add: take_bit_eq_mod)
  then have "2 ^ 48 dvd (unat ?a + (j - i) * 4096) - unat ?a"
    by (intro mod_eq_dvd_iff_nat [THEN iffD1]) simp_all
  then show False
    using d(2,3) nat_dvd_not_less by auto
qed

text \<open>What the mapping of pages \<open>i ..< i + k\<close> of a run leaves.\<close>

definition run_mapped :: "bool \<Rightarrow> u64 \<Rightarrow> u64 \<Rightarrow> u64 \<Rightarrow> u64 \<Rightarrow> u32 \<Rightarrow> nat \<Rightarrow> nat \<Rightarrow> Paging \<Rightarrow> Paging \<Rightarrow> bool" where
  "run_mapped la57 hhdm t va pa flags i k s s' \<longleftrightarrow>
     (\<forall>j. i \<le> j \<longrightarrow> j < i + k \<longrightarrow>
        GetPhysicalAddress_loop la57 hhdm (pt s') (va + of_nat j * 4096) (levels la57) t =
          Inr ((pa + of_nat j * 4096) AND 0x000FFFFFFFFFF000)) \<and>
     (\<forall>va'. (\<forall>j. i \<le> j \<longrightarrow> j < i + k \<longrightarrow> differ 1 (levels la57) (va + of_nat j * 4096) va') \<longrightarrow>
        GetPhysicalAddress_loop la57 hhdm (pt s') va' (levels la57) t = GetPhysicalAddress_loop la57 hhdm (pt s) va' (levels la57) t)"

definition space_ok :: "bool \<Rightarrow> u64 \<Rightarrow> u64 \<Rightarrow> Paging \<Rightarrow> block list \<Rightarrow> bool" where
  "space_ok la57 hhdm t s bs \<longleftrightarrow> tree hhdm (pt s) (levels la57) t \<and> pool hhdm s bs \<and>
     (\<forall>q\<in>reach hhdm (pt s) (levels la57) t. \<not> page_free hhdm bs q)"

lemma mapped_space_ok: "mapped l lf flags la57 hhdm va (levels la57) t s bs s' bs' \<Longrightarrow> space_ok la57 hhdm t s' bs'"
  by (simp add: mapped_def space_ok_def)

lemma MapPages_loop_ok:
  assumes "pm_lock m = 0" "page_flags prot user ct = Some flags" "space_ok la57 hhdm (m_pageTable m) s bs"
    "k * (levels la57 - 1) \<le> page_total bs" "i + k < 2 ^ 36"
    "\<And>j. i \<le> j \<Longrightarrow> j < i + k \<Longrightarrow> mappable 1 hhdm (pt s) (va + of_nat j * 4096) (levels la57) (m_pageTable m)"
  shows "\<exists>s' bs'. PageMapper_MapPages_loop la57 hhdm va pa prot user ct k (of_nat i) s m = Inr (s', m, True) \<and>
    space_ok la57 hhdm (m_pageTable m) s' bs' \<and> run_mapped la57 hhdm (m_pageTable m) va pa flags i k s s'"
  using assms
proof (induction k arbitrary: i s bs)
  case 0
  then show ?case
    by (auto simp: run_mapped_def)
next
  case (Suc k)
  let ?t = "m_pageTable m" and ?L = "levels la57" and ?v = "va + of_nat i * 4096"
  have room: "?L - 1 \<le> page_total bs"
    using Suc.prems(4) by simp
  obtain s1 bs1 where s1: "PageMapper_MapPage la57 hhdm s m ?v (pa + of_nat i * 4096) prot user ct = Inr (s1, m, True)"
    "mapped 1 (leaf_4KiB (pa + of_nat i * 4096) flags) flags la57 hhdm ?v ?L ?t s bs s1 bs1"
    using PageMapper_MapPage_ok [OF Suc.prems(1,2) _ _ _ room Suc.prems(6) [of i], of "pa + of_nat i * 4096"] Suc.prems(3)
    by (auto simp: space_ok_def)
  have "k * (?L - 1) \<le> page_total bs1"
    using s1(2) Suc.prems(4) by (simp add: mapped_def)
  moreover have "mappable 1 hhdm (pt s1) (va + of_nat j * 4096) ?L ?t" if "Suc i \<le> j" "j < Suc i + k" for j
    using s1(2) Suc.prems(6) [of j] that by (simp add: mapped_def)
  ultimately obtain s' bs' where s': "PageMapper_MapPages_loop la57 hhdm va pa prot user ct k (of_nat (Suc i)) s1 m = Inr (s', m, True)"
    "space_ok la57 hhdm ?t s' bs'" "run_mapped la57 hhdm ?t va pa flags (Suc i) k s1 s'"
    using Suc.IH [OF Suc.prems(1,2) mapped_space_ok [OF s1(2)], of "Suc i"] Suc.prems(5) by auto
  have "PageMapper_MapPages_loop la57 hhdm va pa prot user ct (Suc k) (of_nat i) s m = Inr (s', m, True)"
    using s1(1) s'(1) by (simp add: PAGE_SIZE_def add.commute)
  moreover have "run_mapped la57 hhdm ?t va pa flags i (Suc k) s s'"
    unfolding run_mapped_def
  proof (intro conjI allI impI)
    fix j
    assume j: "i \<le> j" "j < i + Suc k"
    show "GetPhysicalAddress_loop la57 hhdm (pt s') (va + of_nat j * 4096) ?L ?t = Inr ((pa + of_nat j * 4096) AND 0x000FFFFFFFFFF000)"
    proof (cases "j = i")
      case True
      have "differ 1 ?L (va + of_nat h * 4096) ?v" if "Suc i \<le> h" "h < Suc i + k" for h
        using run_differ [of i h la57 va] that Suc.prems(5) by (auto simp: differ_def)
      then have "GetPhysicalAddress_loop la57 hhdm (pt s') ?v ?L ?t = GetPhysicalAddress_loop la57 hhdm (pt s1) ?v ?L ?t"
        using s'(3) by (simp add: run_mapped_def)
      then show ?thesis
        using s1(2) True by (simp add: mapped_def leaf_stop [simplified])
    next
      case False
      then show ?thesis
        using s'(3) j by (simp add: run_mapped_def)
    qed
  next
    fix va'
    assume d: "\<forall>j. i \<le> j \<longrightarrow> j < i + Suc k \<longrightarrow> differ 1 ?L (va + of_nat j * 4096) va'"
    then have "GetPhysicalAddress_loop la57 hhdm (pt s') va' ?L ?t = GetPhysicalAddress_loop la57 hhdm (pt s1) va' ?L ?t"
      using s'(3) by (simp add: run_mapped_def)
    also have "\<dots> = GetPhysicalAddress_loop la57 hhdm (pt s) va' ?L ?t"
      using s1(2) d by (simp add: mapped_def)
    finally show "GetPhysicalAddress_loop la57 hhdm (pt s') va' ?L ?t = GetPhysicalAddress_loop la57 hhdm (pt s) va' ?L ?t" .
  qed
  ultimately show ?case
    using s'(2) by blast
qed

section \<open>A new address space\<close>

lemma memcpy_page_pt:
  assumes "aligned c"
  shows "pt (memcpy_page s c k) a = (if pg a = pg c then pt s (k + (a - c)) else pt s a)"
proof -
  obtain q where "unat c = 4096 * q"
    using assms by (auto simp: aligned_def)
  then have "unat c \<le> unat a \<and> unat a < unat c + 4096 \<longleftrightarrow> unat a div 4096 = unat c div 4096"
    by (auto simp: div_nat_eqI)
  then show ?thesis
    by (simp add: memcpy_page_def pg_def)
qed

text \<open>A table with the entries of another, outside the tree of that one.\<close>

lemma copy_table:
  assumes tr: "tree hhdm m (Suc n) k" and lev: "Suc n \<le> levels la57" and c: "aligned c" "c \<noteq> 0" "pg c \<notin> reach hhdm m (Suc n) k"
    and m': "\<And>a. pg a \<noteq> pg c \<Longrightarrow> m' a = m a" "\<And>x. x < 512 \<Longrightarrow> m' (slot c x) = m (slot k x)"
  shows "tree hhdm m' (Suc n) c" "reach hhdm m' (Suc n) c \<subseteq> insert (pg c) (reach hhdm m (Suc n) k)"
    "GetPhysicalAddress_loop la57 hhdm m' va (Suc n) c = GetPhysicalAddress_loop la57 hhdm m va (Suc n) k"
    "GetPhysicalAddress_loop la57 hhdm m' va (Suc n) k = GetPhysicalAddress_loop la57 hhdm m va (Suc n) k"
    "tree hhdm m' (Suc n) k"
proof -
  have al: "aligned k" "k \<noteq> 0"
    using tr by simp_all
  have ch: "child hhdm m' (Suc n) c x = child hhdm m (Suc n) k x" if "x < 512" for x
    using m'(2) [OF that] by (simp add: child_def)
  have agree: "m' a = m a" if "x < 512" "child hhdm m (Suc n) k x = Some d" "pg a \<in> reach hhdm m n d" for x d a
    using that c(3) reach_child [OF that(2,1)] by (intro m'(1)) auto
  have sub: "reach hhdm m' n d = reach hhdm m n d \<and> tree hhdm m' n d"
    if "x < 512" "child hhdm m (Suc n) k x = Some d" for x d
    using tree_frame [OF tree_child(1) [OF tr that(2,1)], of m'] agree [OF that] by blast
  have ent: "m' (slot c x) = 0 \<or> Present (m' (slot c x))" if "x < 512" for x
    using m'(2) [OF that] tr that by simp
  show "tree hhdm m' (Suc n) c"
    unfolding tree.simps
  proof (intro conjI allI impI)
    fix x d
    assume "x < 512" "child hhdm m' (Suc n) c x = Some d"
    then show "tree hhdm m' n d" "pg c \<notin> reach hhdm m' n d"
      using ch sub c(3) reach_child [of hhdm m n k x d] by auto
  next
    fix x y d e
    assume "x < 512" "y < 512" "x \<noteq> y" "child hhdm m' (Suc n) c x = Some d" "child hhdm m' (Suc n) c y = Some e"
    then show "reach hhdm m' n d \<inter> reach hhdm m' n e = {}"
      using ch sub tree_child(3) [OF tr, of x d y e] by simp
  qed (use c ent in simp_all)
  show "reach hhdm m' (Suc n) c \<subseteq> insert (pg c) (reach hhdm m (Suc n) k)"
    using ch sub by (fastforce split: option.splits)
  have "GetPhysicalAddress_loop la57 hhdm m' va n d = GetPhysicalAddress_loop la57 hhdm m va n d"
    if "child hhdm m (Suc n) k (entry_index va (Suc n)) = Some d" for d
    using tree_child(1) [OF tr that entry_index_less] agree [OF entry_index_less that] lev
    by (intro GetPhysicalAddress_frame) auto
  then show "GetPhysicalAddress_loop la57 hhdm m' va (Suc n) c = GetPhysicalAddress_loop la57 hhdm m va (Suc n) k"
    unfolding GetPhysicalAddress_step [OF c(1,2) lev] GetPhysicalAddress_step [OF al lev]
    using ch [OF entry_index_less] m'(2) [OF entry_index_less] by (simp split: option.splits)
  have all: "m' a = m a" if "pg a \<in> reach hhdm m (Suc n) k" for a
    using that c(3) by (intro m'(1)) auto
  show "GetPhysicalAddress_loop la57 hhdm m' va (Suc n) k = GetPhysicalAddress_loop la57 hhdm m va (Suc n) k"
    "tree hhdm m' (Suc n) k"
    using GetPhysicalAddress_frame [OF tr all lev] tree_frame [OF tr all] by blast+
qed

lemma PageMapper_Create_ok:
  assumes "space_ok la57 hhdm k s bs" "bs \<noteq> []"
  shows "\<exists>s' c bs'. PageMapper_Create hhdm k s m = Inr (s', m\<lparr>m_pageTable := c\<rparr>) \<and> space_ok la57 hhdm c s' bs' \<and>
    space_ok la57 hhdm k s' bs' \<and> pg c \<notin> reach hhdm (pt s) (levels la57) k \<and>
    (\<forall>va. x86_64_GetPhysicalAddress la57 hhdm s' c va = x86_64_GetPhysicalAddress la57 hhdm s k va) \<and>
    (\<forall>va. x86_64_GetPhysicalAddress la57 hhdm s' k va = x86_64_GetPhysicalAddress la57 hhdm s k va)"
proof -
  obtain n where n: "levels la57 = Suc n"
    by (cases "levels la57") (auto simp: levels_def split: if_splits)
  have ok: "tree hhdm (pt s) (Suc n) k" "pool hhdm s bs" "\<forall>q\<in>reach hhdm (pt s) (Suc n) k. \<not> page_free hhdm bs q"
    using assms(1) n by (simp_all add: space_ok_def)
  obtain pmm p bs1 where p: "AllocatePage hhdm (g_PMM s) = Inr (pmm, p)" "pmm_inv hhdm pmm bs1" "p \<noteq> 0"
    "4096 dvd unat p + unat hhdm" "unat p + unat hhdm < 2 ^ 64" "unat p \<in> free_bytes hhdm bs"
    "free_bytes hhdm bs1 = free_bytes hhdm bs - {unat p ..< unat p + 4096}" "page_total bs1 + 1 = page_total bs"
    using AllocatePage_fresh [of hhdm "g_PMM s" bs] ok(2) assms(2) by (auto simp: pool_def)
  let ?c = "to_HHDM hhdm p"
  have uc: "unat ?c = unat p + unat hhdm"
    using p(5) unfolding to_HHDM_def by (subst unat_add_nowrap) simp_all
  then have c: "aligned ?c" "?c \<noteq> 0"
    using p(3,4) by (auto simp: aligned_def unat_eq_0 [symmetric])
  have "pg ?c * 4096 - unat hhdm = unat p"
    using c uc by (simp add: pg_def aligned_def)
  then have free: "page_free hhdm bs (pg ?c)" "\<not> page_free hhdm bs1 (pg ?c)"
    using p(6,7) by (simp_all add: page_free_def)
  then have out: "pg ?c \<notin> reach hhdm (pt s) (Suc n) k"
    using ok(3) by blast
  let ?s = "memcpy_page (s\<lparr>g_PMM := pmm\<rparr>) ?c k"
  have pt: "pt ?s a = (if pg a = pg ?c then pt s (k + (a - ?c)) else pt s a)" for a
    using memcpy_page_pt [OF c(1), of "s\<lparr>g_PMM := pmm\<rparr>" k a] by simp
  have slots: "pt ?s (slot ?c x) = pt s (slot k x)" if "x < 512" for x
    using pt [of "slot ?c x"] pg_slot [OF c(1) that] by (simp add: slot_def)
  note ct = copy_table [OF ok(1) n [symmetric, THEN eq_refl] c out, of "pt ?s"]
  have less: "page_free hhdm bs1 q \<Longrightarrow> page_free hhdm bs q" for q
    using p(7) by (auto simp: page_free_def)
  have "pool hhdm ?s bs1"
    using ok(2) p(2,7) by (auto simp: pool_def memcpy_page_def)
  moreover have "tree hhdm (pt ?s) (Suc n) ?c" "reach hhdm (pt ?s) (Suc n) ?c \<subseteq> insert (pg ?c) (reach hhdm (pt s) (Suc n) k)"
    "tree hhdm (pt ?s) (Suc n) k"
    using ct(1,2,5) pt slots by simp_all
  moreover have "reach hhdm (pt ?s) (Suc n) k = reach hhdm (pt s) (Suc n) k"
    using tree_frame [OF ok(1), of "pt ?s"] pt out by (metis (no_types, lifting))
  ultimately have "space_ok la57 hhdm ?c ?s bs1" "space_ok la57 hhdm k ?s bs1"
    unfolding space_ok_def n using free(2) less ok(3) by blast+
  moreover have "GetPhysicalAddress_loop la57 hhdm (pt ?s) va (Suc n) ?c = GetPhysicalAddress_loop la57 hhdm (pt s) va (Suc n) k"
    "GetPhysicalAddress_loop la57 hhdm (pt ?s) va (Suc n) k = GetPhysicalAddress_loop la57 hhdm (pt s) va (Suc n) k" for va
    using ct(3,4) pt slots by simp_all
  moreover have "PageMapper_Create hhdm k s m = Inr (?s, m\<lparr>m_pageTable := ?c\<rparr>)"
    using p(1) by (simp add: PageMapper_Create_def Let_def)
  ultimately show ?thesis
    using out unfolding x86_64_GetPhysicalAddress_def n by blast
qed

section \<open>Properties\<close>

text \<open>
  C23. \<^verbatim>\<open>MapPage\<close> of the page mapper. A protection without reading rights is refused and nothing changes. Otherwise, with
  the lock free, the page is mapped and the lock is free again; the level 1 entry is present, writable,
  executable and accessible to user mode exactly as asked, its cache index selects the encoding of the cache type
  in the value that \<^verbatim>\<open>x86_64_InitPAT\<close> loads, and the tables above do not restrict it.
\<close>

theorem PageMapper_MapPage_prot:
  assumes "pm_lock m = 0" "space_ok la57 hhdm (m_pageTable m) s bs" "levels la57 - 1 \<le> page_total bs"
    "mappable 1 hhdm (pt s) va (levels la57) (m_pageTable m)"
  shows "if prot \<in> {NONE, WRITE, EXECUTE} then PageMapper_MapPage la57 hhdm s m va pa prot user ct = Inr (s, m, False)
    else \<exists>s' bs' flags. PageMapper_MapPage la57 hhdm s m va pa prot user ct = Inr (s', m, True) \<and>
      space_ok la57 hhdm (m_pageTable m) s' bs' \<and>
      PageMapper_GetPhysicalAddr la57 hhdm s' m va = Inr (m, pa AND 0x000FFFFFFFFFF000) \<and>
      page_flags prot user ct = Some flags \<and>
      entry_of prot user ct (leaf_of hhdm (pt s') va (levels la57) (m_pageTable m)) \<and>
      path_grants flags hhdm (pt s') va (levels la57) (m_pageTable m)"
proof (cases "page_flags prot user ct")
  case None
  then show ?thesis
    using page_flags_None [of prot user ct] by (simp add: PageMapper_MapPage_def)
next
  case (Some flags)
  obtain s' bs' where s': "PageMapper_MapPage la57 hhdm s m va pa prot user ct = Inr (s', m, True)"
    "mapped 1 (leaf_4KiB pa flags) flags la57 hhdm va (levels la57) (m_pageTable m) s bs s' bs'"
    using PageMapper_MapPage_ok [OF assms(1) Some _ _ _ assms(3,4), of pa] assms(2) by (auto simp: space_ok_def)
  moreover have "entry_of prot user ct (leaf_of hhdm (pt s') va (levels la57) (m_pageTable m))"
    "path_grants flags hhdm (pt s') va (levels la57) (m_pageTable m)"
    "GetPhysicalAddress_loop la57 hhdm (pt s') va (levels la57) (m_pageTable m) = Inr (pa AND 0x000FFFFFFFFFF000)"
    using s'(2) leaf_entry_of [OF Some] leaf_stop(1) unfolding mapped_def by simp_all
  moreover have "prot \<notin> {NONE, WRITE, EXECUTE}"
    using Some page_flags_None [of prot user ct] by simp
  ultimately show ?thesis
    using assms(1) Some mapped_space_ok [OF s'(2)]
    by (auto simp: PageMapper_GetPhysicalAddr_def x86_64_GetPhysicalAddress_def spin_zero)
qed

lemma PageMapper_MapPage_prot_witness:
  "\<exists>s'. PageMapper_MapPage False 0 sample_paging (PageMapper_new 0x1000) 0x40000000 0xABC000 READ_WRITE True WRITE_COMBINING =
     Inr (s', PageMapper_new 0x1000, True)"
  using PageMapper_MapPage_prot [of "PageMapper_new 0x1000" False 0 sample_paging "[(0x8000, 4)]" "0x40000000" READ_WRITE
      "0xABC000" True WRITE_COMBINING] sample_pool sample_tree sample_mappable [of 1]
  by (auto simp: sample_paging_def levels_def space_ok_def PageMapper_new_def SPINLOCK_DEFAULT_VALUE_def)

text \<open>
  C24. \<^verbatim>\<open>MapPages\<close>. A run of pages with enough free memory for the tables and no large page in the way is mapped to
  consecutive frames; no address outside the run changes its translation.
\<close>

theorem PageMapper_MapPages_run:
  assumes "pm_lock m = 0" "space_ok la57 hhdm (m_pageTable m) s bs" "prot \<notin> {NONE, WRITE, EXECUTE}"
    "unat count * (levels la57 - 1) \<le> page_total bs" "unat count < 2 ^ 36"
    "\<forall>j<unat count. mappable 1 hhdm (pt s) (va + of_nat j * 4096) (levels la57) (m_pageTable m)"
  shows "\<exists>s' bs'. PageMapper_MapPages la57 hhdm s m va pa count prot user ct = Inr (s', m, True) \<and>
    space_ok la57 hhdm (m_pageTable m) s' bs' \<and>
    (\<forall>j<unat count. x86_64_GetPhysicalAddress la57 hhdm s' (m_pageTable m) (va + of_nat j * 4096) =
       Inr ((pa + of_nat j * 4096) AND 0x000FFFFFFFFFF000)) \<and>
    (\<forall>va'. (\<forall>j<unat count. differ 1 (levels la57) (va + of_nat j * 4096) va') \<longrightarrow>
       x86_64_GetPhysicalAddress la57 hhdm s' (m_pageTable m) va' = x86_64_GetPhysicalAddress la57 hhdm s (m_pageTable m) va')"
proof -
  obtain flags where "page_flags prot user ct = Some flags"
    using assms(3) page_flags_None [of prot user ct] by (cases "page_flags prot user ct") auto
  from MapPages_loop_ok [OF assms(1) this assms(2,4), of 0 va pa] assms(5,6) show ?thesis
    by (auto simp: PageMapper_MapPages_def run_mapped_def x86_64_GetPhysicalAddress_def)
qed

lemma PageMapper_MapPages_run_witness:
  "\<exists>s'. PageMapper_MapPages False 0 sample_paging (PageMapper_new 0x1000) 0x40000000 0xABC000 1 READ False WRITE_BACK =
     Inr (s', PageMapper_new 0x1000, True) \<and> x86_64_GetPhysicalAddress False 0 s' 0x1000 0x40000000 = Inr 0xABC000"
  using PageMapper_MapPages_run [of "PageMapper_new 0x1000" False 0 sample_paging "[(0x8000, 4)]" READ 1 "0x40000000"
      "0xABC000" False WRITE_BACK] sample_pool sample_tree sample_mappable [of 1]
  by (auto simp: sample_paging_def levels_def space_ok_def PageMapper_new_def SPINLOCK_DEFAULT_VALUE_def)

text \<open>
  C25. A new address space. \<^verbatim>\<open>CreatePageMapper\<close> takes one page of free memory for the top table and every address translates
  in it as in the kernel's; the kernel's own translations stay.
\<close>

theorem CreatePageMapper_copy:
  assumes "space_ok la57 hhdm k s bs" "bs \<noteq> []"
  shows "\<exists>s' m bs'. CreatePageMapper hhdm k s = Inr (s', m) \<and> pm_lock m = SPINLOCK_DEFAULT_VALUE \<and>
    space_ok la57 hhdm (m_pageTable m) s' bs' \<and> space_ok la57 hhdm k s' bs' \<and>
    pg (m_pageTable m) \<notin> reach hhdm (pt s) (levels la57) k \<and>
    (\<forall>va. x86_64_GetPhysicalAddress la57 hhdm s' (m_pageTable m) va = x86_64_GetPhysicalAddress la57 hhdm s k va) \<and>
    (\<forall>va. x86_64_GetPhysicalAddress la57 hhdm s' k va = x86_64_GetPhysicalAddress la57 hhdm s k va)"
  using PageMapper_Create_ok [OF assms, of "PageMapper_new 0"]
  unfolding CreatePageMapper_def PageMapper_new_def by fastforce

lemma CreatePageMapper_copy_witness:
  "\<exists>s' m. CreatePageMapper 0 0x1000 sample_paging = Inr (s', m) \<and>
     x86_64_GetPhysicalAddress False 0 s' (m_pageTable m) 0 = x86_64_GetPhysicalAddress False 0 sample_paging 0x1000 0"
  using CreatePageMapper_copy [of False 0 "0x1000" sample_paging "[(0x8000, 4)]"] sample_pool sample_tree
  by (auto simp: sample_paging_def levels_def space_ok_def)

definition takes_away :: "Protection \<Rightarrow> Protection \<Rightarrow> bool" where
  "takes_away old new \<longleftrightarrow> can_read old \<and> \<not> can_read new \<or> can_write old \<and> \<not> can_write new \<or> can_execute old \<and> \<not> can_execute new"

text \<open>
  C26. \<^verbatim>\<open>isPermsReduction\<close> decides whether a change of protection needs an invalidation of the translation cache. It misses
  exactly the changes that take away executing and end at a writable protection, and those that take away writing and
  end at an executable one, for example from read, write and execute to read and write.
\<close>

theorem isPermsReduction_missed:
  "takes_away old new \<and> \<not> isPermsReduction old new \<longleftrightarrow>
     new \<in> {WRITE, READ_WRITE} \<and> can_execute old \<or> new \<in> {EXECUTE, READ_EXECUTE} \<and> can_write old"
  by (cases old; cases new) (simp_all add: takes_away_def isPermsReduction_def)

end
