(* ===== verification/LinkedList.thy ===== *)
theory LinkedList
  imports Sync
begin

text \<open>
  The doubly linked lists of lib/src/DataStructures/LinkedList.cpp and LinkedList.hpp over a store of
  nodes. A pointer is the address of a node and 0 is the null pointer. The address of a new node is an
  argument, what the allocation returns, 0 when it fails. Reading or writing through the null pointer is
  the fault \<open>NullDeref\<close>.
\<close>

section \<open>Nodes\<close>

record Node =
  prev_of :: u64
  data_of :: u64
  next_of :: u64

type_synonym nodes = "u64 \<Rightarrow> Node"

definition set_next :: "nodes \<Rightarrow> u64 \<Rightarrow> u64 \<Rightarrow> nodes" where
  "set_next m a v = m(a := (m a)\<lparr>next_of := v\<rparr>)"

definition set_prev :: "nodes \<Rightarrow> u64 \<Rightarrow> u64 \<Rightarrow> nodes" where
  "set_prev m a v = m(a := (m a)\<lparr>prev_of := v\<rparr>)"

definition newNode :: "nodes \<Rightarrow> u64 \<Rightarrow> u64 \<Rightarrow> nodes \<times> u64" where
  "newNode m a data =
     (if a = 0 then (m, 0) else (m(a := \<lparr>prev_of = 0, data_of = data, next_of = 0\<rparr>), a))"

partial_function (option) length_loop :: "nodes \<Rightarrow> u64 \<Rightarrow> u64 \<Rightarrow> u64 option" where
  "length_loop m current count =
     (if next_of (m current) = 0 then Some (count + 1)
      else length_loop m (next_of (m current)) (count + 1))"

definition list_length :: "nodes \<Rightarrow> u64 \<Rightarrow> u64 option" where
  "list_length m head = (if head = 0 then Some 0 else length_loop m head 0)"

partial_function (option) last_node :: "nodes \<Rightarrow> u64 \<Rightarrow> u64 option" where
  "last_node m current =
     (if next_of (m current) = 0 then Some current else last_node m (next_of (m current)))"

definition insertNode :: "nodes \<Rightarrow> u64 \<Rightarrow> u64 \<Rightarrow> u64 \<Rightarrow> (nodes \<times> u64) res" where
  "insertNode m head data a =
     (if head = 0 then Inr (newNode m a data)
      else
        (case last_node m head of
           None \<Rightarrow> Inl Diverged
         | Some current \<Rightarrow>
             (let (m, n) = newNode m a data; m = set_next m current n in
              if n = 0 then Inl NullDeref else Inr (set_prev m n current, head))))"

partial_function (option) findNode :: "nodes \<Rightarrow> u64 \<Rightarrow> u64 \<Rightarrow> u64 option" where
  "findNode m current data =
     (if current = 0 then Some 0
      else if data_of (m current) = data then Some current
      else findNode m (next_of (m current)) data)"

text \<open>The search of \<^verbatim>\<open>deleteNode\<close> by key: 0 when no node has the key.\<close>

partial_function (option) delete_search :: "nodes \<Rightarrow> u64 \<Rightarrow> u64 \<Rightarrow> u64 option" where
  "delete_search m temp key =
     (if data_of (m temp) = key then Some temp
      else if next_of (m temp) = 0 then Some 0
      else delete_search m (next_of (m temp)) key)"

text \<open>The last component of the result is the node whose memory is given back, 0 for none.\<close>

definition deleteNode :: "nodes \<Rightarrow> u64 \<Rightarrow> u64 \<Rightarrow> (nodes \<times> u64 \<times> u64) res" where
  "deleteNode m head key =
     (if head \<noteq> 0 \<and> data_of (m head) = key then
        (let temp = head; head = next_of (m temp);
             m = (if head \<noteq> 0 then
                    (let m = set_prev m head 0 in
                     if next_of (m head) \<noteq> 0 then set_prev m (next_of (m head)) head else m)
                  else m) in
         Inr (m, head, temp))
      else if head = 0 then Inr (m, head, 0)
      else
        (case delete_search m head key of
           None \<Rightarrow> Inl Diverged
         | Some temp \<Rightarrow>
             if temp = 0 then Inr (m, head, 0)
             else
               (let m = (if next_of (m temp) \<noteq> 0 then set_prev m (next_of (m temp)) (prev_of (m temp)) else m);
                    m = (if prev_of (m temp) \<noteq> 0 then set_next m (prev_of (m temp)) (next_of (m temp)) else m) in
                Inr (m, head, temp))))"

definition deleteNode_at :: "nodes \<Rightarrow> u64 \<Rightarrow> u64 \<Rightarrow> nodes \<times> u64 \<times> u64" where
  "deleteNode_at m head node =
     (if node = 0 \<or> head = 0 then (m, head, 0)
      else
        (let m = (if next_of (m node) \<noteq> 0 then set_prev m (next_of (m node)) (prev_of (m node)) else m);
             m = (if prev_of (m node) \<noteq> 0 then set_next m (prev_of (m node)) (next_of (m node)) else m) in
         (m, if head = node then next_of (m node) else head, node)))"

section \<open>The class SimpleLinkedList\<close>

record SimpleLinkedList =
  sl_count :: u64
  sl_start :: u64

definition SimpleLinkedList_new :: SimpleLinkedList where
  "SimpleLinkedList_new = \<lparr>sl_count = 0, sl_start = 0\<rparr>"

definition sl_insert :: "nodes \<Rightarrow> SimpleLinkedList \<Rightarrow> u64 \<Rightarrow> u64 \<Rightarrow> (nodes \<times> SimpleLinkedList) res" where
  "sl_insert m l obj a =
     bindR (insertNode m (sl_start l) obj a) (\<lambda>(m, start).
     Inr (m, l\<lparr>sl_start := start, sl_count := sl_count l + 1\<rparr>))"

text \<open>The search for a position, with the pointer to the node before.\<close>

primrec position :: "nodes \<Rightarrow> nat \<Rightarrow> u64 \<Rightarrow> u64 \<Rightarrow> u64" where
  "position m 0 previous temp = temp"
| "position m (Suc k) previous temp =
     (if temp = 0 then previous else position m k temp (next_of (m temp)))"

text \<open>Linking a node behind another one.\<close>

definition link_after :: "nodes \<Rightarrow> u64 \<Rightarrow> u64 \<Rightarrow> nodes res" where
  "link_after m temp node =
     (if node = 0 then Inl NullDeref
      else
        (let m = (if next_of (m temp) \<noteq> 0 then
                    (let n = next_of (m temp) in set_next (set_prev m n node) node n)
                  else m) in
         Inr (set_prev (set_next m temp node) node temp)))"

definition sl_insertAt :: "nodes \<Rightarrow> SimpleLinkedList \<Rightarrow> u64 \<Rightarrow> u64 \<Rightarrow> u64 \<Rightarrow> (nodes \<times> SimpleLinkedList) res" where
  "sl_insertAt m l index obj a =
     (if index \<ge> sl_count l then Inr (m, l)
      else if index = 0 then
        (case newNode m a obj of (m, node) \<Rightarrow>
           if node = 0 then Inl NullDeref
           else
             (let m = set_next m node (sl_start l);
                  m = (if sl_start l \<noteq> 0 then set_prev m (sl_start l) node else m) in
              Inr (m, l\<lparr>sl_start := node, sl_count := sl_count l + 1\<rparr>)))
      else
        (let temp = position m (unat index) 0 (sl_start l) in
         case newNode m a obj of (m, node) \<Rightarrow>
           if temp = 0 then Inr (m, l\<lparr>sl_start := node, sl_count := sl_count l + 1\<rparr>)
           else bindR (link_after m temp node) (\<lambda>m. Inr (m, l\<lparr>sl_count := sl_count l + 1\<rparr>))))"

text \<open>The node at an index, 0 when the list ends before.\<close>

primrec walk :: "nodes \<Rightarrow> nat \<Rightarrow> u64 \<Rightarrow> u64" where
  "walk m 0 temp = temp"
| "walk m (Suc k) temp = (if temp = 0 then 0 else walk m k (next_of (m temp)))"

definition list_get :: "nodes \<Rightarrow> u64 \<Rightarrow> u64 \<Rightarrow> u64 \<Rightarrow> u64" where
  "list_get m count start index =
     (if index \<ge> count then 0
      else (let temp = walk m (unat index) start in if temp = 0 then 0 else data_of (m temp)))"

definition sl_get :: "nodes \<Rightarrow> SimpleLinkedList \<Rightarrow> u64 \<Rightarrow> u64" where
  "sl_get m l index = list_get m (sl_count l) (sl_start l) index"

definition sl_getNext :: "nodes \<Rightarrow> SimpleLinkedList \<Rightarrow> u64 \<Rightarrow> u64 option" where
  "sl_getNext m l obj =
     (case findNode m (sl_start l) obj of
        None \<Rightarrow> None
      | Some temp \<Rightarrow>
          Some (if temp = 0 then 0
                else if next_of (m temp) = 0 then 0
                else data_of (m (next_of (m temp)))))"

primrec index_loop :: "nodes \<Rightarrow> u64 \<Rightarrow> nat \<Rightarrow> u64 \<Rightarrow> u64 \<Rightarrow> u64" where
  "index_loop m obj 0 i temp = - 1"
| "index_loop m obj (Suc k) i temp =
     (if temp = 0 then - 1
      else if data_of (m temp) = obj then i
      else index_loop m obj k (i + 1) (next_of (m temp)))"

definition sl_getIndex :: "nodes \<Rightarrow> SimpleLinkedList \<Rightarrow> u64 \<Rightarrow> u64" where
  "sl_getIndex m l obj = index_loop m obj (unat (sl_count l)) 0 (sl_start l)"

definition sl_remove :: "nodes \<Rightarrow> SimpleLinkedList \<Rightarrow> u64 \<Rightarrow> (nodes \<times> SimpleLinkedList) res" where
  "sl_remove m l obj =
     bindR (deleteNode m (sl_start l) obj) (\<lambda>(m, start, _).
     Inr (m, l\<lparr>sl_start := start, sl_count := sl_count l - 1\<rparr>))"

definition sl_remove_index :: "nodes \<Rightarrow> SimpleLinkedList \<Rightarrow> u64 \<Rightarrow> (nodes \<times> SimpleLinkedList) res" where
  "sl_remove_index m l index =
     bindR (deleteNode m (sl_start l) (sl_get m l index)) (\<lambda>(m, start, _).
     Inr (m, l\<lparr>sl_start := start, sl_count := sl_count l - 1\<rparr>))"

partial_function (option) sl_destroy_loop :: "nodes \<Rightarrow> SimpleLinkedList \<Rightarrow> u64 \<Rightarrow> (nodes \<times> SimpleLinkedList) res option" where
  "sl_destroy_loop m l i =
     (if \<not> i < sl_count l then Some (Inr (m, l))
      else
        (case sl_remove_index m l 0 of
           Inl f \<Rightarrow> Some (Inl f)
         | Inr p \<Rightarrow> sl_destroy_loop (fst p) (snd p) (i + 1)))"

definition SimpleLinkedList_destroy :: "nodes \<Rightarrow> SimpleLinkedList \<Rightarrow> (nodes \<times> SimpleLinkedList) res" where
  "SimpleLinkedList_destroy m l = loopR (sl_destroy_loop m l 0)"

definition sl_rotateLeft :: "nodes \<Rightarrow> SimpleLinkedList \<Rightarrow> (nodes \<times> SimpleLinkedList) res" where
  "sl_rotateLeft m l =
     (if sl_count l < 2 then Inr (m, l)
      else
        assertR (sl_start l \<noteq> 0)
        (case last_node m (sl_start l) of
          None \<Rightarrow> Inl Diverged
        | Some e \<Rightarrow>
            (let old = sl_start l;
                 m = set_prev (set_next m e old) old e;
                 start = next_of (m old) in
             if start = 0 then Inl NullDeref
             else
               (let m = set_prev m start 0 in
                Inr (set_next m (next_of (m e)) 0, l\<lparr>sl_start := start\<rparr>)))))"

definition sl_rotateRight :: "nodes \<Rightarrow> SimpleLinkedList \<Rightarrow> (nodes \<times> SimpleLinkedList) res" where
  "sl_rotateRight m l =
     (if sl_count l < 2 then Inr (m, l)
      else
        assertR (sl_start l \<noteq> 0)
        (case last_node m (sl_start l) of
          None \<Rightarrow> Inl Diverged
        | Some e \<Rightarrow>
            (let m = set_prev m (sl_start l) e; m = set_next m e (sl_start l); m = set_prev m e 0 in
             Inr (m, l\<lparr>sl_start := e\<rparr>))))"

definition sl_getHead :: "nodes \<Rightarrow> SimpleLinkedList \<Rightarrow> u64" where
  "sl_getHead m l = (if sl_start l = 0 then 0 else data_of (m (sl_start l)))"

text \<open>A callback acts on the state \<open>s\<close>; its first result says whether to go on.\<close>

primrec sl_Enumerate_loop :: "nodes \<Rightarrow> (u64 \<Rightarrow> 's \<Rightarrow> bool \<times> 's) \<Rightarrow> nat \<Rightarrow> u64 \<Rightarrow> 's \<Rightarrow> 's res" where
  "sl_Enumerate_loop m func 0 temp s = Inr s"
| "sl_Enumerate_loop m func (Suc k) temp s =
     (if temp = 0 then Inl NullDeref
      else
        (case func (data_of (m temp)) s of (go, s) \<Rightarrow>
           if \<not> go then Inr s else sl_Enumerate_loop m func k (next_of (m temp)) s))"

definition sl_Enumerate :: "nodes \<Rightarrow> SimpleLinkedList \<Rightarrow> (u64 \<Rightarrow> 's \<Rightarrow> bool \<times> 's) \<Rightarrow> 's \<Rightarrow> 's res" where
  "sl_Enumerate m l func s = sl_Enumerate_loop m func (unat (sl_count l)) (sl_start l) s"

section \<open>The class RearInsertLinkedList\<close>

record RearInsertLinkedList =
  rl_count :: u64
  rl_start :: u64
  rl_end :: u64

definition RearInsertLinkedList_new :: RearInsertLinkedList where
  "RearInsertLinkedList_new = \<lparr>rl_count = 0, rl_start = 0, rl_end = 0\<rparr>"

definition rl_insert :: "nodes \<Rightarrow> RearInsertLinkedList \<Rightarrow> u64 \<Rightarrow> u64 \<Rightarrow> (nodes \<times> RearInsertLinkedList) res" where
  "rl_insert m l obj a =
     (case newNode m a obj of (m, node) \<Rightarrow>
        if rl_count l = 0 then
          Inr (m, l\<lparr>rl_start := node, rl_end := node, rl_count := rl_count l + 1\<rparr>)
        else if rl_end l = 0 \<or> node = 0 then Inl NullDeref
        else
          Inr (set_prev (set_next m (rl_end l) node) node (rl_end l),
               l\<lparr>rl_end := node, rl_count := rl_count l + 1\<rparr>))"

definition rl_link :: "nodes \<Rightarrow> RearInsertLinkedList \<Rightarrow> u64 \<Rightarrow> u64 \<Rightarrow> (nodes \<times> RearInsertLinkedList) res" where
  "rl_link m l temp node =
     bindR (link_after m temp node) (\<lambda>m'.
     Inr (m', (if next_of (m temp) = 0 then l\<lparr>rl_end := node\<rparr> else l)\<lparr>rl_count := rl_count l + 1\<rparr>))"

definition rl_insertAt :: "nodes \<Rightarrow> RearInsertLinkedList \<Rightarrow> u64 \<Rightarrow> u64 \<Rightarrow> u64 \<Rightarrow> (nodes \<times> RearInsertLinkedList) res" where
  "rl_insertAt m l index obj a =
     (if index \<ge> rl_count l then Inr (m, l)
      else
        (let temp = position m (unat index) 0 (rl_start l) in
         case newNode m a obj of (m, node) \<Rightarrow>
           if temp = 0 then Inr (m, l\<lparr>rl_start := node, rl_end := node, rl_count := rl_count l + 1\<rparr>)
           else rl_link m l temp node))"

definition rl_insertAfter :: "nodes \<Rightarrow> RearInsertLinkedList \<Rightarrow> u64 \<Rightarrow> u64 \<Rightarrow> u64 \<Rightarrow> (nodes \<times> RearInsertLinkedList) res" where
  "rl_insertAfter m l obj newObj a =
     (case findNode m (rl_start l) obj of
        None \<Rightarrow> Inl Diverged
      | Some temp \<Rightarrow>
          if temp = 0 then Inr (m, l)
          else (case newNode m a newObj of (m, node) \<Rightarrow> rl_link m l temp node))"

definition rl_get :: "nodes \<Rightarrow> RearInsertLinkedList \<Rightarrow> u64 \<Rightarrow> u64" where
  "rl_get m l index = list_get m (rl_count l) (rl_start l) index"

definition rl_getIndex :: "nodes \<Rightarrow> RearInsertLinkedList \<Rightarrow> u64 \<Rightarrow> u64" where
  "rl_getIndex m l obj = index_loop m obj (unat (rl_count l)) 0 (rl_start l)"

definition rl_remove :: "nodes \<Rightarrow> RearInsertLinkedList \<Rightarrow> u64 \<Rightarrow> (nodes \<times> RearInsertLinkedList) res" where
  "rl_remove m l obj =
     bindR (deleteNode m (rl_start l) obj) (\<lambda>(m, start, _).
     Inr (m, l\<lparr>rl_start := start, rl_count := rl_count l - 1\<rparr>))"

definition rl_remove_index :: "nodes \<Rightarrow> RearInsertLinkedList \<Rightarrow> u64 \<Rightarrow> (nodes \<times> RearInsertLinkedList) res" where
  "rl_remove_index m l index =
     bindR (deleteNode m (rl_start l) (rl_get m l index)) (\<lambda>(m, start, _).
     Inr (m, l\<lparr>rl_start := start, rl_count := rl_count l - 1\<rparr>))"

text \<open>The enumeration that ignores what the callback returns.\<close>

primrec rl_Enumerate_loop :: "nodes \<Rightarrow> (u64 \<Rightarrow> 's \<Rightarrow> bool \<times> 's) \<Rightarrow> nat \<Rightarrow> u64 \<Rightarrow> 's \<Rightarrow> 's res" where
  "rl_Enumerate_loop m func 0 temp s = Inr s"
| "rl_Enumerate_loop m func (Suc k) temp s =
     (if temp = 0 then Inl NullDeref
      else rl_Enumerate_loop m func k (next_of (m temp)) (snd (func (data_of (m temp)) s)))"

definition rl_Enumerate :: "nodes \<Rightarrow> RearInsertLinkedList \<Rightarrow> (u64 \<Rightarrow> 's \<Rightarrow> bool \<times> 's) \<Rightarrow> 's \<Rightarrow> 's res" where
  "rl_Enumerate m l func s = rl_Enumerate_loop m func (unat (rl_count l)) (rl_start l) s"

text \<open>The node that is \<open>k\<close> steps along, where every step reads a node.\<close>

primrec skip :: "(u64 \<Rightarrow> u64) \<Rightarrow> nat \<Rightarrow> u64 \<Rightarrow> u64 res" where
  "skip step 0 temp = Inr temp"
| "skip step (Suc k) temp = (if temp = 0 then Inl NullDeref else skip step k (step temp))"

primrec Enumerate_index_loop ::
  "nodes \<Rightarrow> (u64 \<Rightarrow> u64) \<Rightarrow> (u64 \<Rightarrow> u64 \<Rightarrow> 's \<Rightarrow> bool \<times> 's) \<Rightarrow> nat \<Rightarrow> u64 \<Rightarrow> u64 \<Rightarrow> 's \<Rightarrow> 's res" where
  "Enumerate_index_loop m step func 0 i temp s = Inr s"
| "Enumerate_index_loop m step func (Suc k) i temp s =
     (if temp = 0 then Inl NullDeref
      else
        (case func (data_of (m temp)) i s of (go, s) \<Rightarrow>
           if \<not> go then Inr s else Enumerate_index_loop m step func k (i + 1) (step temp) s))"

definition rl_Enumerate_from ::
  "nodes \<Rightarrow> RearInsertLinkedList \<Rightarrow> (u64 \<Rightarrow> u64 \<Rightarrow> 's \<Rightarrow> bool \<times> 's) \<Rightarrow> u64 \<Rightarrow> 's \<Rightarrow> 's res" where
  "rl_Enumerate_from m l func start s =
     (if start \<ge> rl_count l then Inr s
      else
        bindR (skip (\<lambda>a. next_of (m a)) (unat start) (rl_start l)) (\<lambda>temp.
        Enumerate_index_loop m (\<lambda>a. next_of (m a)) func (unat (rl_count l) - unat start) start temp s))"

definition rl_EnumerateReverse_from ::
  "nodes \<Rightarrow> RearInsertLinkedList \<Rightarrow> (u64 \<Rightarrow> u64 \<Rightarrow> 's \<Rightarrow> bool \<times> 's) \<Rightarrow> u64 \<Rightarrow> 's \<Rightarrow> 's res" where
  "rl_EnumerateReverse_from m l func start s =
     bindR (skip (\<lambda>a. prev_of (m a)) (unat start) (rl_end l)) (\<lambda>temp.
     Enumerate_index_loop m (\<lambda>a. prev_of (m a)) func (unat (rl_count l) - unat start) start temp s)"

datatype IteratorDecision = CONTINUE | BREAK | DELETE | DELETE_BREAK

text \<open>Unlinking the current node of an enumeration.\<close>

definition rl_unlink :: "nodes \<Rightarrow> RearInsertLinkedList \<Rightarrow> u64 \<Rightarrow> nodes \<times> RearInsertLinkedList" where
  "rl_unlink m l temp =
     (let nxt = next_of (m temp); prv = prev_of (m temp);
          (m, l) = (if nxt = 0 then (m, l\<lparr>rl_end := prv\<rparr>) else (set_prev m nxt prv, l));
          (m, l) = (if prev_of (m temp) \<noteq> 0 then (set_next m (prev_of (m temp)) nxt, l) else (m, l\<lparr>rl_start := nxt\<rparr>)) in
      (m, l\<lparr>rl_count := rl_count l - 1\<rparr>))"

partial_function (option) EnumerateDelete_loop ::
  "(u64 \<Rightarrow> u64 \<Rightarrow> 's \<Rightarrow> IteratorDecision \<times> 's) \<Rightarrow> nodes \<Rightarrow> RearInsertLinkedList \<Rightarrow> u64 \<Rightarrow> u64 \<Rightarrow> 's \<Rightarrow>
   (nodes \<times> RearInsertLinkedList \<times> 's) option" where
  "EnumerateDelete_loop func m l temp index s =
     (if temp = 0 then Some (m, l, s)
      else
        (let nxt = next_of (m temp); d = func (data_of (m temp)) index s in
         case fst d of
           BREAK \<Rightarrow> Some (m, l, snd d)
         | DELETE \<Rightarrow>
             EnumerateDelete_loop func (fst (rl_unlink m l temp)) (snd (rl_unlink m l temp)) nxt (index + 1) (snd d)
         | DELETE_BREAK \<Rightarrow> Some (fst (rl_unlink m l temp), snd (rl_unlink m l temp), snd d)
         | CONTINUE \<Rightarrow> EnumerateDelete_loop func m l nxt (index + 1) (snd d)))"

definition rl_EnumerateDelete ::
  "nodes \<Rightarrow> RearInsertLinkedList \<Rightarrow> (u64 \<Rightarrow> u64 \<Rightarrow> 's \<Rightarrow> IteratorDecision \<times> 's) \<Rightarrow> u64 \<Rightarrow> 's \<Rightarrow>
   (nodes \<times> RearInsertLinkedList \<times> 's) res" where
  "rl_EnumerateDelete m l func start s =
     bindR (skip (\<lambda>a. next_of (m a)) (unat start) (rl_start l)) (\<lambda>temp.
     case EnumerateDelete_loop func m l temp start s of None \<Rightarrow> Inl Diverged | Some r \<Rightarrow> Inr r)"

primrec rl_clear_loop :: "nat \<Rightarrow> nodes \<Rightarrow> u64 \<Rightarrow> nodes \<times> u64" where
  "rl_clear_loop 0 m start = (m, start)"
| "rl_clear_loop (Suc k) m start = (case deleteNode_at m start start of (m, start, _) \<Rightarrow> rl_clear_loop k m start)"

definition rl_clear :: "nodes \<Rightarrow> RearInsertLinkedList \<Rightarrow> nodes \<times> RearInsertLinkedList" where
  "rl_clear m l =
     (case rl_clear_loop (unat (rl_count l)) m (rl_start l) of (m, start) \<Rightarrow>
        (m, l\<lparr>rl_start := start, rl_count := 0, rl_end := 0\<rparr>))"

partial_function (option) rl_destroy_loop :: "nodes \<Rightarrow> RearInsertLinkedList \<Rightarrow> u64 \<Rightarrow> (nodes \<times> RearInsertLinkedList) res option" where
  "rl_destroy_loop m l i =
     (if \<not> i < rl_count l then Some (Inr (m, l))
      else
        (case rl_remove_index m l 0 of
           Inl f \<Rightarrow> Some (Inl f)
         | Inr p \<Rightarrow> rl_destroy_loop (fst p) (snd p) (i + 1)))"

definition RearInsertLinkedList_destroy :: "nodes \<Rightarrow> RearInsertLinkedList \<Rightarrow> (nodes \<times> RearInsertLinkedList) res" where
  "RearInsertLinkedList_destroy m l = loopR (rl_destroy_loop m l 0)"

section \<open>The pool of nodes\<close>

text \<open>The class \<^verbatim>\<open>RawBitmap\<close>: the buffer is a list of bytes.\<close>

record RawBitmap =
  m_Buffer :: "8 word list"
  m_Size :: u64

definition RawBitmap_Set :: "RawBitmap \<Rightarrow> u64 \<Rightarrow> bool \<Rightarrow> RawBitmap res" where
  "RawBitmap_Set b index value =
     (if index \<ge> m_Size b * 8 then Inr b
      else if unat (index div 8) \<ge> length (m_Buffer b) then Inl OutOfBounds
      else
        (let i = unat (index div 8); byte = m_Buffer b ! i; k = unat (index mod 8) in
         Inr (b\<lparr>m_Buffer := (m_Buffer b)[i := if value then byte OR push_bit k 1 else byte AND NOT (push_bit k 1)]\<rparr>)))"

definition RawBitmap_Get :: "RawBitmap \<Rightarrow> u64 \<Rightarrow> bool res" where
  "RawBitmap_Get b index =
     (if index \<ge> m_Size b * 8 then Inr False
      else if unat (index div 8) \<ge> length (m_Buffer b) then Inl OutOfBounds
      else Inr (m_Buffer b ! unat (index div 8) AND push_bit (unat (index mod 8)) 1 \<noteq> 0))"

definition POOL_SIZE :: u64 where
  "POOL_SIZE = 512"

text \<open>A node of the pool is its index; \<open>None\<close> is the null pointer.\<close>

record NodePool =
  nodePool_UsedCount :: u64
  nodePool_Bitmap :: RawBitmap

definition NodePool_Init :: NodePool where
  "NodePool_Init =
     \<lparr>nodePool_UsedCount = 0, nodePool_Bitmap = \<lparr>m_Buffer = replicate 64 0, m_Size = POOL_SIZE\<rparr>\<rparr>"

primrec AllocateNode_loop :: "nat \<Rightarrow> u64 \<Rightarrow> NodePool \<Rightarrow> (NodePool \<times> u64 option) res" where
  "AllocateNode_loop 0 i s = Inr (s, None)"
| "AllocateNode_loop (Suc k) i s =
     bindR (RawBitmap_Get (nodePool_Bitmap s) i) (\<lambda>used.
     if \<not> used then
       bindR (RawBitmap_Set (nodePool_Bitmap s) i True) (\<lambda>b.
       Inr (s\<lparr>nodePool_Bitmap := b, nodePool_UsedCount := nodePool_UsedCount s + 1\<rparr>, Some i))
     else AllocateNode_loop k (i + 1) s)"

definition NodePool_AllocateNode :: "NodePool \<Rightarrow> (NodePool \<times> u64 option) res" where
  "NodePool_AllocateNode s =
     (if nodePool_UsedCount s = POOL_SIZE - 1 then Inr (s, None) else AllocateNode_loop (unat POOL_SIZE) 0 s)"

definition NodePool_FreeNode :: "NodePool \<Rightarrow> u64 \<Rightarrow> (NodePool \<times> bool) res" where
  "NodePool_FreeNode s node =
     (if node < POOL_SIZE then
        bindR (RawBitmap_Set (nodePool_Bitmap s) node False) (\<lambda>b.
        Inr (s\<lparr>nodePool_Bitmap := b, nodePool_UsedCount := nodePool_UsedCount s - 1\<rparr>, True))
      else Inr (s, False))"

end
