(* ===== verification/LinkedListProps.thy ===== *)
theory LinkedListProps
  imports LinkedList
begin

text \<open>
  The doubly linked lists implement sequences: segments of nodes in the store, and each operation as a
  function on the sequence of its data.
\<close>

section \<open>Segments\<close>

fun seg :: "nodes \<Rightarrow> u64 \<Rightarrow> u64 \<Rightarrow> u64 list \<Rightarrow> u64 \<Rightarrow> bool" where
  "seg m pv p [] q \<longleftrightarrow> p = q"
| "seg m pv p (a # as) q \<longleftrightarrow> p = a \<and> a \<noteq> 0 \<and> prev_of (m a) = pv \<and> seg m a (next_of (m a)) as q"

definition last_or :: "u64 \<Rightarrow> u64 list \<Rightarrow> u64" where
  "last_or pv as = (if as = [] then pv else last as)"

definition hd_or :: "u64 list \<Rightarrow> u64 \<Rightarrow> u64" where
  "hd_or as q = (if as = [] then q else hd as)"

lemma or_simps [simp]:
  "last_or pv [] = pv" "last_or pv (a # as) = last_or a as" "last_or pv (as @ [b]) = b" "last_or pv (as @ b # bs) = last_or b bs"
  "hd_or [] q = q" "hd_or (a # as) q = a"
  by (simp_all add: last_or_def hd_or_def)

lemma seg_append: "seg m pv p (as @ bs) q \<longleftrightarrow> (\<exists>r. seg m pv p as r \<and> seg m (last_or pv as) r bs q)"
  by (induction as arbitrary: pv p) auto

lemma seg_frame: "(\<And>a. a \<in> set as \<Longrightarrow> m' a = m a) \<Longrightarrow> seg m' pv p as q = seg m pv p as q"
  by (induction as arbitrary: pv p) auto

lemma seg_upd: "a \<notin> set as \<Longrightarrow> seg (m(a := v)) pv p as q = seg m pv p as q"
  by (rule seg_frame) auto

lemma seg_hd: "seg m pv p as q \<Longrightarrow> p = hd_or as q"
  by (cases as) auto

lemma seg_nonzero: "seg m pv p as q \<Longrightarrow> 0 \<notin> set as"
  by (induction as arbitrary: pv p) auto

lemma upd_simps [simp]:
  "next_of (set_next m a v b) = (if b = a then v else next_of (m b))"
  "prev_of (set_next m a v b) = prev_of (m b)" "data_of (set_next m a v b) = data_of (m b)"
  "prev_of (set_prev m a v b) = (if b = a then v else prev_of (m b))"
  "next_of (set_prev m a v b) = next_of (m b)" "data_of (set_prev m a v b) = data_of (m b)"
  "b \<noteq> a \<Longrightarrow> set_next m a v b = m b" "b \<noteq> a \<Longrightarrow> set_prev m a v b = m b"
  by (simp_all add: set_next_def set_prev_def)

text \<open>A whole list, by the addresses of its nodes, and the sequence of its data.\<close>

definition dlist :: "nodes \<Rightarrow> u64 \<Rightarrow> u64 list \<Rightarrow> bool" where
  "dlist m h as \<longleftrightarrow> seg m 0 h as 0 \<and> distinct as"

definition contents :: "nodes \<Rightarrow> u64 list \<Rightarrow> u64 list" where
  "contents m as = map (\<lambda>a. data_of (m a)) as"

lemma dlist_simps [simp]:
  "dlist m h [] \<longleftrightarrow> h = 0"
  by (simp add: dlist_def)

lemma dlist_zero: "dlist m h as \<Longrightarrow> 0 \<notin> set as" and dlist_distinct: "dlist m h as \<Longrightarrow> distinct as"
  and dlist_hd: "dlist m h as \<Longrightarrow> h = hd_or as 0"
  by (auto simp: dlist_def dest: seg_nonzero seg_hd)

lemma dlist_start: "dlist m h as \<Longrightarrow> h = 0 \<longleftrightarrow> as = []"
  using dlist_zero [of m h as] dlist_hd [of m h as] by (cases as) auto

lemma dlist_links:
  assumes "dlist m h (xs @ a # ys)"
  shows "next_of (m a) = hd_or ys 0" "prev_of (m a) = last_or 0 xs" "a \<noteq> 0"
  using assms by (auto simp: dlist_def seg_append dest: seg_hd)

section \<open>Walking\<close>

lemma seg_walk_induct_last:
  assumes "seg m pv p (as @ [b]) 0"
  shows "last_node m p = Some b"
  using assms
proof (induction as arbitrary: pv p)
  case Nil
  then show ?case
    by (simp add: last_node.simps)
next
  case (Cons a as)
  then have "next_of (m a) \<noteq> 0"
    by (cases as) auto
  then show ?case
    using Cons by (auto simp: last_node.simps [of m a])
qed

lemma last_node_dlist: "dlist m h (as @ [b]) \<Longrightarrow> last_node m h = Some b"
  using seg_walk_induct_last by (auto simp: dlist_def)

lemma findNode_seg:
  assumes "seg m pv p as 0"
  shows "findNode m p d = Some (case List.find (\<lambda>a. data_of (m a) = d) as of None \<Rightarrow> 0 | Some a \<Rightarrow> a)"
  using assms
proof (induction as arbitrary: pv p)
  case Nil
  then show ?case
    by (simp add: findNode.simps)
next
  case (Cons a as)
  then show ?case
    by (auto simp: findNode.simps [of m a])
qed

lemma delete_search_seg:
  assumes "seg m pv p as 0" "as \<noteq> []"
  shows "delete_search m p d = Some (case List.find (\<lambda>a. data_of (m a) = d) as of None \<Rightarrow> 0 | Some a \<Rightarrow> a)"
  using assms
proof (induction as arbitrary: pv p)
  case (Cons a as)
  then show ?case
  proof (cases as)
    case Nil
    then show ?thesis
      using Cons.prems by (simp add: delete_search.simps)
  next
    case (Cons b bs)
    then have "next_of (m a) \<noteq> 0"
      using Cons.prems(1) by auto
    then show ?thesis
      using Cons.IH [of a "next_of (m a)"] Cons.prems(1) Cons by (simp add: delete_search.simps [of m a])
  qed
qed simp

lemma length_loop_seg:
  assumes "seg m pv p as 0" "as \<noteq> []"
  shows "length_loop m p n = Some (n + of_nat (length as))"
  using assms
proof (induction as arbitrary: pv p n)
  case (Cons a as)
  then show ?case
  proof (cases as)
    case Nil
    then show ?thesis
      using Cons.prems by (simp add: length_loop.simps)
  next
    case (Cons b bs)
    then have "next_of (m a) \<noteq> 0"
      using Cons.prems(1) by auto
    then show ?thesis
      using Cons.IH [of a "next_of (m a)" "n + 1"] Cons.prems(1) Cons
      by (simp add: length_loop.simps [of m a] add.assoc)
  qed
qed simp

lemma walk_seg: "seg m pv p as 0 \<Longrightarrow> walk m k p = (if k < length as then as ! k else 0)"
proof (induction k arbitrary: pv p as)
  case 0
  then show ?case
    by (cases as) auto
next
  case (Suc k)
  then show ?case
  proof (cases as)
    case (Cons a bs)
    then show ?thesis
      using Suc.IH [of a "next_of (m a)" bs] Suc.prems by simp
  qed simp
qed

lemma position_seg:
  "seg m pv p as 0 \<Longrightarrow> k < length as \<Longrightarrow> position m k q p = as ! k"
proof (induction k arbitrary: pv p as q)
  case 0
  then show ?case
    by (cases as) auto
next
  case (Suc k)
  then show ?case
    by (cases as) auto
qed

section \<open>Linking and unlinking\<close>

text \<open>Two changes of links that leave a segment as it is.\<close>

lemma seg_set_prev: "c \<notin> set as \<Longrightarrow> seg (set_prev m c v) pv p as q = seg m pv p as q"
  and seg_set_next: "c \<notin> set as \<Longrightarrow> seg (set_next m c v) pv p as q = seg m pv p as q"
  using seg_frame [of as "set_prev m c v" m] seg_frame [of as "set_next m c v" m] by (metis upd_simps(7,8))+

text \<open>The last link of a segment, and the first back link.\<close>

lemma seg_relink_last:
  "seg m pv p (as @ [b]) q \<Longrightarrow> distinct (as @ [b]) \<Longrightarrow> seg (set_next m b r) pv p (as @ [b]) r"
  by (auto simp: seg_append seg_set_next)

lemma seg_relink_first:
  "seg m pv p (c # cs) q \<Longrightarrow> c \<notin> set cs \<Longrightarrow> seg (set_prev m c r) r p (c # cs) q"
  by (simp add: seg_set_prev)

definition unlink :: "nodes \<Rightarrow> u64 \<Rightarrow> nodes" where
  "unlink m a =
     (let m = (if next_of (m a) \<noteq> 0 then set_prev m (next_of (m a)) (prev_of (m a)) else m) in
      if prev_of (m a) \<noteq> 0 then set_next m (prev_of (m a)) (next_of (m a)) else m)"

lemma unlink_data [simp]: "data_of (unlink m a b) = data_of (m b)"
  by (simp add: unlink_def Let_def)

lemma dlist_unlink:
  assumes "dlist m h (xs @ a # ys)"
  shows "dlist (unlink m a) (if xs = [] then hd_or ys 0 else h) (xs @ ys)"
    "next_of (unlink m a a) = hd_or ys 0" "\<And>b. b \<notin> set (xs @ a # ys) \<Longrightarrow> unlink m a b = m b"
proof -
  note links = dlist_links [OF assms]
  have dis: "distinct (xs @ a # ys)" and nz: "0 \<notin> set (xs @ a # ys)"
    using assms dlist_distinct dlist_zero by blast+
  have sg: "seg m 0 h xs a" "seg m a (next_of (m a)) ys 0"
    using assms by (auto simp: dlist_def seg_append)
  define m1 where "m1 = (if next_of (m a) \<noteq> 0 then set_prev m (next_of (m a)) (prev_of (m a)) else m)"
  have m1a: "m1 a = m a"
    using links dis by (cases ys) (auto simp: m1_def)
  have u: "unlink m a = (if prev_of (m a) \<noteq> 0 then set_next m1 (prev_of (m a)) (next_of (m a)) else m1)"
    by (simp add: unlink_def Let_def m1_def [symmetric] m1a)
  have ys: "seg m1 (last_or 0 xs) (hd_or ys 0) ys 0"
  proof (cases ys)
    case (Cons c cs)
    then have "seg m a c (c # cs) 0" "c \<notin> set cs" "c \<noteq> 0"
      using sg(2) dis nz links(1) by auto
    then show ?thesis
      using seg_relink_first [of m a c c cs 0 "last_or 0 xs"] Cons links by (simp add: m1_def)
  qed simp
  have xs1: "seg m1 0 h xs a"
  proof -
    have "hd_or ys 0 \<notin> set xs"
      using dis nz by (cases ys) auto
    then show ?thesis
      using sg(1) links(1) by (simp add: m1_def seg_set_prev)
  qed
  have "seg (unlink m a) 0 (if xs = [] then hd_or ys 0 else h) (xs @ ys) 0"
  proof (cases xs rule: rev_cases)
    case Nil
    then show ?thesis
      using ys links by (simp add: u)
  next
    case (snoc bs b)
    then have b: "b \<noteq> 0" "b \<notin> set ys" "prev_of (m a) = b"
      using dis nz links(2) by auto
    have "seg (set_next m1 b (hd_or ys 0)) 0 h (bs @ [b]) (hd_or ys 0)"
      using seg_relink_last [of m1 0 h bs b a "hd_or ys 0"] xs1 dis snoc by simp
    moreover have "seg (set_next m1 b (hd_or ys 0)) b (hd_or ys 0) ys 0"
      using ys b(2) snoc by (simp add: seg_set_next)
    ultimately show ?thesis
      using snoc b links(1) by (auto simp: u seg_append)
  qed
  then show "dlist (unlink m a) (if xs = [] then hd_or ys 0 else h) (xs @ ys)"
    using dis by (simp add: dlist_def)
  have "last_or 0 xs \<noteq> a"
    using dis links(3) by (cases xs rule: rev_cases) auto
  then show "next_of (unlink m a a) = hd_or ys 0"
    using m1a links by (simp add: u)
  fix b
  assume "b \<notin> set (xs @ a # ys)"
  then have "prev_of (m a) \<noteq> 0 \<Longrightarrow> b \<noteq> prev_of (m a)" "next_of (m a) \<noteq> 0 \<Longrightarrow> b \<noteq> next_of (m a)"
    using links by (cases xs rule: rev_cases; cases ys; auto)+
  then show "unlink m a b = m b"
    by (auto simp: u m1_def)
qed

text \<open>A new node at the end, and behind a node.\<close>

lemma dlist_append_node:
  assumes "dlist m h (as @ [b])" "a \<noteq> 0" "a \<notin> set (as @ [b])"
  shows "dlist (set_prev (set_next (fst (newNode m a d)) b a) a b) h (as @ [b] @ [a])"
proof -
  let ?m = "fst (newNode m a d)"
  have m: "?m = m(a := \<lparr>prev_of = 0, data_of = d, next_of = 0\<rparr>)"
    using assms(2) by (simp add: newNode_def)
  have dis: "distinct (as @ [b])"
    using assms(1) by (rule dlist_distinct)
  have "seg ?m 0 h (as @ [b]) 0"
    using assms(1,3) by (subst seg_frame [where m = m]) (auto simp: m dlist_def)
  then have "seg (set_next ?m b a) 0 h (as @ [b]) a"
    using dis by (rule seg_relink_last)
  then have "seg (set_prev (set_next ?m b a) a b) 0 h (as @ [b]) a"
    using assms(3) by (subst seg_set_prev)
  moreover have "next_of (?m a) = 0" "a \<noteq> b"
    using assms(3) by (auto simp: m)
  ultimately show ?thesis
    using dis assms(2,3) unfolding dlist_def append_assoc [symmetric] seg_append [of _ _ _ "as @ [b]"] by auto
qed

lemma dlist_link_after:
  assumes "dlist m h (xs @ b # ys)" "a \<noteq> 0" "a \<notin> set (xs @ b # ys)" "m' = fst (newNode m a d)"
  shows "\<exists>m2. link_after m' b a = Inr m2 \<and> dlist m2 h (xs @ b # a # ys) \<and>
    (\<forall>c. data_of (m2 c) = data_of (m' c)) \<and> (\<forall>c. c \<notin> set (xs @ b # a # ys) \<longrightarrow> m2 c = m c)"
proof -
  have m': "m' = m(a := \<lparr>prev_of = 0, data_of = d, next_of = 0\<rparr>)"
    using assms(2,4) by (simp add: newNode_def)
  note links = dlist_links [OF assms(1)]
  have dis: "distinct (xs @ b # ys)" and nz: "0 \<notin> set (xs @ b # ys)"
    using assms(1) dlist_distinct dlist_zero by blast+
  have sg: "seg m' 0 h (xs @ [b]) (hd_or ys 0)" "seg m' b (hd_or ys 0) ys 0"
    using assms(1,3) links by (auto simp: dlist_def seg_append m' seg_upd)
  have nb: "next_of (m' b) = hd_or ys 0" "next_of (m' a) = 0" "a \<noteq> b"
    using links assms(3) by (auto simp: m')
  define m1 where "m1 = (if hd_or ys 0 \<noteq> 0 then set_next (set_prev m' (hd_or ys 0) a) a (hd_or ys 0) else m')"
  have out: "hd_or ys 0 \<notin> set (xs @ [b])" "a \<notin> set (xs @ [b])" "a \<notin> set ys" "b \<notin> set ys" "hd_or ys 0 \<noteq> a"
    using dis nz assms(2,3) by (cases ys; auto)+
  have next_a: "next_of (m1 a) = hd_or ys 0"
    using nb by (auto simp: m1_def)
  have "seg m1 0 h (xs @ [b]) (hd_or ys 0)"
    using sg(1) out by (cases "hd_or ys 0 = 0") (simp_all add: m1_def seg_set_next seg_set_prev)
  moreover have ys1: "seg m1 a (hd_or ys 0) ys 0"
  proof (cases ys)
    case (Cons c cs)
    then have "seg (set_prev m' c a) a c (c # cs) 0"
      using seg_relink_first [of m' b c c cs 0 a] sg(2) dis by simp
    moreover have "c \<noteq> 0" "a \<notin> set (c # cs)"
      using Cons nz out by auto
    ultimately show ?thesis
      using Cons by (simp add: m1_def seg_set_next del: seg.simps)
  qed simp
  ultimately have "seg (set_next m1 b a) 0 h (xs @ [b]) a" "seg (set_next m1 b a) a (hd_or ys 0) ys 0"
    using seg_relink_last [of m1 0 h xs b] dis out by (simp_all add: seg_set_next)
  then have "seg (set_prev (set_next m1 b a) a b) 0 h (xs @ [b]) a" "seg (set_prev (set_next m1 b a) a b) a (hd_or ys 0) ys 0"
    using out by (simp_all add: seg_set_prev)
  then have "seg (set_prev (set_next m1 b a) a b) 0 h ((xs @ [b]) @ a # ys) 0"
    unfolding seg_append [of _ _ _ "xs @ [b]"] using assms(2) next_a nb(3) by auto
  then have "dlist (set_prev (set_next m1 b a) a b) h (xs @ b # a # ys)"
    using dis assms(3) by (auto simp: dlist_def)
  moreover have "link_after m' b a = Inr (set_prev (set_next m1 b a) a b)"
    using assms(2) nb(1) by (simp add: link_after_def m1_def Let_def)
  moreover have "data_of (set_prev (set_next m1 b a) a b c) = data_of (m' c)" for c
    by (simp add: m1_def)
  moreover have "set_prev (set_next m1 b a) a b c = m c" if "c \<notin> set (xs @ b # a # ys)" for c
    using that by (cases ys) (auto simp: m1_def m')
  ultimately show ?thesis
    by blast
qed

section \<open>The operations of LinkedList.cpp\<close>

lemma insertNode_ok:
  assumes "dlist m h as" "a \<noteq> 0" "a \<notin> set as"
  shows "\<exists>m' h'. insertNode m h d a = Inr (m', h') \<and> dlist m' h' (as @ [a]) \<and> contents m' (as @ [a]) = contents m as @ [d] \<and>
    (\<forall>b. b \<notin> set as \<longrightarrow> b \<noteq> a \<longrightarrow> m' b = m b)"
proof (cases as rule: rev_cases)
  case Nil
  then show ?thesis
    using assms by (auto simp: insertNode_def newNode_def contents_def dlist_def)
next
  case (snoc bs b)
  let ?m = "set_prev (set_next (fst (newNode m a d)) b a) a b"
  have "last_node m h = Some b" "h \<noteq> 0"
    using assms(1) snoc last_node_dlist dlist_start by auto
  then have "insertNode m h d a = Inr (?m, h)"
    using assms(2) by (simp add: insertNode_def newNode_def Let_def)
  moreover have "dlist ?m h (as @ [a])"
    using dlist_append_node [of m h bs b a d] assms snoc by simp
  moreover have "contents ?m (as @ [a]) = contents m as @ [d]"
    using assms(2,3) by (auto simp: contents_def newNode_def)
  moreover have "?m c = m c" if "c \<notin> set as" "c \<noteq> a" for c
    using that snoc by (auto simp: newNode_def)
  ultimately show ?thesis
    by blast
qed

lemma set_prev_same: "set_prev m c (prev_of (m c)) = m"
  by (simp add: set_prev_def fun_eq_iff)

lemma find_split: "List.find P as = Some a \<Longrightarrow> \<exists>xs ys. as = xs @ a # ys \<and> P a \<and> (\<forall>x\<in>set xs. \<not> P x)"
proof (induction as)
  case (Cons b bs)
  show ?case
  proof (cases "P b")
    case True
    then show ?thesis
      using Cons.prems by (intro exI [of _ "[]"] exI [of _ bs]) auto
  next
    case False
    then obtain xs ys where "bs = xs @ a # ys" "P a" "\<forall>x\<in>set xs. \<not> P x"
      using Cons by auto
    then show ?thesis
      using False by (intro exI [of _ "b # xs"] exI [of _ ys]) auto
  qed
qed simp

lemma deleteNode_ok:
  assumes "dlist m h as"
  shows "case List.find (\<lambda>a. data_of (m a) = key) as of
      None \<Rightarrow> deleteNode m h key = Inr (m, h, 0)
    | Some a \<Rightarrow> (\<exists>xs ys. as = xs @ a # ys \<and> (\<forall>x\<in>set xs. data_of (m x) \<noteq> key) \<and> data_of (m a) = key \<and>
        deleteNode m h key = Inr (unlink m a, if xs = [] then hd_or ys 0 else h, a))"
proof (cases "List.find (\<lambda>a. data_of (m a) = key) as")
  case None
  have "deleteNode m h key = Inr (m, h, 0)"
  proof (cases as)
    case Nil
    then show ?thesis
      using assms by (simp add: deleteNode_def)
  next
    case (Cons b bs)
    then have "h = b" "h \<noteq> 0" "data_of (m h) \<noteq> key"
      using None dlist_hd [OF assms] dlist_start [OF assms] by (auto split: if_splits)
    moreover have "delete_search m h key = Some 0"
      using delete_search_seg [of m 0 h as key] assms None Cons by (simp add: dlist_def)
    ultimately show ?thesis
      by (simp add: deleteNode_def)
  qed
  then show ?thesis
    using None by simp
next
  case (Some a)
  then obtain xs ys where as: "as = xs @ a # ys" "data_of (m a) = key" "\<forall>x\<in>set xs. data_of (m x) \<noteq> key"
    using find_split [OF Some] by blast
  note links = dlist_links [OF assms [unfolded as(1)]]
  have "deleteNode m h key = Inr (unlink m a, if xs = [] then hd_or ys 0 else h, a)"
  proof (cases xs)
    case Nil
    then have h: "h = a" "prev_of (m a) = 0"
      using dlist_hd [OF assms] as(1) links(2) by simp_all
    have dis: "distinct (a # ys)"
      using dlist_distinct [OF assms] as(1) Nil by simp
    have "set_prev (set_prev m (next_of (m a)) 0) (next_of (m (next_of (m a)))) (next_of (m a)) = set_prev m (next_of (m a)) 0"
      if n: "next_of (m a) \<noteq> 0" "next_of (m (next_of (m a))) \<noteq> 0"
    proof -
      obtain c cs where c: "ys = c # cs" "next_of (m a) = c"
        using n(1) links(1) by (cases ys) auto
      obtain e es where e: "cs = e # es" "next_of (m c) = e"
        using n(2) c dlist_links(1) [of m h "[a]" c cs] assms as(1) Nil by (cases cs) auto
      have "prev_of (m e) = c" "e \<noteq> c"
        using dlist_links(2) [of m h "[a, c]" e es] assms as(1) Nil c(1) e(1) dis by auto
      then show ?thesis
        using c e set_prev_same [of "set_prev m c 0" e] by simp
    qed
    moreover have "a \<noteq> 0"
      by (rule links(3))
    ultimately show ?thesis
      unfolding deleteNode_def unlink_def Let_def h(1) using as(2) links(1) h(2) Nil by simp
  next
    case (Cons b bs)
    then have "h = b" "h \<noteq> 0" "data_of (m h) \<noteq> key"
      using dlist_hd [OF assms] dlist_start [OF assms] as(1,3) by simp_all
    moreover have "delete_search m h key = Some a"
      using delete_search_seg [of m 0 h as key] assms Some as(1) by (simp add: dlist_def)
    ultimately show ?thesis
      using links(3) Cons by (simp add: deleteNode_def unlink_def Let_def)
  qed
  then show ?thesis
    unfolding Some option.case using as by blast
qed

lemma contents_simps [simp]:
  "contents m [] = []" "contents m (a # as) = data_of (m a) # contents m as" "contents m (as @ bs) = contents m as @ contents m bs"
  "length (contents m as) = length as"
  by (simp_all add: contents_def)

lemma contents_cong: "(\<And>a. a \<in> set as \<Longrightarrow> data_of (m' a) = data_of (m a)) \<Longrightarrow> contents m' as = contents m as"
  by (simp add: contents_def)

lemma remove1_split: "k \<notin> set xs \<Longrightarrow> remove1 k (xs @ k # ys) = xs @ ys"
  by (induction xs) auto

lemma deleteNode_contents:
  assumes "dlist m h as"
  shows "\<exists>m' h' f as'. deleteNode m h key = Inr (m', h', f) \<and> dlist m' h' as' \<and> contents m' as' = remove1 key (contents m as) \<and>
    set as' = set as - {f} \<and> (f = 0 \<longleftrightarrow> key \<notin> set (contents m as)) \<and> (\<forall>b. b \<notin> set as \<longrightarrow> m' b = m b) \<and>
    (\<forall>b. data_of (m' b) = data_of (m b))"
proof (cases "List.find (\<lambda>a. data_of (m a) = key) as")
  case None
  then have no: "key \<notin> set (contents m as)"
    by (auto simp: contents_def find_None_iff)
  moreover have "deleteNode m h key = Inr (m, h, 0)"
    using deleteNode_ok [OF assms, of key] None by simp
  ultimately show ?thesis
    using assms dlist_zero [OF assms] by (intro exI [of _ m] exI [of _ h] exI [of _ 0] exI [of _ as]) (auto simp: remove1_idem)
next
  case (Some a)
  obtain xs ys where as: "as = xs @ a # ys" "\<forall>x\<in>set xs. data_of (m x) \<noteq> key" "data_of (m a) = key"
    "deleteNode m h key = Inr (unlink m a, if xs = [] then hd_or ys 0 else h, a)"
    using deleteNode_ok [OF assms, of key] unfolding Some option.case by blast
  note un = dlist_unlink [OF assms [unfolded as(1)]]
  have "key \<notin> set (contents m xs)"
    using as(2) by (auto simp: contents_def)
  then have "remove1 key (contents m as) = contents (unlink m a) (xs @ ys)"
    using as(1,3) by (simp add: remove1_split contents_cong [of _ "unlink m a" m])
  moreover have "set (xs @ ys) = set as - {a}" "a \<noteq> 0" "key \<in> set (contents m as)"
    using dlist_distinct [OF assms] dlist_zero [OF assms] as(1,3) by auto
  moreover have "\<forall>b. b \<notin> set as \<longrightarrow> unlink m a b = m b"
    using un(3) as(1) by blast
  ultimately show ?thesis
    using as(4) un(1) by (intro exI [of _ "unlink m a"] exI [of _ "if xs = [] then hd_or ys 0 else h"] exI [of _ a] exI [of _ "xs @ ys"]) simp
qed

section \<open>The classes as sequences\<close>

definition sl_ok :: "nodes \<Rightarrow> SimpleLinkedList \<Rightarrow> u64 list \<Rightarrow> bool" where
  "sl_ok m l as \<longleftrightarrow> dlist m (sl_start l) as \<and> unat (sl_count l) = length as"

definition rl_ok :: "nodes \<Rightarrow> RearInsertLinkedList \<Rightarrow> u64 list \<Rightarrow> bool" where
  "rl_ok m l as \<longleftrightarrow> dlist m (rl_start l) as \<and> unat (rl_count l) = length as \<and> rl_end l = last_or 0 as"

lemma list_get_dlist:
  assumes "dlist m h as" "unat count = length as" "i < length as"
  shows "list_get m count h (of_nat i) = contents m as ! i"
proof -
  have u: "unat (of_nat i :: u64) = i"
    using assms(2,3) unat_lt_2p64 [of count] by (simp add: unat_of_nat)
  have "as ! i \<noteq> 0"
    using dlist_zero [OF assms(1)] assms(3) by (metis nth_mem)
  moreover have "\<not> count \<le> of_nat i"
    using assms(2,3) u by (simp add: word_le_nat_alt)
  ultimately show ?thesis
    using walk_seg [of m 0 h as i] assms u by (simp add: list_get_def dlist_def contents_def)
qed

lemma unat_count_Suc: "unat c = n \<Longrightarrow> Suc n < 2 ^ 64 \<Longrightarrow> unat (c + 1 :: u64) = Suc n"
  using unat_add_nowrap [of c 1] by simp

lemma unat_count_pred: "unat c = Suc n \<Longrightarrow> unat (c - 1 :: u64) = n"
  by (subst unat_sub) (auto simp: word_le_nat_alt)

lemma unat_less_Suc: "i < c \<Longrightarrow> unat (i + 1 :: u64) = Suc (unat i)"
proof -
  assume "i < c"
  then have "Suc (unat i) \<le> unat c"
    by (simp add: word_less_nat_alt)
  also have "unat c < 2 ^ 64"
    by simp
  finally show ?thesis
    by (rule unat_count_Suc [OF refl])
qed

locale sequence =
  fixes ok :: "nodes \<Rightarrow> 'l \<Rightarrow> u64 list \<Rightarrow> bool"
    and ins :: "nodes \<Rightarrow> 'l \<Rightarrow> u64 \<Rightarrow> u64 \<Rightarrow> (nodes \<times> 'l) res"
    and get :: "nodes \<Rightarrow> 'l \<Rightarrow> u64 \<Rightarrow> u64"
  assumes ins_ok: "ok m l as \<Longrightarrow> a \<noteq> 0 \<Longrightarrow> a \<notin> set as \<Longrightarrow> Suc (length as) < 2 ^ 64 \<Longrightarrow>
      \<exists>m' l'. ins m l d a = Inr (m', l') \<and> ok m' l' (as @ [a]) \<and> contents m' (as @ [a]) = contents m as @ [d]"
    and get_ok: "ok m l as \<Longrightarrow> i < length as \<Longrightarrow> get m l (of_nat i) = contents m as ! i"
begin

text \<open>Inserting a sequence of objects, each with the address of its node.\<close>

primrec insert_all :: "(u64 \<times> u64) list \<Rightarrow> nodes \<Rightarrow> 'l \<Rightarrow> (nodes \<times> 'l) res" where
  "insert_all [] m l = Inr (m, l)"
| "insert_all (p # ps) m l = bindR (ins m l (fst p) (snd p)) (\<lambda>(m, l). insert_all ps m l)"

lemma insert_all_ok:
  assumes "ok m l as" "distinct (as @ map snd ps)" "0 \<notin> set (map snd ps)" "length as + length ps < 2 ^ 64"
  shows "\<exists>m' l'. insert_all ps m l = Inr (m', l') \<and> ok m' l' (as @ map snd ps) \<and>
    contents m' (as @ map snd ps) = contents m as @ map fst ps"
  using assms
proof (induction ps arbitrary: m l as)
  case (Cons p ps)
  have "snd p \<noteq> 0" "snd p \<notin> set as" "Suc (length as) < 2 ^ 64"
    using Cons.prems by auto
  then obtain m1 l1 where 1: "ins m l (fst p) (snd p) = Inr (m1, l1)" "ok m1 l1 (as @ [snd p])"
    "contents m1 (as @ [snd p]) = contents m as @ [fst p]"
    using ins_ok [OF Cons.prems(1)] by blast
  have "distinct ((as @ [snd p]) @ map snd ps)" "0 \<notin> set (map snd ps)" "length (as @ [snd p]) + length ps < 2 ^ 64"
    using Cons.prems by auto
  from Cons.IH [OF 1(2) this] 1 show ?case
    by auto
qed simp

lemma get_insert_all:
  assumes "ok m l []" "distinct (map snd ps)" "0 \<notin> set (map snd ps)" "length ps < 2 ^ 64"
  shows "\<exists>m' l'. insert_all ps m l = Inr (m', l') \<and> ok m' l' (map snd ps) \<and>
    (\<forall>i<length ps. get m' l' (of_nat i) = fst (ps ! i))"
proof -
  obtain m' l' where r: "insert_all ps m l = Inr (m', l')" "ok m' l' (map snd ps)" "contents m' (map snd ps) = map fst ps"
    using insert_all_ok [OF assms(1), of ps] assms(2-4) by auto
  have "get m' l' (of_nat i) = fst (ps ! i)" if "i < length ps" for i
    using get_ok [OF r(2), of i] that r(3) by simp
  then show ?thesis
    using r(1,2) by blast
qed

end

interpretation simple: sequence sl_ok sl_insert sl_get
proof unfold_locales
  fix m l as a d
  assume a: "sl_ok m l as" "a \<noteq> 0" "a \<notin> set as" "Suc (length as) < 2 ^ 64"
  obtain m' h' where "insertNode m (sl_start l) d a = Inr (m', h')" "dlist m' h' (as @ [a])"
    "contents m' (as @ [a]) = contents m as @ [d]"
    using insertNode_ok [of m "sl_start l" as a d] a by (auto simp: sl_ok_def)
  then show "\<exists>m' l'. sl_insert m l d a = Inr (m', l') \<and> sl_ok m' l' (as @ [a]) \<and> contents m' (as @ [a]) = contents m as @ [d]"
    using a(1,4) unat_count_Suc [of "sl_count l"] by (simp add: sl_insert_def sl_ok_def)
next
  show "sl_ok m l as \<Longrightarrow> i < length as \<Longrightarrow> sl_get m l (of_nat i) = contents m as ! i" for m l as i
    by (simp add: sl_get_def sl_ok_def list_get_dlist)
qed

interpretation rear: sequence rl_ok rl_insert rl_get
proof unfold_locales
  fix m l as a d
  assume a: "rl_ok m l as" "a \<noteq> 0" "a \<notin> set as" "Suc (length as) < 2 ^ 64"
  show "\<exists>m' l'. rl_insert m l d a = Inr (m', l') \<and> rl_ok m' l' (as @ [a]) \<and> contents m' (as @ [a]) = contents m as @ [d]"
  proof (cases as rule: rev_cases)
    case Nil
    then show ?thesis
      using a unat_count_Suc [of "rl_count l" 0]
      by (auto simp: rl_insert_def rl_ok_def newNode_def dlist_def unat_eq_0)
  next
    case (snoc bs b)
    have "b \<noteq> 0" "rl_count l \<noteq> 0"
      using a(1) snoc dlist_zero [of m "rl_start l" as] by (auto simp: rl_ok_def)
    moreover have "contents (set_prev (set_next (fst (newNode m a d)) b a) a b) (as @ [a]) = contents m as @ [d]"
      using a(2,3) by (auto simp: contents_def newNode_def)
    ultimately show ?thesis
      using a dlist_append_node [of m "rl_start l" bs b a d] unat_count_Suc [of "rl_count l" "length as"] snoc
      by (auto simp: rl_insert_def rl_ok_def newNode_def)
  qed
next
  show "rl_ok m l as \<Longrightarrow> i < length as \<Longrightarrow> rl_get m l (of_nat i) = contents m as ! i" for m l as i
    by (simp add: rl_get_def rl_ok_def list_get_dlist)
qed

section \<open>Rotation\<close>

lemma dlist_rotate:
  assumes d: "dlist m h (a # b # cs)"
  defines "e \<equiv> last_or b cs"
  defines "m' \<equiv> set_next (set_prev (set_prev (set_next m e a) a e) b 0) a 0"
  shows "dlist m' b ((b # cs) @ [a])"
proof -
  have dis: "distinct (a # b # cs)" and nz: "0 \<notin> set (a # b # cs)"
    using d dlist_distinct dlist_zero by blast+
  define ds where "ds = butlast (b # cs)"
  have ds: "b # cs = ds @ [e]"
    using append_butlast_last_id [of "b # cs"] unfolding ds_def e_def last_or_def by simp
  have "seg m a b (ds @ [e]) 0"
    using d unfolding ds [symmetric] by (auto simp: dlist_def)
  then have "seg (set_next m e a) a b (b # cs) a"
    using seg_relink_last [of m a b ds e 0 a] dis unfolding ds by simp
  then have "seg (set_prev (set_prev (set_next m e a) a e) b 0) 0 b (b # cs) a"
    using dis by (intro seg_relink_first) (auto simp: seg_set_prev)
  then have "seg m' 0 b (b # cs) a"
    unfolding m'_def using dis by (subst seg_set_next) auto
  moreover have "seg m' e a [a] 0"
    using nz dis by (simp add: m'_def)
  ultimately show ?thesis
    using dis unfolding dlist_def seg_append by (auto simp: e_def)
qed

lemma sl_rotateLeft_ok:
  assumes "sl_ok m l as"
  shows "\<exists>m' l'. sl_rotateLeft m l = Inr (m', l') \<and> sl_ok m' l' (rotate1 as) \<and> contents m' (rotate1 as) = rotate1 (contents m as)"
proof (cases "length as < 2")
  case True
  then have "rotate1 as = as" "rotate1 (contents m as) = contents m as" "sl_count l < 2"
    using assms by (cases as; auto simp: sl_ok_def word_less_nat_alt)+
  then show ?thesis
    using assms by (simp add: sl_rotateLeft_def)
next
  case False
  then obtain a b cs where as: "as = a # b # cs"
    by (cases as rule: remdups_adj.cases) auto
  let ?e = "last_or b cs"
  let ?m = "set_next (set_prev (set_prev (set_next m ?e a) a ?e) b 0) a 0"
  have d: "dlist m (sl_start l) (a # b # cs)"
    using assms as by (simp add: sl_ok_def)
  have e: "?e \<noteq> a"
    using dlist_distinct [OF d] by (cases cs rule: rev_cases) auto
  have "last_node m (sl_start l) = Some ?e"
    using d last_node_dlist [of m "sl_start l" "butlast (a # b # cs)" "last (a # b # cs)"] unfolding append_butlast_last_id [of "a # b # cs", simplified]
    by (cases cs rule: rev_cases) auto
  moreover have "\<not> sl_count l < 2" "sl_start l = a" "a \<noteq> 0" "next_of (m a) = b" "b \<noteq> 0" "a \<noteq> b" "?e \<noteq> a"
    using e assms False d dlist_distinct [OF d] by (auto simp: sl_ok_def word_less_nat_alt dlist_def)
  ultimately have "sl_rotateLeft m l = Inr (?m, l\<lparr>sl_start := b\<rparr>)"
    by (simp add: sl_rotateLeft_def Let_def)
  moreover have "contents ?m (rotate1 as) = rotate1 (contents m as)"
    using as by (simp add: contents_def)
  ultimately show ?thesis
    using dlist_rotate [OF d] assms as by (simp add: sl_ok_def)
qed

text \<open>A walk that never meets the null pointer does not end.\<close>

lemma last_node_outside:
  "last_node m p = Some r \<Longrightarrow> (\<forall>a\<in>T. next_of (m a) \<in> T) \<Longrightarrow> 0 \<notin> T \<Longrightarrow> p \<notin> T"
proof (induction rule: last_node.raw_induct [rotated, consumes 1])
  case (1 loop m p r)
  then show ?case
    by (auto split: if_splits)
qed

lemma length_loop_outside:
  "length_loop m p n = Some r \<Longrightarrow> (\<forall>a\<in>T. next_of (m a) \<in> T) \<Longrightarrow> 0 \<notin> T \<Longrightarrow> p \<notin> T"
proof (induction rule: length_loop.raw_induct [rotated, consumes 1])
  case (1 loop m p n r)
  show ?case
  proof
    assume "p \<in> T"
    then have "next_of (m p) \<in> T"
      using 1 by blast
    moreover from this have "loop m (next_of (m p)) (n + 1) = Some r"
      using 1 by (auto split: if_splits)
    ultimately show False
      using "1.IH" "1.prems" by blast
  qed
qed

lemma sl_rotateRight_cycle:
  assumes "sl_ok m l as" "2 \<le> length as"
  shows "\<exists>m' l'. sl_rotateRight m l = Inr (m', l') \<and> sl_start l' = last as \<and> 0 \<notin> set as \<and>
    (\<forall>a\<in>set as. next_of (m' a) \<in> set as)"
proof -
  obtain bs e where as: "as = bs @ [e]"
    using assms(2) by (cases as rule: rev_cases) auto
  let ?h = "sl_start l"
  let ?m = "set_prev (set_next (set_prev m ?h e) e ?h) e 0"
  have d: "dlist m ?h (bs @ [e])"
    using assms(1) as by (simp add: sl_ok_def)
  have h: "?h \<in> set as" "?h \<noteq> 0"
    using dlist_hd [OF d] dlist_start [OF d] as hd_in_set [of as] by (auto simp: hd_or_def split: if_splits)
  have "\<not> sl_count l < 2"
    using assms by (simp add: sl_ok_def word_less_nat_alt)
  then have "sl_rotateRight m l = Inr (?m, l\<lparr>sl_start := e\<rparr>)"
    using h(2) last_node_dlist [OF d] by (simp add: sl_rotateRight_def Let_def)
  moreover have "next_of (?m a) \<in> set as" if a: "a \<in> set as" for a
  proof (cases "a = e")
    case False
    then obtain xs ys where "bs = xs @ a # ys"
      using a as by (auto dest: split_list)
    then have "next_of (m a) = hd_or (ys @ [e]) 0"
      using dlist_links(1) [of m ?h xs a "ys @ [e]"] d by simp
    then show ?thesis
      using False as \<open>bs = xs @ a # ys\<close> by (cases ys) auto
  qed (use h in simp)
  moreover have "sl_start (l\<lparr>sl_start := e\<rparr>) = last as" "0 \<notin> set as"
    using dlist_zero [OF d] as by simp_all
  ultimately show ?thesis
    by (intro exI conjI ballI)
qed

section \<open>Enumeration with deletion\<close>

text \<open>What \<^verbatim>\<open>EnumerateDelete\<close> keeps of a sequence.\<close>

fun enum_delete :: "(u64 \<Rightarrow> u64 \<Rightarrow> 's \<Rightarrow> IteratorDecision \<times> 's) \<Rightarrow> u64 list \<Rightarrow> u64 \<Rightarrow> 's \<Rightarrow> u64 list \<times> 's" where
  "enum_delete func [] i s = ([], s)"
| "enum_delete func (d # ds) i s =
     (case func d i s of
        (CONTINUE, s) \<Rightarrow> (case enum_delete func ds (i + 1) s of (r, s) \<Rightarrow> (d # r, s))
      | (BREAK, s) \<Rightarrow> (d # ds, s)
      | (DELETE, s) \<Rightarrow> enum_delete func ds (i + 1) s
      | (DELETE_BREAK, s) \<Rightarrow> (ds, s))"

lemma rl_unlink_ok:
  assumes "rl_ok m l (xs @ a # ys)"
  shows "rl_ok (fst (rl_unlink m l a)) (snd (rl_unlink m l a)) (xs @ ys)" "fst (rl_unlink m l a) = unlink m a"
proof -
  have d: "dlist m (rl_start l) (xs @ a # ys)" and c: "unat (rl_count l) = Suc (length (xs @ ys))"
    and e: "rl_end l = last_or a ys"
    using assms by (auto simp: rl_ok_def)
  note links = dlist_links [OF d]
  have n: "next_of (m a) \<noteq> a"
    using links dlist_distinct [OF d] by (cases ys) auto
  have z: "hd_or ys 0 = 0 \<longleftrightarrow> ys = []" "last_or 0 xs = 0 \<longleftrightarrow> xs = []"
    using dlist_zero [OF d] by (cases ys; cases xs rule: rev_cases; auto)+
  show un: "fst (rl_unlink m l a) = unlink m a"
    using n by (simp add: rl_unlink_def unlink_def Let_def split_def)
  have "rl_count (snd (rl_unlink m l a)) = rl_count l - 1"
    by (simp add: rl_unlink_def Let_def split_def)
  then have c': "unat (rl_count (snd (rl_unlink m l a))) = length (xs @ ys)"
    using c by (simp add: unat_count_pred)
  have "rl_start (snd (rl_unlink m l a)) = (if xs = [] then hd_or ys 0 else rl_start l)"
    "rl_end (snd (rl_unlink m l a)) = last_or 0 (xs @ ys)"
    using n links z e by (cases ys rule: rev_cases; auto simp: rl_unlink_def Let_def split_def last_or_def)+
  then show "rl_ok (fst (rl_unlink m l a)) (snd (rl_unlink m l a)) (xs @ ys)"
    using dlist_unlink(1) [OF d] c' un by (simp add: rl_ok_def)
qed

lemma EnumerateDelete_loop_ok:
  assumes "rl_ok m l (xs @ ys)"
  shows "\<exists>m' l' zs. EnumerateDelete_loop func m l (hd_or ys 0) i s = Some (m', l', snd (enum_delete func (contents m ys) i s)) \<and>
    rl_ok m' l' (xs @ zs) \<and> contents m' zs = fst (enum_delete func (contents m ys) i s) \<and> contents m' xs = contents m xs"
  using assms
proof (induction ys arbitrary: xs m l i s)
  case Nil
  then show ?case
    by (intro exI [of _ m] exI [of _ l] exI [of _ "[]"]) (simp add: EnumerateDelete_loop.simps)
next
  case (Cons a ys)
  have d: "dlist m (rl_start l) (xs @ a # ys)"
    using Cons.prems by (simp add: rl_ok_def)
  have a: "a \<noteq> 0" "next_of (m a) = hd_or ys 0"
    using dlist_links [OF d] by auto
  obtain dec s' where f: "func (data_of (m a)) i s = (dec, s')"
    by force
  have same: "contents (unlink m a) zs = contents m zs" for zs
    by (simp add: contents_def)
  note un = rl_unlink_ok [OF Cons.prems]
  note step = EnumerateDelete_loop.simps [of func m l a]
  show ?case
  proof (cases dec)
    case CONTINUE
    have "rl_ok m l ((xs @ [a]) @ ys)"
      using Cons.prems by simp
    from Cons.IH [OF this, of "i + 1" s'] obtain m' l' zs where
      "EnumerateDelete_loop func m l (hd_or ys 0) (i + 1) s' = Some (m', l', snd (enum_delete func (contents m ys) (i + 1) s'))"
      "rl_ok m' l' ((xs @ [a]) @ zs)" "contents m' zs = fst (enum_delete func (contents m ys) (i + 1) s')"
      "contents m' (xs @ [a]) = contents m (xs @ [a])"
      by blast
    then show ?thesis
      using f CONTINUE a step by (intro exI [of _ m'] exI [of _ l'] exI [of _ "a # zs"]) (simp add: split_def)
  next
    case BREAK
    then show ?thesis
      using f a step Cons.prems by (intro exI [of _ m] exI [of _ l] exI [of _ "a # ys"]) simp
  next
    case DELETE
    from Cons.IH [OF un(1), of "i + 1" s'] show ?thesis
      using f DELETE a step un(2) by (simp add: same)
  next
    case DELETE_BREAK
    then show ?thesis
      using f a step un by (intro exI [of _ "unlink m a"] exI [of _ "snd (rl_unlink m l a)"] exI [of _ ys]) (simp add: same)
  qed
qed

lemma skip_seg:
  "seg m pv p as 0 \<Longrightarrow> k \<le> length as \<Longrightarrow> skip (\<lambda>a. next_of (m a)) k p = Inr (hd_or (drop k as) 0)"
proof (induction k arbitrary: pv p as)
  case 0
  then show ?case
    using seg_hd by auto
next
  case (Suc k)
  then show ?case
    by (cases as) auto
qed

section \<open>Destruction\<close>

lemma sl_remove_first:
  assumes "sl_ok m l (a # as)"
  shows "\<exists>m' l'. sl_remove_index m l 0 = Inr (m', l') \<and> sl_ok m' l' as \<and> (\<forall>b. data_of (m' b) = data_of (m b))"
proof -
  have d: "dlist m (sl_start l) ([] @ a # as)" and c: "unat (sl_count l) = Suc (length as)"
    using assms by (auto simp: sl_ok_def)
  have "sl_get m l 0 = data_of (m a)"
    using simple.get_ok [OF assms, of 0] by simp
  then have "sl_remove_index m l 0 = Inr (unlink m a, l\<lparr>sl_start := hd_or as 0, sl_count := sl_count l - 1\<rparr>)"
    using deleteNode_ok [of m "sl_start l" "a # as" "data_of (m a)"] d
    by (auto simp: sl_remove_index_def Cons_eq_append_conv)
  moreover have "unat (sl_count l - 1) = length as"
    using c by (simp add: unat_count_pred)
  ultimately show ?thesis
    using dlist_unlink(1) [OF d] by (simp add: sl_ok_def)
qed

lemma sl_destroy_loop_ok:
  assumes "sl_ok m l as"
  shows "\<exists>m' l'. sl_destroy_loop m l i = Some (Inr (m', l')) \<and> sl_ok m' l' (drop ((length as - unat i + 1) div 2) as)"
  using assms
proof (induction as arbitrary: m l i)
  case Nil
  then show ?case
    by (simp add: sl_destroy_loop.simps sl_ok_def word_less_nat_alt)
next
  case (Cons a as)
  show ?case
  proof (cases "i < sl_count l")
    case False
    then have "length (a # as) - unat i = 0"
      using Cons.prems by (simp add: sl_ok_def word_less_nat_alt)
    then show ?thesis
      using False Cons.prems by (simp add: sl_destroy_loop.simps)
  next
    case True
    obtain m1 l1 where r: "sl_remove_index m l 0 = Inr (m1, l1)" "sl_ok m1 l1 as"
      using sl_remove_first [OF Cons.prems] by blast
    have i: "unat i < Suc (length as)"
      using True Cons.prems by (simp add: sl_ok_def word_less_nat_alt)
    have "unat (i + 1) = Suc (unat i)"
      using True by (rule unat_less_Suc)
    then have "(length (a # as) - unat i + 1) div 2 = Suc ((length as - unat (i + 1) + 1) div 2)"
      using i by (cases "unat i = length as") auto
    then show ?thesis
      using Cons.IH [OF r(2), of "i + 1"] True r(1) by (simp add: sl_destroy_loop.simps [of m l i])
  qed
qed

section \<open>Insertion behind a removed end\<close>

lemma rl_Enumerate_loop_short:
  "seg m pv p as 0 \<Longrightarrow> length as < k \<Longrightarrow> rl_Enumerate_loop m func k p s = Inl NullDeref"
proof (induction k arbitrary: pv p as s)
  case (Suc k)
  then show ?case
    by (cases as) auto
qed simp

lemma rl_remove_insert_lost:
  assumes "rl_ok m l (xs @ [b])" "xs \<noteq> []" "data_of (m b) \<notin> set (contents m xs)" "a \<noteq> 0" "a \<notin> set (xs @ [b])"
  shows "\<exists>m1 l1 m2 l2. rl_remove m l (data_of (m b)) = Inr (m1, l1) \<and> rl_insert m1 l1 obj a = Inr (m2, l2) \<and>
    dlist m2 (rl_start l2) xs \<and> contents m2 xs = contents m xs \<and> unat (rl_count l2) = Suc (length xs)"
proof -
  have d: "dlist m (rl_start l) (xs @ b # [])" and c: "unat (rl_count l) = Suc (length xs)" and e: "rl_end l = b"
    using assms(1) by (auto simp: rl_ok_def)
  note links = dlist_links [OF d] and dis = dlist_distinct [OF d]
  have find: "List.find (\<lambda>a. data_of (m a) = data_of (m b)) (xs @ [b]) = Some b"
    using assms(3) by (induction xs) (auto simp: contents_def)
  obtain vs ws where v: "xs @ [b] = vs @ b # ws" "\<forall>x\<in>set vs. data_of (m x) \<noteq> data_of (m b)"
    "deleteNode m (rl_start l) (data_of (m b)) = Inr (unlink m b, if vs = [] then hd_or ws 0 else rl_start l, b)"
    using deleteNode_ok [of m "rl_start l" "xs @ [b]" "data_of (m b)"] d find by auto
  have "vs = xs" "ws = []"
    using v(1) dis by (auto simp: append_eq_append_conv2 Cons_eq_append_conv append_eq_Cons_conv)
  then have r: "rl_remove m l (data_of (m b)) = Inr (unlink m b, l\<lparr>rl_count := rl_count l - 1\<rparr>)"
    using v(3) assms(2) by (simp add: rl_remove_def)
  let ?m2 = "set_prev (set_next (fst (newNode (unlink m b) a obj)) b a) a b"
  have c1: "unat (rl_count l - 1) = length xs" "rl_count l - 1 \<noteq> 0"
    using c assms(2) unat_count_pred [OF c] by auto
  then have i: "rl_insert (unlink m b) (l\<lparr>rl_count := rl_count l - 1\<rparr>) obj a =
      Inr (?m2, l\<lparr>rl_end := a, rl_count := rl_count l\<rparr>)"
    using assms(4) links(3) e by (simp add: rl_insert_def newNode_def)
  have same: "?m2 x = unlink m b x" if "x \<in> set xs" for x
  proof -
    have "x \<noteq> a" "x \<noteq> b"
      using that dis assms(5) by auto
    then show ?thesis
      using assms(4) by (simp add: newNode_def)
  qed
  have "seg ?m2 0 (rl_start l) xs 0"
    using seg_frame [of xs ?m2 "unlink m b"] same dlist_unlink(1) [OF d] assms(2) by (simp add: dlist_def)
  then have "dlist ?m2 (rl_start l) xs"
    using dis by (simp add: dlist_def)
  moreover have "contents ?m2 xs = contents (unlink m b) xs"
    using same by (intro contents_cong) metis
  then have "contents ?m2 xs = contents m xs"
    by (simp add: contents_def)
  ultimately show ?thesis
    using r i c by (intro exI [of _ "unlink m b"] exI [of _ "l\<lparr>rl_count := rl_count l - 1\<rparr>"] exI [of _ ?m2]
        exI [of _ "l\<lparr>rl_end := a, rl_count := rl_count l\<rparr>"]) (simp del: upd_simps)
qed

section \<open>The bitmap and the pool\<close>

definition bitmap_bit :: "RawBitmap \<Rightarrow> nat \<Rightarrow> bool" where
  "bitmap_bit b i = bit (m_Buffer b ! (i div 8)) (i mod 8)"

definition bitmap_index :: "RawBitmap \<Rightarrow> u64 \<Rightarrow> bool" where
  "bitmap_index b i \<longleftrightarrow> i < m_Size b * 8 \<and> unat i < 8 * length (m_Buffer b)"

lemma RawBitmap_Get_bit: "bitmap_index b i \<Longrightarrow> RawBitmap_Get b i = Inr (bitmap_bit b (unat i))"
  by (auto simp: RawBitmap_Get_def bitmap_index_def bitmap_bit_def unat_div unat_mod and_exp_eq_0_iff_not_bit push_bit_of_1 less_mult_imp_div_less
      not_le mult.commute)

lemma RawBitmap_Set_bit:
  assumes "bitmap_index b i"
  shows "\<exists>b'. RawBitmap_Set b i v = Inr b' \<and> m_Size b' = m_Size b \<and> length (m_Buffer b') = length (m_Buffer b) \<and>
    (\<forall>j < 8 * length (m_Buffer b). bitmap_bit b' j = (if j = unat i then v else bitmap_bit b j))"
proof -
  let ?i = "unat i div 8" and ?k = "unat i mod 8"
  let ?b = "b\<lparr>m_Buffer := (m_Buffer b)[?i := if v then m_Buffer b ! ?i OR push_bit ?k 1 else m_Buffer b ! ?i AND NOT (push_bit ?k 1)]\<rparr>"
  have i: "?i < length (m_Buffer b)" "\<not> m_Size b * 8 \<le> i"
    using assms by (auto simp: bitmap_index_def)
  then have "RawBitmap_Set b i v = Inr ?b"
    by (simp add: RawBitmap_Set_def unat_div unat_mod Let_def)
  moreover have "bitmap_bit ?b j = (if j = unat i then v else bitmap_bit b j)" if "j < 8 * length (m_Buffer b)" for j
  proof (cases "j div 8 = ?i")
    case True
    moreover have "j = unat i \<longleftrightarrow> j mod 8 = ?k"
      using True by (metis div_mult_mod_eq)
    ultimately show ?thesis
      using i(1) by (auto simp: bitmap_bit_def bit_simps)
  next
    case False
    then show ?thesis
      by (auto simp: bitmap_bit_def)
  qed
  ultimately show ?thesis
    by simp
qed

definition pool_used :: "NodePool \<Rightarrow> nat set" where
  "pool_used s = {i. i < 512 \<and> bitmap_bit (nodePool_Bitmap s) i}"

definition pool_ok :: "NodePool \<Rightarrow> bool" where
  "pool_ok s \<longleftrightarrow> length (m_Buffer (nodePool_Bitmap s)) = 64 \<and> m_Size (nodePool_Bitmap s) = POOL_SIZE \<and>
     unat (nodePool_UsedCount s) = card (pool_used s)"

lemma finite_pool_used [simp]: "finite (pool_used s)"
  by (simp add: pool_used_def)

lemma card_pool_used: "card (pool_used s) \<le> 512"
  using card_mono [of "{..<512}" "pool_used s"] by (auto simp: pool_used_def)

lemma pool_index: "pool_ok s \<Longrightarrow> unat i < 512 \<Longrightarrow> bitmap_index (nodePool_Bitmap s) i"
  by (simp add: pool_ok_def bitmap_index_def POOL_SIZE_def word_less_nat_alt)

lemma pool_set:
  assumes "pool_ok s" "unat i < 512"
  shows "\<exists>b. RawBitmap_Set (nodePool_Bitmap s) i v = Inr b \<and> m_Size b = POOL_SIZE \<and> length (m_Buffer b) = 64 \<and>
    (\<forall>c. pool_used (s\<lparr>nodePool_Bitmap := b, nodePool_UsedCount := c\<rparr>) =
       (if v then insert (unat i) (pool_used s) else pool_used s - {unat i}))"
proof -
  have 64: "length (m_Buffer (nodePool_Bitmap s)) = 64" "m_Size (nodePool_Bitmap s) = POOL_SIZE"
    using assms(1) by (auto simp: pool_ok_def)
  obtain b where b: "RawBitmap_Set (nodePool_Bitmap s) i v = Inr b" "m_Size b = POOL_SIZE" "length (m_Buffer b) = 64"
    "\<forall>j<512. bitmap_bit b j = (if j = unat i then v else bitmap_bit (nodePool_Bitmap s) j)"
    using RawBitmap_Set_bit [OF pool_index [OF assms], of v] 64 by auto
  then have "\<forall>c. pool_used (s\<lparr>nodePool_Bitmap := b, nodePool_UsedCount := c\<rparr>) =
      (if v then insert (unat i) (pool_used s) else pool_used s - {unat i})"
    using assms(2) by (auto simp: pool_used_def split: if_splits)
  with b(1-3) show ?thesis
    by blast
qed

lemma AllocateNode_loop_ok:
  assumes "pool_ok s" "card (pool_used s) < 511" "unat i + k = 512" "\<forall>j<unat i. j \<in> pool_used s"
  shows "\<exists>s' n. AllocateNode_loop k i s = Inr (s', Some n) \<and> unat n < 512 \<and> unat n \<notin> pool_used s \<and> (\<forall>j<unat n. j \<in> pool_used s) \<and>
    pool_ok s' \<and> pool_used s' = insert (unat n) (pool_used s)"
  using assms(3,4)
proof (induction k arbitrary: i)
  case 0
  then have "{..<512} \<subseteq> pool_used s"
    by auto
  then show ?case
    using card_mono [of "pool_used s" "{..<512}"] assms(2) by simp
next
  case (Suc k)
  have i: "unat i < 512"
    using Suc.prems(1) by simp
  note get = RawBitmap_Get_bit [OF pool_index [OF assms(1) i]]
  show ?case
  proof (cases "unat i \<in> pool_used s")
    case True
    have "unat (i + 1) = Suc (unat i)"
      using i by (intro unat_count_Suc) auto
    moreover have "\<forall>j<Suc (unat i). j \<in> pool_used s"
      using True Suc.prems(2) by (auto simp: less_Suc_eq)
    ultimately show ?thesis
      using Suc.IH [of "i + 1"] Suc.prems(1) True get by (simp add: pool_used_def)
  next
    case False
    obtain b where b: "RawBitmap_Set (nodePool_Bitmap s) i True = Inr b" "m_Size b = POOL_SIZE" "length (m_Buffer b) = 64"
      "\<forall>c. pool_used (s\<lparr>nodePool_Bitmap := b, nodePool_UsedCount := c\<rparr>) = insert (unat i) (pool_used s)"
      using pool_set [OF assms(1) i, of True] by auto
    have "unat (nodePool_UsedCount s + 1) = Suc (card (pool_used s))"
      using assms(1,2) by (intro unat_count_Suc) (auto simp: pool_ok_def)
    then show ?thesis
      using False get i b Suc.prems(2) by (simp add: pool_ok_def) (simp add: pool_used_def)
  qed
qed

section \<open>Properties\<close>

text \<open>
  C27. LinkedList.cpp implements finite sequences. On a well linked list, \<^verbatim>\<open>length\<close> is the length of
  the sequence; \<^verbatim>\<open>findNode\<close> returns a node with the data, or null when there is none; \<^verbatim>\<open>insertNode\<close>
  appends; \<^verbatim>\<open>deleteNode\<close> removes the first occurrence of the key and gives back the memory of exactly
  that node, or nothing when the key is absent. No node outside the list is written, and all of them end.
\<close>

theorem LinkedList_ops:
  assumes "dlist m h as"
  shows "list_length m h = Some (of_nat (length as)) \<and>
    (\<exists>n. findNode m h d = Some n \<and> (if d \<in> set (contents m as) then n \<in> set as \<and> data_of (m n) = d else n = 0)) \<and>
    (a \<noteq> 0 \<longrightarrow> a \<notin> set as \<longrightarrow> (\<exists>m' h'. insertNode m h d a = Inr (m', h') \<and> dlist m' h' (as @ [a]) \<and>
       contents m' (as @ [a]) = contents m as @ [d] \<and> (\<forall>b. b \<notin> set as \<longrightarrow> b \<noteq> a \<longrightarrow> m' b = m b))) \<and>
    (\<exists>m' h' f as'. deleteNode m h d = Inr (m', h', f) \<and> dlist m' h' as' \<and> contents m' as' = remove1 d (contents m as) \<and>
       set as' = set as - {f} \<and> (f = 0 \<longleftrightarrow> d \<notin> set (contents m as)) \<and> (\<forall>b. b \<notin> set as \<longrightarrow> m' b = m b))"
proof (intro conjI impI)
  have sg: "seg m 0 h as 0"
    using assms by (simp add: dlist_def)
  show "list_length m h = Some (of_nat (length as))"
    using length_loop_seg [OF sg] dlist_start [OF assms] by (auto simp: list_length_def)
  show "\<exists>n. findNode m h d = Some n \<and> (if d \<in> set (contents m as) then n \<in> set as \<and> data_of (m n) = d else n = 0)"
  proof (cases "List.find (\<lambda>a. data_of (m a) = d) as")
    case None
    then have "findNode m h d = Some 0"
      using findNode_seg [OF sg, of d] by simp
    then show ?thesis
      using None by (auto simp: find_None_iff contents_def)
  next
    case (Some n)
    then have "n \<in> set as" "data_of (m n) = d"
      using find_split [OF Some] by auto
    then show ?thesis
      using findNode_seg [OF sg, of d] Some by (auto simp: contents_def)
  qed
next
  show "\<exists>m' h' f as'. deleteNode m h d = Inr (m', h', f) \<and> dlist m' h' as' \<and> contents m' as' = remove1 d (contents m as) \<and>
       set as' = set as - {f} \<and> (f = 0 \<longleftrightarrow> d \<notin> set (contents m as)) \<and> (\<forall>b. b \<notin> set as \<longrightarrow> m' b = m b)"
    using deleteNode_contents [OF assms, of d] by blast
qed (rule insertNode_ok [OF assms])

text \<open>A list of two nodes, at the addresses 16 and 32, with the data 7 and 9.\<close>

definition sample_nodes :: nodes where
  "sample_nodes = (\<lambda>_. \<lparr>prev_of = 0, data_of = 0, next_of = 0\<rparr>)
     (16 := \<lparr>prev_of = 0, data_of = 7, next_of = 32\<rparr>, 32 := \<lparr>prev_of = 16, data_of = 9, next_of = 0\<rparr>)"

lemma sample_dlist: "dlist sample_nodes 16 [16, 32]" "data_of (sample_nodes 16) = 7" "data_of (sample_nodes 32) = 9"
  by (simp_all add: dlist_def sample_nodes_def)

theorem LinkedList_ops_witness:
  "\<exists>m' h' f as'. deleteNode sample_nodes 16 9 = Inr (m', h', f) \<and> dlist m' h' as' \<and> contents m' as' = [7] \<and> f \<noteq> 0"
  using LinkedList_ops [OF sample_dlist(1), of 9 48] by (auto simp: sample_dlist)

text \<open>
  C28. \<^verbatim>\<open>RearInsertLinkedList::EnumerateDelete\<close> from a start index: it ends, the list stays well linked with
  its count and its end pointer, the objects before the start index stay, and of the others exactly those
  stay that the decisions of the callback keep (up to the first decision that breaks).
\<close>

theorem RearInsert_EnumerateDelete:
  assumes "rl_ok m l as" "unat start \<le> length as"
  shows "\<exists>m' l' as'. rl_EnumerateDelete m l func start s =
      Inr (m', l', snd (enum_delete func (drop (unat start) (contents m as)) start s)) \<and> rl_ok m' l' as' \<and>
    contents m' as' = take (unat start) (contents m as) @ fst (enum_delete func (drop (unat start) (contents m as)) start s)"
proof -
  let ?k = "unat start"
  have split: "rl_ok m l (take ?k as @ drop ?k as)"
    using assms(1) by simp
  obtain m' l' zs where
    "EnumerateDelete_loop func m l (hd_or (drop ?k as) 0) start s = Some (m', l', snd (enum_delete func (contents m (drop ?k as)) start s))"
    "rl_ok m' l' (take ?k as @ zs)" "contents m' zs = fst (enum_delete func (contents m (drop ?k as)) start s)"
    "contents m' (take ?k as) = contents m (take ?k as)"
    using EnumerateDelete_loop_ok [OF split, of func start s] by blast
  moreover have "skip (\<lambda>a. next_of (m a)) ?k (rl_start l) = Inr (hd_or (drop ?k as) 0)"
    using assms skip_seg by (auto simp: rl_ok_def dlist_def)
  ultimately show ?thesis
    by (intro exI [of _ m'] exI [of _ l'] exI [of _ "take ?k as @ zs"])
      (simp add: rl_EnumerateDelete_def contents_def take_map drop_map)
qed

theorem RearInsert_EnumerateDelete_witness:
  "\<exists>m' l' as'. rl_EnumerateDelete sample_nodes \<lparr>rl_count = 2, rl_start = 16, rl_end = 32\<rparr>
      (\<lambda>d i s. (if d = 9 then DELETE else CONTINUE, s + d)) 0 0 = Inr (m', l', 16) \<and> rl_ok m' l' as' \<and> contents m' as' = [7]"
  using RearInsert_EnumerateDelete [of sample_nodes "\<lparr>rl_count = 2, rl_start = 16, rl_end = 32\<rparr>" "[16, 32]" 0
      "\<lambda>d i s. (if d = 9 then DELETE else CONTINUE, s + d)" 0]
  by (simp add: rl_ok_def sample_dlist)

text \<open>
  C29. \<^verbatim>\<open>SimpleLinkedList::rotateLeft\<close> moves the first object to the end. \<^verbatim>\<open>rotateRight\<close> on two or more
  objects leaves the old last but one node pointing at the node that moved to the front: the links form a
  cycle, and every later \<^verbatim>\<open>insert\<close> and \<^verbatim>\<open>length\<close> runs for ever.
\<close>

theorem SimpleLinkedList_rotate:
  assumes "sl_ok m l as"
  shows "(\<exists>m' l'. sl_rotateLeft m l = Inr (m', l') \<and> sl_ok m' l' (rotate1 as) \<and> contents m' (rotate1 as) = rotate1 (contents m as)) \<and>
    (2 \<le> length as \<longrightarrow> (\<exists>m' l'. sl_rotateRight m l = Inr (m', l') \<and> sl_start l' = last as \<and>
       (\<forall>d a. sl_insert m' l' d a = Inl Diverged) \<and> list_length m' (sl_start l') = None))"
proof (intro conjI impI)
  assume 2: "2 \<le> length as"
  obtain m' l' where r: "sl_rotateRight m l = Inr (m', l')" "sl_start l' = last as" "0 \<notin> set as"
    "\<forall>a\<in>set as. next_of (m' a) \<in> set as"
    using sl_rotateRight_cycle [OF assms 2] by blast
  have e: "last as \<in> set as"
    using 2 by (cases as) auto
  then have "last_node m' (last as) = None" "length_loop m' (last as) 0 = None" "last as \<noteq> 0"
    using last_node_outside [of m' "last as" _ "set as"] length_loop_outside [of m' "last as" 0 _ "set as"] r(3,4)
    by (metis not_None_eq)+
  then show "\<exists>m' l'. sl_rotateRight m l = Inr (m', l') \<and> sl_start l' = last as \<and>
       (\<forall>d a. sl_insert m' l' d a = Inl Diverged) \<and> list_length m' (sl_start l') = None"
    using r(1,2) by (auto simp: sl_insert_def insertNode_def list_length_def)
qed (rule sl_rotateLeft_ok [OF assms])

theorem SimpleLinkedList_rotate_witness:
  "\<exists>m' l'. sl_rotateRight sample_nodes \<lparr>sl_count = 2, sl_start = 16\<rparr> = Inr (m', l') \<and> sl_start l' = 32 \<and>
     sl_insert m' l' 5 48 = Inl Diverged"
  using SimpleLinkedList_rotate [of sample_nodes "\<lparr>sl_count = 2, sl_start = 16\<rparr>" "[16, 32]"]
  by (auto simp: sl_ok_def sample_dlist)

text \<open>
  C30. \<^verbatim>\<open>RearInsertLinkedList::remove\<close> does not move \<^verbatim>\<open>m_end\<close>. After it removes the last of two or more
  objects, the next \<^verbatim>\<open>insert\<close> links the new node behind the removed one: the list reached from \<^verbatim>\<open>m_start\<close>
  is the old one without the new object, the count is one more than its length, and \<^verbatim>\<open>Enumerate\<close> reads
  through a null pointer.
\<close>

theorem RearInsert_remove_insert:
  assumes "rl_ok m l (xs @ [b])" "xs \<noteq> []" "data_of (m b) \<notin> set (contents m xs)" "a \<noteq> 0" "a \<notin> set (xs @ [b])"
  shows "\<exists>m1 l1 m2 l2. rl_remove m l (data_of (m b)) = Inr (m1, l1) \<and> rl_insert m1 l1 obj a = Inr (m2, l2) \<and>
    dlist m2 (rl_start l2) xs \<and> contents m2 xs = contents m xs \<and> unat (rl_count l2) = Suc (length xs) \<and>
    rl_Enumerate m2 l2 func s = Inl NullDeref"
proof -
  obtain m1 l1 m2 l2 where r: "rl_remove m l (data_of (m b)) = Inr (m1, l1)" "rl_insert m1 l1 obj a = Inr (m2, l2)"
    "dlist m2 (rl_start l2) xs" "contents m2 xs = contents m xs" "unat (rl_count l2) = Suc (length xs)"
    using rl_remove_insert_lost [OF assms] by blast
  then have "rl_Enumerate m2 l2 func s = Inl NullDeref"
    using rl_Enumerate_loop_short [of m2 0 "rl_start l2" xs "Suc (length xs)" func s] by (simp add: rl_Enumerate_def dlist_def del: rl_Enumerate_loop.simps)
  with r show ?thesis
    by blast
qed

theorem RearInsert_remove_insert_witness:
  "\<exists>m1 l1 m2 l2. rl_remove sample_nodes \<lparr>rl_count = 2, rl_start = 16, rl_end = 32\<rparr> 9 = Inr (m1, l1) \<and>
     rl_insert m1 l1 5 48 = Inr (m2, l2) \<and> dlist m2 (rl_start l2) [16] \<and> contents m2 [16] = [7] \<and>
     rl_Enumerate m2 l2 (\<lambda>d s. (True, s + d)) 0 = Inl NullDeref"
  using RearInsert_remove_insert [of sample_nodes "\<lparr>rl_count = 2, rl_start = 16, rl_end = 32\<rparr>" "[16]" 32 48 5
      "\<lambda>d s. (True, s + d)" 0]
  by (auto simp: rl_ok_def sample_dlist)

text \<open>
  C31. The destructor of \<^verbatim>\<open>SimpleLinkedList\<close> counts up while the count of the list goes down: of \<open>n\<close>
  nodes it releases the first half, rounded up, and leaves the other \<open>n div 2\<close> nodes linked and allocated.
\<close>

theorem SimpleLinkedList_destroy_half:
  assumes "sl_ok m l as"
  shows "\<exists>m' l'. SimpleLinkedList_destroy m l = Inr (m', l') \<and> sl_ok m' l' (drop ((length as + 1) div 2) as) \<and>
    unat (sl_count l') = length as div 2"
proof -
  obtain m' l' where "SimpleLinkedList_destroy m l = Inr (m', l')" "sl_ok m' l' (drop ((length as + 1) div 2) as)"
    using sl_destroy_loop_ok [OF assms, of 0] by (auto simp: SimpleLinkedList_destroy_def loopR_def)
  moreover from this(2) have "unat (sl_count l') = length as div 2"
    by (simp add: sl_ok_def)
  ultimately show ?thesis
    by blast
qed

theorem SimpleLinkedList_destroy_half_witness:
  "\<exists>m' l'. SimpleLinkedList_destroy sample_nodes \<lparr>sl_count = 2, sl_start = 16\<rparr> = Inr (m', l') \<and> sl_ok m' l' [32]"
  using SimpleLinkedList_destroy_half [of sample_nodes "\<lparr>sl_count = 2, sl_start = 16\<rparr>" "[16, 32]"]
  by (auto simp: sl_ok_def sample_dlist)

text \<open>
  C32. The early node pool: \<^verbatim>\<open>NodePool_AllocateNode\<close> hands out the first free node and marks it, and from
  511 used nodes on it refuses (the 512th node is never handed out); \<^verbatim>\<open>NodePool_FreeNode\<close> of a node in use
  makes exactly that node free again. The count of used nodes stays the number of marked bits.
\<close>

theorem NodePool_alloc_free:
  assumes "pool_ok s"
  shows "(card (pool_used s) < 511 \<longrightarrow> (\<exists>s' n. NodePool_AllocateNode s = Inr (s', Some n) \<and> unat n \<notin> pool_used s \<and>
       (\<forall>j<unat n. j \<in> pool_used s) \<and> pool_ok s' \<and> pool_used s' = insert (unat n) (pool_used s))) \<and>
    (card (pool_used s) = 511 \<longrightarrow> NodePool_AllocateNode s = Inr (s, None)) \<and>
    (unat i \<in> pool_used s \<longrightarrow> (\<exists>s'. NodePool_FreeNode s i = Inr (s', True) \<and> pool_ok s' \<and> pool_used s' = pool_used s - {unat i}))"
proof (intro conjI impI)
  assume c: "card (pool_used s) < 511"
  then have "nodePool_UsedCount s \<noteq> POOL_SIZE - 1"
    using assms by (auto simp: pool_ok_def POOL_SIZE_def)
  then show "\<exists>s' n. NodePool_AllocateNode s = Inr (s', Some n) \<and> unat n \<notin> pool_used s \<and>
       (\<forall>j<unat n. j \<in> pool_used s) \<and> pool_ok s' \<and> pool_used s' = insert (unat n) (pool_used s)"
    using AllocateNode_loop_ok [OF assms c, of 0 512] by (auto simp: NodePool_AllocateNode_def POOL_SIZE_def)
next
  assume "card (pool_used s) = 511"
  then have "unat (nodePool_UsedCount s) = unat (POOL_SIZE - 1)"
    using assms by (simp add: pool_ok_def POOL_SIZE_def)
  then have "nodePool_UsedCount s = POOL_SIZE - 1"
    by (rule word_unat_eq_iff [THEN iffD2])
  then show "NodePool_AllocateNode s = Inr (s, None)"
    by (simp add: NodePool_AllocateNode_def)
next
  assume u: "unat i \<in> pool_used s"
  then have i: "unat i < 512"
    by (simp add: pool_used_def)
  obtain b where b: "RawBitmap_Set (nodePool_Bitmap s) i False = Inr b" "m_Size b = POOL_SIZE" "length (m_Buffer b) = 64"
    "\<forall>c. pool_used (s\<lparr>nodePool_Bitmap := b, nodePool_UsedCount := c\<rparr>) = pool_used s - {unat i}"
    using pool_set [OF assms i, of False] by auto
  have "unat (nodePool_UsedCount s) = Suc (card (pool_used s - {unat i}))"
    using assms u card_Suc_Diff1 [OF finite_pool_used u] by (simp add: pool_ok_def)
  then have "unat (nodePool_UsedCount s - 1) = card (pool_used s - {unat i})"
    by (rule unat_count_pred)
  then show "\<exists>s'. NodePool_FreeNode s i = Inr (s', True) \<and> pool_ok s' \<and> pool_used s' = pool_used s - {unat i}"
    using b i by (simp add: NodePool_FreeNode_def pool_ok_def POOL_SIZE_def word_less_nat_alt)
qed

theorem NodePool_alloc_free_witness:
  "\<exists>s' n. NodePool_AllocateNode NodePool_Init = Inr (s', Some n) \<and> pool_ok s' \<and> pool_used s' = {0}"
proof -
  have e: "pool_used NodePool_Init = {}"
    by (auto simp: pool_used_def NodePool_Init_def bitmap_bit_def)
  then have "pool_ok NodePool_Init"
    by (simp add: pool_ok_def NodePool_Init_def)
  then obtain s' n where "NodePool_AllocateNode NodePool_Init = Inr (s', Some n)" "\<forall>j<unat n. j \<in> pool_used NodePool_Init"
    "pool_ok s'" "pool_used s' = insert (unat n) (pool_used NodePool_Init)"
    using NodePool_alloc_free [of NodePool_Init 0] e by auto
  moreover from this(2) have "unat n = 0"
    unfolding e by blast
  ultimately show ?thesis
    using e by simp
qed

end
