(* ===== verification/VMRegionAllocator.thy ===== *)
theory VMRegionAllocator
  imports AVLTree Sync
begin

text \<open>
  The allocator of virtual address ranges, src/Memory/VMRegionAllocator.cpp. Every range of the region is
  a node of \<^verbatim>\<open>m_allPagesTree\<close>, and the free ranges are indexed by size in \<^verbatim>\<open>m_freePagesTree\<close>, whose values
  are linked lists of addresses. A list is the sequence of its data: \<^verbatim>\<open>insertNode\<close> appends, \<^verbatim>\<open>deleteNode\<close> by
  key removes the first occurrence, \<^verbatim>\<open>deleteNode\<close> of the first node drops it, which is what
  LinkedListProps proves of the code. Memory for nodes is taken to be available. Which of the two kernel heaps a list node
  comes from, and to which it is given back, is the argument \<^verbatim>\<open>vmm\<close> of both functions; the state keeps account of it.

  A pointer to a node of \<^verbatim>\<open>m_allPagesTree\<close> is its key, its value and whether it is linked into the tree:
  \<^verbatim>\<open>Insert\<close> of a key that is present returns a zeroed node that is not.
\<close>

section \<open>State\<close>

record CompleteTreeNodeData =
  region_size :: u64
  isFree :: bool
  isReserved :: bool

type_synonym apt = "CompleteTreeNodeData rbtree"
type_synonym apt_node = "u64 \<times> CompleteTreeNodeData \<times> bool"
type_synonym fpt = "u64 list rbtree"

text \<open>
  The list nodes by the address they hold: whether a node was allocated with \<^verbatim>\<open>kcalloc_vmm\<close> or with \<^verbatim>\<open>new\<close>, the nodes that
  went back to the heap they came from, and those that were given to the other one, which does not know them.
\<close>

record NodeHeaps =
  nh_vmm :: "u64 \<Rightarrow> bool"
  nh_back :: "u64 list"
  nh_lost :: "u64 list"

definition node_new :: "bool \<Rightarrow> u64 \<Rightarrow> NodeHeaps \<Rightarrow> NodeHeaps" where
  "node_new vmm a h = h\<lparr>nh_vmm := (nh_vmm h)(a := vmm)\<rparr>"

definition node_delete :: "bool \<Rightarrow> u64 \<Rightarrow> NodeHeaps \<Rightarrow> NodeHeaps" where
  "node_delete vmm a h = (if nh_vmm h a = vmm then h\<lparr>nh_back := nh_back h @ [a]\<rparr> else h\<lparr>nh_lost := nh_lost h @ [a]\<rparr>)"

record VMRegionAllocator =
  vma_start :: u64
  vma_end :: u64
  m_allPagesTree :: apt
  m_freePagesTree :: fpt
  vma_freePageCount :: u64
  vma_usedPageCount :: u64
  vma_reservedPageCount :: u64
  vma_totalPageCount :: u64
  vma_lock :: u64
  vma_heaps :: NodeHeaps

definition VMRegionAllocator_new :: VMRegionAllocator where
  "VMRegionAllocator_new =
     \<lparr>vma_start = - 1, vma_end = 0, m_allPagesTree = Null, m_freePagesTree = Null, vma_freePageCount = 0,
      vma_usedPageCount = 0, vma_reservedPageCount = 0, vma_totalPageCount = 0, vma_lock = 1,
      vma_heaps = \<lparr>nh_vmm = (\<lambda>_. True), nh_back = [], nh_lost = []\<rparr>\<rparr>"

definition vma_Lock :: "VMRegionAllocator \<Rightarrow> VMRegionAllocator res" where
  "vma_Lock s = bindR (Mutex_Lock (vma_lock s)) (\<lambda>l. Inr (s\<lparr>vma_lock := l\<rparr>))"

definition vma_Unlock :: "VMRegionAllocator \<Rightarrow> VMRegionAllocator" where
  "vma_Unlock s = s\<lparr>vma_lock := Mutex_Unlock (vma_lock s)\<rparr>"

definition lock_if :: "bool \<Rightarrow> VMRegionAllocator \<Rightarrow> VMRegionAllocator res" where
  "lock_if lk s = (if lk then vma_Lock s else Inr s)"

definition unlock_if :: "bool \<Rightarrow> VMRegionAllocator \<Rightarrow> VMRegionAllocator" where
  "unlock_if lk s = (if lk then vma_Unlock s else s)"

section \<open>Nodes\<close>

text \<open>Writing the value of a node of a tree.\<close>

fun set_value :: "'v rbtree \<Rightarrow> u64 \<Rightarrow> 'v \<Rightarrow> 'v rbtree" where
  "set_value Null k v = Null"
| "set_value (RBNode l lb a w rb r) k v =
     (if k < a then RBNode (set_value l k v) lb a w rb r
      else if a < k then RBNode l lb a w rb (set_value r k v)
      else RBNode l lb a v rb r)"

definition write_node :: "apt \<Rightarrow> apt_node \<Rightarrow> CompleteTreeNodeData \<Rightarrow> apt \<times> apt_node" where
  "write_node t node d =
     (case node of (k, _, linked) \<Rightarrow> (if linked then set_value t k d else t, (k, d, linked)))"

text \<open>A node that is not linked has no neighbour; removing it as if it were the root loses the tree.\<close>

definition node_previous :: "apt \<Rightarrow> apt_node \<Rightarrow> (u64 \<times> CompleteTreeNodeData) option" where
  "node_previous t node = (case node of (k, _, linked) \<Rightarrow> if linked then wAVLTree_PreviousNode t k else None)"

definition node_remove :: "apt \<Rightarrow> apt_node \<Rightarrow> apt" where
  "node_remove t node = (case node of (k, _, linked) \<Rightarrow> if linked then wAVLTree_RemoveNode t (Some k) else Null)"

text \<open>The size is a bit field of 62 bits.\<close>

definition SplitAPTNode :: "apt \<Rightarrow> apt_node \<Rightarrow> u64 \<Rightarrow> apt \<times> apt_node \<times> apt_node" where
  "SplitAPTNode t node numPages =
     (let nodeData = fst (snd node);
          oldPageCount = region_size nodeData;
          nodeData = nodeData\<lparr>region_size := take_bit 62 numPages\<rparr>;
          (t, node) = write_node t node nodeData;
          newNodeData = nodeData\<lparr>region_size := take_bit 62 (oldPageCount - numPages)\<rparr>;
          key = fst node + push_bit 12 numPages;
          (t, linked) = wAVLTree_Insert t key newNodeData in
      (t, node, (key, newNodeData, linked)))"

section \<open>The index of free ranges\<close>

definition free_insert :: "fpt \<Rightarrow> u64 \<Rightarrow> u64 \<Rightarrow> fpt" where
  "free_insert f n a =
     (case wAVLTree_FindNode f n of
        None \<Rightarrow> set_value (fst (wAVLTree_Insert f n [])) n [a]
      | Some (k, list) \<Rightarrow> set_value f k (list @ [a]))"

definition free_store :: "fpt \<Rightarrow> u64 \<Rightarrow> u64 list \<Rightarrow> fpt" where
  "free_store f k list = (if list = [] then wAVLTree_RemoveNode f (Some k) else set_value f k list)"

text \<open>The list under a size, empty when there is none.\<close>

definition free_list :: "fpt \<Rightarrow> u64 \<Rightarrow> u64 list" where
  "free_list f n = (case wAVLTree_FindNode f n of None \<Rightarrow> [] | Some (_, list) \<Rightarrow> list)"

section \<open>Operations\<close>

definition vma_Init :: "VMRegionAllocator \<Rightarrow> u64 \<Rightarrow> u64 \<Rightarrow> VMRegionAllocator" where
  "vma_Init s start end_addr =
     (let s = s\<lparr>vma_start := ALIGN_DOWN start PAGE_SIZE, vma_end := ALIGN_UP end_addr PAGE_SIZE\<rparr>;
          pageCount = (if vma_start s = 0 \<and> vma_end s = 0 then push_bit 52 1 else drop_bit 12 (vma_end s - vma_start s));
          nodeData = \<lparr>region_size = take_bit 62 pageCount, isFree = True, isReserved = False\<rparr> in
      s\<lparr>m_allPagesTree := fst (wAVLTree_Insert (m_allPagesTree s) (vma_start s) nodeData),
        m_freePagesTree := fst (wAVLTree_Insert (m_freePagesTree s) pageCount [vma_start s]),
        vma_heaps := node_new True (vma_start s) (vma_heaps s),
        vma_freePageCount := pageCount, vma_usedPageCount := 0, vma_reservedPageCount := 0,
        vma_totalPageCount := pageCount\<rparr>)"

text \<open>Clearing a list: its first node is deleted until there is none.\<close>

primrec Delete_list :: "u64 list \<Rightarrow> NodeHeaps \<Rightarrow> NodeHeaps" where
  "Delete_list [] h = h"
| "Delete_list (a # list) h = Delete_list list (node_delete True a h)"

definition vma_Delete :: "VMRegionAllocator \<Rightarrow> VMRegionAllocator res" where
  "vma_Delete s =
     bindR (vma_Lock s) (\<lambda>s.
     case wAVLTree_forEach (m_freePagesTree s) (\<lambda>_. Delete_list) (vma_heaps s) of
       None \<Rightarrow> Inl Diverged
     | Some h \<Rightarrow>
         (case (wAVLTree_Clear (m_freePagesTree s), wAVLTree_Clear (m_allPagesTree s)) of
            (Some f, Some t) \<Rightarrow>
              Inr (vma_Unlock (s\<lparr>m_freePagesTree := f, m_allPagesTree := t, vma_heaps := h, vma_freePageCount := 0,
                vma_usedPageCount := 0, vma_reservedPageCount := 0, vma_totalPageCount := 0\<rparr>))
          | _ \<Rightarrow> Inl Diverged))"

text \<open>The second half of \<^verbatim>\<open>AllocatePages\<close>: isolating the range in the tree of all pages.\<close>

definition AllocatePages_mark :: "VMRegionAllocator \<Rightarrow> u64 \<Rightarrow> u64 \<Rightarrow> VMRegionAllocator \<times> u64" where
  "AllocatePages_mark s start numPages =
     (case wAVLTree_FindNodeOrLower (m_allPagesTree s) start of
        None \<Rightarrow> (vma_Unlock s, 0)
      | Some (k, d) \<Rightarrow>
          (let (t, node) =
                 (if k < start then
                    (case SplitAPTNode (m_allPagesTree s) (k, d, True) (drop_bit 12 (start - k)) of (t, _, n) \<Rightarrow> (t, n))
                  else (m_allPagesTree s, (k, d, True)));
               s = s\<lparr>m_allPagesTree := t\<rparr> in
           if \<not> isFree (fst (snd node)) then (vma_Unlock s, 0)
           else
             (let (t, node) =
                    (if region_size (fst (snd node)) > numPages then
                       (case SplitAPTNode t node numPages of (t, n, _) \<Rightarrow> (t, n))
                     else (t, node));
                  (t, node) = write_node t node ((fst (snd node))\<lparr>isFree := False\<rparr>) in
              (vma_Unlock (s\<lparr>m_allPagesTree := t, vma_freePageCount := vma_freePageCount s - numPages,
                 vma_usedPageCount := vma_usedPageCount s + numPages\<rparr>), start))))"

definition vma_AllocatePages :: "VMRegionAllocator \<Rightarrow> u64 \<Rightarrow> (VMRegionAllocator \<times> u64) res" where
  "vma_AllocatePages s numPages =
     bindR (vma_Lock s) (\<lambda>s.
     case wAVLTree_FindNodeOrHigher (m_freePagesTree s) numPages of
       None \<Rightarrow> Inr (vma_Unlock s, 0)
     | Some (key, []) \<Rightarrow> Inl NullDeref
     | Some (key, start # rest) \<Rightarrow>
         (let f = free_store (m_freePagesTree s) key rest;
              h = node_delete True start (vma_heaps s);
              (f, h) =
                (if key > numPages then
                   (free_insert f (key - numPages) (start + push_bit 12 numPages), node_new True (start + push_bit 12 numPages) h)
                 else (f, h)) in
          Inr (AllocatePages_mark (s\<lparr>m_freePagesTree := f, vma_heaps := h\<rparr>) start numPages)))"

definition vma_AllocatePages_at :: "VMRegionAllocator \<Rightarrow> u64 \<Rightarrow> u64 \<Rightarrow> bool \<Rightarrow> (VMRegionAllocator \<times> u64) res" where
  "vma_AllocatePages_at s ptr numPages lk =
     bindR (lock_if lk s) (\<lambda>s.
     case wAVLTree_FindNodeOrLower (m_allPagesTree s) ptr of
       None \<Rightarrow> Inr (unlock_if lk s, 0)
     | Some (k, d) \<Rightarrow>
         if \<not> isFree d \<or> k + push_bit 12 (region_size d) < ptr + push_bit 12 numPages then Inr (unlock_if lk s, 0)
         else
           (case wAVLTree_FindNode (m_freePagesTree s) (region_size d) of
              None \<Rightarrow> Inr (unlock_if lk s, 0)
            | Some (fk, list) \<Rightarrow>
                (let f = free_store (m_freePagesTree s) fk (remove1 k list);
                     h = (if k \<in> set list then node_delete False k (vma_heaps s) else vma_heaps s);
                     h = (if k < ptr then node_new False k h else h);
                     (t, f, node) =
                       (if k < ptr then
                          (let pageCount = drop_bit 12 (ptr - k) in
                           case SplitAPTNode (m_allPagesTree s) (k, d, True) pageCount of (t, _, n) \<Rightarrow>
                             (t, free_insert f pageCount k, n))
                        else (m_allPagesTree s, f, (k, d, True)));
                     h = (if region_size (fst (snd node)) > numPages then node_new False (fst node + push_bit 12 numPages) h else h);
                     (t, f, node) =
                       (if region_size (fst (snd node)) > numPages then
                          (case SplitAPTNode t node numPages of (t, n, new) \<Rightarrow>
                             (t, free_insert f (region_size (fst (snd new))) (fst new), n))
                        else (t, f, node));
                     (t, node) = write_node t node ((fst (snd node))\<lparr>isFree := False\<rparr>) in
                 Inr (unlock_if lk (s\<lparr>m_allPagesTree := t, m_freePagesTree := f, vma_heaps := h,
                        vma_freePageCount := vma_freePageCount s - numPages,
                        vma_usedPageCount := vma_usedPageCount s + numPages\<rparr>), ptr))))"

text \<open>Step 1 of \<^verbatim>\<open>FreePages\<close>: the node of the range, or none where the function returns at once.\<close>

definition FreePages_node :: "apt \<Rightarrow> u64 \<Rightarrow> u64 \<Rightarrow> bool \<Rightarrow> (apt \<times> apt_node) option" where
  "FreePages_node t ptr numPages exact =
     (if exact then
        (case wAVLTree_FindNode t ptr of
           None \<Rightarrow> None
         | Some (k, d) \<Rightarrow> if isFree d \<or> region_size d \<noteq> numPages then None else Some (t, (k, d, True)))
      else
        (case wAVLTree_FindNodeOrLower t ptr of
           None \<Rightarrow> None
         | Some (k, d) \<Rightarrow>
             if isFree d \<or> k + region_size d * PAGE_SIZE < ptr + numPages * PAGE_SIZE then None
             else
               (let (t, node) =
                      (if k < ptr then
                         (case SplitAPTNode t (k, d, True) (drop_bit 12 (ptr - k)) of (t, _, n) \<Rightarrow> (t, n))
                       else (t, (k, d, True)));
                    (t, node) =
                      (if region_size (fst (snd node)) \<noteq> numPages then
                         (case SplitAPTNode t node numPages of (t, n, _) \<Rightarrow> (t, n))
                       else (t, node)) in
                Some (t, node))))"

text \<open>Steps 2 and 3: joining the neighbours; the regions to take out of the index, and the one to put in.\<close>

definition merge_previous :: "apt \<Rightarrow> apt_node \<Rightarrow> u64 \<Rightarrow> u64 \<Rightarrow> apt \<times> (u64 \<times> u64) \<times> (u64 \<times> u64) list" where
  "merge_previous t node ptr numPages =
     (case node_previous t node of
        Some (pk, pd) \<Rightarrow>
          if isFree pd \<and> pk + push_bit 12 (region_size pd) = ptr then
            (node_remove (wAVLTree_RemoveNode t (Some pk)) node, (pk, numPages + region_size pd), [(pk, region_size pd)])
          else (t, (ptr, numPages), [])
      | None \<Rightarrow> (t, (ptr, numPages), []))"

definition merge_next ::
  "apt \<Rightarrow> apt_node \<Rightarrow> u64 \<Rightarrow> u64 \<Rightarrow> u64 \<times> u64 \<Rightarrow> (u64 \<times> u64) list \<Rightarrow> apt \<times> (u64 \<times> u64) \<times> (u64 \<times> u64) list" where
  "merge_next t node ptr numPages ins regions =
     (case wAVLTree_FindNodeOrHigher t (ptr + push_bit 12 numPages) of
        Some (nk, nd) \<Rightarrow>
          if isFree nd \<and> ptr + push_bit 12 numPages = nk then
            (let t = wAVLTree_RemoveNode t (Some nk) in
             (if regions = [] then node_remove t node else t, (fst ins, snd ins + region_size nd), regions @ [(nk, region_size nd)]))
          else (t, ins, regions)
      | None \<Rightarrow> (t, ins, regions))"

definition FreePages_merge :: "apt \<Rightarrow> apt_node \<Rightarrow> u64 \<Rightarrow> u64 \<Rightarrow> apt \<times> (u64 \<times> u64) \<times> (u64 \<times> u64) list" where
  "FreePages_merge t node ptr numPages =
     (let (t, ins, regions) = merge_previous t node ptr numPages;
          (t, ins, regions) = merge_next t node ptr numPages ins regions;
          t = (if regions \<noteq> [] then
                 fst (wAVLTree_Insert t (fst ins) \<lparr>region_size = take_bit 62 (snd ins), isFree = True, isReserved = False\<rparr>)
               else t) in
      (t, ins, regions))"

text \<open>Step 4: taking the joined regions out of the index.\<close>

definition free_remove :: "fpt \<Rightarrow> u64 \<Rightarrow> u64 \<Rightarrow> fpt" where
  "free_remove f n a =
     (case wAVLTree_FindNode f n of None \<Rightarrow> f | Some (k, list) \<Rightarrow> free_store f k (remove1 a list))"

definition free_release :: "fpt \<Rightarrow> u64 \<Rightarrow> u64 \<Rightarrow> NodeHeaps \<Rightarrow> NodeHeaps" where
  "free_release f n a h = (if a \<in> set (free_list f n) then node_delete True a h else h)"

definition vma_FreePages :: "VMRegionAllocator \<Rightarrow> u64 \<Rightarrow> u64 \<Rightarrow> bool \<Rightarrow> bool \<Rightarrow> VMRegionAllocator res" where
  "vma_FreePages s ptr numPages exact lk =
     bindR (lock_if lk s) (\<lambda>s.
     case FreePages_node (m_allPagesTree s) ptr numPages exact of
       None \<Rightarrow> Inr (unlock_if lk s)
     | Some (t, node) \<Rightarrow>
         (let (t, node) = write_node t node ((fst (snd node))\<lparr>isFree := True\<rparr>);
              (t, ins, regions) = FreePages_merge t node ptr numPages;
              (f, h) = fold (\<lambda>(a, n) (f, h). (free_remove f n a, free_release f n a h)) regions (m_freePagesTree s, vma_heaps s);
              f = free_insert f (snd ins) (fst ins);
              h = node_new True (fst ins) h in
          assertR (fst ins \<in> set (free_list f (snd ins)))
          (Inr (unlock_if lk (s\<lparr>m_allPagesTree := t, m_freePagesTree := f, vma_heaps := h,
                  vma_freePageCount := vma_freePageCount s + numPages,
                  vma_usedPageCount := vma_usedPageCount s - numPages\<rparr>)))))"

definition vma_ResizeAllocatedRegion :: "VMRegionAllocator \<Rightarrow> u64 \<Rightarrow> u64 \<Rightarrow> u64 \<Rightarrow> u64 \<Rightarrow> (VMRegionAllocator \<times> bool) res" where
  "vma_ResizeAllocatedRegion s ptr numPages newStart newNumPages =
     bindR (vma_Lock s) (\<lambda>s.
     case wAVLTree_FindNode (m_allPagesTree s) ptr of
       None \<Rightarrow> Inr (vma_Unlock s, False)
     | Some (k, d) \<Rightarrow>
         if isFree d \<or> region_size d \<noteq> numPages then Inr (vma_Unlock s, False)
         else
           (let (t, node) =
                  (if ptr < newStart then
                     (case SplitAPTNode (m_allPagesTree s) (k, d, True) (drop_bit 12 (newStart - ptr)) of (t, _, n) \<Rightarrow> (t, n))
                   else (m_allPagesTree s, (k, d, True)));
                t = (if region_size (fst (snd node)) \<noteq> newNumPages then fst (SplitAPTNode t node newNumPages) else t) in
            Inr (vma_Unlock (s\<lparr>m_allPagesTree := t\<rparr>), True)))"

definition vma_Fork :: "VMRegionAllocator \<Rightarrow> VMRegionAllocator \<Rightarrow> (VMRegionAllocator \<times> VMRegionAllocator) res" where
  "vma_Fork s other =
     bindR (vma_Lock other) (\<lambda>other. bindR (vma_Lock s) (\<lambda>s.
     case (wAVLTree_forEach (m_allPagesTree other) (\<lambda>k d t. fst (wAVLTree_Insert t k d)) (m_allPagesTree s),
           wAVLTree_forEach (m_freePagesTree other)
             (\<lambda>k list (f, h). (fst (wAVLTree_Insert f k list), fold (node_new True) list h)) (m_freePagesTree s, vma_heaps s)) of
       (Some t, Some (f, h)) \<Rightarrow>
         Inr (vma_Unlock (s\<lparr>m_allPagesTree := t, m_freePagesTree := f, vma_heaps := h, vma_start := vma_start other, vma_end := vma_end other,
                vma_freePageCount := vma_freePageCount other, vma_usedPageCount := vma_usedPageCount other,
                vma_reservedPageCount := vma_reservedPageCount other, vma_totalPageCount := vma_totalPageCount other\<rparr>),
              vma_Unlock other)
     | _ \<Rightarrow> Inl Diverged))"

definition Verify_node :: "fpt \<Rightarrow> u64 \<Rightarrow> CompleteTreeNodeData \<Rightarrow> unit res \<Rightarrow> unit res" where
  "Verify_node f key d r =
     bindR r (\<lambda>_.
     assertR (region_size d > 0)
     (if isFree d then
        (case wAVLTree_FindNode f (region_size d) of
           None \<Rightarrow> Inl AssertFailed
         | Some (_, list) \<Rightarrow> assertR (list \<noteq> []) (assertR (key \<in> set list) (Inr ())))
      else Inr ()))"

definition vma_Verify :: "VMRegionAllocator \<Rightarrow> unit res" where
  "vma_Verify s =
     assertR (vma_start s \<noteq> - 1) (assertR (vma_end s \<noteq> 0) (assertR (vma_start s < vma_end s)
     (assertR (vma_freePageCount s + vma_usedPageCount s + vma_reservedPageCount s = vma_totalPageCount s)
     (loopR (wAVLTree_forEach (m_allPagesTree s) (Verify_node (m_freePagesTree s)) (Inr ()))))))"

definition vma_GetStart :: "VMRegionAllocator \<Rightarrow> u64" where
  "vma_GetStart s = vma_start s"

definition vma_GetEnd :: "VMRegionAllocator \<Rightarrow> u64" where
  "vma_GetEnd s = vma_end s"

end
