(* ===== verification/VMRegionTiles.thy ===== *)
theory VMRegionTiles
  imports VMRegionAllocator
begin

text \<open>
  The ranges of a region allocator as a list that tiles an interval of addresses, and the index of its
  free ranges by size.
\<close>

section \<open>Values of tree nodes\<close>

lemma set_value_Null [simp]: "set_value t k v = Null \<longleftrightarrow> t = Null"
  by (cases t) auto

lemma set_value_rank [simp]: "rank (set_value t k v) = rank t"
  by (induction t) auto

lemma set_value_balanced [simp]: "balanced (set_value t k v) = balanced t"
  by (induction t) auto

lemma set_value_entries:
  "sorted_keys (entries t) \<Longrightarrow> entries (set_value t k v) = map (\<lambda>p. if fst p = k then (k, v) else p) (entries t)"
proof (induction t)
  case (RBNode l lb a w rb r)
  have srt: "sorted_keys (entries l)" "sorted_keys (entries r)" "\<forall>p\<in>set (entries l). fst p < a" "\<forall>p\<in>set (entries r). a < fst p"
    using RBNode.prems by (auto simp: sorted_wrt_append)
  have "map (\<lambda>p. if fst p = k then (k, v) else p) (entries l) = entries l" if "a \<le> k"
    using srt(3) that by (intro map_idI) auto
  moreover have "map (\<lambda>p. if fst p = k then (k, v) else p) (entries r) = entries r" if "k \<le> a"
    using srt(4) that by (intro map_idI) auto
  ultimately show ?case
    using RBNode.IH srt(1,2) by (auto simp: not_less)
qed simp

lemma set_value_keys: "sorted_keys (entries t) \<Longrightarrow> map fst (entries (set_value t k v)) = map fst (entries t)"
  by (simp add: set_value_entries)

lemma set_value_invar: "tree_invar t \<Longrightarrow> tree_invar (set_value t k v)"
  using set_value_keys [of t k v] by (simp add: tree_invar_def)

lemma set_value_look:
  "tree_invar t \<Longrightarrow> wAVLTree_Find (set_value t k v) j = (if j = k \<and> wAVLTree_Find t k \<noteq> None then Some v else wAVLTree_Find t j)"
proof -
  assume inv: "tree_invar t"
  have "map_of (map (\<lambda>p. if fst p = k then (k, v) else p) ps) j =
      (if j = k \<and> map_of ps k \<noteq> None then Some v else map_of ps j)" for ps :: "(u64 \<times> 'a) list"
    by (induction ps) auto
  then show ?thesis
    using inv by (simp add: Find_entries set_value_invar set_value_entries tree_invar_sorted)
qed

lemma set_value_split:
  "tree_invar t \<Longrightarrow> entries t = xs @ (k, w) # ys \<Longrightarrow> entries (set_value t k v) = xs @ (k, v) # ys"
  using tree_invar_sorted [of t] by (auto simp: set_value_entries sorted_wrt_append intro!: map_idI)

text \<open>Insertion and removal at a known place.\<close>

lemma ins_entry_split:
  "sorted_keys (xs @ ys) \<Longrightarrow> (\<And>p. p \<in> set xs \<Longrightarrow> fst p < k) \<Longrightarrow> (\<And>p. p \<in> set ys \<Longrightarrow> k < fst p) \<Longrightarrow>
   ins_entry k v (xs @ ys) = xs @ (k, v) # ys"
proof (induction xs)
  case Nil
  then show ?case
    by (cases ys) auto
qed fastforce

lemma RemoveNode_invar: "tree_invar t \<Longrightarrow> tree_invar (wAVLTree_RemoveNode t (Some k))"
  and RemoveNode_entries: "tree_invar t \<Longrightarrow> entries (wAVLTree_RemoveNode t (Some k)) = del_entry k (entries t)"
  by (simp_all add: wAVLTree_RemoveNode_def RB_REMOVE_invar RB_REMOVE_entries)

lemma RemoveNode_look:
  "tree_invar t \<Longrightarrow> wAVLTree_Find (wAVLTree_RemoveNode t (Some k)) j = (if j = k then None else wAVLTree_Find t j)"
  by (simp add: Find_entries RemoveNode_invar RemoveNode_entries map_of_del_entry)

lemma FindNode_Find: "tree_invar t \<Longrightarrow> wAVLTree_FindNode t k = map_option (Pair k) (wAVLTree_Find t k)"
  by (simp add: wAVLTree_FindNode_def Find_entries RB_FIND_entries tree_invar_sorted)

lemma remove_split:
  "tree_invar t \<Longrightarrow> entries t = xs @ (k, w) # ys \<Longrightarrow> entries (wAVLTree_RemoveNode t (Some k)) = xs @ ys"
  using tree_invar_sorted [of t] del_entry_absent [of k xs] del_entry_absent [of k ys]
  by (fastforce simp: RemoveNode_entries sorted_wrt_append)

section \<open>The index of free ranges\<close>

definition index_ok :: "(u64 \<times> u64) set \<Rightarrow> fpt \<Rightarrow> bool" where
  "index_ok F f \<longleftrightarrow> tree_invar f \<and> (\<forall>n. distinct (free_list f n) \<and> set (free_list f n) = {a. (n, a) \<in> F}) \<and>
     (\<forall>n. wAVLTree_Find f n \<noteq> Some [])"

lemma free_list_Find: "tree_invar f \<Longrightarrow> free_list f n = (case wAVLTree_Find f n of None \<Rightarrow> [] | Some l \<Rightarrow> l)"
  by (simp add: free_list_def FindNode_Find split: option.split)

lemma free_insert_ok:
  assumes "index_ok F f" "(n, a) \<notin> F"
  shows "index_ok (insert (n, a) F) (free_insert f n a)"
proof -
  have inv: "tree_invar f"
    using assms(1) by (simp add: index_ok_def)
  have look: "wAVLTree_Find (free_insert f n a) j = (if j = n then Some (free_list f n @ [a]) else wAVLTree_Find f j)" for j
    using inv by (auto simp: free_insert_def FindNode_Find free_list_Find set_value_look Insert_invar tree.look_ins split: option.split)
  have "tree_invar (free_insert f n a)"
    using inv by (auto simp: free_insert_def FindNode_Find set_value_invar Insert_invar split: option.split)
  then show ?thesis
    using assms inv by (auto simp: index_ok_def free_list_Find look)
qed

lemma free_store_ok:
  assumes "index_ok F f" "wAVLTree_Find f n = Some l" "set l' = set l - {a}" "distinct l'"
  shows "index_ok (F - {(n, a)}) (free_store f n l')"
proof -
  have inv: "tree_invar f"
    using assms(1) by (simp add: index_ok_def)
  have look: "wAVLTree_Find (free_store f n l') j = (if j = n then (if l' = [] then None else Some l') else wAVLTree_Find f j)" for j
    using inv assms(2) by (auto simp: free_store_def set_value_look RemoveNode_look)
  have l: "set l = {a. (n, a) \<in> F}"
    using assms(1,2) inv by (force simp: index_ok_def free_list_Find)
  have "tree_invar (free_store f n l')"
    using inv by (auto simp: free_store_def set_value_invar RemoveNode_invar)
  then show ?thesis
    using assms(1,3,4) inv l by (auto simp: index_ok_def free_list_Find look)
qed

lemma index_member:
  assumes "index_ok F f" "(n, a) \<in> F"
  shows "\<exists>l. wAVLTree_Find f n = Some l \<and> a \<in> set l \<and> distinct l"
proof -
  have "a \<in> set (free_list f n)" "distinct (free_list f n)" "tree_invar f"
    using assms by (auto simp: index_ok_def)
  then show ?thesis
    by (cases "wAVLTree_Find f n") (auto simp: free_list_Find)
qed

lemma free_remove_ok:
  assumes "index_ok F f" "(n, a) \<in> F"
  shows "index_ok (F - {(n, a)}) (free_remove f n a)"
proof -
  obtain l where l: "wAVLTree_Find f n = Some l" "distinct l"
    using index_member [OF assms] by blast
  then have "free_remove f n a = free_store f n (remove1 a l)"
    using assms(1) by (simp add: free_remove_def FindNode_Find index_ok_def)
  then show ?thesis
    using free_store_ok [OF assms(1) l(1), of "remove1 a l" a] l(2) by simp
qed

section \<open>Tilings\<close>

abbreviation region_bytes :: "CompleteTreeNodeData \<Rightarrow> nat" where
  "region_bytes d \<equiv> unat (region_size d) * 4096"

fun tiles :: "nat \<Rightarrow> (u64 \<times> CompleteTreeNodeData) list \<Rightarrow> nat \<Rightarrow> bool" where
  "tiles lo [] hi \<longleftrightarrow> lo = hi"
| "tiles lo (p # ps) hi \<longleftrightarrow> unat (fst p) = lo \<and> region_size (snd p) \<noteq> 0 \<and> tiles (lo + region_bytes (snd p)) ps hi"

definition free_set :: "(u64 \<times> CompleteTreeNodeData) list \<Rightarrow> (u64 \<times> u64) set" where
  "free_set ps = {(n, a). \<exists>d. (a, d) \<in> set ps \<and> isFree d \<and> region_size d = n}"

definition pages :: "(CompleteTreeNodeData \<Rightarrow> bool) \<Rightarrow> (u64 \<times> CompleteTreeNodeData) list \<Rightarrow> nat" where
  "pages P ps = (\<Sum>p\<leftarrow>ps. if P (snd p) then unat (region_size (snd p)) else 0)"

definition free_bytes :: "(u64 \<times> CompleteTreeNodeData) list \<Rightarrow> nat set" where
  "free_bytes ps = (\<Union>p\<in>{p \<in> set ps. isFree (snd p)}. {unat (fst p) ..< unat (fst p) + region_bytes (snd p)})"

abbreviation coalesced :: "(u64 \<times> CompleteTreeNodeData) list \<Rightarrow> bool" where
  "coalesced ps \<equiv> successively (\<lambda>p q. \<not> (isFree (snd p) \<and> isFree (snd q))) ps"

lemma tiles_append: "tiles lo (xs @ ys) hi \<longleftrightarrow> (\<exists>mid. tiles lo xs mid \<and> tiles mid ys hi)"
  by (induction xs arbitrary: lo) auto

lemma tiles_le: "tiles lo ps hi \<Longrightarrow> lo \<le> hi"
  by (induction ps arbitrary: lo) fastforce+

lemma tiles_bounds:
  "tiles lo ps hi \<Longrightarrow> p \<in> set ps \<Longrightarrow> lo \<le> unat (fst p) \<and> unat (fst p) + region_bytes (snd p) \<le> hi \<and> 0 < unat (region_size (snd p))"
proof (induction ps arbitrary: lo)
  case (Cons q ps)
  have h: "tiles (lo + region_bytes (snd q)) ps hi" "unat (fst q) = lo" "region_size (snd q) \<noteq> 0"
    using Cons.prems(1) by auto
  show ?case
  proof (cases "p = q")
    case True
    then show ?thesis
      using h tiles_le [OF h(1)] by (simp add: unat_gt_0)
  next
    case False
    then show ?thesis
      using Cons.IH [OF h(1)] Cons.prems(2) by force
  qed
qed simp

lemma tiles_find:
  "tiles lo ps hi \<Longrightarrow> lo \<le> x \<Longrightarrow> x < hi \<Longrightarrow>
   \<exists>xs p ys. ps = xs @ p # ys \<and> unat (fst p) \<le> x \<and> x < unat (fst p) + region_bytes (snd p)"
proof (induction ps arbitrary: lo)
  case (Cons q ps)
  show ?case
  proof (cases "x < lo + region_bytes (snd q)")
    case True
    then show ?thesis
      using Cons.prems by (intro exI [of _ "[]"] exI [of _ q] exI [of _ ps]) auto
  next
    case False
    then obtain xs p ys where "ps = xs @ p # ys" "unat (fst p) \<le> x" "x < unat (fst p) + region_bytes (snd p)"
      using Cons.IH [of "lo + region_bytes (snd q)"] Cons.prems by auto
    then show ?thesis
      by (intro exI [of _ "q # xs"] exI [of _ p] exI [of _ ys]) auto
  qed
qed simp

text \<open>The place of one range in a tiling.\<close>

lemma tiles_split:
  assumes "tiles lo (xs @ (k, d) # ys) hi"
  shows "tiles lo xs (unat k)" "tiles (unat k + region_bytes d) ys hi" "0 < unat (region_size d)" "unat k + region_bytes d \<le> hi"
    "\<And>p. p \<in> set xs \<Longrightarrow> unat (fst p) + region_bytes (snd p) \<le> unat k \<and> unat (fst p) < unat k"
    "\<And>p. p \<in> set ys \<Longrightarrow> unat k + region_bytes d \<le> unat (fst p) \<and> unat k < unat (fst p)"
proof -
  show x: "tiles lo xs (unat k)" and y: "tiles (unat k + region_bytes d) ys hi" and "0 < unat (region_size d)"
    using assms by (auto simp: tiles_append unat_gt_0)
  then show "unat k + region_bytes d \<le> hi"
    using tiles_le by blast
  show "unat (fst p) + region_bytes (snd p) \<le> unat k \<and> unat (fst p) < unat k" if "p \<in> set xs" for p
    using tiles_bounds [OF x that] by auto
  show "unat k + region_bytes d \<le> unat (fst p) \<and> unat k < unat (fst p)" if "p \<in> set ys" for p
    using tiles_bounds [OF y that] \<open>0 < unat (region_size d)\<close> by auto
qed

lemma list_measures [simp]:
  "pages P [] = 0" "pages P (p # ps) = (if P (snd p) then unat (region_size (snd p)) else 0) + pages P ps"
  "pages P (ps @ qs) = pages P ps + pages P qs"
  "free_bytes [] = {}" "free_bytes (ps @ qs) = free_bytes ps \<union> free_bytes qs"
  "free_bytes (p # ps) = (if isFree (snd p) then {unat (fst p) ..< unat (fst p) + region_bytes (snd p)} else {}) \<union> free_bytes ps"
  "free_set [] = {}" "free_set (ps @ qs) = free_set ps \<union> free_set qs"
  "free_set (p # ps) = (if isFree (snd p) then {(region_size (snd p), fst p)} else {}) \<union> free_set ps"
  by (cases p; auto simp: pages_def free_bytes_def free_set_def)+

lemma pages_total: "tiles lo ps hi \<Longrightarrow> lo + (pages isFree ps + pages (\<lambda>d. \<not> isFree d) ps) * 4096 = hi"
proof (induction ps arbitrary: lo)
  case (Cons p ps)
  then have "lo + region_bytes (snd p) + (pages isFree ps + pages (\<lambda>d. \<not> isFree d) ps) * 4096 = hi"
    by simp
  then show ?case
    by (simp add: algebra_simps)
qed simp

lemma free_set_key: "(n, a) \<in> free_set ps \<Longrightarrow> \<exists>d. (a, d) \<in> set ps \<and> isFree d \<and> region_size d = n"
  by (simp add: free_set_def)

lemma free_bytes_bounds:
  assumes "x \<in> free_bytes ps" "tiles lo ps hi"
  shows "lo \<le> x" "x < hi"
proof -
  obtain p where p: "p \<in> set ps" "unat (fst p) \<le> x" "x < unat (fst p) + region_bytes (snd p)"
    using assms(1) by (auto simp: free_bytes_def)
  show "lo \<le> x" "x < hi"
    using tiles_bounds [OF assms(2) p(1)] p(2,3) by auto
qed

text \<open>A free range that a use takes pages out of: what is left in front and behind.\<close>

definition frag :: "u64 \<Rightarrow> u64 \<Rightarrow> CompleteTreeNodeData \<Rightarrow> (u64 \<times> CompleteTreeNodeData) list" where
  "frag k n d = (if n = 0 then [] else [(k, d\<lparr>region_size := n\<rparr>)])"

definition taken :: "u64 \<Rightarrow> u64 \<Rightarrow> u64 \<Rightarrow> u64 \<Rightarrow> CompleteTreeNodeData \<Rightarrow> (u64 \<times> CompleteTreeNodeData) list" where
  "taken k pre n post d =
     frag k pre d @ (k + push_bit 12 pre, d\<lparr>region_size := n, isFree := False\<rparr>) # frag (k + push_bit 12 (pre + n)) post d"

lemma unat_push_12: "unat k + unat (n :: u64) * 4096 < 2 ^ 64 \<Longrightarrow> unat (k + push_bit 12 n) = unat k + unat n * 4096"
proof -
  assume a: "unat k + unat n * 4096 < 2 ^ 64"
  have "push_bit 12 n = n * 4096"
    by (simp add: push_bit_eq_mult)
  moreover have "unat (n * 4096) = unat n * 4096"
    using a by (subst unat_mult_nowrap) auto
  ultimately show ?thesis
    using a by (subst unat_add_nowrap) auto
qed

lemma taken_ok:
  assumes t: "tiles lo (xs @ (k, d) # ys) hi" and hi: "hi < 2 ^ 64" and c: "coalesced (xs @ (k, d) # ys)" and f: "isFree d"
    and n: "unat pre + unat n + unat post = unat (region_size d)" "n \<noteq> 0"
  defines "L \<equiv> xs @ taken k pre n post d @ ys"
  shows "tiles lo L hi" "coalesced L"
    "pages isFree L + unat n = pages isFree (xs @ (k, d) # ys)"
    "pages (\<lambda>d. \<not> isFree d) L = pages (\<lambda>d. \<not> isFree d) (xs @ (k, d) # ys) + unat n"
    "free_bytes L = free_bytes (xs @ (k, d) # ys) - {unat k + unat pre * 4096 ..< unat k + unat pre * 4096 + unat n * 4096}"
    "free_set L = free_set (xs @ (k, d) # ys) - {(region_size d, k)} \<union> (if pre = 0 then {} else {(pre, k)}) \<union>
       (if post = 0 then {} else {(post, k + push_bit 12 (pre + n))})"
    "pre \<noteq> 0 \<longrightarrow> (pre, k) \<notin> free_set (xs @ (k, d) # ys) - {(region_size d, k)}"
    "post \<noteq> 0 \<longrightarrow> (post, k + push_bit 12 (pre + n)) \<notin> free_set (xs @ (k, d) # ys) \<union> {(pre, k)}"
proof -
  note sp = tiles_split [OF t]
  have hi': "unat k + region_bytes d < 2 ^ 64"
    using sp(4) hi by linarith
  have pn: "unat (pre + n) = unat pre + unat n"
    using n(1) by (subst unat_add_nowrap) (auto intro: le_less_trans [OF _ unat_lt_2p64 [of "region_size d"]])
  have k1: "unat (k + push_bit 12 pre) = unat k + unat pre * 4096"
    using n(1) hi' by (intro unat_push_12) linarith
  have k2: "unat (k + push_bit 12 (pre + n)) = unat k + (unat pre + unat n) * 4096"
    using n(1) hi' pn by (subst unat_push_12) auto
  have bytes: "region_bytes d = unat pre * 4096 + unat n * 4096 + unat post * 4096"
    using n(1) by (simp add: algebra_simps flip: n(1))
  show "tiles lo L hi"
    using sp(1,2) n(2) k1 k2 bytes by (auto simp: L_def tiles_append taken_def frag_def algebra_simps)
  show "coalesced L"
    using c f by (cases xs rule: rev_cases; cases ys) (auto simp: L_def taken_def frag_def successively_append_iff successively_Cons)
  show "pages isFree L + unat n = pages isFree (xs @ (k, d) # ys)"
    using f n(1) by (cases "pre = 0"; cases "post = 0") (simp_all add: L_def taken_def frag_def)
  show "pages (\<lambda>d. \<not> isFree d) L = pages (\<lambda>d. \<not> isFree d) (xs @ (k, d) # ys) + unat n"
    using f by (simp add: L_def taken_def frag_def)
  have k2n: "k + push_bit 12 (pre + n) \<notin> fst ` set (xs @ (k, d) # ys)" if "post \<noteq> 0"
  proof -
    have *: "unat k < unat (k + push_bit 12 (pre + n))" "unat (k + push_bit 12 (pre + n)) < unat k + region_bytes d"
      using k2 bytes that n(2) by (auto simp: unat_gt_0 algebra_simps)
    then show ?thesis
      using sp(5,6) by (auto dest!: sp(5) sp(6))
  qed
  have kn: "k \<notin> fst ` set xs" "k \<notin> fst ` set ys"
    using sp(5,6) by force+
  have fk: "free_set (xs @ (k, d) # ys) - {(region_size d, k)} = free_set xs \<union> free_set ys"
    using f kn by (auto simp: free_set_def image_iff)
  show "free_set L = free_set (xs @ (k, d) # ys) - {(region_size d, k)} \<union> (if pre = 0 then {} else {(pre, k)}) \<union>
       (if post = 0 then {} else {(post, k + push_bit 12 (pre + n))})"
    unfolding fk using f by (auto simp: L_def taken_def frag_def)
  show "pre \<noteq> 0 \<longrightarrow> (pre, k) \<notin> free_set (xs @ (k, d) # ys) - {(region_size d, k)}"
    unfolding fk using kn by (auto dest!: free_set_key simp: image_iff)
  show "post \<noteq> 0 \<longrightarrow> (post, k + push_bit 12 (pre + n)) \<notin> free_set (xs @ (k, d) # ys) \<union> {(pre, k)}"
  proof
    assume "post \<noteq> 0"
    then have "\<forall>p\<in>set (xs @ (k, d) # ys). fst p \<noteq> k + push_bit 12 (pre + n)"
      using k2n by force
    then have "\<nexists>d'. (k + push_bit 12 (pre + n), d') \<in> set (xs @ (k, d) # ys)" "k \<noteq> k + push_bit 12 (pre + n)"
      by (force, simp)
    then show "(post, k + push_bit 12 (pre + n)) \<notin> free_set (xs @ (k, d) # ys) \<union> {(pre, k)}"
      using free_set_key [of post "k + push_bit 12 (pre + n)" "xs @ (k, d) # ys"] by (metis Un_iff prod.inject singletonD)
  qed
  have out: "free_bytes xs \<inter> {unat k ..< unat k + region_bytes d} = {}" "free_bytes ys \<inter> {unat k ..< unat k + region_bytes d} = {}"
    using free_bytes_bounds [OF _ sp(1)] free_bytes_bounds [OF _ sp(2)] by force+
  define A where "A = {unat k ..< unat k + unat pre * 4096}"
  define B where "B = {unat k + (unat pre + unat n) * 4096 ..< unat k + (unat pre + unat n) * 4096 + unat post * 4096}"
  define N where "N = {unat k + unat pre * 4096 ..< unat k + unat pre * 4096 + unat n * 4096}"
  define K where "K = {unat k ..< unat k + region_bytes d}"
  have "K - N = A \<union> B" "N \<subseteq> K"
    unfolding K_def N_def A_def B_def bytes by auto
  moreover have "free_bytes L = free_bytes xs \<union> A \<union> B \<union> free_bytes ys"
    using f k2 by (cases "pre = 0"; cases "post = 0") (auto simp: L_def taken_def frag_def A_def B_def)
  moreover have "free_bytes (xs @ (k, d) # ys) = free_bytes xs \<union> K \<union> free_bytes ys"
    using f by (auto simp: K_def)
  ultimately have "free_bytes L = free_bytes (xs @ (k, d) # ys) - N"
    using out [folded K_def] by blast
  then show "free_bytes L = free_bytes (xs @ (k, d) # ys) - {unat k + unat pre * 4096 ..< unat k + unat pre * 4096 + unat n * 4096}"
    by (simp only: N_def)
qed

text \<open>A used range that becomes free and joins the free ranges beside it: none or one on each side.\<close>

definition lone_free :: "(u64 \<times> CompleteTreeNodeData) list \<Rightarrow> bool" where
  "lone_free A \<longleftrightarrow> A = [] \<or> (\<exists>p. A = [p] \<and> isFree (snd p))"

lemma joined_ok:
  assumes t: "tiles lo ((xs @ A) @ (k, d) # B @ ys) hi" and c: "coalesced ((xs @ A) @ (k, d) # B @ ys)" and u: "\<not> isFree d"
    and A: "lone_free A" "A \<noteq> [] \<or> xs = [] \<or> \<not> isFree (snd (last xs))"
    and B: "lone_free B" "B \<noteq> [] \<or> ys = [] \<or> \<not> isFree (snd (hd ys))"
    and d': "isFree d'" "unat (region_size d') = pages isFree A + unat (region_size d) + pages isFree B"
    and k': "k' = (if A = [] then k else fst (hd A))"
  defines "old \<equiv> (xs @ A) @ (k, d) # B @ ys" and "new \<equiv> xs @ (k', d') # ys"
  shows "tiles lo new hi" "coalesced new"
    "pages isFree new = pages isFree old + unat (region_size d)"
    "pages (\<lambda>d. \<not> isFree d) new + unat (region_size d) = pages (\<lambda>d. \<not> isFree d) old"
    "free_bytes new = free_bytes old \<union> {unat k ..< unat k + region_bytes d}"
    "free_set new = insert (region_size d', k') (free_set old - free_set A - free_set B)"
    "(region_size d', k') \<notin> free_set old - free_set A - free_set B"
proof -
  note sp = tiles_split [OF t]
  have tt: "tiles lo (xs @ A @ (k, d) # B @ ys) hi"
    using t by simp
  have d0: "region_size d' \<noteq> 0"
    using d'(2) sp(3) by auto
  obtain ta where ta: "tiles lo xs ta" "tiles ta A (unat k)"
    using sp(1) by (auto simp: tiles_append)
  obtain tb where tb: "tiles (unat k + region_bytes d) B tb" "tiles tb ys hi"
    using sp(2) by (auto simp: tiles_append)
  have ta': "unat k = ta + pages isFree A * 4096"
    using ta(2) A(1) by (auto simp: lone_free_def)
  have tb': "tb = unat k + region_bytes d + pages isFree B * 4096"
    using tb(1) B(1) by (auto simp: lone_free_def)
  have k'': "unat k' = ta"
    using ta(2) A(1) k' by (auto simp: lone_free_def)
  have bytes: "region_bytes d' = pages isFree A * 4096 + region_bytes d + pages isFree B * 4096"
    using d'(2) by (simp add: algebra_simps)
  show "tiles lo new hi"
    using ta(1) tb(2) k'' d0 bytes ta' tb' by (auto simp: new_def tiles_append add.assoc)
  show "coalesced new"
    using c A B by (auto simp: new_def lone_free_def successively_append_iff successively_Cons)
  show "pages isFree new = pages isFree old + unat (region_size d)"
    using u d' by (simp add: new_def old_def)
  have used: "pages (\<lambda>d. \<not> isFree d) A = 0" "pages (\<lambda>d. \<not> isFree d) B = 0"
    using A(1) B(1) by (auto simp: lone_free_def)
  show "pages (\<lambda>d. \<not> isFree d) new + unat (region_size d) = pages (\<lambda>d. \<not> isFree d) old"
    using u d'(1) used by (simp add: new_def old_def)
  have "free_bytes A = {ta ..< unat k}" "free_bytes B = {unat k + region_bytes d ..< tb}"
    using A(1) B(1) ta(2) tb(1) by (auto simp: lone_free_def)
  moreover have "{unat k' ..< unat k' + region_bytes d'} = {ta ..< unat k} \<union> {unat k ..< unat k + region_bytes d} \<union> {unat k + region_bytes d ..< tb}"
    using k'' bytes ta' tb' by auto
  ultimately show "free_bytes new = free_bytes old \<union> {unat k ..< unat k + region_bytes d}"
    using u d'(1) by (auto simp: new_def old_def)
  have xs: "unat (fst p) < unat k'" if "p \<in> set xs" for p
    using tiles_bounds [OF ta(1) that] k'' by auto
  have ys: "unat k' < unat (fst p)" if "p \<in> set ys" for p
    using tiles_bounds [OF tb(2) that] k'' ta' tb' sp(3) by auto
  have AB: "fst p \<notin> fst ` set xs" "fst p \<notin> fst ` set ys" if "p \<in> set A \<union> set B" for p
  proof -
    have "ta \<le> unat (fst p) \<and> unat (fst p) < tb"
      using that tiles_bounds [OF ta(2), of p] tiles_bounds [OF tb(1), of p] ta' tb' by auto
    then show "fst p \<notin> fst ` set xs" "fst p \<notin> fst ` set ys"
      using tiles_bounds [OF ta(1)] tiles_bounds [OF tb(2)] by force+
  qed
  have rest: "free_set old - free_set A - free_set B = free_set xs \<union> free_set ys"
    using u AB by (auto simp: old_def free_set_def) force+
  show "free_set new = insert (region_size d', k') (free_set old - free_set A - free_set B)"
    unfolding rest using d'(1) by (simp add: new_def)
  have "(k', e) \<notin> set xs" "(k', e) \<notin> set ys" for e
    using xs [of "(k', e)"] ys [of "(k', e)"] by auto
  then show "(region_size d', k') \<notin> free_set old - free_set A - free_set B"
    unfolding rest by (simp add: free_set_def)
qed

section \<open>The allocator\<close>

definition vma_ok :: "VMRegionAllocator \<Rightarrow> bool" where
  "vma_ok s \<longleftrightarrow> tree_invar (m_allPagesTree s) \<and> 4096 dvd unat (vma_start s) \<and>
     tiles (unat (vma_start s)) (entries (m_allPagesTree s)) (unat (vma_end s)) \<and> coalesced (entries (m_allPagesTree s)) \<and>
     index_ok (free_set (entries (m_allPagesTree s))) (m_freePagesTree s) \<and>
     unat (vma_freePageCount s) = pages isFree (entries (m_allPagesTree s)) \<and>
     unat (vma_usedPageCount s) = pages (\<lambda>d. \<not> isFree d) (entries (m_allPagesTree s)) \<and>
     vma_reservedPageCount s = 0 \<and> vma_totalPageCount s = vma_freePageCount s + vma_usedPageCount s"

lemma vma_ok_heaps [simp]: "vma_ok (s\<lparr>vma_heaps := h\<rparr>) = vma_ok s"
  by (simp add: vma_ok_def)

abbreviation ranges :: "VMRegionAllocator \<Rightarrow> (u64 \<times> CompleteTreeNodeData) list" where
  "ranges s \<equiv> entries (m_allPagesTree s)"

lemma vma_lock_simps [simp]:
  "vma_lock s = 1 \<Longrightarrow> vma_Lock s = Inr (s\<lparr>vma_lock := 0\<rparr>)" "vma_lock s = 0 \<Longrightarrow> vma_Unlock s = s\<lparr>vma_lock := 1\<rparr>"
  by (simp_all add: vma_Lock_def vma_Unlock_def)

lemma take_bit_size: "unat (n :: u64) * 4096 < 2 ^ 64 \<Longrightarrow> take_bit 62 n = n"
  by (rule unat_inj) (simp add: unsigned_take_bit_eq take_bit_nat_eq_self)

text \<open>Splitting a range in two.\<close>

lemma SplitAPTNode_ok:
  assumes inv: "tree_invar t" and e: "entries t = xs @ (k, d) # ys" and t: "tiles lo (entries t) hi" and hi: "hi < 2 ^ 64"
    and n: "0 < unat n" "unat n < unat (region_size d)"
  defines "d1 \<equiv> d\<lparr>region_size := n\<rparr>" and "d2 \<equiv> d\<lparr>region_size := region_size d - n\<rparr>" and "k2 \<equiv> k + push_bit 12 n"
  shows "\<exists>t'. SplitAPTNode t (k, d, True) n = (t', (k, d1, True), (k2, d2, True)) \<and> tree_invar t' \<and>
    entries t' = xs @ (k, d1) # (k2, d2) # ys" "unat k2 = unat k + unat n * 4096"
    "unat (region_size d2) = unat (region_size d) - unat n"
proof -
  note sp = tiles_split [OF t [unfolded e]]
  have b: "unat k + region_bytes d < 2 ^ 64"
    using sp(4) hi by linarith
  show k2: "unat k2 = unat k + unat n * 4096"
    unfolding k2_def using n b by (intro unat_push_12) linarith
  show s2: "unat (region_size d2) = unat (region_size d) - unat n"
    using n by (simp add: d2_def unat_sub_nowrap)
  have bits: "take_bit 62 n = n" "take_bit 62 (region_size d - n) = region_size d - n"
    using n b s2 by (auto intro!: take_bit_size simp: d2_def)
  let ?t1 = "set_value t k d1"
  have i1: "tree_invar ?t1" and e1: "entries ?t1 = (xs @ [(k, d1)]) @ ys"
    using set_value_invar [OF inv] set_value_split [OF inv e] by auto
  have lt: "\<And>p. p \<in> set (xs @ [(k, d1)]) \<Longrightarrow> fst p < k2" "\<And>p. p \<in> set ys \<Longrightarrow> k2 < fst p"
    using sp(5,6) k2 n by (fastforce simp: word_less_nat_alt)+
  have e2: "entries (fst (wAVLTree_Insert ?t1 k2 d2)) = (xs @ [(k, d1)]) @ (k2, d2) # ys"
    unfolding Insert_entries [OF i1] e1 using tree_invar_sorted [OF i1] lt by (intro ins_entry_split) (auto simp: e1)
  have "k2 \<notin> fst ` set (entries ?t1)"
    using lt unfolding e1 by fastforce
  then have "snd (wAVLTree_Insert ?t1 k2 d2)"
    using Insert_linked [OF i1] by (simp add: map_of_eq_None_iff)
  then have "SplitAPTNode t (k, d, True) n = (fst (wAVLTree_Insert ?t1 k2 d2), (k, d1, True), (k2, d2, True))"
    using bits by (simp add: SplitAPTNode_def write_node_def Let_def split_def d1_def d2_def k2_def)
  then show "\<exists>t'. SplitAPTNode t (k, d, True) n = (t', (k, d1, True), (k2, d2, True)) \<and> tree_invar t' \<and>
    entries t' = xs @ (k, d1) # (k2, d2) # ys"
    using Insert_invar [OF i1] e2 by simp
qed

lemma FindNodeOrLower_split:
  assumes "tree_invar t" "entries t = xs @ (k, d) # ys" "k \<le> a" "\<And>p. p \<in> set ys \<Longrightarrow> a < fst p"
  shows "wAVLTree_FindNodeOrLower t a = Some (k, d)"
proof -
  have "List.find (\<lambda>p. fst p \<le> a) (rev ys) = None"
    using assms(4) by (fastforce simp: find_None_iff)
  then show ?thesis
    using assms(1-3) by (simp add: FindNodeOrLower_entries find_append)
qed

end
