(* ===== verification/VMRegionProps.thy ===== *)
theory VMRegionProps
  imports VMRegionTiles
begin

text \<open>
  What the operations of the region allocator do to the ranges of the region: allocation, with and
  without an address, release with joining of neighbours, initialisation, verification, copying and
  deletion.
\<close>

section \<open>Taking a range out of a free one\<close>

lemma free_run:
  assumes "tiles lo ps hi" "coalesced ps" "x < y" "{x ..< y} \<subseteq> free_bytes ps"
  shows "\<exists>p\<in>set ps. isFree (snd p) \<and> unat (fst p) \<le> x \<and> y \<le> unat (fst p) + region_bytes (snd p)"
  using assms
proof (induction ps arbitrary: lo)
  case Nil
  then have "x \<in> free_bytes []"
    by (auto simp: subset_iff simp del: list_measures)
  then show ?case
    by simp
next
  case (Cons p ps)
  let ?e = "lo + region_bytes (snd p)"
  have h: "tiles ?e ps hi" "coalesced ps" "unat (fst p) = lo"
    using Cons.prems(1,2) by (auto simp: successively_Cons)
  have x: "x \<in> free_bytes (p # ps)"
    using Cons.prems(3,4) by (auto simp: subset_iff simp del: list_measures)
  have out: "z \<in> free_bytes ps \<Longrightarrow> ?e \<le> z" for z
    using free_bytes_bounds [OF _ h(1)] by blast
  show ?case
  proof (cases "x < ?e")
    case False
    have "z \<in> free_bytes ps" if "z \<in> {x ..< y}" for z
    proof -
      have "z \<in> free_bytes (p # ps)"
        using Cons.prems(4) that by blast
      then show ?thesis
        using False that h(3) by (auto split: if_splits)
    qed
    then have "{x ..< y} \<subseteq> free_bytes ps"
      by blast
    then show ?thesis
      using Cons.IH [OF h(1,2) Cons.prems(3)] by auto
  next
    case True
    then have f: "isFree (snd p)" "lo \<le> x"
      using x out [of x] h(3) by (auto split: if_splits)
    have "y \<le> ?e"
    proof (rule ccontr)
      assume "\<not> y \<le> ?e"
      then have "?e \<in> {x ..< y}"
        using True by simp
      then have "?e \<in> free_bytes (p # ps)"
        by (rule subsetD [OF Cons.prems(4)])
      then have e: "?e \<in> free_bytes ps"
        using h(3) by (auto split: if_splits)
      then obtain q qs where q: "ps = q # qs"
        by (cases ps) auto
      then have nf: "\<not> isFree (snd q)" "tiles (?e + region_bytes (snd q)) qs hi" "0 < unat (region_size (snd q))"
        using Cons.prems(2) f(1) h(1) by (auto simp: unat_gt_0)
      then have "?e + region_bytes (snd q) \<le> ?e"
        using e q nf(1) free_bytes_bounds(1) [OF _ nf(2), of ?e] by simp
      then show False
        using nf(3) by simp
    qed
    then show ?thesis
      using f h(3) by auto
  qed
qed

lemma vma_okD:
  assumes "vma_ok s"
  shows "tree_invar (m_allPagesTree s)" "tiles (unat (vma_start s)) (ranges s) (unat (vma_end s))" "coalesced (ranges s)"
    "index_ok (free_set (ranges s)) (m_freePagesTree s)" "unat (vma_end s) < 2 ^ 64"
  using assms by (auto simp: vma_ok_def)

lemma vma_ok_taken:
  assumes ok: "vma_ok s" and e: "ranges s = xs @ (k, d) # ys" and f: "isFree d"
    and n: "unat pre + unat n + unat post = unat (region_size d)" "n \<noteq> 0"
    and t: "tree_invar t" "entries t = xs @ taken k pre n post d @ ys"
    and i: "index_ok (free_set (ranges s) - {(region_size d, k)} \<union> (if pre = 0 then {} else {(pre, k)}) \<union>
       (if post = 0 then {} else {(post, k + push_bit 12 (pre + n))})) g"
  shows "vma_ok (s\<lparr>m_allPagesTree := t, m_freePagesTree := g, vma_heaps := h, vma_freePageCount := vma_freePageCount s - n,
      vma_usedPageCount := vma_usedPageCount s + n, vma_lock := l\<rparr>)"
    "free_bytes (entries t) = free_bytes (ranges s) - {unat k + unat pre * 4096 ..< unat k + unat pre * 4096 + unat n * 4096}"
    "{unat k + unat pre * 4096 ..< unat k + unat pre * 4096 + unat n * 4096} \<subseteq> free_bytes (ranges s)"
proof -
  note D = vma_okD [OF ok, unfolded e]
  note T = taken_ok [OF D(2) D(5) D(3) f n, folded t(2)]
  show "free_bytes (entries t) = free_bytes (ranges s) - {unat k + unat pre * 4096 ..< unat k + unat pre * 4096 + unat n * 4096}"
    using T(5) e by simp
  have "{unat k + unat pre * 4096 ..< unat k + unat pre * 4096 + unat n * 4096} \<subseteq> {unat k ..< unat k + region_bytes d}"
    using n(1) by (auto simp flip: n(1))
  then show "{unat k + unat pre * 4096 ..< unat k + unat pre * 4096 + unat n * 4096} \<subseteq> free_bytes (ranges s)"
    using f e by auto
  have pf: "unat (vma_freePageCount s) = pages isFree (entries t) + unat n"
    and pu: "unat (vma_usedPageCount s) + unat n = pages (\<lambda>d. \<not> isFree d) (entries t)"
    using ok T(3,4) by (auto simp: vma_ok_def e)
  have "unat (vma_freePageCount s - n) = pages isFree (entries t)"
    using pf by (subst unat_sub_nowrap) auto
  moreover have "unat (vma_usedPageCount s + n) = pages (\<lambda>d. \<not> isFree d) (entries t)"
  proof -
    have "pages (\<lambda>d. \<not> isFree d) (entries t) < 2 ^ 64"
    proof -
      have "pages (\<lambda>d. \<not> isFree d) (entries t) \<le> (pages isFree (entries t) + pages (\<lambda>d. \<not> isFree d) (entries t)) * 4096"
        by simp
      also have "\<dots> \<le> unat (vma_end s)"
        using pages_total [OF T(1)] by linarith
      finally show ?thesis
        using D(5) by linarith
    qed
    then show ?thesis
      using pu by (subst unat_add_nowrap) auto
  qed
  moreover have "index_ok (free_set (entries t)) g"
    using i T(6) e by simp
  ultimately show "vma_ok (s\<lparr>m_allPagesTree := t, m_freePagesTree := g, vma_heaps := h, vma_freePageCount := vma_freePageCount s - n,
      vma_usedPageCount := vma_usedPageCount s + n, vma_lock := l\<rparr>)"
    using ok t(1) T(1,2) by (simp add: vma_ok_def)
qed

text \<open>Cutting a range behind its first pages and marking them used.\<close>

definition cut_mark :: "apt \<Rightarrow> apt_node \<Rightarrow> u64 \<Rightarrow> apt \<times> apt_node" where
  "cut_mark t node n =
     (case (if region_size (fst (snd node)) > n then (case SplitAPTNode t node n of (t, m, _) \<Rightarrow> (t, m)) else (t, node)) of
        (t, node) \<Rightarrow> write_node t node ((fst (snd node))\<lparr>isFree := False\<rparr>))"

lemma cut_mark_ok:
  assumes inv: "tree_invar t" and e: "entries t = xs @ (k, d) # ys" and ti: "tiles lo (entries t) hi" and hi: "hi < 2 ^ 64"
    and n: "n \<noteq> 0" "n \<le> region_size d"
  shows "\<exists>t' node. cut_mark t (k, d, True) n = (t', node) \<and> tree_invar t' \<and>
    entries t' = xs @ (k, d\<lparr>region_size := n, isFree := False\<rparr>) # frag (k + push_bit 12 n) (region_size d - n) d @ ys"
proof (cases "region_size d = n")
  case True
  then have "d\<lparr>region_size := n, isFree := False\<rparr> = d\<lparr>isFree := False\<rparr>"
    by (cases d) auto
  then show ?thesis
    using True set_value_split [OF inv e, of "d\<lparr>isFree := False\<rparr>"] set_value_invar [OF inv, of k "d\<lparr>isFree := False\<rparr>"]
    by (auto simp: cut_mark_def write_node_def frag_def)
next
  case False
  then have "n < region_size d"
    using n(2) by simp
  then have lt: "n < region_size d" "0 < unat n" "unat n < unat (region_size d)"
    using n(1) by (simp_all add: word_less_nat_alt unat_gt_0)
  obtain t1 where t1: "SplitAPTNode t (k, d, True) n =
      (t1, (k, d\<lparr>region_size := n\<rparr>, True), (k + push_bit 12 n, d\<lparr>region_size := region_size d - n\<rparr>, True))"
    "tree_invar t1" "entries t1 = xs @ (k, d\<lparr>region_size := n\<rparr>) # (k + push_bit 12 n, d\<lparr>region_size := region_size d - n\<rparr>) # ys"
    using SplitAPTNode_ok(1) [OF inv e ti hi lt(2,3)] by blast
  let ?t = "set_value t1 k (d\<lparr>region_size := n, isFree := False\<rparr>)"
  have "cut_mark t (k, d, True) n = (?t, (k, d\<lparr>region_size := n, isFree := False\<rparr>, True))"
    using t1(1) lt(1) by (simp add: cut_mark_def write_node_def)
  moreover have "entries ?t = xs @ (k, d\<lparr>region_size := n, isFree := False\<rparr>) # frag (k + push_bit 12 n) (region_size d - n) d @ ys"
    using set_value_split [OF t1(2,3)] False by (simp add: frag_def)
  ultimately show ?thesis
    using set_value_invar [OF t1(2)] by blast
qed

section \<open>Allocation without an address\<close>

lemma AllocatePages_mark_ok:
  assumes inv: "tree_invar (m_allPagesTree s)" and e: "ranges s = xs @ (k, d) # ys" and ti: "tiles lo (ranges s) hi" and hi: "hi < 2 ^ 64"
    and f: "isFree d" and n: "n \<noteq> 0" "n \<le> region_size d" and l: "vma_lock s = 0"
  shows "\<exists>t. AllocatePages_mark s k n = (s\<lparr>m_allPagesTree := t, vma_freePageCount := vma_freePageCount s - n,
      vma_usedPageCount := vma_usedPageCount s + n, vma_lock := 1\<rparr>, k) \<and> tree_invar t \<and>
    entries t = xs @ taken k 0 n (region_size d - n) d @ ys"
proof -
  have "wAVLTree_FindNodeOrLower (m_allPagesTree s) k = Some (k, d)"
    using tiles_split(6) [OF ti [unfolded e]] by (intro FindNodeOrLower_split [OF inv e]) (auto simp: word_less_nat_alt)
  moreover obtain t node where "cut_mark (m_allPagesTree s) (k, d, True) n = (t, node)" "tree_invar t"
    "entries t = xs @ (k, d\<lparr>region_size := n, isFree := False\<rparr>) # frag (k + push_bit 12 n) (region_size d - n) d @ ys"
    using cut_mark_ok [OF inv e ti hi n] by blast
  moreover have "AllocatePages_mark s k n = (case cut_mark (m_allPagesTree s) (k, d, True) n of (t, node) \<Rightarrow>
      (vma_Unlock (s\<lparr>m_allPagesTree := t, vma_freePageCount := vma_freePageCount s - n, vma_usedPageCount := vma_usedPageCount s + n\<rparr>), k))"
    using calculation(1) f by (simp add: AllocatePages_mark_def cut_mark_def Let_def split: prod.split)
  ultimately show ?thesis
    using l by (intro exI [of _ t]) (simp add: taken_def frag_def)
qed

lemma AllocatePages_found:
  assumes ok: "vma_ok s" and l: "vma_lock s = 1" and n: "n \<noteq> 0"
    and b: "wAVLTree_FindNodeOrHigher (m_freePagesTree s) n = Some (m, list)"
  shows "\<exists>s' a. vma_AllocatePages s n = Inr (s', a) \<and> vma_ok s' \<and> vma_lock s' = 1 \<and> (m, a) \<in> free_set (ranges s) \<and> n \<le> m \<and>
    (\<exists>d. (a, d) \<in> set (ranges s') \<and> \<not> isFree d \<and> region_size d = n) \<and>
    {unat a ..< unat a + unat n * 4096} \<subseteq> free_bytes (ranges s) \<and>
    free_bytes (ranges s') = free_bytes (ranges s) - {unat a ..< unat a + unat n * 4096}"
proof -
  note D = vma_okD [OF ok]
  let ?F = "free_set (ranges s)" and ?f = "m_freePagesTree s"
  have fi: "tree_invar ?f"
    using D(4) by (simp add: index_ok_def)
  have m: "wAVLTree_Find ?f m = Some list" "n \<le> m"
    using tree.above_Some [OF fi b] by auto
  obtain k rest where lst: "list = k # rest"
    using D(4) m(1) by (cases list) (auto simp: index_ok_def)
  have fl: "distinct list" "set list = {a. (m, a) \<in> ?F}"
    using D(4) m(1) fi free_list_Find [OF fi, of m] by (auto simp: index_ok_def)
  have "k \<in> set list"
    using lst by simp
  then have kF: "(m, k) \<in> ?F"
    unfolding fl(2) by simp
  then obtain d where d: "(k, d) \<in> set (ranges s)" "isFree d" "region_size d = m"
    using free_set_key by blast
  obtain xs ys where e: "ranges s = xs @ (k, d) # ys"
    using split_list [OF d(1)] by blast
  have nn: "unat 0 + unat n + unat (m - n) = unat (region_size d)"
    using m(2) d(3) by (simp add: unat_sub_nowrap word_le_nat_alt)
  note T = taken_ok [OF D(2) [unfolded e] D(5) D(3) [unfolded e] d(2) nn n]
  have i1: "index_ok (?F - {(m, k)}) (free_store ?f m rest)"
    using free_store_ok [OF D(4) m(1), of rest k] fl(1) lst by auto
  define g where "g = (if m > n then free_insert (free_store ?f m rest) (m - n) (k + push_bit 12 n) else free_store ?f m rest)"
  have post: "m - n = 0 \<longleftrightarrow> \<not> m > n"
    using m(2) by auto
  have "index_ok (?F - {(m, k)} \<union> (if m - n = 0 then {} else {(m - n, k + push_bit 12 n)})) g"
  proof (cases "m > n")
    case True
    then have "(m - n, k + push_bit 12 n) \<notin> ?F - {(m, k)}"
      using T(8) e post by simp
    then show ?thesis
      using free_insert_ok [OF i1, of "m - n" "k + push_bit 12 n"] True post by (simp add: g_def)
  next
    case False
    then show ?thesis
      using i1 post by (simp add: g_def)
  qed
  then have i2: "index_ok (?F - {(region_size d, k)} \<union> (if (0::u64) = 0 then {} else {(0, k)}) \<union>
      (if m - n = 0 then {} else {(m - n, k + push_bit 12 (0 + n))})) g"
    using d(3) by (cases "m = n") simp_all
  let ?h = "(if m > n then node_new True (k + push_bit 12 n) else id) (node_delete True k (vma_heaps s))"
  let ?s = "s\<lparr>vma_lock := 0, m_freePagesTree := g, vma_heaps := ?h\<rparr>"
  obtain t where t: "AllocatePages_mark ?s k n = (?s\<lparr>m_allPagesTree := t, vma_freePageCount := vma_freePageCount s - n,
      vma_usedPageCount := vma_usedPageCount s + n, vma_lock := 1\<rparr>, k)" "tree_invar t" "entries t = xs @ taken k 0 n (m - n) d @ ys"
    using AllocatePages_mark_ok [of ?s xs k d ys "unat (vma_start s)" "unat (vma_end s)" n] D(1,2,5) e d(2,3) n m(2)
    by (simp del: One_nat_def) blast
  have "vma_AllocatePages s n = Inr (AllocatePages_mark ?s k n)"
    using b l lst by (simp add: vma_AllocatePages_def g_def Let_def)
  moreover have "?s\<lparr>m_allPagesTree := t, vma_freePageCount := vma_freePageCount s - n,
      vma_usedPageCount := vma_usedPageCount s + n, vma_lock := 1\<rparr> =
    s\<lparr>m_allPagesTree := t, m_freePagesTree := g, vma_heaps := ?h, vma_freePageCount := vma_freePageCount s - n,
      vma_usedPageCount := vma_usedPageCount s + n, vma_lock := 1\<rparr>"
    by simp
  ultimately show ?thesis
    using t(1,3) kF m(2) vma_ok_taken(1) [OF ok e d(2) nn n t(2,3) i2, of 1] vma_ok_taken(2,3) [OF ok e d(2) nn n t(2,3) i2] by (simp add: taken_def) force
qed

lemma AllocatePages_none:
  assumes ok: "vma_ok s" and l: "vma_lock s = 1" and n: "n \<noteq> 0"
    and b: "wAVLTree_FindNodeOrHigher (m_freePagesTree s) n = None"
  shows "vma_AllocatePages s n = Inr (s, 0)" "\<nexists>x. {x ..< x + unat n * 4096} \<subseteq> free_bytes (ranges s)"
proof -
  show "vma_AllocatePages s n = Inr (s, 0)"
    using b l by (simp add: vma_AllocatePages_def)
  note D = vma_okD [OF ok]
  have fi: "tree_invar (m_freePagesTree s)"
    using D(4) by (simp add: index_ok_def)
  show "\<nexists>x. {x ..< x + unat n * 4096} \<subseteq> free_bytes (ranges s)"
  proof
    assume "\<exists>x. {x ..< x + unat n * 4096} \<subseteq> free_bytes (ranges s)"
    then obtain x where x: "{x ..< x + unat n * 4096} \<subseteq> free_bytes (ranges s)"
      by blast
    have "x < x + unat n * 4096"
      using n by (simp add: unat_gt_0)
    from free_run [OF D(2,3) this x] obtain k d where p: "(k, d) \<in> set (ranges s)" "isFree d" "unat n * 4096 \<le> region_bytes d"
      by force
    then have "(region_size d, k) \<in> free_set (ranges s)"
      by (auto simp: free_set_def)
    then obtain list where "wAVLTree_Find (m_freePagesTree s) (region_size d) = Some list"
      using index_member [OF D(4)] by blast
    moreover have "n \<le> region_size d"
      using p(3) by (simp add: word_le_nat_alt)
    ultimately show False
      using tree.above_None [OF fi, of n] b by (metis leD option.distinct(1))
  qed
qed

section \<open>Allocation at an address\<close>

lemma tiles_aligned: "tiles lo ps hi \<Longrightarrow> 4096 dvd lo \<Longrightarrow> p \<in> set ps \<Longrightarrow> 4096 dvd unat (fst p)"
proof (induction ps arbitrary: lo)
  case (Cons q ps)
  then have "4096 dvd lo + region_bytes (snd q)"
    by simp
  then show ?case
    using Cons by auto
qed simp

lemma range_at:
  assumes ok: "vma_ok s" and al: "4096 dvd unat ptr" and r: "unat (vma_start s) \<le> unat ptr" "unat ptr < unat (vma_end s)"
  shows "\<exists>xs k d ys. ranges s = xs @ (k, d) # ys \<and> k \<le> ptr \<and> unat ptr < unat k + region_bytes d \<and>
    wAVLTree_FindNodeOrLower (m_allPagesTree s) ptr = Some (k, d) \<and> unat ptr = unat k + unat (drop_bit 12 (ptr - k)) * 4096 \<and>
    k + push_bit 12 (drop_bit 12 (ptr - k)) = ptr"
proof -
  note D = vma_okD [OF ok]
  obtain xs p ys where p: "ranges s = xs @ p # ys" "unat (fst p) \<le> unat ptr" "unat ptr < unat (fst p) + region_bytes (snd p)"
    using tiles_find [OF D(2) r] by blast
  obtain k d where kd: "p = (k, d)"
    by force
  have le: "k \<le> ptr"
    using p(2) kd by (simp add: word_le_nat_alt)
  have find: "wAVLTree_FindNodeOrLower (m_allPagesTree s) ptr = Some (k, d)"
    using tiles_split(6) [of _ xs k d ys] D(2) p kd le
    by (intro FindNodeOrLower_split [OF D(1), of xs k d ys]) (force simp: word_less_nat_alt)+
  have "4096 dvd unat k"
    using tiles_aligned [OF D(2), of p] ok p(1) kd by (simp add: vma_ok_def)
  then have "4096 dvd unat ptr - unat k"
    using al by (rule dvd_diff_nat [rotated])
  then have "unat (drop_bit 12 (ptr - k)) * 4096 = unat ptr - unat k"
    using p(2) kd by (simp add: unat_sub_nowrap)
  then have u: "unat ptr = unat k + unat (drop_bit 12 (ptr - k)) * 4096"
    using p(2) kd by simp
  moreover have "k + push_bit 12 (drop_bit 12 (ptr - k)) = ptr"
    using u unat_lt_2p64 [of ptr] by (intro unat_inj) (subst unat_push_12, auto)
  ultimately show ?thesis
    using p(1,3) kd le find by (intro exI [of _ xs] exI [of _ k] exI [of _ d] exI [of _ ys]) simp
qed

lemma range_unique:
  assumes "tiles lo (xs @ (k, d) # ys) hi" "p \<in> set (xs @ (k, d) # ys)"
    and "unat (fst p) \<le> x" "x < unat (fst p) + region_bytes (snd p)" "unat k \<le> x" "x < unat k + region_bytes d"
  shows "p = (k, d)"
  using tiles_split(5,6) [OF assms(1), of p] assms(2-6) by auto

lemma split_tiles:
  assumes "tiles lo (xs @ (k, d) # ys) hi" "unat k2 = unat k + unat (region_size d1) * 4096"
    "unat (region_size d1) + unat (region_size d2) = unat (region_size d)" "region_size d1 \<noteq> 0" "region_size d2 \<noteq> 0"
  shows "tiles lo (xs @ (k, d1) # (k2, d2) # ys) hi"
proof -
  have "region_bytes d = region_bytes d1 + region_bytes d2"
    using assms(3) by (simp flip: add_mult_distrib)
  then show ?thesis
    using tiles_split(1,2) [OF assms(1)] assms(2,4,5) by (simp add: tiles_append add.assoc)
qed

text \<open>The first cut, in front of the address.\<close>

lemma first_cut:
  assumes inv: "tree_invar t" and e: "entries t = xs @ (k, d) # ys" and ti: "tiles lo (entries t) hi" and hi: "hi < 2 ^ 64"
    and pre: "pre = drop_bit 12 (ptr - k)" "unat ptr = unat k + unat pre * 4096" "unat pre < unat (region_size d)" "k + push_bit 12 pre = ptr"
    and i: "index_ok F f" "(pre, k) \<notin> F"
  defines "d2 \<equiv> d\<lparr>region_size := region_size d - pre\<rparr>"
  shows "\<exists>t' f'. (if k < ptr then (case SplitAPTNode t (k, d, True) pre of (t, _, n) \<Rightarrow> (t, free_insert f pre k, n)) else (t, f, (k, d, True))) =
      (t', f', (ptr, d2, True)) \<and> tree_invar t' \<and> entries t' = (xs @ frag k pre d) @ (ptr, d2) # ys \<and> tiles lo (entries t') hi \<and>
      index_ok (F \<union> (if pre = 0 then {} else {(pre, k)})) f' \<and> unat (region_size d2) = unat (region_size d) - unat pre"
proof (cases "pre = 0")
  case True
  then have "ptr = k" "d2 = d"
    using pre(4) by (simp_all add: d2_def)
  then show ?thesis
    using True inv e ti i(1) by (simp add: frag_def)
next
  case False
  then have lt: "k < ptr" "0 < unat pre"
    using pre(2) by (simp_all add: word_less_nat_alt unat_gt_0)
  note S = SplitAPTNode_ok [OF inv e ti hi lt(2) pre(3), folded d2_def, unfolded pre(4)]
  obtain t1 where t1: "SplitAPTNode t (k, d, True) pre = (t1, (k, d\<lparr>region_size := pre\<rparr>, True), (ptr, d2, True))"
    "tree_invar t1" "entries t1 = xs @ (k, d\<lparr>region_size := pre\<rparr>) # (ptr, d2) # ys"
    using S(1) by blast
  have "region_size d2 \<noteq> 0"
    using S(3) pre(3) by auto
  then have "tiles lo (entries t1) hi"
    unfolding t1(3) using ti [unfolded e] pre(2,3) S(3) False by (intro split_tiles) auto
  then show ?thesis
    using lt(1) t1 False S(3) free_insert_ok [OF i] by (simp add: frag_def)
qed

text \<open>The second cut, behind the range, and the mark.\<close>

lemma second_cut:
  assumes inv: "tree_invar t" and e: "entries t = us @ (q, d) # ys" and ti: "tiles lo (entries t) hi" and hi: "hi < 2 ^ 64"
    and n: "n \<noteq> 0" "n \<le> region_size d" and i: "index_ok F f" "(region_size d - n, q + push_bit 12 n) \<notin> F"
  shows "\<exists>t1 t' f' node. (if region_size d > n then
         (case SplitAPTNode t (q, d, True) n of (t, m, new) \<Rightarrow> (t, free_insert f (region_size (fst (snd new))) (fst new), m))
       else (t, f, (q, d, True))) = (t1, f', node) \<and> fst (write_node t1 node ((fst (snd node))\<lparr>isFree := False\<rparr>)) = t' \<and>
      tree_invar t' \<and> entries t' = us @ (q, d\<lparr>region_size := n, isFree := False\<rparr>) # frag (q + push_bit 12 n) (region_size d - n) d @ ys \<and>
      index_ok (F \<union> (if region_size d - n = 0 then {} else {(region_size d - n, q + push_bit 12 n)})) f'"
proof (cases "region_size d = n")
  case True
  then have "d\<lparr>region_size := n, isFree := False\<rparr> = d\<lparr>isFree := False\<rparr>"
    by (cases d) auto
  then show ?thesis
    using True i(1) set_value_split [OF inv e, of "d\<lparr>isFree := False\<rparr>"] set_value_invar [OF inv, of q "d\<lparr>isFree := False\<rparr>"]
    by (simp add: write_node_def frag_def)
next
  case False
  then have "n < region_size d"
    using n(2) by simp
  then have lt: "n < region_size d" "0 < unat n" "unat n < unat (region_size d)"
    using n(1) by (simp_all add: word_less_nat_alt unat_gt_0)
  obtain t1 where t1: "SplitAPTNode t (q, d, True) n =
      (t1, (q, d\<lparr>region_size := n\<rparr>, True), (q + push_bit 12 n, d\<lparr>region_size := region_size d - n\<rparr>, True))"
    "tree_invar t1" "entries t1 = us @ (q, d\<lparr>region_size := n\<rparr>) # (q + push_bit 12 n, d\<lparr>region_size := region_size d - n\<rparr>) # ys"
    using SplitAPTNode_ok(1) [OF inv e ti hi lt(2,3)] by blast
  let ?d = "d\<lparr>region_size := n, isFree := False\<rparr>"
  have "entries (set_value t1 q ?d) = us @ (q, ?d) # frag (q + push_bit 12 n) (region_size d - n) d @ ys"
    using set_value_split [OF t1(2,3), of ?d] False by (simp add: frag_def)
  moreover have "index_ok (F \<union> (if region_size d - n = 0 then {} else {(region_size d - n, q + push_bit 12 n)}))
      (free_insert f (region_size d - n) (q + push_bit 12 n))"
    using free_insert_ok [OF i] False by simp
  ultimately show ?thesis
    using t1(1) lt(1) set_value_invar [OF t1(2), of q ?d] by (simp add: write_node_def)
qed

lemma lock_if_simps [simp]: "lock_if True s = vma_Lock s" "unlock_if True s = vma_Unlock s" "lock_if False s = Inr s" "unlock_if False s = s"
  by (simp_all add: lock_if_def unlock_if_def)

lemma AllocatePages_at_none:
  assumes l: "vma_lock s = 1" and f: "wAVLTree_FindNodeOrLower (m_allPagesTree s) ptr = Some (k, d)"
    and c: "\<not> isFree d \<or> k + push_bit 12 (region_size d) < ptr + push_bit 12 n"
  shows "vma_AllocatePages_at s ptr n True = Inr (s, 0)"
  using assms by (simp add: vma_AllocatePages_at_def)

lemma AllocatePages_at_taken:
  assumes ok: "vma_ok s" and l: "vma_lock s = 1" and n: "n \<noteq> 0"
    and e: "ranges s = xs @ (k, d) # ys" and find: "wAVLTree_FindNodeOrLower (m_allPagesTree s) ptr = Some (k, d)"
    and pre: "pre = drop_bit 12 (ptr - k)" "unat ptr = unat k + unat pre * 4096" "k + push_bit 12 pre = ptr"
    and f: "isFree d" and fits: "unat ptr + unat n * 4096 \<le> unat k + region_bytes d"
  shows "\<exists>s'. vma_AllocatePages_at s ptr n True = Inr (s', ptr) \<and> vma_ok s' \<and> vma_lock s' = 1 \<and>
    {unat ptr ..< unat ptr + unat n * 4096} \<subseteq> free_bytes (ranges s) \<and>
    free_bytes (ranges s') = free_bytes (ranges s) - {unat ptr ..< unat ptr + unat n * 4096}"
proof -
  note D = vma_okD [OF ok]
  let ?F = "free_set (ranges s)" and ?f = "m_freePagesTree s" and ?t = "m_allPagesTree s"
  have fi: "tree_invar ?f"
    using D(4) by (simp add: index_ok_def)
  have "(unat pre + unat n) * 4096 \<le> region_bytes d"
    using pre(2) fits by (simp add: algebra_simps)
  then have pn: "unat pre + unat n \<le> unat (region_size d)"
    by simp
  define post where "post = region_size d - pre - n"
  have up: "unat (region_size d - pre) = unat (region_size d) - unat pre"
    using pn by (simp add: unat_sub_nowrap)
  then have nn: "unat pre + unat n + unat post = unat (region_size d)"
    using pn by (simp add: post_def unat_sub_nowrap)
  have lt: "unat pre < unat (region_size d)"
    using pn n unat_gt_0_u64 [OF n] by linarith
  note T = taken_ok [OF D(2) [unfolded e] D(5) D(3) [unfolded e] f nn n, folded e]
  obtain list where list: "wAVLTree_Find ?f (region_size d) = Some list" "distinct list"
    using index_member [OF D(4), of "region_size d" k] e f by auto
  let ?f1 = "free_store ?f (region_size d) (remove1 k list)"
  have i1: "index_ok (?F - {(region_size d, k)}) ?f1"
    using free_store_ok [OF D(4) list(1), of "remove1 k list" k] list(2) by simp
  have pf: "(pre, k) \<notin> ?F - {(region_size d, k)}"
  proof (cases "pre = 0")
    case True
    have "(0, k) \<notin> ?F"
      using tiles_bounds [OF D(2)] by (force dest: free_set_key)
    then show ?thesis
      using True by simp
  qed (use T(7) in blast)
  let ?d2 = "d\<lparr>region_size := region_size d - pre\<rparr>"
  obtain t1 f1 where c1: "(if k < ptr then (case SplitAPTNode ?t (k, d, True) pre of (t, _, m) \<Rightarrow> (t, free_insert ?f1 pre k, m)) else (?t, ?f1, (k, d, True))) =
      (t1, f1, (ptr, ?d2, True))" "tree_invar t1" "entries t1 = (xs @ frag k pre d) @ (ptr, ?d2) # ys"
    "tiles (unat (vma_start s)) (entries t1) (unat (vma_end s))" "index_ok (?F - {(region_size d, k)} \<union> (if pre = 0 then {} else {(pre, k)})) f1"
    using first_cut [OF D(1) e D(2,5) pre(1,2) lt pre(3) i1 pf] by blast
  have n2: "n \<le> region_size ?d2" "region_size ?d2 - n = post"
    using up pn by (simp_all add: word_le_nat_alt post_def)
  have k2: "ptr + push_bit 12 n = k + push_bit 12 (pre + n)"
    using pre(3) by (simp add: push_bit_add algebra_simps)
  have qf: "(region_size ?d2 - n, ptr + push_bit 12 n) \<notin> ?F - {(region_size d, k)} \<union> (if pre = 0 then {} else {(pre, k)})"
  proof (cases "post = 0")
    case True
    have "(0, a) \<notin> ?F" for a
      using tiles_bounds [OF D(2)] by (force dest: free_set_key)
    then show ?thesis
      using True n2(2) by auto
  next
    case False
    then show ?thesis
      using T(8) n2(2) k2 by auto
  qed
  obtain t2 t' f' node where c2: "(if region_size ?d2 > n then
         (case SplitAPTNode t1 (ptr, ?d2, True) n of (t, m, new) \<Rightarrow> (t, free_insert f1 (region_size (fst (snd new))) (fst new), m))
       else (t1, f1, (ptr, ?d2, True))) = (t2, f', node)" "fst (write_node t2 node ((fst (snd node))\<lparr>isFree := False\<rparr>)) = t'"
    "tree_invar t'" "entries t' = (xs @ frag k pre d) @ (ptr, ?d2\<lparr>region_size := n, isFree := False\<rparr>) # frag (ptr + push_bit 12 n) (region_size ?d2 - n) ?d2 @ ys"
    "index_ok (?F - {(region_size d, k)} \<union> (if pre = 0 then {} else {(pre, k)}) \<union> (if region_size ?d2 - n = 0 then {} else {(region_size ?d2 - n, ptr + push_bit 12 n)})) f'"
    using second_cut [OF c1(2,3,4) D(5) n n2(1) c1(5) qf] by blast
  obtain nd where nd: "write_node t2 node ((fst (snd node))\<lparr>isFree := False\<rparr>) = (t', nd)"
    using c2(2) by (metis prod.collapse)
  have e': "entries t' = xs @ taken k pre n post d @ ys"
    unfolding c2(4) n2(2) using pre(3) k2 by (simp add: taken_def frag_def)
  have i': "index_ok (?F - {(region_size d, k)} \<union> (if pre = 0 then {} else {(pre, k)}) \<union> (if post = 0 then {} else {(post, k + push_bit 12 (pre + n))})) f'"
    using c2(5) unfolding n2(2) k2 .
  have "\<not> k + push_bit 12 (region_size d) < ptr + push_bit 12 n"
  proof -
    have b: "unat k + region_bytes d < 2 ^ 64"
      using tiles_split(4) [OF D(2) [unfolded e]] D(5) by linarith
    then have "unat (k + push_bit 12 (region_size d)) = unat k + region_bytes d" "unat (ptr + push_bit 12 n) = unat ptr + unat n * 4096"
      using fits by (intro unat_push_12; linarith)+
    then show ?thesis
      using fits by (simp add: word_less_nat_alt)
  qed
  let ?h1 = "if k \<in> set list then node_delete False k (vma_heaps s) else vma_heaps s"
  let ?h2 = "if k < ptr then node_new False k ?h1 else ?h1"
  let ?h = "if n < region_size d - drop_bit 12 (ptr - k) then node_new False (ptr + push_bit 12 n) ?h2 else ?h2"
  from \<open>\<not> k + push_bit 12 (region_size d) < ptr + push_bit 12 n\<close> have "vma_AllocatePages_at s ptr n True =
      Inr (s\<lparr>m_allPagesTree := t', m_freePagesTree := f', vma_heaps := ?h, vma_freePageCount := vma_freePageCount s - n, vma_usedPageCount := vma_usedPageCount s + n, vma_lock := 1\<rparr>, ptr)"
    unfolding vma_AllocatePages_at_def Let_def using l find f list(1) fi
    by (simp add: FindNode_Find c1(1) [unfolded pre(1)] c2(1) [unfolded pre(1), simplified] nd split del: if_split cong: if_cong)
  then show ?thesis
    using vma_ok_taken(1) [OF ok e f nn n c2(3) e' i', of 1] vma_ok_taken(2,3) [OF ok e f nn n c2(3) e' i'] pre(2) by simp
qed

lemma AllocatePages_at_ok:
  assumes ok: "vma_ok s" and l: "vma_lock s = 1" and n: "n \<noteq> 0" and al: "4096 dvd unat ptr"
    and r: "unat (vma_start s) \<le> unat ptr" "unat ptr + unat n * 4096 \<le> unat (vma_end s)"
  shows "\<exists>s' a. vma_AllocatePages_at s ptr n True = Inr (s', a) \<and> vma_ok s' \<and> vma_lock s' = 1 \<and>
    (if {unat ptr ..< unat ptr + unat n * 4096} \<subseteq> free_bytes (ranges s)
     then a = ptr \<and> free_bytes (ranges s') = free_bytes (ranges s) - {unat ptr ..< unat ptr + unat n * 4096}
     else a = 0 \<and> s' = s)"
proof -
  note D = vma_okD [OF ok]
  have n0: "0 < unat n * 4096"
    using n by (simp add: unat_gt_0)
  then have "unat ptr < unat (vma_end s)"
    using r(2) by linarith
  from range_at [OF ok al r(1) this] obtain xs k d ys where R: "ranges s = xs @ (k, d) # ys" "k \<le> ptr" "unat ptr < unat k + region_bytes d"
    "wAVLTree_FindNodeOrLower (m_allPagesTree s) ptr = Some (k, d)" "unat ptr = unat k + unat (drop_bit 12 (ptr - k)) * 4096"
    "k + push_bit 12 (drop_bit 12 (ptr - k)) = ptr"
    by blast
  show ?thesis
  proof (cases "isFree d \<and> unat ptr + unat n * 4096 \<le> unat k + region_bytes d")
    case True
    then show ?thesis
      using AllocatePages_at_taken [OF ok l n R(1,4) refl R(5,6)] by auto
  next
    case False
    have b: "unat k + region_bytes d < 2 ^ 64"
      using tiles_split(4) [OF D(2) [unfolded R(1)]] D(5) by linarith
    then have "unat (k + push_bit 12 (region_size d)) = unat k + region_bytes d" "unat (ptr + push_bit 12 n) = unat ptr + unat n * 4096"
      using r(2) D(5) by (intro unat_push_12; linarith)+
    then have "vma_AllocatePages_at s ptr n True = Inr (s, 0)"
      using False by (intro AllocatePages_at_none [OF l R(4)]) (auto simp: word_less_nat_alt)
    moreover have "\<not> {unat ptr ..< unat ptr + unat n * 4096} \<subseteq> free_bytes (ranges s)"
    proof
      assume "{unat ptr ..< unat ptr + unat n * 4096} \<subseteq> free_bytes (ranges s)"
      then obtain p where p: "p \<in> set (ranges s)" "isFree (snd p)" "unat (fst p) \<le> unat ptr" "unat ptr + unat n * 4096 \<le> unat (fst p) + region_bytes (snd p)"
        using free_run [OF D(2,3), of "unat ptr" "unat ptr + unat n * 4096"] n0 by auto
      have "p = (k, d)"
        using range_unique [OF D(2) [unfolded R(1)] p(1) [unfolded R(1)] p(3) _ _ R(3)] p(4) n0 R(2) by (simp add: word_le_nat_alt)
      then show False
        using p(2,4) False by simp
    qed
    ultimately show ?thesis
      using ok l by simp
  qed
qed

end
