(* ===== verification/VMRegionFree.thy ===== *)
theory VMRegionFree
  imports VMRegionProps
begin

text \<open>
  The release of a range: finding its node, joining the free neighbours, and the index afterwards.
\<close>

section \<open>Joining the neighbours\<close>

definition region_of :: "u64 \<times> CompleteTreeNodeData \<Rightarrow> u64 \<times> u64" where
  "region_of p = (fst p, region_size (snd p))"

lemma PreviousNode_split:
  assumes "tree_invar t" "entries t = us @ (k, d) # vs"
  shows "wAVLTree_PreviousNode t k = (if us = [] then None else Some (last us))"
proof -
  have srt: "sorted_keys (us @ (k, d) # vs)"
    using tree_invar_sorted [OF assms(1)] assms(2) by simp
  have "wAVLTree_Find t k \<noteq> None"
    using tree.look_key [OF assms(1)] assms(2) by force
  then have "wAVLTree_PreviousNode t k = List.find (\<lambda>p. fst p < k) (rev vs @ (k, d) # rev us)"
    using tree.prv_ents [OF assms(1)] assms(2) by simp
  also have "\<dots> = List.find (\<lambda>p. fst p < k) (rev us)"
  proof -
    have "List.find (\<lambda>p. fst p < k) (rev vs) = None"
      using srt by (fastforce simp: find_None_iff sorted_wrt_append)
    then show ?thesis
      by (simp add: find_append)
  qed
  also have "\<dots> = hd_opt (rev us)"
    using srt by (intro find_first) (auto simp: sorted_wrt_append)
  finally show ?thesis
    by (cases us rule: rev_cases) auto
qed

lemma FindNodeOrHigher_split:
  assumes "tree_invar t" "entries t = us @ vs" "\<And>p. p \<in> set us \<Longrightarrow> fst p < a" "\<And>p. p \<in> set vs \<Longrightarrow> a \<le> fst p"
  shows "wAVLTree_FindNodeOrHigher t a = hd_opt vs"
proof -
  have "List.find (\<lambda>p. a \<le> fst p) us = None"
    using assms(3) by (fastforce simp: find_None_iff)
  then have "wAVLTree_FindNodeOrHigher t a = List.find (\<lambda>p. a \<le> fst p) vs"
    using tree.above_ents [OF assms(1)] assms(2) by (simp add: find_append)
  also have "\<dots> = hd_opt vs"
    using assms(4) by (intro find_first) auto
  finally show ?thesis .
qed

lemma Insert_split:
  assumes "tree_invar t" "entries t = us @ vs" "\<And>p. p \<in> set us \<Longrightarrow> fst p < a" "\<And>p. p \<in> set vs \<Longrightarrow> a < fst p"
  shows "entries (fst (wAVLTree_Insert t a v)) = us @ (a, v) # vs"
  unfolding Insert_entries [OF assms(1)] assms(2) using tree_invar_sorted [OF assms(1)] assms(2-4) by (intro ins_entry_split) auto

text \<open>The neighbours of a range as \<open>FreePages\<close> sees them.\<close>

definition free_before :: "(u64 \<times> CompleteTreeNodeData) list \<Rightarrow> (u64 \<times> CompleteTreeNodeData) list" where
  "free_before us = (if us \<noteq> [] \<and> isFree (snd (last us)) then [last us] else [])"

definition free_behind :: "(u64 \<times> CompleteTreeNodeData) list \<Rightarrow> (u64 \<times> CompleteTreeNodeData) list" where
  "free_behind vs = (if vs \<noteq> [] \<and> isFree (snd (hd vs)) then [hd vs] else [])"

lemma merge_previous_ok:
  assumes inv: "tree_invar t" and e: "entries t = us @ (k, d) # vs" and ti: "tiles lo (entries t) hi" and hi: "hi < 2 ^ 64"
  defines "A \<equiv> free_before us"
  shows "\<exists>t'. merge_previous t (k, d, True) k n = (t', (if A = [] then k else fst (hd A), n + (if A = [] then 0 else region_size (snd (hd A)))), map region_of A) \<and>
    tree_invar t' \<and> entries t' = (if A = [] then us @ (k, d) # vs else butlast us @ vs)"
proof (cases "us \<noteq> [] \<and> isFree (snd (last us))")
  case False
  then have "A = []"
    by (simp add: A_def free_before_def)
  then show ?thesis
    using inv e False PreviousNode_split [OF inv e]
    by (auto simp: merge_previous_def node_previous_def split: option.split prod.split)
next
  case True
  obtain xs pk pd where us: "us = xs @ [(pk, pd)]"
    using True by (cases us rule: rev_cases) force+
  have f: "isFree pd" and A: "A = [(pk, pd)]"
    using True us by (auto simp: A_def free_before_def)
  have ti': "tiles lo (xs @ (pk, pd) # (k, d) # vs) hi"
    using ti e us by simp
  have b: "unat pk + region_bytes pd < 2 ^ 64" "unat k = unat pk + region_bytes pd"
    using tiles_split(2,4) [OF ti'] hi by auto
  then have adj: "pk + push_bit 12 (region_size pd) = k"
    by (intro unat_inj) (simp add: unat_push_12)
  have e': "entries t = xs @ (pk, pd) # (k, d) # vs"
    using e us by simp
  let ?t = "wAVLTree_RemoveNode t (Some pk)"
  have i1: "tree_invar ?t" "entries ?t = xs @ (k, d) # vs"
    using RemoveNode_invar [OF inv] remove_split [OF inv e'] by auto
  then have "tree_invar (wAVLTree_RemoveNode ?t (Some k))" "entries (wAVLTree_RemoveNode ?t (Some k)) = xs @ vs"
    using RemoveNode_invar [OF i1(1)] remove_split [OF i1] by auto
  then show ?thesis
    using PreviousNode_split [OF inv e] us f adj A
    by (simp add: merge_previous_def node_previous_def node_remove_def region_of_def)
qed

lemma merge_next_ok:
  assumes inv: "tree_invar t" and e: "entries t = us @ vs" and us: "\<And>p. p \<in> set us \<Longrightarrow> fst p < k + push_bit 12 n"
    and vs: "tiles (unat (k + push_bit 12 n)) vs hi"
    and cur: "regions = [] \<longrightarrow> us = xs @ [(k, d)]" "regions \<noteq> [] \<longrightarrow> us = xs"
  defines "B \<equiv> free_behind vs"
  shows "\<exists>t'. merge_next t (k, d, True) k n ins regions =
      (t', (fst ins, snd ins + (if B = [] then 0 else region_size (snd (hd B)))), regions @ map region_of B) \<and>
    tree_invar t' \<and> entries t' = (if B = [] then us @ vs else xs @ tl vs)"
proof -
  have "k + push_bit 12 n \<le> fst p" if "p \<in> set vs" for p
    using tiles_bounds [OF vs that] by (simp add: word_le_nat_alt)
  then have find: "wAVLTree_FindNodeOrHigher t (k + push_bit 12 n) = hd_opt vs"
    using us by (intro FindNodeOrHigher_split [OF inv e]) auto
  show ?thesis
  proof (cases "vs \<noteq> [] \<and> isFree (snd (hd vs))")
    case False
    then show ?thesis
      using inv e find by (cases vs) (auto simp: merge_next_def B_def free_behind_def)
  next
    case True
    then obtain nk nd ys where v: "vs = (nk, nd) # ys" "isFree nd"
      by (cases vs) auto
    have B: "B = [(nk, nd)]"
      using v by (simp add: B_def free_behind_def)
    have nk: "k + push_bit 12 n = nk"
      using vs v by (intro unat_inj) simp
    let ?t = "wAVLTree_RemoveNode t (Some nk)"
    have i1: "tree_invar ?t" "entries ?t = us @ ys"
      using RemoveNode_invar [OF inv] remove_split [OF inv] e v(1) by auto
    show ?thesis
    proof (cases "regions = []")
      case True
      then have "entries ?t = xs @ (k, d) # ys"
        using i1(2) cur(1) by simp
      then show ?thesis
        using True find v nk B RemoveNode_invar [OF i1(1)] remove_split [OF i1(1)]
        by (simp add: merge_next_def node_remove_def region_of_def)
    next
      case False
      then show ?thesis
        using find v nk B i1 cur(2) by (simp add: merge_next_def region_of_def)
    qed
  qed
qed

lemma fold_free_remove:
  "index_ok F f \<Longrightarrow> free_set P \<subseteq> F \<Longrightarrow> \<forall>p\<in>set P. isFree (snd p) \<Longrightarrow> distinct (map fst P) \<Longrightarrow>
   index_ok (F - free_set P) (fold (\<lambda>(a, n) f. free_remove f n a) (map region_of P) f)"
proof (induction P arbitrary: F f)
  case (Cons p P)
  let ?x = "(region_size (snd p), fst p)"
  have x: "?x \<in> F"
    using Cons.prems(2,3) by simp
  have "fst p \<notin> fst ` set P"
    using Cons.prems(4) by simp
  then have "?x \<notin> free_set P"
    using free_set_key [of "region_size (snd p)" "fst p" P] by (metis fst_conv image_eqI)
  then have "free_set P \<subseteq> F - {?x}"
    using Cons.prems(2,3) by auto
  then have "index_ok (F - {?x} - free_set P) (fold (\<lambda>(a, n) f. free_remove f n a) (map region_of P) (free_remove f (region_size (snd p)) (fst p)))"
    using Cons.IH [OF free_remove_ok [OF Cons.prems(1) x]] Cons.prems(3,4) by simp
  moreover have "F - free_set (p # P) = F - {?x} - free_set P"
    using Cons.prems(3) by auto
  ultimately show ?case
    by (simp add: region_of_def [of p])
qed simp

lemma lone_neighbours:
  "lone_free (free_before us)" "lone_free (free_behind vs)"
  "us = (if free_before us = [] then us else butlast us) @ free_before us" "vs = free_behind vs @ (if free_behind vs = [] then vs else tl vs)"
  "free_before us = [] \<Longrightarrow> us = [] \<or> \<not> isFree (snd (last us))" "free_behind vs = [] \<Longrightarrow> vs = [] \<or> \<not> isFree (snd (hd vs))"
  by (auto simp: lone_free_def free_before_def free_behind_def) (metis surjective_pairing)+

lemma pages_lone:
  "lone_free A \<Longrightarrow> pages isFree A = (if A = [] then 0 else unat (region_size (snd (hd A))))"
  by (auto simp: lone_free_def)

lemma FreePages_merge_ok:
  assumes inv: "tree_invar t" and e: "entries t = us @ (k, d) # vs" and ti: "tiles lo (entries t) hi" and hi: "hi < 2 ^ 64"
    and d: "isFree d" "region_size d = n"
  defines "A \<equiv> free_before us" and "B \<equiv> free_behind vs"
  defines "xs \<equiv> (if A = [] then us else butlast us)" and "ys \<equiv> (if B = [] then vs else tl vs)"
    and "k' \<equiv> (if A = [] then k else fst (hd A))"
  shows "\<exists>t' m d'. FreePages_merge t (k, d, True) k n = (t', (k', m), map region_of (A @ B)) \<and>
    tree_invar t' \<and> entries t' = xs @ (k', d') # ys \<and> isFree d' \<and> region_size d' = m \<and>
    unat m = pages isFree A + unat n + pages isFree B"
proof -
  have lone: "lone_free A" "lone_free B" "us = xs @ A" "vs = B @ ys"
    using lone_neighbours(1,3) [of us] lone_neighbours(2,4) [of vs] by (simp_all add: A_def B_def xs_def ys_def)
  note sp = tiles_split [OF ti [unfolded e]]
  have k2: "unat (k + push_bit 12 n) = unat k + region_bytes d"
    using sp(4) hi d(2) by (subst unat_push_12) auto
  define mA where "mA = (if A = [] then 0 else region_size (snd (hd A)))"
  define mB where "mB = (if B = [] then 0 else region_size (snd (hd B)))"
  have pA: "pages isFree A = unat mA" and pB: "pages isFree B = unat mB"
    using pages_lone [OF lone(1)] pages_lone [OF lone(2)] by (simp_all add: mA_def mB_def)
  obtain ta where ta: "tiles lo xs ta" "tiles ta A (unat k)"
    using sp(1) lone(3) by (auto simp: tiles_append)
  obtain tb where tb: "tiles (unat k + region_bytes d) B tb" "tiles tb ys hi"
    using sp(2) lone(4) by (auto simp: tiles_append)
  have A': "unat k = ta + pages isFree A * 4096" "unat k' = ta"
    using ta(2) lone(1) by (auto simp: lone_free_def k'_def)
  have B': "tb = unat k + region_bytes d + pages isFree B * 4096" "tb \<le> hi"
    using tb lone(2) tiles_le [OF tb(2)] by (auto simp: lone_free_def)
  have sum: "(unat mA + unat n + unat mB) * 4096 \<le> hi"
    using A' B' pA pB d(2) by (simp add: algebra_simps)
  obtain t1 where t1: "merge_previous t (k, d, True) k n = (t1, (k', n + mA), map region_of A)" "tree_invar t1"
    "entries t1 = (if A = [] then us @ (k, d) # vs else butlast us @ vs)"
    using merge_previous_ok [OF inv e ti hi, of n, folded A_def] unfolding k'_def mA_def by blast
  define us1 where "us1 = (if A = [] then xs @ [(k, d)] else xs)"
  have e1: "entries t1 = us1 @ vs"
    using t1(3) by (simp add: us1_def xs_def)
  have lt: "fst p < k + push_bit 12 n" if "p \<in> set us1" for p
    using that k2 sp(3) sp(5) [of p] lone(3) unfolding us1_def word_less_nat_alt by (auto split: if_splits)
  have vs: "tiles (unat (k + push_bit 12 n)) vs hi"
    using sp(2) k2 by simp
  obtain t2 where t2: "merge_next t1 (k, d, True) k n (k', n + mA) (map region_of A) = (t2, (k', n + mA + mB), map region_of (A @ B))"
    "tree_invar t2" "entries t2 = (if B = [] then us1 @ vs else xs @ tl vs)"
    using merge_next_ok [OF t1(2) e1 lt vs, of "map region_of A" xs d "(k', n + mA)", folded B_def] unfolding mB_def us1_def by auto
  have m: "unat (n + mA + mB) = pages isFree A + unat n + pages isFree B"
  proof -
    have "unat mA + unat n + unat mB \<le> (unat mA + unat n + unat mB) * 4096"
      by simp
    then have b: "unat mA + unat n + unat mB < 2 ^ 64"
      using le_trans [OF _ sum] hi by fastforce
    then have "unat (n + mA) = unat n + unat mA"
      by (subst unat_add_nowrap) auto
    with b show ?thesis
      unfolding pA pB by (subst unat_add_nowrap) auto
  qed
  show ?thesis
  proof (cases "A @ B = []")
    case True
    then have "FreePages_merge t (k, d, True) k n = (t2, (k', n), [])"
      using t1(1) t2(1) by (simp add: FreePages_merge_def mA_def mB_def)
    moreover have "entries t2 = xs @ (k', d) # ys"
      using True t2(3) by (simp add: us1_def ys_def k'_def)
    ultimately show ?thesis
      using True t2(2) d by (intro exI [of _ t2] exI [of _ n] exI [of _ d]) simp
  next
    case False
    let ?d = "\<lparr>region_size = take_bit 62 (n + mA + mB), isFree = True, isReserved = False\<rparr>"
    have tb62: "take_bit 62 (n + mA + mB) = n + mA + mB"
      using m sum hi pA pB by (intro take_bit_size) simp
    have "entries t2 = xs @ ys"
      using False t2(3) by (auto simp: us1_def ys_def)
    moreover have "fst p < k'" if "p \<in> set xs" for p
      using tiles_bounds [OF ta(1) that] A'(2) by (simp add: word_less_nat_alt)
    moreover have "k' < fst p" if "p \<in> set ys" for p
      using tiles_bounds [OF tb(2) that] A' B' sp(3) by (simp add: word_less_nat_alt)
    ultimately have "entries (fst (wAVLTree_Insert t2 k' ?d)) = xs @ (k', ?d) # ys"
      by (rule Insert_split [OF t2(2)])
    moreover have "FreePages_merge t (k, d, True) k n = (fst (wAVLTree_Insert t2 k' ?d), (k', n + mA + mB), map region_of (A @ B))"
      using t1(1) t2(1) False by (auto simp: FreePages_merge_def)
    ultimately show ?thesis
      using Insert_invar [OF t2(2)] m tb62 by (intro exI [of _ "fst (wAVLTree_Insert t2 k' ?d)"] exI [of _ "n + mA + mB"] exI [of _ ?d]) simp
  qed
qed

section \<open>The node of a used range\<close>

text \<open>Another list of ranges with the same use of the region.\<close>

definition same_use :: "nat \<Rightarrow> nat \<Rightarrow> (u64 \<times> CompleteTreeNodeData) list \<Rightarrow> (u64 \<times> CompleteTreeNodeData) list \<Rightarrow> bool" where
  "same_use lo hi L L' \<longleftrightarrow> tiles lo L' hi \<and> coalesced L' \<and> free_set L' = free_set L \<and> free_bytes L' = free_bytes L \<and>
     pages isFree L' = pages isFree L \<and> pages (\<lambda>d. \<not> isFree d) L' = pages (\<lambda>d. \<not> isFree d) L"

lemma same_use_refl: "tiles lo L hi \<Longrightarrow> coalesced L \<Longrightarrow> same_use lo hi L L"
  by (simp add: same_use_def)

lemma same_use_trans: "same_use lo hi L M \<Longrightarrow> same_use lo hi M N \<Longrightarrow> same_use lo hi L N"
  by (simp add: same_use_def)

lemma cut_used:
  assumes inv: "tree_invar t" and e: "entries t = xs @ (k, d) # ys" and ti: "tiles lo (entries t) hi" and hi: "hi < 2 ^ 64"
    and c: "coalesced (entries t)" and u: "\<not> isFree d" and n: "0 < unat n" "unat n < unat (region_size d)"
  defines "d1 \<equiv> d\<lparr>region_size := n\<rparr>" and "d2 \<equiv> d\<lparr>region_size := region_size d - n\<rparr>" and "k2 \<equiv> k + push_bit 12 n"
  shows "\<exists>t'. SplitAPTNode t (k, d, True) n = (t', (k, d1, True), (k2, d2, True)) \<and> tree_invar t' \<and>
    entries t' = xs @ (k, d1) # (k2, d2) # ys \<and> same_use lo hi (entries t) (entries t')"
proof -
  note S = SplitAPTNode_ok [OF inv e ti hi n, folded d1_def d2_def k2_def]
  have z: "region_size d1 \<noteq> 0" "region_size d2 \<noteq> 0" "unat (region_size d1) + unat (region_size d2) = unat (region_size d)"
    using n S(3) by (auto simp: d1_def)
  have "tiles lo (xs @ (k, d1) # (k2, d2) # ys) hi"
    using split_tiles [OF ti [unfolded e], of k2 d1 d2] S(2) z by (simp add: d1_def)
  moreover have "coalesced (xs @ (k, d1) # (k2, d2) # ys)"
    using c e u by (cases xs rule: rev_cases; cases ys) (auto simp: d1_def d2_def successively_append_iff)
  moreover have "\<not> isFree d1" "\<not> isFree d2"
    using u by (simp_all add: d1_def d2_def)
  ultimately have "same_use lo hi (xs @ (k, d) # ys) (xs @ (k, d1) # (k2, d2) # ys)"
    using u z(3) by (simp add: same_use_def)
  then show ?thesis
    using S(1) e by auto
qed

lemma FreePages_node_ok:
  assumes inv: "tree_invar t" and e: "entries t = xs @ (k, d) # ys" and ti: "tiles lo (entries t) hi" and hi: "hi < 2 ^ 64"
    and c: "coalesced (entries t)" and u: "\<not> isFree d" and n: "n \<noteq> 0"
    and find: "wAVLTree_FindNodeOrLower t ptr = Some (k, d)" and pre: "unat ptr = unat k + unat (drop_bit 12 (ptr - k)) * 4096"
      "k + push_bit 12 (drop_bit 12 (ptr - k)) = ptr"
    and fits: "unat ptr + unat n * 4096 \<le> unat k + region_bytes d"
  shows "\<exists>t' us f vs. FreePages_node t ptr n False = Some (t', (ptr, f, True)) \<and> tree_invar t' \<and> entries t' = us @ (ptr, f) # vs \<and>
    \<not> isFree f \<and> region_size f = n \<and> same_use lo hi (entries t) (entries t')"
proof -
  let ?p = "drop_bit 12 (ptr - k)"
  have "(unat ?p + unat n) * 4096 \<le> region_bytes d"
    using pre(1) fits by (simp add: algebra_simps)
  then have pn: "unat ?p + unat n \<le> unat (region_size d)"
    by simp
  have n0: "0 < unat n"
    using n by (simp add: unat_gt_0)
  define f where "f = d\<lparr>region_size := region_size d - ?p\<rparr>"
  have uf: "unat (region_size f) = unat (region_size d) - unat ?p" "\<not> isFree f"
    using pn u by (simp_all add: f_def unat_sub_nowrap)
  obtain t1 us where t1: "(if k < ptr then (case SplitAPTNode t (k, d, True) ?p of (t, _, m) \<Rightarrow> (t, m)) else (t, (k, d, True))) = (t1, (ptr, f, True))"
    "tree_invar t1" "entries t1 = us @ (ptr, f) # ys" "same_use lo hi (entries t) (entries t1)"
  proof (cases "?p = 0")
    case True
    then have "ptr = k" "f = d"
      using pre(2) by (simp_all add: f_def)
    then show ?thesis
      using that [of t xs] inv e same_use_refl [OF ti c] by simp
  next
    case False
    then have lt: "k < ptr" "0 < unat ?p" "unat ?p < unat (region_size d)"
      using pre(1) pn n0 unat_gt_0_u64 [OF False] by (simp_all add: word_less_nat_alt)
    obtain t1 where "SplitAPTNode t (k, d, True) ?p = (t1, (k, d\<lparr>region_size := ?p\<rparr>, True), (ptr, f, True))" "tree_invar t1"
      "entries t1 = xs @ (k, d\<lparr>region_size := ?p\<rparr>) # (ptr, f) # ys" "same_use lo hi (entries t) (entries t1)"
      using cut_used [OF inv e ti hi c u lt(2,3), folded f_def, unfolded pre(2)] by blast
    then show ?thesis
      using that [of t1 "xs @ [(k, d\<lparr>region_size := ?p\<rparr>)]"] lt(1) by simp
  qed
  have su: "tiles lo (entries t1) hi" "coalesced (entries t1)"
    using t1(4) by (simp_all add: same_use_def)
  obtain t2 g vs where t2: "(if region_size f \<noteq> n then (case SplitAPTNode t1 (ptr, f, True) n of (t, m, _) \<Rightarrow> (t, m)) else (t1, (ptr, f, True))) = (t2, (ptr, g, True))"
    "tree_invar t2" "entries t2 = us @ (ptr, g) # vs" "same_use lo hi (entries t1) (entries t2)" "\<not> isFree g" "region_size g = n"
  proof (cases "region_size f = n")
    case True
    then show ?thesis
      using that [of t1 f ys] t1(2,3) same_use_refl [OF su] uf(2) by simp
  next
    case False
    then have "unat n \<noteq> unat (region_size f)"
      by (metis unat_inj)
    then have lt: "unat n < unat (region_size f)"
      using uf(1) pn by linarith
    obtain t2 where "SplitAPTNode t1 (ptr, f, True) n =
        (t2, (ptr, f\<lparr>region_size := n\<rparr>, True), (ptr + push_bit 12 n, f\<lparr>region_size := region_size f - n\<rparr>, True))" "tree_invar t2"
      "entries t2 = us @ (ptr, f\<lparr>region_size := n\<rparr>) # (ptr + push_bit 12 n, f\<lparr>region_size := region_size f - n\<rparr>) # ys"
      "same_use lo hi (entries t1) (entries t2)"
      using cut_used [OF t1(2,3) su(1) hi su(2) uf(2) n0 lt] by blast
    then show ?thesis
      using that [of t2 "f\<lparr>region_size := n\<rparr>"] False uf(2) by simp
  qed
  have b: "unat k + region_bytes d < 2 ^ 64"
    using tiles_split(4) [OF ti [unfolded e]] hi by linarith
  have "\<not> k + region_size d * PAGE_SIZE < ptr + n * PAGE_SIZE"
    using b fits by (simp add: word_less_nat_alt unat_pages)
  then have "FreePages_node t ptr n False = Some (t2, (ptr, g, True))"
    unfolding FreePages_node_def Let_def using find u t1(1) t2(1) by (simp split del: if_split cong: if_cong)
  then show ?thesis
    using t2(2,3,5,6) same_use_trans [OF t1(4) t2(4)] by blast
qed

section \<open>The release\<close>

lemma fold_free_release:
  "fst (fold (\<lambda>(a, n) (f, h). (free_remove f n a, free_release f n a h)) rs (f, h)) =
     fold (\<lambda>(a, n) f. free_remove f n a) rs f"
  by (induction rs arbitrary: f h) (auto simp: split_def)

lemma vma_FreePages_isolated:
  assumes ok: "vma_ok s" and l: "vma_lock s = 1"
    and t: "FreePages_node (m_allPagesTree s) ptr n ex = Some (t, (ptr, d, True))" "tree_invar t" "entries t = us @ (ptr, d) # vs"
      "\<not> isFree d" "region_size d = n" "same_use (unat (vma_start s)) (unat (vma_end s)) (ranges s) (entries t)"
  shows "\<exists>s'. vma_FreePages s ptr n ex True = Inr s' \<and> vma_ok s' \<and> vma_lock s' = 1 \<and>
    free_bytes (ranges s') = free_bytes (ranges s) \<union> {unat ptr ..< unat ptr + unat n * 4096}"
proof -
  note D = vma_okD [OF ok]
  define A where "A = free_before us"
  define B where "B = free_behind vs"
  define xs where "xs = (if A = [] then us else butlast us)"
  define ys where "ys = (if B = [] then vs else tl vs)"
  define k' where "k' = (if A = [] then ptr else fst (hd A))"
  let ?d = "d\<lparr>isFree := True\<rparr>"
  let ?t = "set_value t ptr ?d"
  have lone: "lone_free A" "lone_free B" "us = xs @ A" "vs = B @ ys"
    using lone_neighbours(1,3) [of us] lone_neighbours(2,4) [of vs] by (simp_all add: A_def B_def xs_def ys_def)
  have old: "entries t = (xs @ A) @ (ptr, d) # B @ ys"
    using t(3) lone(3,4) by simp
  have su: "tiles (unat (vma_start s)) (entries t) (unat (vma_end s))" "coalesced (entries t)" "free_set (entries t) = free_set (ranges s)"
    using t(6) by (simp_all add: same_use_def)
  have e1: "entries ?t = us @ (ptr, ?d) # vs" and i1: "tree_invar ?t"
    using set_value_split [OF t(2,3)] set_value_invar [OF t(2)] by auto
  have "tiles (unat (vma_start s)) (entries ?t) (unat (vma_end s))"
    using su(1) by (simp add: e1 t(3) tiles_append)
  from FreePages_merge_ok [OF i1 e1 this D(5), of n, folded A_def B_def] obtain t' m d' where
    mg: "FreePages_merge ?t (ptr, ?d, True) ptr n = (t', (k', m), map region_of (A @ B))" "tree_invar t'" "entries t' = xs @ (k', d') # ys"
    "isFree d'" "region_size d' = m" "unat m = pages isFree A + unat n + pages isFree B"
    using t(5) unfolding xs_def ys_def k'_def by auto
  have Ae: "A \<noteq> [] \<or> xs = [] \<or> \<not> isFree (snd (last xs))" and Be: "B \<noteq> [] \<or> ys = [] \<or> \<not> isFree (snd (hd ys))"
    using lone_neighbours(5) [of us, folded A_def] lone_neighbours(6) [of vs, folded B_def] by (auto simp: xs_def ys_def)
  have tot: "unat (region_size d') = pages isFree A + unat (region_size d) + pages isFree B"
    using mg(5,6) t(5) by simp
  note J = joined_ok [OF su(1,2) [unfolded old] t(4) lone(1) Ae lone(2) Be mg(4) tot k'_def, folded old mg(3)]
  have "free_set (A @ B) \<subseteq> free_set (ranges s)"
    unfolding su(3) [symmetric] old by auto
  moreover have "distinct (map fst (A @ B))" "\<forall>p\<in>set (A @ B). isFree (snd p)"
  proof -
    have "distinct (map fst (entries t))"
      using tree_invar_sorted [OF t(2)] strict_sorted_iff by blast
    then show "distinct (map fst (A @ B))"
      unfolding old by auto
    show "\<forall>p\<in>set (A @ B). isFree (snd p)"
      using lone(1,2) by (auto simp: lone_free_def)
  qed
  ultimately have ix0: "index_ok (free_set (ranges s) - free_set (A @ B)) (fold (\<lambda>(a, n) f. free_remove f n a) (map region_of (A @ B)) (m_freePagesTree s))"
    using fold_free_remove [OF D(4), of "A @ B"] by blast
  have ix: "index_ok (free_set (entries t) - free_set A - free_set B) (fold (\<lambda>(a, n) f. free_remove f n a) (map region_of (A @ B)) (m_freePagesTree s))"
  proof -
    have "free_set (entries t) - free_set A - free_set B = free_set (ranges s) - free_set (A @ B)"
      unfolding su(3) by auto
    then show ?thesis
      using ix0 by (simp only:)
  qed
  let ?g = "free_insert (fold (\<lambda>(a, n) f. free_remove f n a) (map region_of (A @ B)) (m_freePagesTree s)) m k'"
  have ig: "index_ok (free_set (entries t')) ?g"
    using free_insert_ok [OF ix, of m k'] J(6,7) mg(5) by simp
  then have "k' \<in> set (free_list ?g m)"
    using J(6) mg(5) by (simp add: index_ok_def)
  let ?h = "node_new True k' (snd (fold (\<lambda>(a, n) (f, h). (free_remove f n a, free_release f n a h)) (map region_of (A @ B)) (m_freePagesTree s, vma_heaps s)))"
  from \<open>k' \<in> set (free_list ?g m)\<close> have run: "vma_FreePages s ptr n ex True = Inr (s\<lparr>m_allPagesTree := t', m_freePagesTree := ?g, vma_heaps := ?h,
      vma_freePageCount := vma_freePageCount s + n, vma_usedPageCount := vma_usedPageCount s - n, vma_lock := 1\<rparr>)"
    using l t(1) mg(1) fold_free_release [of "map region_of (A @ B)" "m_freePagesTree s" "vma_heaps s"]
    by (simp add: vma_FreePages_def write_node_def split_def del: fold_map map_append)
  have use: "pages isFree (entries t) = unat (vma_freePageCount s)" "pages (\<lambda>d. \<not> isFree d) (entries t) = unat (vma_usedPageCount s)"
    using t(6) ok by (simp_all add: same_use_def vma_ok_def)
  have "unat (vma_usedPageCount s - n) = pages (\<lambda>d. \<not> isFree d) (entries t')"
    using J(4) use t(5) by (subst unat_sub_nowrap) auto
  moreover have "unat (vma_freePageCount s + n) = pages isFree (entries t')"
  proof -
    have "pages isFree (entries t') \<le> (pages isFree (entries t') + pages (\<lambda>d. \<not> isFree d) (entries t')) * 4096"
      by simp
    also have "\<dots> \<le> unat (vma_end s)"
      using pages_total [OF J(1)] by linarith
    finally have "pages isFree (entries t') < 2 ^ 64"
      using D(5) by linarith
    then show ?thesis
      using J(3) use t(5) by (subst unat_add_nowrap) auto
  qed
  ultimately have "vma_ok (s\<lparr>m_allPagesTree := t', m_freePagesTree := ?g, vma_heaps := ?h,
      vma_freePageCount := vma_freePageCount s + n, vma_usedPageCount := vma_usedPageCount s - n, vma_lock := 1\<rparr>)"
    using ok mg(2) J(1,2) ig by (simp add: vma_ok_def)
  then show ?thesis
    using run J(5) t(5,6) by (simp add: same_use_def)
qed

lemma FreePages_exact_node:
  assumes "vma_ok s" "(ptr, d) \<in> set (ranges s)" "\<not> isFree d" "region_size d = n"
  shows "FreePages_node (m_allPagesTree s) ptr n True = Some (m_allPagesTree s, (ptr, d, True))"
    "same_use (unat (vma_start s)) (unat (vma_end s)) (ranges s) (ranges s)"
proof -
  note D = vma_okD [OF assms(1)]
  show "same_use (unat (vma_start s)) (unat (vma_end s)) (ranges s) (ranges s)"
    using D by (intro same_use_refl)
  have "wAVLTree_Find (m_allPagesTree s) ptr = Some d"
    using tree.look_entry [OF D(1)] assms(2) by blast
  then show "FreePages_node (m_allPagesTree s) ptr n True = Some (m_allPagesTree s, (ptr, d, True))"
    using assms(3,4) D(1) by (simp add: FreePages_node_def FindNode_Find)
qed

lemma vma_FreePages_exact:
  assumes "vma_ok s" "vma_lock s = 1" "(ptr, d) \<in> set (ranges s)" "\<not> isFree d" "region_size d = n"
  shows "\<exists>s'. vma_FreePages s ptr n True True = Inr s' \<and> vma_ok s' \<and> vma_lock s' = 1 \<and>
    free_bytes (ranges s') = free_bytes (ranges s) \<union> {unat ptr ..< unat ptr + unat n * 4096}"
proof -
  obtain us vs where "ranges s = us @ (ptr, d) # vs"
    using split_list [OF assms(3)] by blast
  then show ?thesis
    using vma_FreePages_isolated [OF assms(1,2) FreePages_exact_node(1) [OF assms(1,3,4,5)] _ _ assms(4,5) FreePages_exact_node(2) [OF assms(1,3,4,5)]]
      vma_okD(1) [OF assms(1)] by blast
qed

lemma vma_FreePages_inside:
  assumes ok: "vma_ok s" and l: "vma_lock s = 1" and n: "n \<noteq> 0" and al: "4096 dvd unat ptr"
    and kd: "(k, d) \<in> set (ranges s)" "\<not> isFree d" "unat k \<le> unat ptr" "unat ptr + unat n * 4096 \<le> unat k + region_bytes d"
  shows "\<exists>s'. vma_FreePages s ptr n False True = Inr s' \<and> vma_ok s' \<and> vma_lock s' = 1 \<and>
    free_bytes (ranges s') = free_bytes (ranges s) \<union> {unat ptr ..< unat ptr + unat n * 4096}"
proof -
  note D = vma_okD [OF ok]
  have b: "unat (vma_start s) \<le> unat k" "unat k + region_bytes d \<le> unat (vma_end s)"
    using tiles_bounds [OF D(2) kd(1)] by auto
  have n0: "0 < unat n * 4096"
    using n by (simp add: unat_gt_0)
  have "unat (vma_start s) \<le> unat ptr" "unat ptr < unat (vma_end s)"
    using b kd(3,4) n0 by linarith+
  from range_at [OF ok al this] obtain xs k1 d1 ys where R: "ranges s = xs @ (k1, d1) # ys" "k1 \<le> ptr" "unat ptr < unat k1 + region_bytes d1"
    "wAVLTree_FindNodeOrLower (m_allPagesTree s) ptr = Some (k1, d1)" "unat ptr = unat k1 + unat (drop_bit 12 (ptr - k1)) * 4096"
    "k1 + push_bit 12 (drop_bit 12 (ptr - k1)) = ptr"
    by blast
  have "(k, d) = (k1, d1)"
    using range_unique [OF D(2) [unfolded R(1)] kd(1) [unfolded R(1)], of "unat ptr"] kd(3,4) n0 R(2,3) by (simp add: word_le_nat_alt)
  then show ?thesis
    using FreePages_node_ok [OF D(1) R(1) D(2,5,3) _ n R(4,5,6)] kd(2,4) vma_FreePages_isolated [OF ok l] by fastforce
qed

lemma vma_FreePages_ignored:
  assumes ok: "vma_ok s" and l: "vma_lock s = 1" and f: "(k, d) \<in> set (ranges s)" "isFree d" "unat k \<le> unat ptr" "unat ptr < unat k + region_bytes d"
    and al: "4096 dvd unat ptr"
  shows "vma_FreePages s ptr n ex True = Inr s"
proof -
  note D = vma_okD [OF ok]
  have b: "unat (vma_start s) \<le> unat ptr" "unat ptr < unat (vma_end s)"
    using tiles_bounds [OF D(2) f(1)] f(3,4) by auto
  from range_at [OF ok al b] obtain xs k1 d1 ys where R: "ranges s = xs @ (k1, d1) # ys" "k1 \<le> ptr" "unat ptr < unat k1 + region_bytes d1"
    "wAVLTree_FindNodeOrLower (m_allPagesTree s) ptr = Some (k1, d1)"
    by blast
  have kd: "(k, d) = (k1, d1)"
    using range_unique [OF D(2) [unfolded R(1)] f(1) [unfolded R(1)], of "unat ptr"] f(3,4) R(2,3) by (simp add: word_le_nat_alt)
  have ex: "isFree d2" if "wAVLTree_Find (m_allPagesTree s) ptr = Some d2" for d2
  proof -
    have "(ptr, d2) \<in> set (ranges s)"
      using that tree.look_entry [OF D(1)] by blast
    then have "(ptr, d2) = (k1, d1)"
      using range_unique [OF D(2) [unfolded R(1)] _ _ _ _ R(3), of "(ptr, d2)"] R(1,2) tiles_bounds [OF D(2)]
      by (fastforce simp: word_le_nat_alt)
    then show ?thesis
      using f(2) kd by simp
  qed
  have "FreePages_node (m_allPagesTree s) ptr n ex = None"
    using ex R(4) f(2) kd D(1) by (auto simp: FreePages_node_def FindNode_Find split: option.split)
  then show ?thesis
    using l by (simp add: vma_FreePages_def)
qed

end
