(* ===== verification/VMRegionClaims.thy ===== *)
theory VMRegionClaims
  imports VMRegionFree
begin

text \<open>
  The life of a region allocator: initialisation, the self check, copying and deletion, and the properties
  of its operations. \<open>vma_ok\<close> is its invariant: the ranges tile the region without gaps, no two free
  neighbours are left apart, the index holds exactly the free ranges, and the counters count their pages.
\<close>

section \<open>Initialisation and the self check\<close>

lemma Insert_Null [simp]: "wAVLTree_Insert Null k v = (RBNode Null False k v False Null, True)"
  by (simp add: wAVLTree_Insert_def RB_INSERT_def)

lemma tree_invar_single [simp]: "tree_invar (RBNode Null False k v False Null)"
  by (simp add: tree_invar_def)

lemma vma_Init_ok:
  assumes b: "unat e + 4096 \<le> 2 ^ 64" and lt: "unat a div 4096 * 4096 < (unat e + 4095) div 4096 * 4096"
    and s0: "m_allPagesTree s0 = Null" "m_freePagesTree s0 = Null" "vma_lock s0 = 1"
  shows "vma_ok (vma_Init s0 a e)" "vma_lock (vma_Init s0 a e) = 1"
    "free_bytes (ranges (vma_Init s0 a e)) = {unat a div 4096 * 4096 ..< (unat e + 4095) div 4096 * 4096}"
    "p \<in> set (ranges (vma_Init s0 a e)) \<Longrightarrow> nh_vmm (vma_heaps (vma_Init s0 a e)) (fst p)"
proof -
  let ?s = "vma_Init s0 a e"
  define lo where "lo = ALIGN_DOWN a PAGE_SIZE"
  define hi where "hi = ALIGN_UP e PAGE_SIZE"
  have lo: "unat lo = unat a div 4096 * 4096"
    by (simp add: lo_def unat_ALIGN_DOWN)
  have hi: "unat hi = (unat e + 4095) div 4096 * 4096"
    using b by (simp add: hi_def unat_ALIGN_UP PAGE_SIZE_def)
  define n where "n = drop_bit 12 (hi - lo)"
  have "unat (hi - lo) = ((unat e + 4095) div 4096 - unat a div 4096) * 4096"
    using lt lo hi by (subst unat_sub_nowrap) (auto simp: diff_mult_distrib)
  then have "unat n = (unat e + 4095) div 4096 - unat a div 4096"
    by (simp add: n_def)
  then have n: "unat lo + unat n * 4096 = unat hi" "0 < unat n"
    using lo hi lt by (auto simp: diff_mult_distrib)
  have "unat n * 4096 \<le> unat hi"
    using n(1) by linarith
  also have "unat hi < 2 ^ 64"
    by simp
  finally have "unat n * 4096 < 2 ^ 64" .
  then have n62: "take_bit 62 n = n"
    by (rule take_bit_size)
  have "hi \<noteq> 0"
    using n by auto
  then have s: "?s = s0\<lparr>vma_start := lo, vma_end := hi,
      m_allPagesTree := RBNode Null False lo \<lparr>region_size = n, isFree = True, isReserved = False\<rparr> False Null,
      m_freePagesTree := RBNode Null False n [lo] False Null, vma_heaps := node_new True lo (vma_heaps s0), vma_freePageCount := n,
      vma_usedPageCount := 0, vma_reservedPageCount := 0, vma_totalPageCount := n\<rparr>"
    using n62 s0 by (simp add: vma_Init_def lo_def [symmetric] hi_def [symmetric] n_def [symmetric] Let_def)
  have "index_ok {(n, lo)} (RBNode Null False n [lo] False Null)"
    by (auto simp: index_ok_def free_list_Find Find_entries)
  then show "vma_ok ?s"
    using n lo unfolding s by (auto simp: vma_ok_def)
  show "vma_lock ?s = 1"
    by (simp add: s s0)
  show "free_bytes (ranges ?s) = {unat a div 4096 * 4096 ..< (unat e + 4095) div 4096 * 4096}"
    using n(1) lo hi unfolding s by simp
  show "nh_vmm (vma_heaps ?s) (fst p)" if "p \<in> set (ranges ?s)"
    using that by (simp add: s node_new_def)
qed

lemma Verify_fold:
  assumes "\<And>p. p \<in> set ps \<Longrightarrow> Verify_node f (fst p) (snd p) (Inr ()) = Inr ()"
  shows "fold (\<lambda>p. Verify_node f (fst p) (snd p)) ps (Inr ()) = Inr ()"
  using assms by (induction ps) auto

lemma vma_Verify_ok:
  assumes "vma_ok s" "vma_start s < vma_end s"
  shows "vma_Verify s = Inr ()"
proof -
  note D = vma_okD [OF assms(1)]
  have fi: "tree_invar (m_freePagesTree s)"
    using D(4) by (simp add: index_ok_def)
  have node: "Verify_node (m_freePagesTree s) (fst p) (snd p) (Inr ()) = Inr ()" if p: "p \<in> set (ranges s)" for p
  proof -
    have "region_size (snd p) > 0"
      using tiles_bounds [OF D(2) p] by (simp add: word_less_nat_alt)
    moreover have "\<exists>l. wAVLTree_Find (m_freePagesTree s) (region_size (snd p)) = Some l \<and> fst p \<in> set l" if "isFree (snd p)"
    proof -
      have "(region_size (snd p), fst p) \<in> free_set (ranges s)"
        using p that by (simp add: free_set_def) (metis prod.collapse)
      then show ?thesis
        using index_member [OF D(4)] by blast
    qed
    ultimately show ?thesis
      using fi by (auto simp: Verify_node_def FindNode_Find)
  qed
  have "vma_start s \<noteq> - 1"
    using assms(2) by (metis word_n1_ge leD)
  moreover have "vma_end s \<noteq> 0"
    using assms(2) by auto
  moreover have "wAVLTree_forEach (m_allPagesTree s) (Verify_node (m_freePagesTree s)) (Inr ()) = Some (Inr ())"
    using forEach_loop_entries [OF D(1), of "[]" "ranges s" "Verify_node (m_freePagesTree s)" "Inr ()"] Verify_fold [of "ranges s", OF node]
    by (simp add: wAVLTree_forEach_def RB_MIN_entries)
  moreover have "vma_freePageCount s + vma_usedPageCount s + vma_reservedPageCount s = vma_totalPageCount s"
    using assms(1) by (simp add: vma_ok_def)
  ultimately show ?thesis
    using assms(2) by (simp add: vma_Verify_def)
qed

section \<open>Copying and deletion\<close>

lemma fold_Insert:
  "tree_invar t \<Longrightarrow> sorted_keys (entries t @ ps) \<Longrightarrow>
   tree_invar (fold (\<lambda>p t. fst (wAVLTree_Insert t (fst p) (snd p))) ps t) \<and>
   entries (fold (\<lambda>p t. fst (wAVLTree_Insert t (fst p) (snd p))) ps t) = entries t @ ps"
proof (induction ps arbitrary: t)
  case (Cons p ps)
  have "entries (fst (wAVLTree_Insert t (fst p) (snd p))) = entries t @ [p]"
    using Insert_split [OF Cons.prems(1), of "entries t" "[]" "fst p" "snd p"] Cons.prems(2) by (auto simp: sorted_wrt_append)
  then show ?case
    using Cons.IH [OF Insert_invar [OF Cons.prems(1)], of "fst p" "snd p"] Cons.prems(2) by simp
qed simp

lemma forEach_Insert:
  assumes "tree_invar t"
  shows "\<exists>t'. wAVLTree_forEach t (\<lambda>k d t. fst (wAVLTree_Insert t k d)) Null = Some t' \<and> tree_invar t' \<and> entries t' = entries t"
  using forEach_loop_entries [OF assms, of "[]" "entries t" "\<lambda>k d t. fst (wAVLTree_Insert t k d)" Null]
    fold_Insert [of Null "entries t"] tree_invar_sorted [OF assms]
  by (simp add: wAVLTree_forEach_def RB_MIN_entries tree.invar_new)

lemma index_ok_entries:
  assumes "index_ok F f" "tree_invar g" "entries g = entries f"
  shows "index_ok F g"
proof -
  have "wAVLTree_Find g n = wAVLTree_Find f n" for n
    using assms by (simp add: index_ok_def Find_entries)
  moreover from this have "free_list g n = free_list f n" for n
    using assms(1,2) by (simp add: index_ok_def free_list_Find)
  ultimately show ?thesis
    using assms(1,2) by (simp add: index_ok_def)
qed

text \<open>The copies of the lists are made in the heap of the virtual memory manager.\<close>

lemma node_new_fold: "nh_vmm (fold (node_new True) l h) a \<longleftrightarrow> a \<in> set l \<or> nh_vmm h a"
  by (induction l arbitrary: h) (auto simp: node_new_def)

lemma fold_copy:
  "fold (\<lambda>p (f, h). (fst (wAVLTree_Insert f (fst p) (snd p)), fold (node_new True) (snd p) h)) ps (f, h) =
     (fold (\<lambda>p f. fst (wAVLTree_Insert f (fst p) (snd p))) ps f, fold (node_new True) (concat (map snd ps)) h)"
  by (induction ps arbitrary: f h) simp_all

lemma forEach_copy:
  assumes "tree_invar t"
  shows "\<exists>t'. wAVLTree_forEach t (\<lambda>k l (f, h). (fst (wAVLTree_Insert f k l), fold (node_new True) l h)) (Null, h) =
      Some (t', fold (node_new True) (concat (map snd (entries t))) h) \<and> tree_invar t' \<and> entries t' = entries t"
  using forEach_loop_entries [OF assms, of "[]" "entries t" "\<lambda>k l (f, h). (fst (wAVLTree_Insert f k l), fold (node_new True) l h)" "(Null, h)"]
    fold_Insert [of Null "entries t"] tree_invar_sorted [OF assms]
  by (simp add: wAVLTree_forEach_def RB_MIN_entries tree.invar_new fold_copy)

lemma index_lists:
  assumes "index_ok F f"
  shows "set (concat (map snd (entries f))) = snd ` F"
proof -
  have inv: "tree_invar f"
    using assms by (simp add: index_ok_def)
  have iff: "(\<exists>p\<in>set (entries f). a \<in> set (snd p)) \<longleftrightarrow> (\<exists>n. (n, a) \<in> F)" for a
  proof
    assume "\<exists>p\<in>set (entries f). a \<in> set (snd p)"
    then obtain n l where "(n, l) \<in> set (entries f)" "a \<in> set l"
      by force
    then have "wAVLTree_Find f n = Some l" "a \<in> set l"
      using tree.look_entry [OF inv] by auto
    then have "a \<in> set (free_list f n)"
      using inv by (simp add: free_list_Find)
    then show "\<exists>n. (n, a) \<in> F"
      using assms by (auto simp: index_ok_def)
  next
    assume "\<exists>n. (n, a) \<in> F"
    then obtain n where "(n, a) \<in> F"
      by blast
    then obtain l where "wAVLTree_Find f n = Some l" "a \<in> set l"
      using index_member [OF assms] by blast
    then show "\<exists>p\<in>set (entries f). a \<in> set (snd p)"
      using tree.look_entry [OF inv, of n l] by (metis snd_conv)
  qed
  have "a \<in> snd ` F \<longleftrightarrow> (\<exists>n. (n, a) \<in> F)" for a
    by force
  then show ?thesis
    using iff by (intro set_eqI) simp
qed

lemma free_starts: "snd ` free_set ps = {fst p |p. p \<in> set ps \<and> isFree (snd p)}"
  by (force simp: free_set_def image_iff)

lemma vma_Fork_ok:
  assumes ok: "vma_ok other" and l: "vma_lock other = 1" "vma_lock s = 1"
    and s: "m_allPagesTree s = Null" "m_freePagesTree s = Null"
  shows "\<exists>s'. vma_Fork s other = Inr (s', other) \<and> vma_ok s' \<and> vma_lock s' = 1 \<and> ranges s' = ranges other \<and>
    (\<forall>p. p \<in> set (ranges other) \<longrightarrow> isFree (snd p) \<longrightarrow> nh_vmm (vma_heaps s') (fst p))"
proof -
  note D = vma_okD [OF ok]
  obtain t where t: "wAVLTree_forEach (m_allPagesTree other) (\<lambda>k d t. fst (wAVLTree_Insert t k d)) Null = Some t" "tree_invar t"
    "entries t = ranges other"
    using forEach_Insert [OF D(1)] by blast
  let ?l = "concat (map snd (entries (m_freePagesTree other)))"
  let ?h = "fold (node_new True) ?l (vma_heaps s)"
  have "tree_invar (m_freePagesTree other)"
    using D(4) by (simp add: index_ok_def)
  then obtain f where f: "wAVLTree_forEach (m_freePagesTree other) (\<lambda>k l (f, h). (fst (wAVLTree_Insert f k l), fold (node_new True) l h))
      (Null, vma_heaps s) = Some (f, ?h)" "tree_invar f" "entries f = entries (m_freePagesTree other)"
    using forEach_copy by blast
  have "index_ok (free_set (ranges other)) f"
    using index_ok_entries [OF D(4) f(2,3)] .
  moreover have "nh_vmm ?h (fst p)" if "p \<in> set (ranges other)" "isFree (snd p)" for p
  proof -
    have "fst p \<in> set ?l"
      unfolding index_lists [OF D(4)] free_starts using that by blast
    then show ?thesis
      unfolding node_new_fold by blast
  qed
  ultimately show ?thesis
    using l s t f(1) ok by (simp add: vma_Fork_def vma_ok_def) force
qed

lemma Delete_list_append: "Delete_list (xs @ ys) h = Delete_list ys (Delete_list xs h)"
  by (induction xs arbitrary: h) simp_all

lemma fold_Delete: "fold (\<lambda>p. Delete_list (snd p)) ps h = Delete_list (concat (map snd ps)) h"
  by (induction ps arbitrary: h) (simp_all add: Delete_list_append)

lemma Delete_list_run:
  "Delete_list l h = h\<lparr>nh_back := nh_back h @ filter (nh_vmm h) l, nh_lost := nh_lost h @ filter (\<lambda>a. \<not> nh_vmm h a) l\<rparr>"
  by (induction l arbitrary: h) (auto simp: node_delete_def)

lemma index_distinct:
  assumes "index_ok F f" and key: "\<And>n m a. (n, a) \<in> F \<Longrightarrow> (m, a) \<in> F \<Longrightarrow> n = m"
  shows "distinct (concat (map snd (entries f)))"
proof -
  have inv: "tree_invar f"
    using assms by (simp add: index_ok_def)
  have mem: "distinct l \<and> set l = {a. (n, a) \<in> F}" if "(n, l) \<in> set (entries f)" for n l
  proof -
    have "free_list f n = l"
      using tree.look_entry [OF inv, of n l] that inv by (simp add: free_list_Find)
    then show ?thesis
      using assms(1) unfolding index_ok_def by blast
  qed
  have "distinct (concat (map snd ps))" if "sorted_keys ps" "set ps \<subseteq> set (entries f)" for ps
    using that
  proof (induction ps)
    case (Cons p ps)
    obtain n l where p: "p = (n, l)"
      by force
    have "set l \<inter> set l' = {}" if "(m, l') \<in> set ps" for m l'
    proof -
      have "n \<noteq> m"
        using Cons.prems(1) that unfolding p by auto
      moreover have "set l = {a. (n, a) \<in> F}" "set l' = {a. (m, a) \<in> F}"
        using mem [of n l] mem [of m l'] Cons.prems(2) that unfolding p by simp_all blast
      ultimately show ?thesis
        using key by blast
    qed
    then have "set l \<inter> set (concat (map snd ps)) = {}"
      by (simp add: disjoint_iff) (metis prod.collapse)
    moreover have "distinct l" "sorted_keys ps" "set ps \<subseteq> set (entries f)"
      using mem [of n l] Cons.prems unfolding p by simp_all
    ultimately show ?case
      using Cons.IH unfolding p by (simp add: disjoint_iff)
  qed simp
  then show ?thesis
    using tree_invar_sorted [OF inv] by blast
qed

lemma vma_Delete_ok:
  assumes ok: "vma_ok s" and l: "vma_lock s = 1"
  shows "\<exists>s' freed. vma_Delete s = Inr s' \<and> m_allPagesTree s' = Null \<and> m_freePagesTree s' = Null \<and> vma_lock s' = 1 \<and>
    distinct freed \<and> set freed = {fst p |p. p \<in> set (ranges s) \<and> isFree (snd p)} \<and>
    nh_back (vma_heaps s') = nh_back (vma_heaps s) @ filter (nh_vmm (vma_heaps s)) freed \<and>
    nh_lost (vma_heaps s') = nh_lost (vma_heaps s) @ filter (\<lambda>a. \<not> nh_vmm (vma_heaps s) a) freed"
proof -
  note D = vma_okD [OF ok]
  let ?l = "concat (map snd (entries (m_freePagesTree s)))"
  have fi: "tree_invar (m_freePagesTree s)"
    using D(4) by (simp add: index_ok_def)
  have "distinct ?l"
  proof (rule index_distinct [OF D(4)])
    fix n m a
    assume "(n, a) \<in> free_set (ranges s)" "(m, a) \<in> free_set (ranges s)"
    then obtain d e where "(a, d) \<in> set (ranges s)" "region_size d = n" "(a, e) \<in> set (ranges s)" "region_size e = m"
      by (auto simp: free_set_def)
    moreover from this have "d = e"
      using tree.look_entry [OF D(1), of a d] tree.look_entry [OF D(1), of a e] by simp
    ultimately show "n = m"
      by simp
  qed
  moreover have "set ?l = {fst p |p. p \<in> set (ranges s) \<and> isFree (snd p)}"
    unfolding index_lists [OF D(4)] by (rule free_starts)
  moreover have "wAVLTree_forEach (m_freePagesTree s) (\<lambda>_. Delete_list) (vma_heaps s) = Some (Delete_list ?l (vma_heaps s))"
    using forEach_loop_entries [OF fi, of "[]" "entries (m_freePagesTree s)" "\<lambda>_. Delete_list" "vma_heaps s"]
    by (simp add: wAVLTree_forEach_def RB_MIN_entries fold_Delete)
  moreover have "wAVLTree_Clear (m_freePagesTree s) = Some Null" "wAVLTree_Clear (m_allPagesTree s) = Some Null"
    using Clear_loop_entries [OF fi] Clear_loop_entries [OF D(1)] by (simp_all add: wAVLTree_Clear_def RB_MIN_entries)
  ultimately show ?thesis
    using l by (intro exI [of _ "s\<lparr>m_freePagesTree := Null, m_allPagesTree := Null, vma_heaps := Delete_list ?l (vma_heaps s), vma_freePageCount := 0,
        vma_usedPageCount := 0, vma_reservedPageCount := 0, vma_totalPageCount := 0\<rparr>"] exI [of _ ?l])
      (simp add: vma_Delete_def Delete_list_run)
qed

section \<open>Properties\<close>

text \<open>
  C10. \<^verbatim>\<open>VMRegionAllocator::AllocatePages(numPages)\<close> is a best fit that never fails while memory is left:
  it returns the start of a smallest free range that is large enough, the pages from there on were free
  and are the only ones that become used, and it returns null, with nothing changed, exactly when the
  region has no run of that many free pages anywhere. The invariant and the released lock hold afterwards.
\<close>

theorem VMA_AllocatePages:
  assumes "vma_ok s" "vma_lock s = 1" "n \<noteq> 0"
  shows "\<exists>s' a. vma_AllocatePages s n = Inr (s', a) \<and> vma_ok s' \<and> vma_lock s' = 1 \<and>
    (if \<exists>x. {x ..< x + unat n * 4096} \<subseteq> free_bytes (ranges s)
     then (\<exists>m. (m, a) \<in> free_set (ranges s) \<and> n \<le> m \<and> (\<forall>m' b. (m', b) \<in> free_set (ranges s) \<longrightarrow> n \<le> m' \<longrightarrow> m \<le> m')) \<and>
       {unat a ..< unat a + unat n * 4096} \<subseteq> free_bytes (ranges s) \<and>
       free_bytes (ranges s') = free_bytes (ranges s) - {unat a ..< unat a + unat n * 4096}
     else a = 0 \<and> s' = s)"
proof (cases "wAVLTree_FindNodeOrHigher (m_freePagesTree s) n")
  case None
  then show ?thesis
    using AllocatePages_none [OF assms None] assms(1,2) by auto
next
  case (Some p)
  obtain m list where p: "p = (m, list)"
    by force
  note D = vma_okD [OF assms(1)]
  have fi: "tree_invar (m_freePagesTree s)"
    using D(4) by (simp add: index_ok_def)
  have least: "m \<le> m'" if "(m', b) \<in> free_set (ranges s)" "n \<le> m'" for m' b
    using index_member [OF D(4) that(1)] tree.above_Some(3) [OF fi Some [unfolded p] _ that(2)] by auto
  obtain s' a where r: "vma_AllocatePages s n = Inr (s', a)" "vma_ok s'" "vma_lock s' = 1" "(m, a) \<in> free_set (ranges s)" "n \<le> m"
    "{unat a ..< unat a + unat n * 4096} \<subseteq> free_bytes (ranges s)"
    "free_bytes (ranges s') = free_bytes (ranges s) - {unat a ..< unat a + unat n * 4096}"
    using AllocatePages_found [OF assms Some [unfolded p]] by blast
  have "\<exists>x. {x ..< x + unat n * 4096} \<subseteq> free_bytes (ranges s)"
    using r(6) by blast
  then show ?thesis
    using r least by (intro exI [of _ s'] exI [of _ a]) auto
qed

text \<open>An allocator for the pages from 0x10000 to 0x20000.\<close>

definition sample_vma :: VMRegionAllocator where
  "sample_vma = vma_Init VMRegionAllocator_new 0x10000 0x20000"

lemma sample_vma_ok:
  "vma_ok sample_vma" "vma_lock sample_vma = 1" "free_bytes (ranges sample_vma) = {65536 ..< 131072}"
  using vma_Init_ok [of "0x20000" "0x10000" VMRegionAllocator_new] by (simp_all add: sample_vma_def VMRegionAllocator_new_def)

theorem VMA_AllocatePages_witness:
  "\<exists>s' a. vma_AllocatePages sample_vma 3 = Inr (s', a) \<and> vma_ok s' \<and>
     free_bytes (ranges s') = {65536 ..< 131072} - {unat a ..< unat a + 12288}"
proof -
  have "\<exists>x. {x ..< x + unat (3 :: u64) * 4096} \<subseteq> free_bytes (ranges sample_vma)"
    unfolding sample_vma_ok(3) by (intro exI [of _ 65536]) auto
  then show ?thesis
    using VMA_AllocatePages [OF sample_vma_ok(1,2), of 3] sample_vma_ok(3) by auto
qed

text \<open>
  C33. \<^verbatim>\<open>AllocatePages(ptr, numPages)\<close> at a page aligned address inside the region succeeds exactly when
  all the pages asked for are free, and then exactly those become used; otherwise nothing changes.
\<close>

theorem VMA_AllocatePages_at:
  assumes "vma_ok s" "vma_lock s = 1" "n \<noteq> 0" "4096 dvd unat ptr"
    "unat (vma_start s) \<le> unat ptr" "unat ptr + unat n * 4096 \<le> unat (vma_end s)"
  shows "\<exists>s' a. vma_AllocatePages_at s ptr n True = Inr (s', a) \<and> vma_ok s' \<and> vma_lock s' = 1 \<and>
    (if {unat ptr ..< unat ptr + unat n * 4096} \<subseteq> free_bytes (ranges s)
     then a = ptr \<and> free_bytes (ranges s') = free_bytes (ranges s) - {unat ptr ..< unat ptr + unat n * 4096}
     else a = 0 \<and> s' = s)"
  by (rule AllocatePages_at_ok [OF assms])

lemma sample_vma_bounds: "vma_start sample_vma = 0x10000" "vma_end sample_vma = 0x20000"
  by (simp_all add: sample_vma_def vma_Init_def Let_def ALIGN_DOWN_def ALIGN_UP_def DIV_ROUNDUP_def PAGE_SIZE_def)

theorem VMA_AllocatePages_at_witness:
  "\<exists>s'. vma_AllocatePages_at sample_vma 0x12000 2 True = Inr (s', 0x12000) \<and> vma_ok s' \<and>
     free_bytes (ranges s') = {65536 ..< 131072} - {73728 ..< 81920}"
  using VMA_AllocatePages_at [OF sample_vma_ok(1,2), of 2 "0x12000"] sample_vma_ok(3) sample_vma_bounds by auto

text \<open>
  C4. \<^verbatim>\<open>FreePages\<close> with \<^verbatim>\<open>exact = false\<close> frees any page aligned part of one used range: exactly those pages
  become free, and free neighbours are joined (the invariant). A range that is free already is left as it
  is, with and without \<^verbatim>\<open>exact\<close>.
\<close>

theorem VMA_FreePages:
  assumes "vma_ok s" "vma_lock s = 1" "n \<noteq> 0" "4096 dvd unat ptr" "(k, d) \<in> set (ranges s)" "unat k \<le> unat ptr"
    "unat ptr + unat n * 4096 \<le> unat k + unat (region_size d) * 4096"
  shows "if isFree d then vma_FreePages s ptr n exact True = Inr s
    else (\<exists>s'. vma_FreePages s ptr n False True = Inr s' \<and> vma_ok s' \<and> vma_lock s' = 1 \<and>
      free_bytes (ranges s') = free_bytes (ranges s) \<union> {unat ptr ..< unat ptr + unat n * 4096})"
proof (cases "isFree d")
  case True
  have "0 < unat n * 4096"
    using assms(3) by (simp add: unat_gt_0)
  then show ?thesis
    using vma_FreePages_ignored [OF assms(1,2,5) True assms(6) _ assms(4)] assms(7) True by simp
next
  case False
  then show ?thesis
    using vma_FreePages_inside [OF assms(1-5) False assms(6,7)] by simp
qed

text \<open>The same region with all its pages in use.\<close>

definition full_vma :: VMRegionAllocator where
  "full_vma =
     \<lparr>vma_start = 0x10000, vma_end = 0x20000,
      m_allPagesTree = RBNode Null False 0x10000 \<lparr>region_size = 16, isFree = False, isReserved = False\<rparr> False Null,
      m_freePagesTree = Null, vma_freePageCount = 0, vma_usedPageCount = 16, vma_reservedPageCount = 0, vma_totalPageCount = 16,
      vma_lock = 1, vma_heaps = \<lparr>nh_vmm = (\<lambda>_. True), nh_back = [], nh_lost = []\<rparr>\<rparr>"

lemma full_vma_ok: "vma_ok full_vma" "free_bytes (ranges full_vma) = {}"
  by (auto simp: full_vma_def vma_ok_def index_ok_def free_list_Find tree.invar_new Find_entries)

theorem VMA_FreePages_witness:
  "\<exists>s'. vma_FreePages full_vma 0x11000 2 False True = Inr s' \<and> vma_ok s' \<and> free_bytes (ranges s') = {69632 ..< 77824}"
proof -
  have "(0x10000, \<lparr>region_size = 16, isFree = False, isReserved = False\<rparr>) \<in> set (ranges full_vma)" "vma_lock full_vma = 1"
    by (simp_all add: full_vma_def)
  from VMA_FreePages [OF full_vma_ok(1) this(2) _ _ this(1), of 2 "0x11000" False] show ?thesis
    using full_vma_ok(2) by auto
qed

text \<open>
  C34. Allocating pages and freeing them again (with \<^verbatim>\<open>exact\<close>, as the callers do) gives back the same
  free memory, whatever the allocator has handed out before, and keeps the invariant.
\<close>

theorem VMA_roundtrip:
  assumes "vma_ok s" "vma_lock s = 1" "n \<noteq> 0" "\<exists>x. {x ..< x + unat n * 4096} \<subseteq> free_bytes (ranges s)"
  shows "\<exists>s1 a s2. vma_AllocatePages s n = Inr (s1, a) \<and> vma_FreePages s1 a n True True = Inr s2 \<and> vma_ok s2 \<and>
    vma_lock s2 = 1 \<and> free_bytes (ranges s2) = free_bytes (ranges s)"
proof (cases "wAVLTree_FindNodeOrHigher (m_freePagesTree s) n")
  case None
  then show ?thesis
    using AllocatePages_none(2) [OF assms(1-3)] assms(4) by blast
next
  case (Some p)
  obtain m list where p: "p = (m, list)"
    by force
  obtain s1 a d where r: "vma_AllocatePages s n = Inr (s1, a)" "vma_ok s1" "vma_lock s1 = 1"
    "(a, d) \<in> set (ranges s1)" "\<not> isFree d" "region_size d = n"
    "{unat a ..< unat a + unat n * 4096} \<subseteq> free_bytes (ranges s)"
    "free_bytes (ranges s1) = free_bytes (ranges s) - {unat a ..< unat a + unat n * 4096}"
    using AllocatePages_found [OF assms(1-3) Some [unfolded p]] by blast
  obtain s2 where f: "vma_FreePages s1 a n True True = Inr s2" "vma_ok s2" "vma_lock s2 = 1"
    "free_bytes (ranges s2) = free_bytes (ranges s1) \<union> {unat a ..< unat a + unat n * 4096}"
    using vma_FreePages_exact [OF r(2-6)] by blast
  have "free_bytes (ranges s2) = free_bytes (ranges s)"
    using f(4) r(7,8) by blast
  then show ?thesis
    using r(1) f(1-3) by blast
qed

theorem VMA_roundtrip_witness:
  "\<exists>s1 a s2. vma_AllocatePages sample_vma 3 = Inr (s1, a) \<and> vma_FreePages s1 a 3 True True = Inr s2 \<and> vma_ok s2 \<and>
     free_bytes (ranges s2) = {65536 ..< 131072}"
proof -
  have "\<exists>x. {x ..< x + unat (3 :: u64) * 4096} \<subseteq> free_bytes (ranges sample_vma)"
    unfolding sample_vma_ok(3) by (intro exI [of _ 65536]) auto
  from VMA_roundtrip [OF sample_vma_ok(1,2) _ this] show ?thesis
    using sample_vma_ok(3) by auto
qed

text \<open>
  C35. \<^verbatim>\<open>Init\<close> of an empty allocator makes the pages that cover the interval free, with their list node in the
  heap of the virtual memory manager, and establishes the invariant; every state with
  the invariant passes \<^verbatim>\<open>Verify\<close>; \<^verbatim>\<open>Fork\<close> into an empty allocator copies the ranges and the index, with
  every list node of the copy made in the heap of the virtual memory manager, and leaves the original and both
  locks as they were; \<^verbatim>\<open>Delete\<close> empties both trees and deletes the list node of every free range once. The
  nodes that were made in the heap of the virtual memory manager go back to it; those that
  \<^verbatim>\<open>AllocatePages(ptr, numPages)\<close> made in the kernel heap are given to the wrong heap and stay allocated in their
  own. All of the operations end.
\<close>

theorem VMA_lifecycle:
  assumes "unat e + 4096 \<le> 2 ^ 64" "unat a div 4096 * 4096 < (unat e + 4095) div 4096 * 4096"
    and "m_allPagesTree s0 = Null" "m_freePagesTree s0 = Null" "vma_lock s0 = 1"
    and "vma_ok s" "vma_lock s = 1" "vma_start s < vma_end s"
  shows "vma_ok (vma_Init s0 a e) \<and> vma_lock (vma_Init s0 a e) = 1 \<and>
    free_bytes (ranges (vma_Init s0 a e)) = {unat a div 4096 * 4096 ..< (unat e + 4095) div 4096 * 4096} \<and>
    (\<forall>p. p \<in> set (ranges (vma_Init s0 a e)) \<longrightarrow> nh_vmm (vma_heaps (vma_Init s0 a e)) (fst p)) \<and>
    vma_Verify s = Inr () \<and>
    (\<exists>s'. vma_Fork s0 s = Inr (s', s) \<and> vma_ok s' \<and> vma_lock s' = 1 \<and> ranges s' = ranges s \<and>
       (\<forall>p. p \<in> set (ranges s) \<longrightarrow> isFree (snd p) \<longrightarrow> nh_vmm (vma_heaps s') (fst p))) \<and>
    (\<exists>s' freed. vma_Delete s = Inr s' \<and> m_allPagesTree s' = Null \<and> m_freePagesTree s' = Null \<and> vma_lock s' = 1 \<and>
       distinct freed \<and> set freed = {fst p |p. p \<in> set (ranges s) \<and> isFree (snd p)} \<and>
       nh_back (vma_heaps s') = nh_back (vma_heaps s) @ filter (nh_vmm (vma_heaps s)) freed \<and>
       nh_lost (vma_heaps s') = nh_lost (vma_heaps s) @ filter (\<lambda>a. \<not> nh_vmm (vma_heaps s) a) freed)"
  using vma_Init_ok [OF assms(1-5)] vma_Verify_ok [OF assms(6,8)] vma_Delete_ok [OF assms(6,7)]
    vma_Fork_ok [OF assms(6,7,5,3,4)]
  by (intro conjI allI impI) blast+

theorem VMA_lifecycle_witness:
  "vma_Verify sample_vma = Inr () \<and>
   (\<exists>s'. vma_Fork VMRegionAllocator_new sample_vma = Inr (s', sample_vma) \<and> ranges s' = ranges sample_vma) \<and>
   (\<exists>s'. vma_Delete sample_vma = Inr s' \<and> m_allPagesTree s' = Null \<and> m_freePagesTree s' = Null)"
proof -
  have "m_allPagesTree VMRegionAllocator_new = Null" "m_freePagesTree VMRegionAllocator_new = Null" "vma_lock VMRegionAllocator_new = 1"
    by (simp_all add: VMRegionAllocator_new_def)
  from VMA_lifecycle [OF _ _ this sample_vma_ok(1,2), of "0x20000" "0x10000"] show ?thesis
    using sample_vma_bounds by auto
qed

end
