(* ===== verification/ThreadList.thy ===== *)
theory ThreadList
  imports LinkedListProps
begin

text \<open>
  The intrusive lists of threads, src/Scheduling/ThreadList.cpp. A thread carries two pairs of links, one for
  scheduler lists and one for the list of its process; which pair a list uses is what the virtual functions
  \<^verbatim>\<open>GetDataFromThread\<close> and \<^verbatim>\<open>IsProcList\<close> decide, here the field \<open>IsProcList\<close>. The store maps the
  address of a thread to its links and flags; 0 is the null pointer.
\<close>

record ThreadListItemInternalData =
  tl_previous :: u64
  tl_next :: u64

record ThreadLinks =
  m_ThreadListData :: ThreadListItemInternalData
  m_ProcThreadListData :: ThreadListItemInternalData
  m_InSchedList :: bool
  m_InProcList :: bool

type_synonym threads = "u64 \<Rightarrow> ThreadLinks"

record ThreadList =
  tl_Head :: u64
  tl_Tail :: u64
  tl_Count :: u64
  IsProcList :: bool
  tl_Lock :: u64
  tl_intState :: bool

text \<open>
  The constructor writes the two pointers and the count only; the lock and the saved interrupt state are as the
  memory was. This is the list in memory that was zeroed before, which is so for static objects and for those made with
  \<^verbatim>\<open>new\<close>, which is \<^verbatim>\<open>kcalloc\<close> (lib/src/new.cpp).
\<close>

definition ThreadList_new :: "bool \<Rightarrow> ThreadList" where
  "ThreadList_new proc =
     \<lparr>tl_Head = 0, tl_Tail = 0, tl_Count = 0, IsProcList = proc, tl_Lock = SPINLOCK_DEFAULT_VALUE, tl_intState = False\<rparr>"

definition GetDataFromThread :: "bool \<Rightarrow> threads \<Rightarrow> u64 \<Rightarrow> ThreadListItemInternalData" where
  "GetDataFromThread proc th t = (if proc then m_ProcThreadListData (th t) else m_ThreadListData (th t))"

definition set_data :: "bool \<Rightarrow> threads \<Rightarrow> u64 \<Rightarrow> ThreadListItemInternalData \<Rightarrow> threads" where
  "set_data proc th t d =
     th(t := if proc then (th t)\<lparr>m_ProcThreadListData := d\<rparr> else (th t)\<lparr>m_ThreadListData := d\<rparr>)"

definition SetInList :: "bool \<Rightarrow> threads \<Rightarrow> u64 \<Rightarrow> bool \<Rightarrow> threads" where
  "SetInList proc th t b =
     th(t := if proc then (th t)\<lparr>m_InProcList := b\<rparr> else (th t)\<lparr>m_InSchedList := b\<rparr>)"

section \<open>Operations\<close>

definition ThreadList_pushBack :: "threads \<Rightarrow> ThreadList \<Rightarrow> u64 \<Rightarrow> (threads \<times> ThreadList) res" where
  "ThreadList_pushBack th l t =
     assertR (t \<noteq> 0)
     (let p = IsProcList l; d = GetDataFromThread p th t in
      assertR (\<not> (tl_previous d \<noteq> 0 \<or> tl_next d \<noteq> 0 \<or> t = tl_Head l \<or> t = tl_Tail l))
      (if tl_Head l = 0 then
         Inr (SetInList p (set_data p th t \<lparr>tl_previous = 0, tl_next = 0\<rparr>) t True,
              l\<lparr>tl_Head := t, tl_Tail := t, tl_Count := tl_Count l + 1\<rparr>)
       else
         (let th = set_data p th (tl_Tail l) ((GetDataFromThread p th (tl_Tail l))\<lparr>tl_next := t\<rparr>);
              th = set_data p th t \<lparr>tl_previous = tl_Tail l, tl_next = 0\<rparr> in
          Inr (SetInList p th t True, l\<lparr>tl_Tail := t, tl_Count := tl_Count l + 1\<rparr>))))"

definition ThreadList_popFront :: "threads \<Rightarrow> ThreadList \<Rightarrow> threads \<times> ThreadList \<times> u64" where
  "ThreadList_popFront th l =
     (if tl_Head l = 0 then (th, l, 0)
      else
        (let p = IsProcList l; temp = tl_Head l;
             l = l\<lparr>tl_Head := tl_next (GetDataFromThread p th temp)\<rparr>;
             (th, l) =
               (if tl_Head l \<noteq> 0 then
                  (set_data p th (tl_Head l) ((GetDataFromThread p th (tl_Head l))\<lparr>tl_previous := 0\<rparr>), l)
                else (th, l\<lparr>tl_Tail := 0\<rparr>));
             th = set_data p th temp \<lparr>tl_previous = 0, tl_next = 0\<rparr> in
         (SetInList p th temp False, l\<lparr>tl_Count := tl_Count l - 1\<rparr>, temp)))"

definition ThreadList_remove :: "threads \<Rightarrow> ThreadList \<Rightarrow> u64 \<Rightarrow> (threads \<times> ThreadList) res" where
  "ThreadList_remove th l t =
     (if t = 0 then Inr (th, l)
      else
        (let p = IsProcList l; d = GetDataFromThread p th t in
         assertR ((tl_previous d \<noteq> 0 \<or> tl_Head l = t) \<and> (tl_next d \<noteq> 0 \<or> tl_Tail l = t) \<and>
                  (tl_previous d = 0 \<or> tl_next (GetDataFromThread p th (tl_previous d)) = t) \<and>
                  (tl_next d = 0 \<or> tl_previous (GetDataFromThread p th (tl_next d)) = t))
         (let (th, l) =
                (if tl_previous d \<noteq> 0 then
                   (set_data p th (tl_previous d) ((GetDataFromThread p th (tl_previous d))\<lparr>tl_next := tl_next d\<rparr>), l)
                 else (th, l\<lparr>tl_Head := tl_next d\<rparr>));
              d = GetDataFromThread p th t;
              (th, l) =
                (if tl_next d \<noteq> 0 then
                   (set_data p th (tl_next d) ((GetDataFromThread p th (tl_next d))\<lparr>tl_previous := tl_previous d\<rparr>), l)
                 else (th, l\<lparr>tl_Tail := tl_previous d\<rparr>));
              th = set_data p th t \<lparr>tl_previous = 0, tl_next = 0\<rparr> in
          Inr (SetInList p th t False, l\<lparr>tl_Count := tl_Count l - 1\<rparr>))))"

definition ThreadList_getHead :: "ThreadList \<Rightarrow> u64" where
  "ThreadList_getHead l = tl_Head l"

definition ThreadList_getTail :: "ThreadList \<Rightarrow> u64" where
  "ThreadList_getTail l = tl_Tail l"

definition ThreadList_getCount :: "ThreadList \<Rightarrow> u64" where
  "ThreadList_getCount l = tl_Count l"

datatype ThreadDecision = Break | Continue | Delete_Break | Delete

text \<open>
  The callback gets the thread, and acts on the threads, on the list itself and on a state of its own;
  the timer moves sleeping threads to another list from inside the walk.
\<close>

type_synonym 's thread_callback = "u64 \<Rightarrow> threads \<Rightarrow> ThreadList \<Rightarrow> 's \<Rightarrow> (ThreadDecision \<times> threads \<times> ThreadList \<times> 's) res"

primrec ThreadList_Enumerate_loop ::
  "'s thread_callback \<Rightarrow> nat \<Rightarrow> threads \<Rightarrow> ThreadList \<Rightarrow> u64 \<Rightarrow> 's \<Rightarrow> (threads \<times> ThreadList \<times> 's) res" where
  "ThreadList_Enumerate_loop func 0 th l t s = Inr (th, l, s)"
| "ThreadList_Enumerate_loop func (Suc k) th l t s =
     (if t = 0 then Inr (th, l, s)
      else
        (let nxt = tl_next (GetDataFromThread (IsProcList l) th t) in
         bindR (func t th l s) (\<lambda>(d, th, l, s).
         case d of
           Break \<Rightarrow> Inr (th, l, s)
         | Continue \<Rightarrow> ThreadList_Enumerate_loop func k th l nxt s
         | Delete_Break \<Rightarrow> bindR (ThreadList_remove th l t) (\<lambda>(th, l). Inr (th, l, s))
         | Delete \<Rightarrow> bindR (ThreadList_remove th l t) (\<lambda>(th, l). ThreadList_Enumerate_loop func k th l nxt s))))"

definition ThreadList_Enumerate ::
  "'s thread_callback \<Rightarrow> threads \<Rightarrow> ThreadList \<Rightarrow> 's \<Rightarrow> (threads \<times> ThreadList \<times> 's) res" where
  "ThreadList_Enumerate func th l s = ThreadList_Enumerate_loop func (unat (tl_Count l)) th l (tl_Head l) s"

primrec EnumerateConst_loop ::
  "(u64 \<Rightarrow> 's \<Rightarrow> (ThreadDecision \<times> 's) res) \<Rightarrow> nat \<Rightarrow> threads \<Rightarrow> ThreadList \<Rightarrow> u64 \<Rightarrow> 's \<Rightarrow> 's res" where
  "EnumerateConst_loop func 0 th l t s = Inr s"
| "EnumerateConst_loop func (Suc k) th l t s =
     (if t = 0 then Inr s
      else
        bindR (func t s) (\<lambda>(d, s).
        case d of
          Break \<Rightarrow> Inr s
        | Delete_Break \<Rightarrow> Inr s
        | Continue \<Rightarrow> EnumerateConst_loop func k th l (tl_next (GetDataFromThread (IsProcList l) th t)) s
        | Delete \<Rightarrow> EnumerateConst_loop func k th l (tl_next (GetDataFromThread (IsProcList l) th t)) s))"

definition ThreadList_EnumerateConst :: "(u64 \<Rightarrow> 's \<Rightarrow> (ThreadDecision \<times> 's) res) \<Rightarrow> threads \<Rightarrow> ThreadList \<Rightarrow> 's \<Rightarrow> 's res" where
  "ThreadList_EnumerateConst func th l s = EnumerateConst_loop func (unat (tl_Count l)) th l (tl_Head l) s"

text \<open>Locking saves the interrupt state; the flag says whether interrupts are enabled.\<close>

definition ThreadList_lock :: "ThreadList \<Rightarrow> bool \<Rightarrow> (ThreadList \<times> bool) res" where
  "ThreadList_lock l interrupts =
     bindR (spinlock_acquire (tl_Lock l)) (\<lambda>v. Inr (l\<lparr>tl_Lock := v, tl_intState := interrupts\<rparr>, False))"

definition ThreadList_unlock :: "ThreadList \<Rightarrow> bool \<Rightarrow> ThreadList \<times> bool" where
  "ThreadList_unlock l interrupts = (l\<lparr>tl_Lock := spinlock_release (tl_Lock l)\<rparr>, interrupts \<or> tl_intState l)"

section \<open>The links as nodes of a list\<close>

definition links :: "bool \<Rightarrow> threads \<Rightarrow> nodes" where
  "links p th = (\<lambda>t. \<lparr>prev_of = tl_previous (GetDataFromThread p th t), data_of = t, next_of = tl_next (GetDataFromThread p th t)\<rparr>)"

lemma links_simps [simp]:
  "prev_of (links p th t) = tl_previous (GetDataFromThread p th t)"
  "next_of (links p th t) = tl_next (GetDataFromThread p th t)" "data_of (links p th t) = t"
  by (simp_all add: links_def)

lemma data_simps [simp]:
  "GetDataFromThread p (set_data p th t d) u = (if u = t then d else GetDataFromThread p th u)"
  "GetDataFromThread (\<not> p) (set_data p th t d) u = GetDataFromThread (\<not> p) th u"
  "GetDataFromThread q (SetInList p th t b) u = GetDataFromThread q th u"
  by (auto simp: GetDataFromThread_def set_data_def SetInList_def)

lemma links_update:
  "links p (set_data p th t (d\<lparr>tl_next := v\<rparr>)) = set_next (links p (set_data p th t d)) t v"
  "links p (set_data p th t (d\<lparr>tl_previous := v\<rparr>)) = set_prev (links p (set_data p th t d)) t v"
  by (auto simp: links_def set_next_def set_prev_def fun_eq_iff)

lemma set_data_same [simp]: "set_data p th t (GetDataFromThread p th t) = th"
  by (auto simp: set_data_def GetDataFromThread_def)

lemma links_SetInList [simp]: "links p (SetInList q th t b) = links p th"
  by (simp add: links_def)

definition tl_ok :: "threads \<Rightarrow> ThreadList \<Rightarrow> u64 list \<Rightarrow> bool" where
  "tl_ok th l ts \<longleftrightarrow> dlist (links (IsProcList l) th) (tl_Head l) ts \<and> tl_Tail l = last_or 0 ts \<and> unat (tl_Count l) = length ts"

end
