(* ===== verification/ThreadListProps.thy ===== *)
theory ThreadListProps
  imports ThreadList
begin

text \<open>
  The lists of threads implement queues of threads: each operation as a function on the sequence, with
  the flags of the threads, and what the assertion against double insertion does and does not catch.
\<close>

section \<open>Operations on sequences\<close>

text \<open>What an operation on one list leaves alone: all other threads, and the other pair of links.\<close>

definition others_kept :: "bool \<Rightarrow> u64 set \<Rightarrow> threads \<Rightarrow> threads \<Rightarrow> bool" where
  "others_kept p T th th' \<longleftrightarrow> (\<forall>u. u \<notin> T \<longrightarrow> th' u = th u) \<and> (\<forall>u. GetDataFromThread (\<not> p) th' u = GetDataFromThread (\<not> p) th u)"

definition in_list :: "bool \<Rightarrow> threads \<Rightarrow> u64 \<Rightarrow> bool" where
  "in_list p th t = (if p then m_InProcList (th t) else m_InSchedList (th t))"

lemma in_list_simps [simp]:
  "in_list p (SetInList p th t b) u = (if u = t then b else in_list p th u)"
  "in_list q (set_data p th t d) u = in_list q th u"
  by (auto simp: in_list_def SetInList_def set_data_def)

lemma others_kept_simps:
  "others_kept p T th (SetInList p th' t b) \<longleftrightarrow> others_kept p T th th'" if "t \<in> T"
  using that by (auto simp: others_kept_def SetInList_def GetDataFromThread_def split: if_splits)

lemma others_kept_set_data:
  "t \<in> T \<Longrightarrow> others_kept p T th th' \<Longrightarrow> others_kept p T th (set_data p th' t d)"
  by (auto simp: others_kept_def set_data_def GetDataFromThread_def)

lemma others_kept_refl [simp]: "others_kept p T th th"
  by (simp add: others_kept_def)

lemma links_set_data: "links p (set_data p th t d) = (links p th)(t := \<lparr>prev_of = tl_previous d, data_of = t, next_of = tl_next d\<rparr>)"
  by (auto simp: links_def)

text \<open>There are fewer than 2^64 threads, since their addresses are distinct and not null.\<close>

lemma distinct_addresses:
  fixes ts :: "u64 list"
  assumes "distinct ts" "0 \<notin> set ts"
  shows "length ts < 2 ^ 64"
proof -
  have "set ts \<subseteq> UNIV - {0}"
    using assms(2) by auto
  then have "card (set ts) \<le> card (UNIV - {0 :: u64})"
    by (intro card_mono) auto
  then show ?thesis
    using distinct_card [OF assms(1)] by (simp add: card_Diff_singleton card_word)
qed

lemma pushBack_ok:
  assumes ok: "tl_ok th l ts" and t: "t \<noteq> 0" "t \<notin> set ts" "GetDataFromThread (IsProcList l) th t = \<lparr>tl_previous = 0, tl_next = 0\<rparr>"
  shows "\<exists>th' l'. ThreadList_pushBack th l t = Inr (th', l') \<and> tl_ok th' l' (ts @ [t]) \<and> IsProcList l' = IsProcList l \<and> in_list (IsProcList l) th' t \<and>
    others_kept (IsProcList l) (insert t (set ts)) th th' \<and> tl_Lock l' = tl_Lock l \<and> tl_intState l' = tl_intState l"
proof (cases ts rule: rev_cases)
  case Nil
  let ?p = "IsProcList l"
  have l: "tl_Head l = 0" "tl_Tail l = 0" "tl_Count l = 0"
    using ok Nil by (auto simp: tl_ok_def unat_eq_0)
  then have "ThreadList_pushBack th l t = Inr (SetInList ?p (set_data ?p th t \<lparr>tl_previous = 0, tl_next = 0\<rparr>) t True,
      l\<lparr>tl_Head := t, tl_Tail := t, tl_Count := 1\<rparr>)"
    using t by (simp add: ThreadList_pushBack_def Let_def)
  then show ?thesis
    using t Nil by (simp add: tl_ok_def dlist_def others_kept_simps others_kept_set_data)
next
  case (snoc bs b)
  let ?p = "IsProcList l" and ?z = "\<lparr>tl_previous = 0, tl_next = 0\<rparr>"
  have d: "dlist (links ?p th) (tl_Head l) (bs @ [b])" and b: "tl_Tail l = b" and c: "unat (tl_Count l) = length ts"
    using ok snoc by (auto simp: tl_ok_def)
  have h: "tl_Head l \<noteq> 0" "tl_Head l \<in> set ts" "b \<noteq> t"
    using dlist_start [OF d] dlist_hd [OF d] t(2) snoc by (auto simp: hd_or_def hd_append split: if_splits)
  then have ht: "t \<noteq> tl_Head l"
    using t(2) by auto
  define th1 where "th1 = set_data ?p th b ((GetDataFromThread ?p th b)\<lparr>tl_next := t\<rparr>)"
  define th2 where "th2 = SetInList ?p (set_data ?p th1 t \<lparr>tl_previous = b, tl_next = 0\<rparr>) t True"
  have run: "ThreadList_pushBack th l t = Inr (th2, l\<lparr>tl_Tail := t, tl_Count := tl_Count l + 1\<rparr>)"
    using t b h ht by (simp add: ThreadList_pushBack_def Let_def th1_def th2_def)
  have len: "Suc (length ts) < 2 ^ 64"
    using distinct_addresses [of "t # ts"] dlist_distinct [OF d] dlist_zero [OF d] t snoc by simp
  have n: "links ?p th = fst (newNode (links ?p th) t t)"
    using t by (auto simp: newNode_def links_def)
  have "links ?p th2 = set_prev (set_next (links ?p th) b t) t b"
    using h(3) t(3) by (auto simp: fun_eq_iff th1_def th2_def links_set_data set_next_def set_prev_def links_def)
  then have "dlist (links ?p th2) (tl_Head l) (bs @ [b] @ [t])"
    using dlist_append_node [OF d t(1), of t] t(2) snoc n by simp
  moreover have "others_kept ?p (insert t (set ts)) th th2"
    using snoc unfolding th2_def th1_def by (simp add: others_kept_simps others_kept_set_data)
  moreover have "unat (tl_Count l + 1) = Suc (length ts)"
    using unat_count_Suc [OF c len] .
  ultimately show ?thesis
    using run snoc by (simp add: tl_ok_def th2_def)
qed

text \<open>Both ways to take a thread out unlink it and clear its links.\<close>

lemma unlinked_ok:
  assumes ok: "tl_ok th l (xs @ t # ys)"
    and th': "links (IsProcList l) th' = (unlink (links (IsProcList l) th) t)(t := \<lparr>prev_of = 0, data_of = t, next_of = 0\<rparr>)"
    and l': "IsProcList l' = IsProcList l" "tl_Head l' = (if xs = [] then hd_or ys 0 else tl_Head l)"
      "tl_Tail l' = (if ys = [] then last_or 0 xs else tl_Tail l)" "tl_Count l' = tl_Count l - 1"
  shows "tl_ok th' l' (xs @ ys)" "GetDataFromThread (IsProcList l) th' t = \<lparr>tl_previous = 0, tl_next = 0\<rparr>"
proof -
  let ?m = "links (IsProcList l) th"
  have d: "dlist ?m (tl_Head l) (xs @ t # ys)" and c: "unat (tl_Count l) = Suc (length (xs @ ys))" and e: "tl_Tail l = last_or t ys"
    using ok by (auto simp: tl_ok_def)
  have "t \<notin> set (xs @ ys)"
    using dlist_distinct [OF d] by simp
  then have "dlist (links (IsProcList l) th') (tl_Head l') (xs @ ys)"
    using dlist_unlink(1) [OF d] unfolding th' l'(2) dlist_def by (subst seg_upd) auto
  moreover have "tl_Tail l' = last_or 0 (xs @ ys)"
    using l'(3) e by (auto simp: last_or_def)
  ultimately show "tl_ok th' l' (xs @ ys)"
    using unat_count_pred [OF c] l'(1,4) by (simp add: tl_ok_def)
  have "links (IsProcList l) th' t = \<lparr>prev_of = 0, data_of = t, next_of = 0\<rparr>"
    unfolding th' by simp
  then show "GetDataFromThread (IsProcList l) th' t = \<lparr>tl_previous = 0, tl_next = 0\<rparr>"
    by (simp add: links_def)
qed

lemma popFront_ok:
  assumes ok: "tl_ok th l (t # ts)"
  shows "\<exists>th' l'. ThreadList_popFront th l = (th', l', t) \<and> tl_ok th' l' ts \<and> IsProcList l' = IsProcList l \<and> \<not> in_list (IsProcList l) th' t \<and>
    GetDataFromThread (IsProcList l) th' t = \<lparr>tl_previous = 0, tl_next = 0\<rparr> \<and> others_kept (IsProcList l) (insert t (set ts)) th th' \<and>
    tl_Lock l' = tl_Lock l \<and> tl_intState l' = tl_intState l"
proof -
  let ?p = "IsProcList l" and ?z = "\<lparr>tl_previous = 0, tl_next = 0\<rparr>"
  have d: "dlist (links ?p th) (tl_Head l) ([] @ t # ts)"
    using ok by (simp add: tl_ok_def)
  note links = dlist_links [OF d]
  have h: "tl_Head l = t" "t \<noteq> 0"
    using dlist_hd [OF d] links(3) by auto
  have z: "hd_or ts 0 = 0 \<longleftrightarrow> ts = []"
    using dlist_zero [OF d] by (cases ts) auto
  have nt: "hd_or ts 0 \<noteq> t"
    using dlist_distinct [OF d] h(2) by (cases ts) auto
  let ?n = "hd_or ts 0"
  define th1 where "th1 = (if ts = [] then th else set_data ?p th ?n ((GetDataFromThread ?p th ?n)\<lparr>tl_previous := 0\<rparr>))"
  define th2 where "th2 = SetInList ?p (set_data ?p th1 t ?z) t False"
  let ?l = "l\<lparr>tl_Head := ?n, tl_Tail := (if ts = [] then 0 else tl_Tail l), tl_Count := tl_Count l - 1\<rparr>"
  have "ThreadList_popFront th l = (th2, ?l, t)"
    using h links(1) z by (cases "ts = []") (simp_all add: ThreadList_popFront_def Let_def th1_def th2_def)
  moreover have "links ?p th2 = (unlink (links ?p th) t)(t := \<lparr>prev_of = 0, data_of = t, next_of = 0\<rparr>)"
    using links(1,2) z nt by (auto simp: th1_def th2_def links_set_data unlink_def set_prev_def fun_eq_iff links_def)
  moreover have "others_kept ?p (insert t (set ts)) th th2"
    using z unfolding th2_def th1_def by (cases ts) (auto simp: others_kept_simps others_kept_set_data)
  ultimately show ?thesis
    using unlinked_ok [of th l "[]" t ts th2 ?l] ok by (cases "ts = []") (simp_all add: th2_def)
qed

lemma remove_ok:
  assumes ok: "tl_ok th l (xs @ t # ys)"
  shows "\<exists>th' l'. ThreadList_remove th l t = Inr (th', l') \<and> tl_ok th' l' (xs @ ys) \<and> IsProcList l' = IsProcList l \<and> \<not> in_list (IsProcList l) th' t \<and>
    GetDataFromThread (IsProcList l) th' t = \<lparr>tl_previous = 0, tl_next = 0\<rparr> \<and> others_kept (IsProcList l) (set (xs @ t # ys)) th th' \<and>
    tl_Lock l' = tl_Lock l \<and> tl_intState l' = tl_intState l"
proof -
  let ?p = "IsProcList l" and ?z = "\<lparr>tl_previous = 0, tl_next = 0\<rparr>" and ?n = "hd_or ys 0" and ?q = "last_or 0 xs"
  have d: "dlist (links ?p th) (tl_Head l) (xs @ t # ys)" and e: "tl_Tail l = last_or t ys"
    using ok by (auto simp: tl_ok_def)
  note links = dlist_links [OF d]
  have dis: "distinct (xs @ t # ys)" and nz: "0 \<notin> set (xs @ t # ys)"
    using dlist_distinct [OF d] dlist_zero [OF d] by auto
  have z: "?n = 0 \<longleftrightarrow> ys = []" "?q = 0 \<longleftrightarrow> xs = []" "?n \<noteq> t" "?q \<noteq> t"
    using dis nz by (cases ys; cases xs rule: rev_cases; auto)+
  have bk: "xs \<noteq> [] \<Longrightarrow> tl_next (GetDataFromThread ?p th ?q) = t" "ys \<noteq> [] \<Longrightarrow> tl_previous (GetDataFromThread ?p th ?n) = t"
  proof -
    show "tl_next (GetDataFromThread ?p th ?q) = t" if "xs \<noteq> []"
      using that dlist_links(1) [of "links ?p th" "tl_Head l" "butlast xs" "last xs" "t # ys"] d
      by (cases xs rule: rev_cases) simp_all
    show "tl_previous (GetDataFromThread ?p th ?n) = t" if "ys \<noteq> []"
      using that dlist_links(2) [of "links ?p th" "tl_Head l" "xs @ [t]" "hd ys" "tl ys"] d by (cases ys) simp_all
  qed
  have hd: "xs = [] \<Longrightarrow> tl_Head l = t" "ys = [] \<Longrightarrow> tl_Tail l = t"
    using dlist_hd [OF d] e by auto
  have dt: "tl_previous (GetDataFromThread ?p th t) = ?q" "tl_next (GetDataFromThread ?p th t) = ?n"
    using links by simp_all
  define th1 where "th1 = (if xs = [] then th else set_data ?p th ?q ((GetDataFromThread ?p th ?q)\<lparr>tl_next := ?n\<rparr>))"
  define th2 where "th2 = (if ys = [] then th1 else set_data ?p th1 ?n ((GetDataFromThread ?p th1 ?n)\<lparr>tl_previous := ?q\<rparr>))"
  define th3 where "th3 = SetInList ?p (set_data ?p th2 t ?z) t False"
  let ?l = "l\<lparr>tl_Head := (if xs = [] then ?n else tl_Head l), tl_Tail := (if ys = [] then ?q else tl_Tail l), tl_Count := tl_Count l - 1\<rparr>"
  have d1: "GetDataFromThread ?p th1 t = GetDataFromThread ?p th t"
    using z by (simp add: th1_def)
  have "ThreadList_remove th l t = Inr (th3, ?l)"
    using z links(3) dt d1 bk hd
    by (cases "xs = []"; cases "ys = []") (simp_all add: ThreadList_remove_def Let_def th1_def th2_def th3_def)
  moreover have "links ?p th3 = (unlink (links ?p th) t)(t := \<lparr>prev_of = 0, data_of = t, next_of = 0\<rparr>)"
    using dt z by (auto simp: th1_def th2_def th3_def links_set_data unlink_def Let_def set_prev_def set_next_def fun_eq_iff links_def)
  moreover have "others_kept ?p (set (xs @ t # ys)) th th3"
  proof -
    have "xs \<noteq> [] \<Longrightarrow> ?q \<in> set xs" "ys \<noteq> [] \<Longrightarrow> ?n \<in> set ys"
      by (simp_all add: last_or_def hd_or_def)
    then show ?thesis
      unfolding th3_def th2_def th1_def by (auto simp: others_kept_simps others_kept_set_data)
  qed
  ultimately show ?thesis
    using unlinked_ok [OF ok, of th3 ?l] by (simp add: th3_def)
qed

section \<open>Enumeration\<close>

text \<open>What a walk with a callback leaves of a sequence.\<close>

fun enumerated :: "(u64 \<Rightarrow> 's \<Rightarrow> ThreadDecision \<times> 's) \<Rightarrow> u64 list \<Rightarrow> 's \<Rightarrow> u64 list \<times> 's" where
  "enumerated func [] s = ([], s)"
| "enumerated func (t # ts) s =
     (case func t s of
        (Break, s') \<Rightarrow> (t # ts, s')
      | (Continue, s') \<Rightarrow> (let r = enumerated func ts s' in (t # fst r, snd r))
      | (Delete_Break, s') \<Rightarrow> (ts, s')
      | (Delete, s') \<Rightarrow> enumerated func ts s')"

text \<open>A callback that only looks at the thread.\<close>

definition looking :: "(u64 \<Rightarrow> 's \<Rightarrow> ThreadDecision \<times> 's) \<Rightarrow> 's thread_callback" where
  "looking func = (\<lambda>t th l s. Inr (fst (func t s), th, l, snd (func t s)))"

lemma links_at:
  assumes "tl_ok th l (xs @ t # ys)"
  shows "tl_next (GetDataFromThread (IsProcList l) th t) = hd_or ys 0" "t \<noteq> 0"
  using dlist_links [of "links (IsProcList l) th" "tl_Head l" xs t ys] assms by (simp_all add: tl_ok_def)

lemma Enumerate_loop_ok:
  assumes "tl_ok th l (xs @ ys)"
  shows "\<exists>th' l'. ThreadList_Enumerate_loop (looking func) (length ys) th l (hd_or ys 0) s = Inr (th', l', snd (enumerated func ys s)) \<and>
    tl_ok th' l' (xs @ fst (enumerated func ys s)) \<and> IsProcList l' = IsProcList l"
  using assms
proof (induction ys arbitrary: th l xs s)
  case Nil
  then show ?case
    by simp
next
  case (Cons t ys)
  note at = links_at [OF Cons.prems]
  obtain d s' where f: "func t s = (d, s')"
    by fastforce
  obtain th' l' where r: "ThreadList_remove th l t = Inr (th', l')" "tl_ok th' l' (xs @ ys)" "IsProcList l' = IsProcList l"
    using remove_ok [OF Cons.prems] by blast
  note step = Cons.IH [OF r(2), of s'] Cons.IH [of th l "xs @ [t]" s']
  show ?case
    using Cons.prems at f r step by (cases d) (auto simp: Let_def looking_def)
qed

lemma Enumerate_ok:
  assumes "tl_ok th l ts"
  shows "\<exists>th' l'. ThreadList_Enumerate (looking func) th l s = Inr (th', l', snd (enumerated func ts s)) \<and>
    tl_ok th' l' (fst (enumerated func ts s)) \<and> IsProcList l' = IsProcList l"
proof -
  have "tl_Head l = hd_or ts 0" "unat (tl_Count l) = length ts"
    using assms dlist_hd by (auto simp: tl_ok_def)
  then show ?thesis
    using Enumerate_loop_ok [of th l "[]" ts func s] assms by (simp add: ThreadList_Enumerate_def)
qed

lemma EnumerateConst_loop_ok:
  assumes "tl_ok th l (xs @ ys)"
  shows "EnumerateConst_loop (\<lambda>t s. Inr (func t s)) (length ys) th l (hd_or ys 0) s = Inr (snd (enumerated func ys s))"
  using assms
proof (induction ys arbitrary: xs s)
  case (Cons t ys)
  obtain d s' where f: "func t s = (d, s')"
    by fastforce
  show ?case
    using links_at [OF Cons.prems] f Cons.IH [of "xs @ [t]" s'] Cons.prems by (cases d) (auto simp: Let_def)
qed simp

lemma EnumerateConst_ok:
  assumes "tl_ok th l ts"
  shows "ThreadList_EnumerateConst (\<lambda>t s. Inr (func t s)) th l s = Inr (snd (enumerated func ts s))"
proof -
  have "tl_Head l = hd_or ts 0" "unat (tl_Count l) = length ts"
    using assms dlist_hd by (auto simp: tl_ok_def)
  then show ?thesis
    using EnumerateConst_loop_ok [of th l "[]" ts func s] assms by (simp add: ThreadList_EnumerateConst_def)
qed

section \<open>Queues\<close>

text \<open>
  What the scheduler and the semaphores rely on: a thread that is in no list may be appended, and the threads
  come out in the order in which they went in.
\<close>

locale thread_queue =
  fixes ok :: "'q \<Rightarrow> u64 list \<Rightarrow> bool"
    and unlinked :: "'q \<Rightarrow> u64 \<Rightarrow> bool"
    and push :: "'q \<Rightarrow> u64 \<Rightarrow> 'q res"
    and pop :: "'q \<Rightarrow> 'q \<times> u64"
  assumes push: "ok q ts \<Longrightarrow> unlinked q t \<Longrightarrow> t \<notin> set ts \<Longrightarrow>
      \<exists>q'. push q t = Inr q' \<and> ok q' (ts @ [t]) \<and> (\<forall>u. u \<notin> set ts \<longrightarrow> u \<noteq> t \<longrightarrow> unlinked q u \<longrightarrow> unlinked q' u)"
    and pop: "ok q (t # ts) \<Longrightarrow> \<exists>q'. pop q = (q', t) \<and> ok q' ts"
    and pop_empty: "ok q [] \<Longrightarrow> pop q = (q, 0)"
begin

primrec push_all :: "'q \<Rightarrow> u64 list \<Rightarrow> 'q res" where
  "push_all q [] = Inr q"
| "push_all q (t # ts) = bindR (push q t) (\<lambda>q. push_all q ts)"

primrec pop_all :: "nat \<Rightarrow> 'q \<Rightarrow> 'q \<times> u64 list" where
  "pop_all 0 q = (q, [])"
| "pop_all (Suc n) q = (let (q, t) = pop q; (q, ts) = pop_all n q in (q, t # ts))"

lemma push_all_ok:
  assumes "ok q ts" "distinct us" "\<forall>u \<in> set us. unlinked q u" "set us \<inter> set ts = {}"
  shows "\<exists>q'. push_all q us = Inr q' \<and> ok q' (ts @ us)"
  using assms
proof (induction us arbitrary: q ts)
  case (Cons u us)
  obtain q' where q': "push q u = Inr q'" "ok q' (ts @ [u])" "\<forall>w. w \<notin> set ts \<longrightarrow> w \<noteq> u \<longrightarrow> unlinked q w \<longrightarrow> unlinked q' w"
    using push [OF Cons.prems(1), of u] Cons.prems(3,4) by auto
  moreover have "\<forall>w \<in> set us. unlinked q' w"
    using Cons.prems(2-4) q'(3) by auto
  ultimately show ?case
    using Cons.IH [of q' "ts @ [u]"] Cons.prems(2-4) by auto
qed simp

lemma pop_all_ok:
  assumes "ok q (us @ ts)"
  shows "\<exists>q'. pop_all (length us) q = (q', us) \<and> ok q' ts"
  using assms
proof (induction us arbitrary: q)
  case (Cons u us)
  then obtain q' where q': "pop q = (q', u)" "ok q' (us @ ts)"
    using pop by (metis append_Cons)
  then show ?case
    using Cons.IH [OF q'(2)] by auto
qed simp

lemma first_in_first_out:
  assumes "ok q []" "distinct us" "\<forall>u \<in> set us. unlinked q u"
  shows "\<exists>q' q''. push_all q us = Inr q' \<and> pop_all (length us) q' = (q'', us) \<and> ok q'' []"
  using push_all_ok [OF assms(1-3)] pop_all_ok [of _ us "[]"] by auto

end

definition unlinked :: "threads \<times> ThreadList \<Rightarrow> u64 \<Rightarrow> bool" where
  "unlinked q t \<longleftrightarrow> t \<noteq> 0 \<and> GetDataFromThread (IsProcList (snd q)) (fst q) t = \<lparr>tl_previous = 0, tl_next = 0\<rparr>"

lemma others_kept_data:
  "others_kept p T th th' \<Longrightarrow> u \<notin> T \<Longrightarrow> GetDataFromThread p th' u = GetDataFromThread p th u"
  by (simp add: others_kept_def GetDataFromThread_def)

interpretation tq: thread_queue "\<lambda>(th, l). tl_ok th l" unlinked "\<lambda>(th, l). ThreadList_pushBack th l"
  "\<lambda>(th, l). case ThreadList_popFront th l of (th', l', t) \<Rightarrow> ((th', l'), t)"
proof (unfold_locales, goal_cases)
  case (1 q ts t)
  then obtain th l where q: "q = (th, l)" "tl_ok th l ts" "t \<noteq> 0" "t \<notin> set ts"
      "GetDataFromThread (IsProcList l) th t = \<lparr>tl_previous = 0, tl_next = 0\<rparr>"
    by (cases q) (auto simp: unlinked_def)
  show ?case
    using pushBack_ok [OF q(2-5)] others_kept_data q(1) by (fastforce simp: unlinked_def)
next
  case (2 q t ts)
  then show ?case
    using popFront_ok by (cases q) fastforce
next
  case (3 q)
  then show ?case
    by (cases q) (auto simp: tl_ok_def ThreadList_popFront_def)
qed

section \<open>Properties\<close>

lemma tl_ok_ends:
  assumes "tl_ok th l ts"
  shows "tl_Head l = hd_or ts 0" "tl_Tail l = last_or 0 ts" "unat (tl_Count l) = length ts" "distinct ts" "0 \<notin> set ts"
  using assms dlist_hd dlist_distinct dlist_zero by (auto simp: tl_ok_def)

lemma tl_ok_new: "tl_ok th (ThreadList_new p) []"
  by (simp add: tl_ok_def ThreadList_new_def)


definition no_links :: threads where
  "no_links = (\<lambda>t. \<lparr>m_ThreadListData = \<lparr>tl_previous = 0, tl_next = 0\<rparr>, m_ProcThreadListData = \<lparr>tl_previous = 0, tl_next = 0\<rparr>,
     m_InSchedList = False, m_InProcList = False\<rparr>)"

lemma no_links_data [simp]: "GetDataFromThread p no_links t = \<lparr>tl_previous = 0, tl_next = 0\<rparr>"
  by (simp add: GetDataFromThread_def no_links_def)

text \<open>Three threads in one list, one alone in another.\<close>

definition ex_links :: threads where
  "ex_links = no_links(1 := (no_links 1)\<lparr>m_ThreadListData := \<lparr>tl_previous = 0, tl_next = 2\<rparr>\<rparr>,
     2 := (no_links 2)\<lparr>m_ThreadListData := \<lparr>tl_previous = 1, tl_next = 3\<rparr>\<rparr>,
     3 := (no_links 3)\<lparr>m_ThreadListData := \<lparr>tl_previous = 2, tl_next = 0\<rparr>\<rparr>)"

definition ex_list :: ThreadList where
  "ex_list = (ThreadList_new False)\<lparr>tl_Head := 1, tl_Tail := 3, tl_Count := 3\<rparr>"

definition ex_single :: ThreadList where
  "ex_single = (ThreadList_new False)\<lparr>tl_Head := 4, tl_Tail := 4, tl_Count := 1\<rparr>"

lemma ex_lists: "tl_ok ex_links ex_list [1, 2, 3]" "tl_ok ex_links ex_single [4]"
  by (simp_all add: tl_ok_def ex_links_def ex_list_def ex_single_def dlist_def GetDataFromThread_def no_links_def ThreadList_new_def)


lemma pushBack_again:
  assumes ok: "tl_ok th l ts" and t: "t \<in> set ts"
  shows "ThreadList_pushBack th l t = Inl AssertFailed"
proof -
  obtain xs ys where ts: "ts = xs @ t # ys"
    using t split_list by metis
  then have d: "dlist (links (IsProcList l) th) (tl_Head l) (xs @ t # ys)"
    using ok by (simp add: tl_ok_def)
  have "tl_next (GetDataFromThread (IsProcList l) th t) \<noteq> 0 \<or> tl_Tail l = t"
    using dlist_links(1) [OF d] tl_ok_ends [OF ok] ts by (cases ys) auto
  then show ?thesis
    by (auto simp: ThreadList_pushBack_def Let_def assertR_def)
qed

lemma remove_elsewhere:
  assumes ok: "tl_ok th a (xs @ x # t # y # ys)" and p: "IsProcList b = IsProcList a"
  shows "\<exists>th'. ThreadList_remove th b t = Inr (th', b\<lparr>tl_Count := tl_Count b - 1\<rparr>)"
proof -
  let ?G = "GetDataFromThread (IsProcList a) th"
  have d: "dlist (links (IsProcList a) th) (tl_Head a) (xs @ x # t # y # ys)"
    using ok by (simp add: tl_ok_def)
  have t: "tl_previous (?G t) = x" "tl_next (?G t) = y" "tl_next (?G x) = t" "tl_previous (?G y) = t"
    using dlist_links [of _ _ "xs @ [x]" t "y # ys"] dlist_links [OF d] dlist_links [of _ _ "xs @ [x, t]" y ys] d
    by fastforce+
  moreover have "t \<noteq> 0" "x \<noteq> 0" "y \<noteq> 0" "x \<noteq> t"
    using tl_ok_ends(4,5) [OF ok] by auto
  ultimately show ?thesis
    using p by (simp add: ThreadList_remove_def Let_def)
qed

text \<open>
  C36. What the assertions catch. Appending null or a thread that is already in the list fails the assertion.
  Appending a thread that is the only one of another list is accepted, since both its links are null; the other
  list is broken from then on. Removing a thread from the inside of another list is accepted as well: it
  is unlinked from that list, and the count of this one drops although its threads are unchanged.
\<close>

theorem ThreadList_guards:
  assumes "tl_ok th l ts"
  shows "(t = 0 \<or> t \<in> set ts \<longrightarrow> ThreadList_pushBack th l t = Inl AssertFailed) \<and>
    (tl_ok th l' [t] \<and> IsProcList l' = IsProcList l \<and> t \<notin> set ts \<and> ts \<noteq> [] \<longrightarrow>
      (\<exists>th' l''. ThreadList_pushBack th l t = Inr (th', l'') \<and> tl_ok th' l'' (ts @ [t]) \<and> \<not> tl_ok th' l' [t])) \<and>
    (tl_ok th l' (xs @ x # t # y # ys) \<and> IsProcList l' = IsProcList l \<longrightarrow>
      (\<exists>th'. ThreadList_remove th l t = Inr (th', l\<lparr>tl_Count := tl_Count l - 1\<rparr>) \<and> \<not> tl_ok th' (l\<lparr>tl_Count := tl_Count l - 1\<rparr>) ts))"
proof (intro conjI, goal_cases)
  case 1
  show ?case
    using pushBack_again [OF assms] by (auto simp: ThreadList_pushBack_def)
next
  case 2
  show ?case
  proof (intro impI, elim conjE)
    assume o: "tl_ok th l' [t]" "IsProcList l' = IsProcList l" "t \<notin> set ts" "ts \<noteq> []"
    have "t \<noteq> 0" "GetDataFromThread (IsProcList l) th t = \<lparr>tl_previous = 0, tl_next = 0\<rparr>"
      using dlist_links [of "links (IsProcList l) th" "tl_Head l'" "[]" t "[]"] o(1,2) by (auto simp: tl_ok_def)
    then obtain th' l'' where r: "ThreadList_pushBack th l t = Inr (th', l'')" "tl_ok th' l'' (ts @ [t])" "IsProcList l'' = IsProcList l"
      using pushBack_ok [OF assms _ o(3)] by blast
    have "last_or 0 ts \<noteq> 0"
      using tl_ok_ends(5) [OF assms] o(4) by (metis last_in_set last_or_def)
    moreover have "tl_previous (GetDataFromThread (IsProcList l) th' t) = last_or 0 ts"
      using dlist_links(2) [of "links (IsProcList l) th'" "tl_Head l''" ts t "[]"] r(2,3) by (simp add: tl_ok_def)
    ultimately have "\<not> tl_ok th' l' [t]"
      using dlist_links(2) [of "links (IsProcList l) th'" "tl_Head l'" "[]" t "[]"] o(2) by (auto simp: tl_ok_def)
    with r show "\<exists>th' l''. ThreadList_pushBack th l t = Inr (th', l'') \<and> tl_ok th' l'' (ts @ [t]) \<and> \<not> tl_ok th' l' [t]"
      by blast
  qed
next
  case 3
  have "unat (tl_Count l - 1) \<noteq> unat (tl_Count l)"
    by (simp only: word_eq_iff_unsigned [symmetric]) simp
  then show ?case
    using remove_elsewhere [of th l' xs x t y ys l] tl_ok_ends(3) [OF assms] by (auto simp: tl_ok_def)
qed

theorem ThreadList_guards_witness:
  "ThreadList_pushBack ex_links ex_list 2 = Inl AssertFailed \<and>
   (\<exists>th' l''. ThreadList_pushBack ex_links ex_list 4 = Inr (th', l'') \<and> \<not> tl_ok th' ex_single [4]) \<and>
   (\<exists>th'. ThreadList_remove ex_links ex_single 2 = Inr (th', ex_single\<lparr>tl_Count := tl_Count ex_single - 1\<rparr>) \<and>
     \<not> tl_ok th' (ex_single\<lparr>tl_Count := tl_Count ex_single - 1\<rparr>) [4])"
proof (intro conjI)
  have p: "IsProcList ex_list = IsProcList ex_single"
    by (simp add: ex_list_def ex_single_def)
  show "ThreadList_pushBack ex_links ex_list 2 = Inl AssertFailed"
    using ThreadList_guards [where t = 2, OF ex_lists(1), THEN conjunct1] by simp
  show "\<exists>th' l''. ThreadList_pushBack ex_links ex_list 4 = Inr (th', l'') \<and> \<not> tl_ok th' ex_single [4]"
    using ThreadList_guards [where t = 4 and l' = ex_single, OF ex_lists(1), THEN conjunct2, THEN conjunct1] ex_lists(2) p by auto
  show "\<exists>th'. ThreadList_remove ex_links ex_single 2 = Inr (th', ex_single\<lparr>tl_Count := tl_Count ex_single - 1\<rparr>) \<and>
     \<not> tl_ok th' (ex_single\<lparr>tl_Count := tl_Count ex_single - 1\<rparr>) [4]"
    using ThreadList_guards [where t = 2 and l' = ex_list and xs = "[]" and x = 1 and y = 3 and ys = "[]", OF ex_lists(2), THEN conjunct2, THEN conjunct2] ex_lists(1) p by auto
qed

end
