(* ===== verification/Scheduler.thy ===== *)
theory Scheduler
  imports ThreadListProps
begin

text \<open>
  The scheduler, src/Scheduling/Scheduler.cpp. Each processor has a state with one queue of threads per nice
  level, counts of how often each level ran, a list of sleeping threads and the thread it runs; the states are
  chained from the one of the boot processor. The operations run on the current processor. Saving and
  restoring registers and switching stacks are not part of the model: an operation that ends by running a thread
  returns the state in which it does so.
\<close>

section \<open>State\<close>

definition NICE_LEVELS :: nat where
  "NICE_LEVELS = 16"

definition MAX_RUN_COUNT :: u32 where
  "MAX_RUN_COUNT = 2"

definition DEFAULT_TIMESLICE :: u64 where
  "DEFAULT_TIMESLICE = 10"

record ThreadInfo =
  m_Parent :: u64
  m_TID :: u64
  m_TimeRemaining :: u64
  sleepRemainingTime :: u64
  yieldCallback :: u64
  CPUInfo_state :: u64
  CPUInfo_lock :: u64

record ProcessorState =
  ps_id :: u64
  ps_processor :: u64
  currentThread :: u64
  idleThread :: u64
  runCounts :: "u32 list"
  ps_threads :: "ThreadList list"
  sleepingThreads :: ThreadList
  isIdle :: u32
  startAllowed :: u32
  ps_lock :: u64
  ps_prev :: u64

text \<open>
  Threads, processes and processor states are known by address. \<open>sc_current\<close> is what
  \<^verbatim>\<open>GetCurrentProcessorState\<close> returns, \<open>sc_chain\<close> the chain of states from that of the boot processor through
  \<^verbatim>\<open>next\<close> (\<^verbatim>\<open>prev\<close> is a field of the states), \<open>sc_nice\<close> the nice
  level of each process, and \<open>sc_interrupts\<close> whether the current processor takes interrupts.
\<close>

record Scheduler =
  sc_links :: threads
  sc_info :: "u64 \<Rightarrow> ThreadInfo"
  sc_nice :: "u64 \<Rightarrow> u8"
  sc_state :: "u64 \<Rightarrow> ProcessorState"
  sc_chain :: "u64 list"
  sc_current :: u64
  sc_interrupts :: bool
  g_processorCount :: u64
  g_isRunning :: u64
  g_ProcessorsLock :: u64
  g_StealLock :: u64

definition upd_info :: "u64 \<Rightarrow> (ThreadInfo \<Rightarrow> ThreadInfo) \<Rightarrow> Scheduler \<Rightarrow> Scheduler" where
  "upd_info t f s = s\<lparr>sc_info := (sc_info s)(t := f (sc_info s t))\<rparr>"

definition upd_state :: "u64 \<Rightarrow> (ProcessorState \<Rightarrow> ProcessorState) \<Rightarrow> Scheduler \<Rightarrow> Scheduler" where
  "upd_state p f s = s\<lparr>sc_state := (sc_state s)(p := f (sc_state s p))\<rparr>"

section \<open>Processors\<close>

definition AddProcessor :: "u64 \<Rightarrow> Scheduler \<Rightarrow> Scheduler res" where
  "AddProcessor processor s =
     bindR (spinlock_acquire (g_ProcessorsLock s)) (\<lambda>v.
     (let head = last (sc_chain s);
          s = s\<lparr>sc_chain := sc_chain s @ [processor]\<rparr>;
          s = upd_state processor (\<lambda>ps. ps\<lparr>ps_id := ps_id (sc_state s head) + 1, isIdle := 0, startAllowed := 0,
            runCounts := replicate NICE_LEVELS 0, currentThread := 0, ps_prev := head\<rparr>) s in
      Inr (s\<lparr>g_processorCount := g_processorCount s + 1, g_ProcessorsLock := spinlock_release v\<rparr>)))"

fun GetProcessor_loop :: "(u64 \<Rightarrow> ProcessorState) \<Rightarrow> u64 \<Rightarrow> u64 list \<Rightarrow> u64" where
  "GetProcessor_loop st pid [] = 0"
| "GetProcessor_loop st pid (head # rest) = (if ps_id (st head) = pid then head else GetProcessor_loop st pid rest)"

definition GetProcessor :: "u64 \<Rightarrow> Scheduler \<Rightarrow> (Scheduler \<times> u64) res" where
  "GetProcessor pid s =
     bindR (spinlock_acquire (g_ProcessorsLock s)) (\<lambda>v.
     Inr (s\<lparr>g_ProcessorsLock := spinlock_release v\<rparr>, GetProcessor_loop (sc_state s) pid (sc_chain s)))"

text \<open>Writing \<^verbatim>\<open>next\<close> of a state: the chain goes on from there with the rest, if the state is in the chain.\<close>

definition set_next :: "u64 \<Rightarrow> u64 list \<Rightarrow> u64 list \<Rightarrow> u64 list" where
  "set_next p rest chain = (if p \<in> set chain then takeWhile (\<lambda>q. q \<noteq> p) chain @ p # rest else chain)"

definition RemoveProcessor :: "u64 \<Rightarrow> Scheduler \<Rightarrow> Scheduler res" where
  "RemoveProcessor pid s =
     bindR (spinlock_acquire (g_ProcessorsLock s)) (\<lambda>v.
     (let head = GetProcessor_loop (sc_state s) pid (sc_chain s);
          prev = ps_prev (sc_state s head);
          rest = tl (dropWhile (\<lambda>q. q \<noteq> head) (sc_chain s));
          s = (if head = 0 then s
               else
                 (let s = (if prev \<noteq> 0 then s\<lparr>sc_chain := set_next prev rest (sc_chain s)\<rparr> else s);
                      s = (if rest \<noteq> [] then upd_state (hd rest) (\<lambda>ps. ps\<lparr>ps_prev := prev\<rparr>) s else s) in
                  s\<lparr>g_processorCount := g_processorCount s - 1\<rparr>)) in
      Inr (s\<lparr>g_ProcessorsLock := spinlock_release v\<rparr>)))"

definition GetProcessorCount :: "Scheduler \<Rightarrow> u64" where
  "GetProcessorCount s = g_processorCount s"

definition InitBSPState :: "u64 \<Rightarrow> Scheduler \<Rightarrow> Scheduler" where
  "InitBSPState g_BSP s = upd_state (hd (sc_chain s))
     (\<lambda>ps. ps\<lparr>ps_id := 0, ps_processor := g_BSP, currentThread := 0, isIdle := 0, startAllowed := 0, runCounts := replicate NICE_LEVELS 0\<rparr>) s"

text \<open>A new state is zeroed, its lists are constructed empty.\<close>

definition ProcessorState_new :: ProcessorState where
  "ProcessorState_new = \<lparr>ps_id = 0, ps_processor = 0, currentThread = 0, idleThread = 0, runCounts = replicate NICE_LEVELS 0,
     ps_threads = replicate NICE_LEVELS (ThreadList_new False), sleepingThreads = ThreadList_new False, isIdle = 0, startAllowed = 0,
     ps_lock = SPINLOCK_DEFAULT_VALUE, ps_prev = 0\<rparr>"

definition InitNewProcessor :: "u64 \<Rightarrow> u64 \<Rightarrow> Scheduler \<Rightarrow> Scheduler res" where
  "InitNewProcessor proc p s = AddProcessor p (upd_state p (\<lambda>_. ProcessorState_new\<lparr>ps_processor := proc\<rparr>) s)"

definition isRunning :: "Scheduler \<Rightarrow> bool" where
  "isRunning s \<longleftrightarrow> g_isRunning s > 0"

section \<open>Queues\<close>

text \<open>Lock the list, append the thread, unlock: how a thread becomes ready on a processor.\<close>

definition push_level :: "u64 \<Rightarrow> nat \<Rightarrow> u64 \<Rightarrow> Scheduler \<Rightarrow> Scheduler res" where
  "push_level p n t s =
     (let ps = sc_state s p in
      if n < NICE_LEVELS then
        bindR (ThreadList_lock (ps_threads ps ! n) (sc_interrupts s)) (\<lambda>(l, i).
        bindR (ThreadList_pushBack (sc_links s) l t) (\<lambda>(th, l).
        (let (l, i) = ThreadList_unlock l i in
         Inr ((upd_state p (\<lambda>ps. ps\<lparr>ps_threads := (ps_threads ps)[n := l]\<rparr>) s)\<lparr>sc_links := th, sc_interrupts := i\<rparr>))))
      else Inl OutOfBounds)"

definition push_sleeping :: "u64 \<Rightarrow> u64 \<Rightarrow> Scheduler \<Rightarrow> Scheduler res" where
  "push_sleeping p t s =
     bindR (ThreadList_lock (sleepingThreads (sc_state s p)) (sc_interrupts s)) (\<lambda>(l, i).
     bindR (ThreadList_pushBack (sc_links s) l t) (\<lambda>(th, l).
     (let (l, i) = ThreadList_unlock l i in
      Inr ((upd_state p (\<lambda>ps. ps\<lparr>sleepingThreads := l\<rparr>) s)\<lparr>sc_links := th, sc_interrupts := i\<rparr>))))"

definition GetNice :: "u64 \<Rightarrow> Scheduler \<Rightarrow> nat res" where
  "GetNice t s = (let parent = m_Parent (sc_info s t) in if parent = 0 then Inl NullDeref else Inr (unat (sc_nice s parent)))"

definition ScheduleThread :: "u64 \<Rightarrow> u64 \<Rightarrow> Scheduler \<Rightarrow> Scheduler res" where
  "ScheduleThread t p s =
     (let parent = m_Parent (sc_info s t); nice = unat (sc_nice s parent) in
      if parent = 0 \<or> nice \<ge> NICE_LEVELS then Inr s
      else
        (let s = upd_info t (\<lambda>i. i\<lparr>m_TimeRemaining := DEFAULT_TIMESLICE, sleepRemainingTime := 0\<rparr>) s;
             p = (if p = 0 then sc_current s else p) in
         if p = 0 then Inl NullDeref
         else
           bindR (spinlock_acquire (CPUInfo_lock (sc_info s t))) (\<lambda>v.
           push_level p nice t (upd_info t (\<lambda>i. i\<lparr>CPUInfo_state := p, CPUInfo_lock := spinlock_release v\<rparr>) s))))"

definition AddExistingThread :: "u64 \<Rightarrow> Scheduler \<Rightarrow> (Scheduler \<times> bool) res" where
  "AddExistingThread t s =
     (let parent = m_Parent (sc_info s t); nice = unat (sc_nice s parent); p = sc_current s in
      if parent = 0 \<or> nice \<ge> NICE_LEVELS \<or> p = 0 then Inr (s, False)
      else
        (let s = upd_info t (\<lambda>i. i\<lparr>m_TimeRemaining := DEFAULT_TIMESLICE, sleepRemainingTime := 0\<rparr>) s in
         bindR (spinlock_acquire (CPUInfo_lock (sc_info s t))) (\<lambda>v.
         (let s = upd_info t (\<lambda>i. i\<lparr>CPUInfo_state := p, CPUInfo_lock := spinlock_release v\<rparr>) s;
              s = s\<lparr>sc_links := set_data False (sc_links s) t \<lparr>tl_previous = 0, tl_next = 0\<rparr>\<rparr> in
          bindR (push_level p nice t s) (\<lambda>s. Inr (s, True))))))"

definition RemoveCurrentThread :: "bool \<Rightarrow> Scheduler \<Rightarrow> (Scheduler \<times> u64) res" where
  "RemoveCurrentThread takelock s =
     (let p = sc_current s in
      if p = 0 then Inl NullDeref
      else
        bindR (if takelock then spinlock_acquire (ps_lock (sc_state s p)) else Inr (ps_lock (sc_state s p))) (\<lambda>v.
        (let t = currentThread (sc_state s p) in
         Inr (upd_state p (\<lambda>ps. ps\<lparr>currentThread := 0, ps_lock := (if takelock then spinlock_release v else v)\<rparr>) s, t))))"

section \<open>Choosing the next thread\<close>

text \<open>
  One round of the loop over nice levels: the lists and run counts, the interrupt flag, the thread found
  so far and its level. The list of the level found stays locked.
\<close>

type_synonym scan = "ThreadList list \<times> u32 list \<times> bool \<times> u64 \<times> int"

definition scan_level :: "nat \<Rightarrow> scan \<Rightarrow> scan res" where
  "scan_level i =
     (\<lambda>(ls, rc, intr, thread, nice).
        bindR (ThreadList_lock (ls ! i) intr) (\<lambda>(l, intr).
        (let ls = ls[i := l] in
         if ThreadList_getCount l = 0 \<or> (rc ! i \<ge> MAX_RUN_COUNT \<and> i \<noteq> 0 \<and> thread \<noteq> 0) then
           (let (l, intr) = ThreadList_unlock l intr in Inr (ls[i := l], rc, intr, thread, nice))
         else if thread \<noteq> 0 then
           (let (l', intr) = ThreadList_unlock (ls ! nat nice) intr in
            Inr (ls[nat nice := l'], rc, intr, ThreadList_getHead l, int i))
         else Inr (ls, (if rc ! i \<ge> MAX_RUN_COUNT then rc[i := 0] else rc), intr, ThreadList_getHead l, int i))))"

primrec scan_levels :: "nat list \<Rightarrow> scan \<Rightarrow> scan res" where
  "scan_levels [] c = Inr c"
| "scan_levels (i # is) c = bindR (scan_level i c) (scan_levels is)"

text \<open>Walk the chain for a processor with a ready thread; the run counts are those of the thief.\<close>

fun StealThread_loop :: "u64 \<Rightarrow> u64 list \<Rightarrow> Scheduler \<Rightarrow> (Scheduler \<times> u64 \<times> int) res" where
  "StealThread_loop current [] s = Inr (s, 0, -1)"
| "StealThread_loop current (p # rest) s =
     (if ps_id (sc_state s p) = ps_id (sc_state s current) then StealThread_loop current rest s
      else
        bindR (scan_levels [0..<NICE_LEVELS] (ps_threads (sc_state s p), runCounts (sc_state s current), sc_interrupts s, 0, -1))
          (\<lambda>(ls, rc, intr, thread, nice).
          (let s = (upd_state current (\<lambda>ps. ps\<lparr>runCounts := rc\<rparr>) (upd_state p (\<lambda>ps. ps\<lparr>ps_threads := ls\<rparr>) s))\<lparr>sc_interrupts := intr\<rparr> in
           if thread \<noteq> 0 then
             bindR (spinlock_acquire (CPUInfo_lock (sc_info s thread))) (\<lambda>v.
             (let s = upd_info thread (\<lambda>i. i\<lparr>CPUInfo_lock := v\<rparr>) s;
                  (th, l, t2) = ThreadList_popFront (sc_links s) (ls ! nat nice) in
              assertR (t2 = thread)
              (let (l, intr) = ThreadList_unlock l intr in
               Inr ((upd_state p (\<lambda>ps. ps\<lparr>ps_threads := ls[nat nice := l]\<rparr>) s)\<lparr>sc_links := th, sc_interrupts := intr\<rparr>, thread, nice))))
           else StealThread_loop current rest s)))"

definition StealThreadFromOther :: "u64 \<Rightarrow> Scheduler \<Rightarrow> (Scheduler \<times> u64 \<times> int) res" where
  "StealThreadFromOther current s =
     bindR (spinlock_acquire (g_StealLock s)) (\<lambda>v.
     bindR (StealThread_loop current (sc_chain s) (s\<lparr>g_StealLock := v\<rparr>)) (\<lambda>(s, thread, nice).
     Inr (s\<lparr>g_StealLock := spinlock_release (g_StealLock s)\<rparr>, thread, nice)))"

text \<open>The levels after the chosen one start again once they have used up their runs.\<close>

definition reset_counts :: "int \<Rightarrow> u32 list \<Rightarrow> u32 list" where
  "reset_counts nice rc = map (\<lambda>i. if int i > nice \<and> rc ! i \<ge> MAX_RUN_COUNT then 0 else rc ! i) [0..<length rc]"

text \<open>From the state, the thread to run and its level to the end of \<^verbatim>\<open>PickNext\<close>.\<close>

definition PickNext_finish :: "bool \<Rightarrow> u64 \<Rightarrow> u64 \<Rightarrow> int \<Rightarrow> Scheduler \<Rightarrow> Scheduler res" where
  "PickNext_finish lockState p thread nice s =
     (let s = upd_state p (\<lambda>ps. ps\<lparr>runCounts := reset_counts nice (runCounts ps)\<rparr>) s in
      bindR (if lockState then spinlock_acquire (ps_lock (sc_state s p)) else Inr (ps_lock (sc_state s p))) (\<lambda>v.
      Inr (upd_state p (\<lambda>ps. ps\<lparr>isIdle := (if thread = idleThread ps then 1 else 0), currentThread := thread,
        ps_lock := (if lockState then spinlock_release v else v)\<rparr>) s)))"

definition count_run :: "u64 \<Rightarrow> int \<Rightarrow> Scheduler \<Rightarrow> Scheduler" where
  "count_run p nice s = upd_state p (\<lambda>ps. ps\<lparr>runCounts := (runCounts ps)[nat nice := runCounts ps ! nat nice + 1]\<rparr>) s"

definition PickNext :: "bool \<Rightarrow> Scheduler \<Rightarrow> Scheduler res" where
  "PickNext lockState s =
     (let p = sc_current s in
      if p = 0 then Inr s
      else
        bindR (scan_levels [0..<NICE_LEVELS] (ps_threads (sc_state s p), runCounts (sc_state s p), sc_interrupts s, 0, -1))
          (\<lambda>(ls, rc, intr, thread, nice).
          (let s = (upd_state p (\<lambda>ps. ps\<lparr>ps_threads := ls, runCounts := rc\<rparr>) s)\<lparr>sc_interrupts := intr\<rparr> in
           if thread = 0 then
             bindR (StealThreadFromOther p s) (\<lambda>(s, thread, nice).
             if thread = 0 then
               (let thread = idleThread (sc_state s p) in
                if thread = 0 then Inl Panicked else PickNext_finish lockState p thread nice s)
             else
               PickNext_finish lockState p thread nice
                 (count_run p nice (upd_info thread (\<lambda>i. i\<lparr>CPUInfo_state := p, CPUInfo_lock := spinlock_release (CPUInfo_lock i)\<rparr>) s)))
           else
             (let s = count_run p nice s;
                  (th, l, _) = ThreadList_popFront (sc_links s) (ls ! nat nice);
                  (l, intr) = ThreadList_unlock l intr in
              PickNext_finish lockState p thread nice
                ((upd_state p (\<lambda>ps. ps\<lparr>ps_threads := ls[nat nice := l]\<rparr>) s)\<lparr>sc_links := th, sc_interrupts := intr\<rparr>)))))"

section \<open>Timer, yield and sleep\<close>

text \<open>The walk over the sleeping threads; those whose time is up move to the queue of their level.\<close>

definition timer_callback :: "u64 \<Rightarrow> u64 \<Rightarrow> Scheduler thread_callback" where
  "timer_callback p msSinceLast t th l s =
     (if msSinceLast \<ge> sleepRemainingTime (sc_info s t) then
        (let s = upd_info t (\<lambda>i. i\<lparr>sleepRemainingTime := 0\<rparr>) s in
         bindR (ThreadList_remove th l t) (\<lambda>(th, l).
         bindR (GetNice t s) (\<lambda>oldNice.
         bindR (push_level p oldNice t (s\<lparr>sc_links := th\<rparr>)) (\<lambda>s. Inr (Continue, sc_links s, l, s)))))
      else Inr (Continue, th, l, upd_info t (\<lambda>i. i\<lparr>sleepRemainingTime := sleepRemainingTime i - msSinceLast\<rparr>) s))"

definition wake_sleepers :: "u64 \<Rightarrow> u64 \<Rightarrow> Scheduler \<Rightarrow> Scheduler res" where
  "wake_sleepers p msSinceLast s =
     bindR (ThreadList_lock (sleepingThreads (sc_state s p)) (sc_interrupts s)) (\<lambda>(l, intr).
     bindR (ThreadList_Enumerate (timer_callback p msSinceLast) (sc_links s) l (s\<lparr>sc_interrupts := intr\<rparr>)) (\<lambda>(th, l, s).
     (let (l, intr) = ThreadList_unlock l (sc_interrupts s) in
      Inr ((upd_state p (\<lambda>ps. ps\<lparr>sleepingThreads := l\<rparr>) s)\<lparr>sc_links := th, sc_interrupts := intr\<rparr>))))"

text \<open>What both the timer and a yield end with: pick a thread and give it a time slice.\<close>

definition dispatch :: "u64 \<Rightarrow> Scheduler \<Rightarrow> Scheduler res" where
  "dispatch p s =
     bindR (PickNext False s) (\<lambda>s.
     (let t = currentThread (sc_state s p) in
      if t = 0 then Inl Panicked
      else Inr (upd_info t (\<lambda>i. i\<lparr>m_TimeRemaining := DEFAULT_TIMESLICE\<rparr>) s)))"

definition TimerTick :: "u64 \<Rightarrow> Scheduler \<Rightarrow> Scheduler res" where
  "TimerTick msSinceLast s =
     (let p = sc_current s in
      if p = 0 \<or> startAllowed (sc_state s p) = 0 then Inr s
      else
        bindR (wake_sleepers p msSinceLast s) (\<lambda>s.
        (let old = currentThread (sc_state s p) in
         if old = 0 then dispatch p s
         else
           (let remaining = m_TimeRemaining (sc_info s old);
                s = upd_info old (\<lambda>i. i\<lparr>m_TimeRemaining := (if msSinceLast \<ge> remaining then 0 else remaining - msSinceLast)\<rparr>) s in
            if m_TimeRemaining (sc_info s old) > 0 \<and> isIdle (sc_state s p) = 0 then Inr s
            else
              bindR (if isIdle (sc_state s p) = 0 then bindR (GetNice old s) (\<lambda>oldNice. push_level p oldNice old s) else Inr s) (\<lambda>s.
              dispatch p (upd_state p (\<lambda>ps. ps\<lparr>currentThread := 0\<rparr>) s))))))"

text \<open>The function a thread may leave to be called once it is off the processor is an argument.\<close>

definition Yield_Internal :: "(u64 \<Rightarrow> u64 \<Rightarrow> Scheduler \<Rightarrow> Scheduler res) \<Rightarrow> bool \<Rightarrow> u64 \<Rightarrow> Scheduler \<Rightarrow> Scheduler res" where
  "Yield_Internal callback forceSwitch old s =
     (let s = s\<lparr>sc_interrupts := False\<rparr>; p = sc_current s in
      assertR (p \<noteq> 0)
      (bindR (spinlock_acquire (ps_lock (sc_state s p))) (\<lambda>v.
       (let s = upd_state p (\<lambda>ps. ps\<lparr>ps_lock := v\<rparr>) s in
        bindR
          (if old \<noteq> 0 then
             bindR
               (if sleepRemainingTime (sc_info s old) > 0 then push_sleeping p old s
                else if yieldCallback (sc_info s old) \<noteq> 0 then callback (yieldCallback (sc_info s old)) old s
                else Inr s)
               (PickNext False)
           else
             (let old = currentThread (sc_state s p) in
              bindR
                (if old \<noteq> 0 \<and> forceSwitch then
                   bindR (GetNice old s) (\<lambda>oldNice.
                   bindR (push_level p oldNice old s) (\<lambda>s. Inr (upd_state p (\<lambda>ps. ps\<lparr>currentThread := 0\<rparr>) s)))
                 else Inr s)
                (if old = 0 \<or> forceSwitch then PickNext False else Inr)))
          (\<lambda>s.
           let t = currentThread (sc_state s p) in
           if t = 0 then Inl Panicked
           else
             Inr (upd_state p (\<lambda>ps. ps\<lparr>ps_lock := spinlock_release (ps_lock ps)\<rparr>)
               (upd_info t (\<lambda>i. i\<lparr>m_TimeRemaining := DEFAULT_TIMESLICE\<rparr>) s)))))))"

definition Yield :: "(u64 \<Rightarrow> u64 \<Rightarrow> Scheduler \<Rightarrow> Scheduler res) \<Rightarrow> u64 \<Rightarrow> bool \<Rightarrow> bool \<Rightarrow> Scheduler \<Rightarrow> Scheduler res" where
  "Yield callback old forceSwitch swapStack s =
     (if swapStack \<and> sc_current s = 0 then Inl NullDeref else Yield_Internal callback forceSwitch old s)"

text \<open>The sleeping thread is saved and the processor yields; the call returns when the thread runs again.\<close>

definition SleepCurrentThread :: "(u64 \<Rightarrow> u64 \<Rightarrow> Scheduler \<Rightarrow> Scheduler res) \<Rightarrow> u64 \<Rightarrow> Scheduler \<Rightarrow> Scheduler res" where
  "SleepCurrentThread callback ms s =
     (if ms = 0 then Inr s
      else
        bindR (RemoveCurrentThread True (s\<lparr>sc_interrupts := False\<rparr>)) (\<lambda>(s', t).
        if t = 0 then Inr (s'\<lparr>sc_interrupts := sc_interrupts s\<rparr>)
        else Yield_Internal callback False t (upd_info t (\<lambda>i. i\<lparr>sleepRemainingTime := ms\<rparr>) s')))"

primrec allow_start :: "u64 \<Rightarrow> u64 list \<Rightarrow> (u64 \<Rightarrow> ProcessorState) \<Rightarrow> (u64 \<Rightarrow> ProcessorState)" where
  "allow_start pid [] st = st"
| "allow_start pid (p # rest) st =
     allow_start pid rest (if ps_id (st p) = pid then st else st(p := (st p)\<lparr>startAllowed := 1\<rparr>))"

definition Start :: "bool \<Rightarrow> Scheduler \<Rightarrow> Scheduler res" where
  "Start AP s =
     bindR (PickNext True s) (\<lambda>s.
     (let p = sc_current s in
      assertR (p \<noteq> 0)
      (if AP then Inr s
       else
         (let s = upd_state p (\<lambda>ps. ps\<lparr>startAllowed := 1\<rparr>) s in
          Inr (s\<lparr>g_isRunning := 1,
            sc_state := allow_start (ps_id (sc_state s p)) (take (unat (g_processorCount s)) (sc_chain s)) (sc_state s)\<rparr>)))))"

end
