(* ===== verification/SchedulerScan.thy ===== *)
theory SchedulerScan
  imports Scheduler
begin

text \<open>
  Which nice level \<^verbatim>\<open>PickNext\<close> chooses: the loop over the levels as a function of which queues have threads and
  which levels have used up their runs, and the run counts as a counter that bounds how long a level waits.
\<close>

section \<open>The chosen level\<close>

primrec first_ready :: "(nat \<Rightarrow> bool) \<Rightarrow> nat \<Rightarrow> nat option" where
  "first_ready ready 0 = None"
| "first_ready ready (Suc k) = (case first_ready ready k of None \<Rightarrow> if ready k then Some k else None | Some f \<Rightarrow> Some f)"

primrec chosen :: "(nat \<Rightarrow> bool) \<Rightarrow> (nat \<Rightarrow> bool) \<Rightarrow> nat \<Rightarrow> nat option" where
  "chosen ready spent 0 = None"
| "chosen ready spent (Suc k) =
     (if \<not> ready k then chosen ready spent k
      else case chosen ready spent k of None \<Rightarrow> Some k | Some m \<Rightarrow> if spent k then Some m else Some k)"

lemma first_ready_None: "first_ready ready k = None \<longleftrightarrow> (\<forall>i < k. \<not> ready i)"
  by (induction k) (auto simp: less_Suc_eq split: option.splits)

lemma first_ready_Some: "first_ready ready k = Some f \<Longrightarrow> f < k \<and> ready f \<and> (\<forall>i < f. \<not> ready i)"
  by (induction k) (auto simp: less_Suc_eq first_ready_None split: option.splits if_splits)

lemma chosen_None: "chosen ready spent k = None \<longleftrightarrow> (\<forall>i < k. \<not> ready i)"
  by (induction k) (auto simp: less_Suc_eq split: option.splits)

lemma chosen_first: "chosen ready spent k = None \<longleftrightarrow> first_ready ready k = None"
  by (simp add: chosen_None first_ready_None)

text \<open>A level is passed over only for a later one that still has runs, or for an earlier one if its own runs are used up.\<close>

lemma chosen_Some:
  "chosen ready spent k = Some n \<Longrightarrow>
     n < k \<and> ready n \<and> (\<forall>i < n. ready i \<longrightarrow> \<not> spent n) \<and> (\<forall>i. n < i \<longrightarrow> i < k \<longrightarrow> ready i \<longrightarrow> spent i)"
proof (induction k)
  case (Suc k)
  then show ?case
    using chosen_None [of ready spent k] by (cases "chosen ready spent k") (auto simp: less_Suc_eq split: if_splits)
qed simp

section \<open>The loop\<close>

lemma lock_free:
  "tl_Lock l = SPINLOCK_DEFAULT_VALUE \<Longrightarrow>
     ThreadList_lock l i = Inr (l\<lparr>tl_Lock := SPINLOCK_LOCKED_VALUE, tl_intState := i\<rparr>, False)"
  by (simp add: ThreadList_lock_def)

lemma unlock_held: "ThreadList_unlock l i = (l\<lparr>tl_Lock := SPINLOCK_DEFAULT_VALUE\<rparr>, i \<or> tl_intState l)"
  by (simp add: ThreadList_unlock_def spinlock_release_def)

text \<open>The lists after \<open>k\<close> levels, when level \<open>m\<close> is the choice so far.\<close>

definition visited :: "ThreadList list \<Rightarrow> nat \<Rightarrow> nat option \<Rightarrow> ThreadList list" where
  "visited ls k m =
     map (\<lambda>i. if i < k then (ls ! i)\<lparr>tl_Lock := (if m = Some i then SPINLOCK_LOCKED_VALUE else SPINLOCK_DEFAULT_VALUE), tl_intState := False\<rparr>
       else ls ! i) [0..<length ls]"

definition refreshed :: "u32 list \<Rightarrow> nat option \<Rightarrow> u32 list" where
  "refreshed rc f = (case f of None \<Rightarrow> rc | Some i \<Rightarrow> if rc ! i \<ge> MAX_RUN_COUNT then rc[i := 0] else rc)"

definition lists_ok :: "ThreadList list \<Rightarrow> bool" where
  "lists_ok ls \<longleftrightarrow> (\<forall>i < length ls. tl_Lock (ls ! i) = SPINLOCK_DEFAULT_VALUE \<and> (tl_Count (ls ! i) = 0 \<longleftrightarrow> tl_Head (ls ! i) = 0))"

abbreviation has_threads :: "ThreadList list \<Rightarrow> nat \<Rightarrow> bool" where
  "has_threads ls i \<equiv> tl_Count (ls ! i) \<noteq> 0"

abbreviation runs_used :: "u32 list \<Rightarrow> nat \<Rightarrow> bool" where
  "runs_used rc i \<equiv> rc ! i \<ge> MAX_RUN_COUNT"

definition scanned :: "ThreadList list \<Rightarrow> u32 list \<Rightarrow> nat \<Rightarrow> scan" where
  "scanned ls rc k =
     (let m = chosen (has_threads ls) (runs_used rc) k in
      (visited ls k m, refreshed rc (first_ready (has_threads ls) k), False,
       (case m of None \<Rightarrow> 0 | Some n \<Rightarrow> tl_Head (ls ! n)), (case m of None \<Rightarrow> -1 | Some n \<Rightarrow> int n)))"

lemma visited_simps [simp]:
  "length (visited ls k m) = length ls"
  "i < length ls \<Longrightarrow> visited ls k m ! i = (if i < k then (ls ! i)\<lparr>tl_Lock := (if m = Some i then SPINLOCK_LOCKED_VALUE else SPINLOCK_DEFAULT_VALUE),
     tl_intState := False\<rparr> else ls ! i)"
  by (simp_all add: visited_def)

lemma scan_levels_append: "scan_levels (is @ js) c = bindR (scan_levels is c) (scan_levels js)"
  by (induction "is" arbitrary: c) (simp_all add: bindR_def split: sum.splits)

lemma refreshed_later: "first_ready ready k = Some f \<Longrightarrow> refreshed rc (Some f) ! k = rc ! k"
  using first_ready_Some [of ready k f] by (auto simp: refreshed_def)

lemma scan_level_ok:
  assumes ls: "lists_ok ls" and k: "k < length ls"
  shows "scan_level k (scanned ls rc k) = Inr (scanned ls rc (Suc k))"
proof -
  let ?r = "has_threads ls" and ?u = "runs_used rc"
  have lk: "tl_Lock (ls ! k) = SPINLOCK_DEFAULT_VALUE"
    using ls k by (simp add: lists_ok_def)
  have hd: "\<And>n. n < k \<Longrightarrow> ?r n \<Longrightarrow> tl_Head (ls ! n) \<noteq> 0"
    using ls k by (auto simp: lists_ok_def)
  show ?thesis
  proof (cases "chosen ?r ?u k")
    case None
    then have f: "first_ready ?r k = None"
      by (simp add: chosen_first)
    show ?thesis
      using None f k lk
      by (auto simp: scan_level_def scanned_def lock_free unlock_held ThreadList_getCount_def ThreadList_getHead_def Let_def
          refreshed_def nth_list_update less_Suc_eq intro!: nth_equalityI split: if_splits)
  next
    case (Some m)
    then obtain f where f: "first_ready ?r k = Some f"
      using chosen_first [of ?r ?u k] by (cases "first_ready ?r k") auto
    have m: "m < k" "?r m" "tl_Head (ls ! m) \<noteq> 0" "k \<noteq> 0"
      using chosen_Some [OF Some] hd by auto
    show ?thesis
      using Some f k lk m refreshed_later [OF f, of rc]
      by (auto simp: scan_level_def scanned_def lock_free unlock_held ThreadList_getCount_def ThreadList_getHead_def Let_def
          nth_list_update less_Suc_eq intro!: nth_equalityI split: if_splits)
  qed
qed

lemma scan_levels_ok:
  assumes ls: "lists_ok ls" and k: "k \<le> length ls"
  shows "scan_levels [0..<k] (ls, rc, False, 0, -1) = Inr (scanned ls rc k)"
  using k
proof (induction k)
  case 0
  have "visited ls 0 None = ls"
    by (auto intro!: nth_equalityI)
  then show ?case
    by (simp add: scanned_def refreshed_def)
next
  case (Suc k)
  then show ?case
    using scan_level_ok [OF ls, of k rc] by (simp add: scan_levels_append)
qed

end
