(* ===== verification/SchedulerInv.thy ===== *)
theory SchedulerInv
  imports SchedulerScan
begin

text \<open>
  A family of scheduler lists over one store of links: which thread is in which list is a family of
  sequences without common members, and an operation on one list leaves the others as they are.
\<close>

section \<open>Families of lists\<close>

definition lists_inv :: "threads \<Rightarrow> ('k \<Rightarrow> ThreadList) \<Rightarrow> 'k set \<Rightarrow> ('k \<Rightarrow> u64 list) \<Rightarrow> bool" where
  "lists_inv th L K Q \<longleftrightarrow>
     (\<forall>k \<in> K. tl_ok th (L k) (Q k) \<and> \<not> IsProcList (L k) \<and> tl_Lock (L k) = SPINLOCK_DEFAULT_VALUE) \<and>
     (\<forall>k \<in> K. \<forall>k' \<in> K. k \<noteq> k' \<longrightarrow> set (Q k) \<inter> set (Q k') = {})"

abbreviation members :: "'k set \<Rightarrow> ('k \<Rightarrow> u64 list) \<Rightarrow> u64 set" where
  "members K Q \<equiv> (\<Union>k \<in> K. set (Q k))"

abbreviation clear_links :: "threads \<Rightarrow> u64 \<Rightarrow> bool" where
  "clear_links th t \<equiv> GetDataFromThread False th t = \<lparr>tl_previous = 0, tl_next = 0\<rparr>"

lemma seg_same:
  "\<forall>a \<in> set as. m' a = m a \<Longrightarrow> seg m' pv p as q = seg m pv p as q"
  by (induction as arbitrary: pv p) auto

lemma tl_ok_frame:
  assumes "tl_ok th l ts" "others_kept p T th th'" "T \<inter> set ts = {}"
  shows "tl_ok th' l ts"
proof -
  have "links (IsProcList l) th' a = links (IsProcList l) th a" if "a \<in> set ts" for a
    using assms(2,3) that by (auto simp: links_def GetDataFromThread_def others_kept_def)
  then show ?thesis
    using assms(1) seg_same [of ts "links (IsProcList l) th'" "links (IsProcList l) th"] by (auto simp: tl_ok_def dlist_def)
qed

lemma tl_ok_upd [simp]:
  "tl_ok th (l\<lparr>tl_Lock := v\<rparr>) ts = tl_ok th l ts" "tl_ok th (l\<lparr>tl_intState := b\<rparr>) ts = tl_ok th l ts"
  by (simp_all add: tl_ok_def)

lemma lists_invD:
  assumes "lists_inv th L K Q" "k \<in> K"
  shows "tl_ok th (L k) (Q k)" "\<not> IsProcList (L k)" "tl_Lock (L k) = SPINLOCK_DEFAULT_VALUE"
  using assms by (auto simp: lists_inv_def)

text \<open>One list changes among its own threads and a thread of no list.\<close>

lemma lists_inv_update:
  assumes inv: "lists_inv th L K Q" and k: "k \<in> K"
    and l: "tl_ok th' l ts" "\<not> IsProcList l" "tl_Lock l = SPINLOCK_DEFAULT_VALUE"
    and th: "others_kept False T th th'" "T \<subseteq> set (Q k) \<union> (- members K Q)"
    and ts: "set ts \<subseteq> set (Q k) \<union> (- members K Q)"
  shows "lists_inv th' (L(k := l)) K (Q(k := ts))"
proof -
  have dis: "set (Q k') \<inter> set (Q k) = {}" if "k' \<in> K" "k' \<noteq> k" for k'
    using inv k that by (auto simp: lists_inv_def)
  have "tl_ok th' (L k') (Q k')" if "k' \<in> K" "k' \<noteq> k" for k'
  proof (rule tl_ok_frame [OF _ th(1)])
    show "tl_ok th (L k') (Q k')"
      using inv that(1) by (rule lists_invD)
    show "T \<inter> set (Q k') = {}"
      using th(2) dis [OF that] that(1) by auto
  qed
  moreover have "set ts \<inter> set (Q k') = {}" if "k' \<in> K" "k' \<noteq> k" for k'
    using ts dis [OF that] that(1) by auto
  ultimately show ?thesis
    using inv l by (auto simp: lists_inv_def)
qed

lemma lists_inv_cong:
  "(\<And>k. k \<in> K \<Longrightarrow> L' k = L k) \<Longrightarrow> (\<And>k. k \<in> K \<Longrightarrow> Q' k = Q k) \<Longrightarrow> lists_inv th L' K Q' = lists_inv th L K Q"
  by (simp add: lists_inv_def)

text \<open>Threads outside the family may change freely.\<close>

lemma lists_inv_frame:
  assumes "lists_inv th L K Q" "others_kept p T th th'" "T \<inter> members K Q = {}"
  shows "lists_inv th' L K Q"
  using assms(1) tl_ok_frame [OF _ assms(2)] assms(3) by (fastforce simp: lists_inv_def)

text \<open>Appending under the lock of the list.\<close>

lemma lists_push:
  assumes inv: "lists_inv th L K Q" and k: "k \<in> K" and t: "t \<noteq> 0" "t \<notin> members K Q" "clear_links th t"
  obtains th' l' where "ThreadList_lock (L k) i = Inr ((L k)\<lparr>tl_Lock := SPINLOCK_LOCKED_VALUE, tl_intState := i\<rparr>, False)"
    "ThreadList_pushBack th ((L k)\<lparr>tl_Lock := SPINLOCK_LOCKED_VALUE, tl_intState := i\<rparr>) t = Inr (th', l')"
    "ThreadList_unlock l' False = (l'\<lparr>tl_Lock := SPINLOCK_DEFAULT_VALUE\<rparr>, i)"
    "lists_inv th' (L(k := l'\<lparr>tl_Lock := SPINLOCK_DEFAULT_VALUE\<rparr>)) K (Q(k := Q k @ [t]))"
    "others_kept False (insert t (set (Q k))) th th'"
proof -
  note L = lists_invD [OF inv k]
  let ?l = "(L k)\<lparr>tl_Lock := SPINLOCK_LOCKED_VALUE, tl_intState := i\<rparr>"
  have "t \<notin> set (Q k)"
    using t(2) k by auto
  then obtain th' l' where r: "ThreadList_pushBack th ?l t = Inr (th', l')" "tl_ok th' l' (Q k @ [t])" "\<not> IsProcList l'"
      "others_kept False (insert t (set (Q k))) th th'" "tl_intState l' = i"
    using pushBack_ok [of th ?l "Q k" t] L t by auto
  show thesis
  proof (rule that [OF _ r(1)])
    show "lists_inv th' (L(k := l'\<lparr>tl_Lock := SPINLOCK_DEFAULT_VALUE\<rparr>)) K (Q(k := Q k @ [t]))"
      by (rule lists_inv_update [OF inv k _ _ _ r(4)]) (use r t in auto)
  qed (use L r in \<open>simp_all add: lock_free unlock_held\<close>)
qed

lemma lists_pop:
  assumes inv: "lists_inv th L K Q" and k: "k \<in> K" and q: "Q k = t # ts" and l: "tl_ok th l (Q k)" "\<not> IsProcList l"
  obtains th' l' where "ThreadList_popFront th l = (th', l', t)" "tl_intState l' = tl_intState l"
    "lists_inv th' (L(k := l'\<lparr>tl_Lock := SPINLOCK_DEFAULT_VALUE\<rparr>)) K (Q(k := ts))"
    "others_kept False (set (Q k)) th th'" "clear_links th' t"
proof -
  obtain th' l' where r: "ThreadList_popFront th l = (th', l', t)" "tl_ok th' l' ts" "\<not> IsProcList l'"
      "clear_links th' t" "others_kept False (set (Q k)) th th'" "tl_intState l' = tl_intState l"
    using popFront_ok [of th l t ts] l q by auto
  show thesis
  proof (rule that [OF r(1,6)])
    show "lists_inv th' (L(k := l'\<lparr>tl_Lock := SPINLOCK_DEFAULT_VALUE\<rparr>)) K (Q(k := ts))"
      by (rule lists_inv_update [OF inv k _ _ _ r(5)]) (use r q in auto)
  qed (use r in simp_all)
qed

section \<open>The lists of all processors\<close>

text \<open>Key \<open>(p, i)\<close> is the queue of level \<open>i\<close> of processor \<open>p\<close>, or its sleeping threads for \<open>i = 16\<close>.\<close>

definition list_at :: "ProcessorState \<Rightarrow> nat \<Rightarrow> ThreadList" where
  "list_at ps i = (if i < NICE_LEVELS then ps_threads ps ! i else if i = NICE_LEVELS then sleepingThreads ps else ThreadList_new False)"

definition all_lists :: "Scheduler \<Rightarrow> u64 \<times> nat \<Rightarrow> ThreadList" where
  "all_lists s = (\<lambda>(p, i). list_at (sc_state s p) i)"

definition keys :: "Scheduler \<Rightarrow> (u64 \<times> nat) set" where
  "keys s = set (sc_chain s) \<times> {..NICE_LEVELS}"

lemma upd_state_simps [simp]:
  "sc_state (upd_state p f s) = (sc_state s)(p := f (sc_state s p))" "sc_links (upd_state p f s) = sc_links s"
  "sc_info (upd_state p f s) = sc_info s" "sc_nice (upd_state p f s) = sc_nice s" "sc_chain (upd_state p f s) = sc_chain s"
  "sc_current (upd_state p f s) = sc_current s" "sc_interrupts (upd_state p f s) = sc_interrupts s"
  "g_StealLock (upd_state p f s) = g_StealLock s" "g_isRunning (upd_state p f s) = g_isRunning s"
  by (simp_all add: upd_state_def)

lemma upd_info_simps [simp]:
  "sc_state (upd_info t g s) = sc_state s" "sc_links (upd_info t g s) = sc_links s"
  "sc_info (upd_info t g s) = (sc_info s)(t := g (sc_info s t))" "sc_nice (upd_info t g s) = sc_nice s"
  "sc_chain (upd_info t g s) = sc_chain s" "sc_current (upd_info t g s) = sc_current s"
  "sc_interrupts (upd_info t g s) = sc_interrupts s" "g_StealLock (upd_info t g s) = g_StealLock s"
  "g_isRunning (upd_info t g s) = g_isRunning s"
  by (simp_all add: upd_info_def)

lemma all_lists_cong:
  "sc_state s' = sc_state s \<Longrightarrow> all_lists s' = all_lists s"
  by (simp add: all_lists_def)

lemma all_lists_queue:
  assumes "n < NICE_LEVELS" "length (ps_threads (sc_state s p)) = NICE_LEVELS"
    "sc_state s' = (sc_state s)(p := ps)" "ps_threads ps = (ps_threads (sc_state s p))[n := l]"
    "sleepingThreads ps = sleepingThreads (sc_state s p)"
  shows "all_lists s' = (all_lists s)((p, n) := l)"
  using assms by (auto simp: all_lists_def list_at_def fun_eq_iff nth_list_update)

lemma all_lists_sleeping:
  assumes "sc_state s' = (sc_state s)(p := ps)" "ps_threads ps = ps_threads (sc_state s p)" "sleepingThreads ps = l"
  shows "all_lists s' = (all_lists s)((p, NICE_LEVELS) := l)"
  using assms by (auto simp: all_lists_def list_at_def fun_eq_iff)

text \<open>Making a thread ready.\<close>

lemma push_level_ok:
  assumes inv: "lists_inv (sc_links s) L K Q" and k: "k \<in> K" "L k = ps_threads (sc_state s p) ! n" and n: "n < NICE_LEVELS"
    and t: "t \<noteq> 0" "t \<notin> members K Q" "clear_links (sc_links s) t"
  obtains th' l' where "push_level p n t s = Inr ((upd_state p (\<lambda>ps. ps\<lparr>ps_threads := (ps_threads ps)[n := l']\<rparr>) s)\<lparr>sc_links := th'\<rparr>)"
    "lists_inv th' (L(k := l')) K (Q(k := Q k @ [t]))" "others_kept False (insert t (set (Q k))) (sc_links s) th'"
proof -
  obtain th' l' where r: "ThreadList_lock (L k) (sc_interrupts s) = Inr ((L k)\<lparr>tl_Lock := SPINLOCK_LOCKED_VALUE, tl_intState := sc_interrupts s\<rparr>, False)"
    "ThreadList_pushBack (sc_links s) ((L k)\<lparr>tl_Lock := SPINLOCK_LOCKED_VALUE, tl_intState := sc_interrupts s\<rparr>) t = Inr (th', l')"
    "ThreadList_unlock l' False = (l'\<lparr>tl_Lock := SPINLOCK_DEFAULT_VALUE\<rparr>, sc_interrupts s)"
    "lists_inv th' (L(k := l'\<lparr>tl_Lock := SPINLOCK_DEFAULT_VALUE\<rparr>)) K (Q(k := Q k @ [t]))"
    "others_kept False (insert t (set (Q k))) (sc_links s) th'"
    using lists_push [OF inv k(1) t] by blast
  have "push_level p n t s = Inr ((upd_state p (\<lambda>ps. ps\<lparr>ps_threads := (ps_threads ps)[n := l'\<lparr>tl_Lock := SPINLOCK_DEFAULT_VALUE\<rparr>]\<rparr>) s)\<lparr>sc_links := th'\<rparr>)"
    using n r(1-3) k(2) by (simp add: push_level_def upd_state_def)
  then show thesis
    using that r(4,5) by blast
qed

section \<open>The next thread\<close>

text \<open>The run counts after a dispatch from level \<open>n\<close>.\<close>

definition counted :: "u32 list \<Rightarrow> nat \<Rightarrow> u32 list" where
  "counted rc n = reset_counts (int n) (rc[n := rc ! n + 1])"

lemma length_counts [simp]: "length (reset_counts k rc) = length rc" "length (counted rc n) = length rc" "length (refreshed rc f) = length rc"
  by (simp_all add: reset_counts_def counted_def refreshed_def split: option.splits)

definition count_ok :: "u32 list \<Rightarrow> bool" where
  "count_ok rc \<longleftrightarrow> length rc = NICE_LEVELS \<and> (\<forall>i < NICE_LEVELS. rc ! i \<le> MAX_RUN_COUNT)"

lemma count_ok_refreshed:
  assumes "count_ok rc"
  shows "count_ok (refreshed rc f)"
proof -
  have "rc[j := 0] ! i \<le> MAX_RUN_COUNT" if "i < NICE_LEVELS" for i j
    using assms that by (cases "i = j") (simp_all add: count_ok_def)
  then show ?thesis
    using assms by (auto simp: count_ok_def refreshed_def split: option.splits)
qed

lemma count_ok_counted:
  assumes "count_ok rc" "n < NICE_LEVELS" "\<not> runs_used rc n"
  shows "count_ok (counted rc n)"
proof -
  have "rc ! n + 1 \<le> MAX_RUN_COUNT"
    using assms(3) by (auto simp: MAX_RUN_COUNT_def not_le word_less_nat_alt word_le_nat_alt unat_word_ariths)
  then show ?thesis
    using assms by (auto simp: count_ok_def counted_def reset_counts_def nth_list_update)
qed

lemma count_ok_reset: "count_ok rc \<Longrightarrow> count_ok (reset_counts n rc)"
  by (auto simp: count_ok_def reset_counts_def)

text \<open>The level that is chosen has runs left once the counts are refreshed.\<close>

lemma chosen_has_runs:
  assumes "chosen ready (runs_used rc) k = Some n" "k \<le> length rc"
  shows "\<not> runs_used (refreshed rc (first_ready ready k)) n"
proof -
  note n = chosen_Some [OF assms(1)]
  obtain f where f: "first_ready ready k = Some f"
    using assms(1) chosen_first [of ready "runs_used rc" k] by (cases "first_ready ready k") auto
  note first_ready_Some [OF f]
  then show ?thesis
    using n assms(2) f by (cases "f = n") (auto simp: refreshed_def nth_list_update MAX_RUN_COUNT_def linorder_neq_iff)
qed

end
