(* ===== verification/SchedulerPick.thy ===== *)
theory SchedulerPick
  imports SchedulerInv
begin

text \<open>
  \<^verbatim>\<open>PickNext\<close> on the sequences: the head of the chosen queue, else the head of a queue of another processor,
  else the idle thread. All list locks are free again afterwards.
\<close>

section \<open>The processor's own queues\<close>

lemma lists_inv_intState:
  assumes "lists_inv th L K Q" "\<And>k. k \<in> K \<Longrightarrow> L' k = L k \<or> L' k = (L k)\<lparr>tl_intState := False\<rparr>"
  shows "lists_inv th L' K Q"
proof -
  have "tl_ok th (L' k) (Q k) \<and> \<not> IsProcList (L' k) \<and> tl_Lock (L' k) = SPINLOCK_DEFAULT_VALUE" if "k \<in> K" for k
    using assms(2) [OF that] lists_invD [OF assms(1) that] by auto
  then show ?thesis
    using assms(1) by (simp add: lists_inv_def)
qed

lemma tl_ok_count: "tl_ok th l ts \<Longrightarrow> tl_Count l = 0 \<longleftrightarrow> ts = []"
  using tl_ok_ends(3) [of th l ts] by (metis length_0_conv unat_eq_zero)

lemma tl_ok_head: "tl_ok th l ts \<Longrightarrow> tl_Head l = 0 \<longleftrightarrow> ts = []"
  using tl_ok_ends(1,5) [of th l ts] by (cases ts) auto

lemma queue_lists:
  assumes inv: "lists_inv th (all_lists s) K Q" and K: "{p} \<times> {..NICE_LEVELS} \<subseteq> K" and n: "n < NICE_LEVELS"
  shows "tl_ok th (ps_threads (sc_state s p) ! n) (Q (p, n))" "\<not> IsProcList (ps_threads (sc_state s p) ! n)"
    "tl_Lock (ps_threads (sc_state s p) ! n) = SPINLOCK_DEFAULT_VALUE"
proof -
  have "all_lists s (p, n) = ps_threads (sc_state s p) ! n"
    using n by (simp add: all_lists_def list_at_def)
  moreover have "(p, n) \<in> K"
    using subsetD [OF K, of "(p, n)"] n by simp
  ultimately show "tl_ok th (ps_threads (sc_state s p) ! n) (Q (p, n))" "\<not> IsProcList (ps_threads (sc_state s p) ! n)"
      "tl_Lock (ps_threads (sc_state s p) ! n) = SPINLOCK_DEFAULT_VALUE"
    using lists_invD [OF inv, of "(p, n)"] by auto
qed

text \<open>The queues that have threads, and the level \<^verbatim>\<open>PickNext\<close> goes for.\<close>

definition waiting :: "(u64 \<times> nat \<Rightarrow> u64 list) \<Rightarrow> u64 \<Rightarrow> nat \<Rightarrow> bool" where
  "waiting Q p i \<longleftrightarrow> Q (p, i) \<noteq> []"

lemma scan_queues:
  assumes inv: "lists_inv th (all_lists s) K Q" and K: "{p} \<times> {..NICE_LEVELS} \<subseteq> K"
    and len: "length (ps_threads (sc_state s p)) = NICE_LEVELS"
  shows "scan_levels [0..<NICE_LEVELS] (ps_threads (sc_state s p), rc, False, 0, -1) =
    Inr (let m = chosen (waiting Q p) (runs_used rc) NICE_LEVELS in
      (visited (ps_threads (sc_state s p)) NICE_LEVELS m, refreshed rc (first_ready (waiting Q p) NICE_LEVELS), False,
       (case m of None \<Rightarrow> 0 | Some n \<Rightarrow> hd (Q (p, n))), (case m of None \<Rightarrow> -1 | Some n \<Rightarrow> int n)))"
proof -
  let ?ls = "ps_threads (sc_state s p)"
  note q = queue_lists [OF inv K]
  have ok: "lists_ok ?ls"
    using q(3) len tl_ok_count [OF q(1)] tl_ok_head [OF q(1)] by (simp add: lists_ok_def)
  have r: "i < NICE_LEVELS \<Longrightarrow> has_threads ?ls i = waiting Q p i" for i
    using tl_ok_count [OF q(1)] by (simp add: waiting_def)
  have c: "k \<le> NICE_LEVELS \<Longrightarrow> chosen (has_threads ?ls) u k = chosen (waiting Q p) u k" for u k
    by (induction k) (simp_all add: r)
  have f: "k \<le> NICE_LEVELS \<Longrightarrow> first_ready (has_threads ?ls) k = first_ready (waiting Q p) k" for k
    by (induction k) (simp_all add: r)
  have h: "tl_Head (?ls ! n) = hd (Q (p, n))" if "chosen (waiting Q p) (runs_used rc) NICE_LEVELS = Some n" for n
    using chosen_Some [OF that] tl_ok_ends(1) [OF q(1)] by (cases "Q (p, n)") (auto simp: waiting_def)
  have "scan_levels [0..<NICE_LEVELS] (?ls, rc, False, 0, -1) = Inr (scanned ?ls rc NICE_LEVELS)"
    using scan_levels_ok [OF ok] len by simp
  then show ?thesis
    using h by (auto simp: scanned_def Let_def c f split: option.splits)
qed

text \<open>A list that stays locked after the scan is taken from and unlocked.\<close>

lemma take_from_queue:
  assumes inv: "lists_inv th (all_lists s) K Q" and K: "{p} \<times> {..NICE_LEVELS} \<subseteq> K"
    and len: "length (ps_threads (sc_state s p)) = NICE_LEVELS" and n: "n < NICE_LEVELS" "Q (p, n) = t # ts"
  obtains th' l' where
    "ThreadList_popFront th (visited (ps_threads (sc_state s p)) NICE_LEVELS (Some n) ! n) = (th', l', t)"
    "ThreadList_unlock l' False = (l'\<lparr>tl_Lock := SPINLOCK_DEFAULT_VALUE\<rparr>, False)"
    "\<And>(s' :: Scheduler) ps'. sc_state s' p = ps' \<Longrightarrow> \<forall>q. q \<noteq> p \<longrightarrow> ps_threads (sc_state s' q) = ps_threads (sc_state s q) \<and> sleepingThreads (sc_state s' q) = sleepingThreads (sc_state s q) \<Longrightarrow>
      ps_threads ps' = (visited (ps_threads (sc_state s p)) NICE_LEVELS (Some n))[n := l'\<lparr>tl_Lock := SPINLOCK_DEFAULT_VALUE\<rparr>] \<Longrightarrow>
      sleepingThreads ps' = sleepingThreads (sc_state s p) \<Longrightarrow> lists_inv th' (all_lists s') K (Q((p, n) := ts))"
    "others_kept False (set (Q (p, n))) th th'" "clear_links th' t"
proof -
  let ?l = "visited (ps_threads (sc_state s p)) NICE_LEVELS (Some n) ! n"
  have kn: "(p, n) \<in> K"
    using subsetD [OF K, of "(p, n)"] n by simp
  have l: "tl_ok th ?l (Q (p, n))" "\<not> IsProcList ?l" "tl_intState ?l = False"
    using queue_lists [OF inv K n(1)] n len by simp_all
  obtain th' l' where r: "ThreadList_popFront th ?l = (th', l', t)" "tl_intState l' = tl_intState ?l"
    "lists_inv th' ((all_lists s)((p, n) := l'\<lparr>tl_Lock := SPINLOCK_DEFAULT_VALUE\<rparr>)) K (Q((p, n) := ts))"
    "others_kept False (set (Q (p, n))) th th'" "clear_links th' t"
    using lists_pop [OF inv kn n(2) l(1,2)] by blast
  show thesis
  proof (rule that [OF r(1) _ _ r(4,5)])
    fix s' :: Scheduler and ps'
    assume s': "sc_state s' p = ps'" "\<forall>q. q \<noteq> p \<longrightarrow> ps_threads (sc_state s' q) = ps_threads (sc_state s q) \<and> sleepingThreads (sc_state s' q) = sleepingThreads (sc_state s q)"
      "ps_threads ps' = (visited (ps_threads (sc_state s p)) NICE_LEVELS (Some n))[n := l'\<lparr>tl_Lock := SPINLOCK_DEFAULT_VALUE\<rparr>]"
      "sleepingThreads ps' = sleepingThreads (sc_state s p)"
    show "lists_inv th' (all_lists s') K (Q((p, n) := ts))"
    proof (rule lists_inv_intState [OF r(3)])
      fix k
      assume "k \<in> K"
      obtain q i where k: "k = (q, i)"
        by (cases k)
      have "q = p \<Longrightarrow> i < NICE_LEVELS \<Longrightarrow> tl_Lock (ps_threads (sc_state s p) ! i) = SPINLOCK_DEFAULT_VALUE"
        using queue_lists(3) [OF inv K] by simp
      then show "all_lists s' k = ((all_lists s)((p, n) := l'\<lparr>tl_Lock := SPINLOCK_DEFAULT_VALUE\<rparr>)) k \<or>
          all_lists s' k = (((all_lists s)((p, n) := l'\<lparr>tl_Lock := SPINLOCK_DEFAULT_VALUE\<rparr>)) k)\<lparr>tl_intState := False\<rparr>"
        using s' len n k by (cases "q = p") (auto simp: all_lists_def list_at_def nth_list_update)
    qed
  qed (use r(2) l(3) in \<open>simp add: unlock_held\<close>)
qed

section \<open>What an operation keeps\<close>

definition proc_ok :: "ProcessorState \<Rightarrow> bool" where
  "proc_ok ps \<longleftrightarrow> length (ps_threads ps) = NICE_LEVELS \<and> count_ok (runCounts ps)"

definition same_ids :: "ProcessorState \<Rightarrow> ProcessorState \<Rightarrow> bool" where
  "same_ids ps ps' \<longleftrightarrow> ps_id ps' = ps_id ps \<and> ps_processor ps' = ps_processor ps \<and> idleThread ps' = idleThread ps \<and> startAllowed ps' = startAllowed ps \<and> ps_lock ps' = ps_lock ps \<and>
     (proc_ok ps \<longrightarrow> proc_ok ps')"

definition kept :: "u64 \<Rightarrow> Scheduler \<Rightarrow> Scheduler \<Rightarrow> bool" where
  "kept p s s' \<longleftrightarrow> sc_nice s' = sc_nice s \<and> sc_chain s' = sc_chain s \<and> sc_current s' = sc_current s \<and> g_StealLock s' = g_StealLock s \<and> g_isRunning s' = g_isRunning s \<and>
     (\<forall>q. same_ids (sc_state s q) (sc_state s' q)) \<and>
     (\<forall>q. q \<noteq> p \<longrightarrow> currentThread (sc_state s' q) = currentThread (sc_state s q) \<and> isIdle (sc_state s' q) = isIdle (sc_state s q))"

lemma kept_refl [simp]: "kept p s s"
  by (simp add: kept_def same_ids_def)

lemma kept_trans: "kept p s s' \<Longrightarrow> kept p s' s'' \<Longrightarrow> kept p s s''"
  by (simp add: kept_def same_ids_def)

lemma kept_keys: "kept p s s' \<Longrightarrow> keys s' = keys s"
  by (simp add: kept_def keys_def)

lemma keys_row: "p \<in> set (sc_chain s) \<Longrightarrow> {p} \<times> {..NICE_LEVELS} \<subseteq> keys s"
  by (auto simp: keys_def)

text \<open>A thread was taken from the front of a queue, or no queue had one.\<close>

definition taken :: "Scheduler \<Rightarrow> (u64 \<times> nat \<Rightarrow> u64 list) \<Rightarrow> u64 \<times> nat \<Rightarrow> u64 \<Rightarrow> Scheduler \<Rightarrow> (u64 \<times> nat \<Rightarrow> u64 list) \<Rightarrow> bool" where
  "taken s Q k t s' Q' \<longleftrightarrow> k \<in> keys s \<and> snd k < NICE_LEVELS \<and> Q k \<noteq> [] \<and> t = hd (Q k) \<and> Q' = Q(k := tl (Q k)) \<and>
     others_kept False (set (Q k)) (sc_links s) (sc_links s') \<and> clear_links (sc_links s') t"

section \<open>Stealing\<close>

lemma lists_inv_visited:
  assumes inv: "lists_inv th (all_lists s) K Q" and K: "{p} \<times> {..NICE_LEVELS} \<subseteq> K"
    and len: "length (ps_threads (sc_state s p)) = NICE_LEVELS"
    and s': "\<And>q. sleepingThreads (sc_state s' q) = sleepingThreads (sc_state s q)"
      "\<And>q. q \<noteq> p \<Longrightarrow> ps_threads (sc_state s' q) = ps_threads (sc_state s q)"
      "ps_threads (sc_state s' p) = visited (ps_threads (sc_state s p)) NICE_LEVELS None"
  shows "lists_inv th (all_lists s') K Q"
proof (rule lists_inv_intState [OF inv])
  fix k
  assume "k \<in> K"
  obtain q i where k: "k = (q, i)"
    by (cases k)
  have "q = p \<Longrightarrow> i < NICE_LEVELS \<Longrightarrow> tl_Lock (ps_threads (sc_state s p) ! i) = SPINLOCK_DEFAULT_VALUE"
    using queue_lists(3) [OF inv K] by simp
  then show "all_lists s' k = all_lists s k \<or> all_lists s' k = (all_lists s k)\<lparr>tl_intState := False\<rparr>"
    using s' len k by (cases "q = p") (auto simp: all_lists_def list_at_def)
qed

definition steal_pre :: "u64 \<Rightarrow> Scheduler \<Rightarrow> (u64 \<times> nat \<Rightarrow> u64 list) \<Rightarrow> bool" where
  "steal_pre p s Q \<longleftrightarrow> lists_inv (sc_links s) (all_lists s) (keys s) Q \<and> p \<in> set (sc_chain s) \<and> \<not> sc_interrupts s \<and>
     (\<forall>q \<in> set (sc_chain s). proc_ok (sc_state s q)) \<and> inj_on (\<lambda>q. ps_id (sc_state s q)) (set (sc_chain s)) \<and>
     (\<forall>t \<in> members (keys s) Q. t \<noteq> 0 \<and> CPUInfo_lock (sc_info s t) = SPINLOCK_DEFAULT_VALUE)"

definition same_running :: "Scheduler \<Rightarrow> Scheduler \<Rightarrow> bool" where
  "same_running s s' \<longleftrightarrow> (\<forall>q. currentThread (sc_state s' q) = currentThread (sc_state s q) \<and> isIdle (sc_state s' q) = isIdle (sc_state s q))"

definition stolen :: "u64 \<Rightarrow> u64 list \<Rightarrow> Scheduler \<Rightarrow> (u64 \<times> nat \<Rightarrow> u64 list) \<Rightarrow> Scheduler \<Rightarrow> u64 \<Rightarrow> int \<Rightarrow> bool" where
  "stolen p rest s Q s' t n \<longleftrightarrow> kept p s s' \<and> same_running s s' \<and> \<not> sc_interrupts s' \<and>
     (if t = 0 then n = -1 \<and> sc_links s' = sc_links s \<and> sc_info s' = sc_info s \<and> lists_inv (sc_links s') (all_lists s') (keys s) Q \<and>
        (\<forall>q \<in> set rest. q \<noteq> p \<longrightarrow> (\<forall>i < NICE_LEVELS. Q (q, i) = []))
      else \<exists>k Q'. n = int (snd k) \<and> taken s Q k t s' Q' \<and> lists_inv (sc_links s') (all_lists s') (keys s) Q' \<and>
        \<not> runs_used (runCounts (sc_state s' p)) (snd k) \<and>
        sc_info s' = (sc_info s)(t := (sc_info s t)\<lparr>CPUInfo_lock := SPINLOCK_LOCKED_VALUE\<rparr>))"

lemma stolen_skip [simp]: "stolen p (p # rest) s Q s' t n = stolen p rest s Q s' t n"
  by (simp add: stolen_def)

lemma StealThread_loop_ok:
  assumes "steal_pre p s Q" "set rest \<subseteq> set (sc_chain s)"
  shows "\<exists>s' t n. StealThread_loop p rest s = Inr (s', t, n) \<and> stolen p rest s Q s' t n"
  using assms
proof (induction rest arbitrary: s)
  case Nil
  then show ?case
    by (simp add: stolen_def steal_pre_def same_running_def)
next
  case (Cons q rest)
  have inv: "lists_inv (sc_links s) (all_lists s) (keys s) Q" and p: "p \<in> set (sc_chain s)" and i: "\<not> sc_interrupts s"
    and inj: "inj_on (\<lambda>q. ps_id (sc_state s q)) (set (sc_chain s))"
    and ok: "\<And>q. q \<in> set (sc_chain s) \<Longrightarrow> proc_ok (sc_state s q)"
    and ml: "\<And>t. t \<in> members (keys s) Q \<Longrightarrow> t \<noteq> 0 \<and> CPUInfo_lock (sc_info s t) = SPINLOCK_DEFAULT_VALUE"
    using Cons.prems(1) unfolding steal_pre_def by blast+
  have q: "q \<in> set (sc_chain s)"
    using Cons.prems(2) by simp
  show ?case
  proof (cases "q = p")
    case True
    then show ?thesis
      using Cons.IH [of s] Cons.prems by auto
  next
    case False
    then have id: "ps_id (sc_state s q) \<noteq> ps_id (sc_state s p)"
      using inj_onD [OF inj _ q p] by auto
    note K = keys_row [OF q]
    have len: "length (ps_threads (sc_state s q)) = NICE_LEVELS" and rc: "count_ok (runCounts (sc_state s p))"
      using ok q p by (auto simp: proc_ok_def)
    let ?ls = "ps_threads (sc_state s q)" and ?rc = "runCounts (sc_state s p)"
    let ?m = "chosen (waiting Q q) (runs_used ?rc) NICE_LEVELS"
    note scan = scan_queues [OF inv K len, of ?rc]
    show ?thesis
    proof (cases ?m)
      case None
      then have em: "\<forall>i < NICE_LEVELS. Q (q, i) = []" and f: "first_ready (waiting Q q) NICE_LEVELS = None"
        by (simp_all add: chosen_None waiting_def first_ready_None)
      define s1 where "s1 = (upd_state p (\<lambda>ps. ps\<lparr>runCounts := ?rc\<rparr>) (upd_state q (\<lambda>ps. ps\<lparr>ps_threads := visited ?ls NICE_LEVELS None\<rparr>) s))\<lparr>sc_interrupts := False\<rparr>"
      have run: "StealThread_loop p (q # rest) s = StealThread_loop p rest s1"
        using id scan None f i False by (simp add: s1_def refreshed_def)
      have s1: "sc_links s1 = sc_links s" "sc_info s1 = sc_info s" "sc_chain s1 = sc_chain s" "\<not> sc_interrupts s1" "keys s1 = keys s"
          "sc_nice s1 = sc_nice s" "sc_current s1 = sc_current s" "g_StealLock s1 = g_StealLock s" "g_isRunning s1 = g_isRunning s"
        by (simp_all add: s1_def keys_def)
      have st: "sc_state s1 = (sc_state s)(q := (sc_state s q)\<lparr>ps_threads := visited ?ls NICE_LEVELS None\<rparr>)"
        using False by (auto simp: s1_def fun_eq_iff)
      have inv1: "lists_inv (sc_links s) (all_lists s1) (keys s) Q"
        by (rule lists_inv_visited [OF inv K len]) (simp_all add: st)
      have k: "kept p s s1" "same_running s s1"
        using s1 by (simp_all add: kept_def same_ids_def same_running_def st proc_ok_def)
      have "\<forall>r \<in> set (sc_chain s). proc_ok (sc_state s1 r)"
        using ok by (simp add: st proc_ok_def)
      moreover have "(\<lambda>r. ps_id (sc_state s1 r)) = (\<lambda>r. ps_id (sc_state s r))"
        by (simp add: st fun_eq_iff)
      ultimately have pre: "steal_pre p s1 Q"
        using inv1 s1 p ml inj by (simp add: steal_pre_def)
      obtain s' t n where r: "StealThread_loop p rest s1 = Inr (s', t, n)" "stolen p rest s1 Q s' t n"
        using Cons.IH [OF pre] Cons.prems(2) s1(3) by auto
      have "stolen p (q # rest) s Q s' t n"
        using r(2) k s1 em kept_trans [OF k(1), of s'] by (auto simp: stolen_def same_running_def taken_def)
      then show ?thesis
        using run r(1) by auto
    next
      case (Some n)
      note n = chosen_Some [OF Some]
      then obtain t ts where Qn: "Q (q, n) = t # ts"
        by (cases "Q (q, n)") (auto simp: waiting_def)
      have kn: "(q, n) \<in> keys s"
        using q n by (simp add: keys_def)
      have "t \<in> set (Q (q, n))"
        using Qn by simp
      then have "t \<in> members (keys s) Q"
        using kn by blast
      then have t: "t \<noteq> 0" "CPUInfo_lock (sc_info s t) = SPINLOCK_DEFAULT_VALUE"
        using ml by blast+
      let ?f = "first_ready (waiting Q q) NICE_LEVELS"
      obtain th' l' where take: "ThreadList_popFront (sc_links s) (visited ?ls NICE_LEVELS (Some n) ! n) = (th', l', t)"
        "ThreadList_unlock l' False = (l'\<lparr>tl_Lock := SPINLOCK_DEFAULT_VALUE\<rparr>, False)"
        "\<And>(s' :: Scheduler) ps'. sc_state s' q = ps' \<Longrightarrow> \<forall>r. r \<noteq> q \<longrightarrow> ps_threads (sc_state s' r) = ps_threads (sc_state s r) \<and> sleepingThreads (sc_state s' r) = sleepingThreads (sc_state s r) \<Longrightarrow>
          ps_threads ps' = (visited ?ls NICE_LEVELS (Some n))[n := l'\<lparr>tl_Lock := SPINLOCK_DEFAULT_VALUE\<rparr>] \<Longrightarrow>
          sleepingThreads ps' = sleepingThreads (sc_state s q) \<Longrightarrow> lists_inv th' (all_lists s') (keys s) (Q((q, n) := ts))"
        "others_kept False (set (Q (q, n))) (sc_links s) th'" "clear_links th' t"
        using take_from_queue [OF inv K len _ Qn] n by blast
      define s' where "s' = (upd_state q (\<lambda>ps. ps\<lparr>ps_threads := (visited ?ls NICE_LEVELS (Some n))[n := l'\<lparr>tl_Lock := SPINLOCK_DEFAULT_VALUE\<rparr>]\<rparr>)
        (upd_info t (\<lambda>i. i\<lparr>CPUInfo_lock := SPINLOCK_LOCKED_VALUE\<rparr>)
        ((upd_state p (\<lambda>ps. ps\<lparr>runCounts := refreshed ?rc ?f\<rparr>) (upd_state q (\<lambda>ps. ps\<lparr>ps_threads := visited ?ls NICE_LEVELS (Some n)\<rparr>) s))\<lparr>sc_interrupts := False\<rparr>)))
        \<lparr>sc_links := th', sc_interrupts := False\<rparr>"
      have run: "StealThread_loop p (q # rest) s = Inr (s', t, int n)"
        using id scan Some i Qn t take(1,2) by (simp add: s'_def Let_def)
      have inv': "lists_inv th' (all_lists s') (keys s) (Q((q, n) := ts))"
        by (rule take(3) [OF refl]) (use False in \<open>auto simp: s'_def\<close>)
      have "\<not> runs_used (refreshed ?rc ?f) n"
        using chosen_has_runs [OF Some] rc by (simp add: count_ok_def)
      moreover have "kept p s s'" "same_running s s'"
        using False count_ok_refreshed [OF rc] len by (auto simp: kept_def same_ids_def same_running_def s'_def proc_ok_def)
      moreover have "taken s Q (q, n) t s' (Q((q, n) := ts))"
        using kn n Qn take(4,5) by (simp add: taken_def s'_def)
      ultimately have "stolen p (q # rest) s Q s' t (int n)"
        using inv' t(1) False by (auto simp: stolen_def s'_def intro!: exI [of _ q] exI [of _ n])
      then show ?thesis
        using run by blast
    qed
  qed
qed

section \<open>PickNext\<close>

definition picked :: "u64 \<Rightarrow> Scheduler \<Rightarrow> (u64 \<times> nat \<Rightarrow> u64 list) \<Rightarrow> Scheduler \<Rightarrow> u64 \<Rightarrow> (u64 \<times> nat \<Rightarrow> u64 list) \<Rightarrow> bool" where
  "picked p s Q s' t Q' \<longleftrightarrow> kept p s s' \<and> lists_inv (sc_links s') (all_lists s') (keys s) Q' \<and> \<not> sc_interrupts s' \<and>
     currentThread (sc_state s' p) = t \<and> isIdle (sc_state s' p) = (if t = idleThread (sc_state s p) then 1 else 0) \<and>
     (sc_info s' = sc_info s \<or> sc_info s' = (sc_info s)(t := (sc_info s t)\<lparr>CPUInfo_state := p\<rparr>)) \<and>
     ((t = idleThread (sc_state s p) \<and> Q' = Q \<and> sc_links s' = sc_links s \<and> (\<forall>q \<in> set (sc_chain s). \<forall>i < NICE_LEVELS. Q (q, i) = [])) \<or>
      (\<exists>k. taken s Q k t s' Q'))"

definition own_picked :: "u64 \<Rightarrow> Scheduler \<Rightarrow> (u64 \<times> nat \<Rightarrow> u64 list) \<Rightarrow> nat \<Rightarrow> Scheduler \<Rightarrow> bool" where
  "own_picked p s Q n s' \<longleftrightarrow>
     picked p s Q s' (hd (Q (p, n))) (Q((p, n) := tl (Q (p, n)))) \<and> sc_info s' = sc_info s \<and>
     runCounts (sc_state s' p) = counted (refreshed (runCounts (sc_state s p)) (first_ready (waiting Q p) NICE_LEVELS)) n"

lemma upd_state_cong: "f (sc_state s p) = g (sc_state s p) \<Longrightarrow> upd_state p f s = upd_state p g s"
  by (simp add: upd_state_def)

lemma all_lists_upd:
  "(\<And>ps. ps_threads (f ps) = ps_threads ps \<and> sleepingThreads (f ps) = sleepingThreads ps) \<Longrightarrow> all_lists (upd_state p f s) = all_lists s"
  by (auto simp: all_lists_def list_at_def fun_eq_iff)

lemma all_lists_info [simp]: "all_lists (upd_info t g s) = all_lists s" "all_lists (s\<lparr>sc_interrupts := b\<rparr>) = all_lists s"
    "all_lists (s\<lparr>sc_links := th\<rparr>) = all_lists s"
  by (simp_all add: all_lists_def)

lemma PickNext_finish_ok:
  assumes "lockState \<longrightarrow> ps_lock (sc_state s p) = SPINLOCK_DEFAULT_VALUE"
  shows "PickNext_finish lockState p t n s = Inr (upd_state p (\<lambda>ps. ps\<lparr>runCounts := reset_counts n (runCounts ps),
    isIdle := (if t = idleThread ps then 1 else 0), currentThread := t\<rparr>) s)"
proof (cases lockState)
  case True
  let ?f = "\<lambda>ps. ps\<lparr>runCounts := reset_counts n (runCounts ps), isIdle := (if t = idleThread ps then 1 else 0), currentThread := t\<rparr>"
  have "PickNext_finish lockState p t n s = Inr (upd_state p (\<lambda>ps. (?f ps)\<lparr>ps_lock := SPINLOCK_DEFAULT_VALUE\<rparr>) s)"
    using True assms by (simp add: PickNext_finish_def upd_state_def)
  also have "upd_state p (\<lambda>ps. (?f ps)\<lparr>ps_lock := SPINLOCK_DEFAULT_VALUE\<rparr>) s = upd_state p ?f s"
    by (rule upd_state_cong) (use True assms in simp)
  finally show ?thesis .
qed (simp add: PickNext_finish_def upd_state_def)

lemma PickNext_own:
  assumes inv: "lists_inv (sc_links s) (all_lists s) (keys s) Q" and p: "sc_current s = p" "p \<noteq> 0" "p \<in> set (sc_chain s)"
    and i: "\<not> sc_interrupts s" and ok: "proc_ok (sc_state s p)" and lk: "lockState \<longrightarrow> ps_lock (sc_state s p) = SPINLOCK_DEFAULT_VALUE"
    and n: "chosen (waiting Q p) (runs_used (runCounts (sc_state s p))) NICE_LEVELS = Some n"
  shows "\<exists>s'. PickNext lockState s = Inr s' \<and> own_picked p s Q n s'"
proof -
  let ?ls = "ps_threads (sc_state s p)" and ?rc = "runCounts (sc_state s p)" and ?f = "first_ready (waiting Q p) NICE_LEVELS"
  note K = keys_row [OF p(3)]
  have len: "length ?ls = NICE_LEVELS" and rc: "count_ok ?rc"
    using ok by (simp_all add: proc_ok_def)
  note ch = chosen_Some [OF n]
  then obtain t ts where Qn: "Q (p, n) = t # ts"
    by (cases "Q (p, n)") (auto simp: waiting_def)
  have kn: "(p, n) \<in> keys s"
    using p ch by (simp add: keys_def)
  have t: "t \<noteq> 0"
    using tl_ok_ends(5) [OF queue_lists(1) [OF inv K, of n]] ch Qn by auto
  obtain th' l' where take: "ThreadList_popFront (sc_links s) (visited ?ls NICE_LEVELS (Some n) ! n) = (th', l', t)"
    "ThreadList_unlock l' False = (l'\<lparr>tl_Lock := SPINLOCK_DEFAULT_VALUE\<rparr>, False)"
    "\<And>(s' :: Scheduler) ps'. sc_state s' p = ps' \<Longrightarrow> \<forall>r. r \<noteq> p \<longrightarrow> ps_threads (sc_state s' r) = ps_threads (sc_state s r) \<and> sleepingThreads (sc_state s' r) = sleepingThreads (sc_state s r) \<Longrightarrow>
      ps_threads ps' = (visited ?ls NICE_LEVELS (Some n))[n := l'\<lparr>tl_Lock := SPINLOCK_DEFAULT_VALUE\<rparr>] \<Longrightarrow>
      sleepingThreads ps' = sleepingThreads (sc_state s p) \<Longrightarrow> lists_inv th' (all_lists s') (keys s) (Q((p, n) := ts))"
    "others_kept False (set (Q (p, n))) (sc_links s) th'" "clear_links th' t"
    using take_from_queue [OF inv K len _ Qn] ch by blast
  define s' where "s' = s\<lparr>sc_links := th', sc_interrupts := False, sc_state := (sc_state s)(p := (sc_state s p)
    \<lparr>ps_threads := (visited ?ls NICE_LEVELS (Some n))[n := l'\<lparr>tl_Lock := SPINLOCK_DEFAULT_VALUE\<rparr>],
     runCounts := counted (refreshed ?rc ?f) n, isIdle := (if t = idleThread (sc_state s p) then 1 else 0), currentThread := t\<rparr>)\<rparr>"
  have run: "PickNext lockState s = Inr s'"
    using scan_queues [OF inv K len, of ?rc] n p i Qn t take(1,2) lk
    by (simp add: PickNext_def PickNext_finish_ok count_run_def counted_def s'_def Let_def upd_state_def)
  have inv': "lists_inv th' (all_lists s') (keys s) (Q((p, n) := ts))"
    by (rule take(3) [OF refl]) (simp_all add: s'_def)
  have "count_ok (counted (refreshed ?rc ?f) n)"
    using count_ok_counted [OF count_ok_refreshed [OF rc]] ch chosen_has_runs [OF n] rc by (simp add: count_ok_def)
  then have "kept p s s'"
    using len by (simp add: kept_def same_ids_def s'_def proc_ok_def)
  moreover have "taken s Q (p, n) t s' (Q((p, n) := ts))"
    using kn ch Qn take(4,5) by (simp add: taken_def s'_def)
  moreover have "sc_links s' = th'" "\<not> sc_interrupts s'" "sc_info s' = sc_info s"
      "sc_state s' p = (sc_state s p)\<lparr>ps_threads := (visited ?ls NICE_LEVELS (Some n))[n := l'\<lparr>tl_Lock := SPINLOCK_DEFAULT_VALUE\<rparr>],
        runCounts := counted (refreshed ?rc ?f) n, isIdle := (if t = idleThread (sc_state s p) then 1 else 0), currentThread := t\<rparr>"
    by (simp_all add: s'_def)
  ultimately have "own_picked p s Q n s'"
    using inv' Qn by (auto simp: own_picked_def picked_def)
  then show ?thesis
    using run by blast
qed

lemma PickNext_ok:
  assumes pre: "steal_pre p s Q" and p: "sc_current s = p" "p \<noteq> 0" and lk: "lockState \<longrightarrow> ps_lock (sc_state s p) = SPINLOCK_DEFAULT_VALUE"
    and sl: "g_StealLock s = SPINLOCK_DEFAULT_VALUE" and idle: "idleThread (sc_state s p) \<noteq> 0"
  shows "\<exists>s' t Q'. PickNext lockState s = Inr s' \<and> picked p s Q s' t Q'"
proof -
  have inv: "lists_inv (sc_links s) (all_lists s) (keys s) Q" and pc: "p \<in> set (sc_chain s)" and i: "\<not> sc_interrupts s" and ok: "proc_ok (sc_state s p)"
    and ml: "\<And>t. t \<in> members (keys s) Q \<Longrightarrow> CPUInfo_lock (sc_info s t) = SPINLOCK_DEFAULT_VALUE"
    using pre unfolding steal_pre_def by blast+
  let ?ls = "ps_threads (sc_state s p)" and ?rc = "runCounts (sc_state s p)"
  show ?thesis
  proof (cases "chosen (waiting Q p) (runs_used ?rc) NICE_LEVELS")
    case (Some n)
    then show ?thesis
      using PickNext_own [OF inv p pc i ok lk Some] by (auto simp: own_picked_def)
  next
    case None
    then have em: "\<forall>i < NICE_LEVELS. Q (p, i) = []" and f: "first_ready (waiting Q p) NICE_LEVELS = None"
      by (simp_all add: chosen_None waiting_def first_ready_None)
    note K = keys_row [OF pc]
    have len: "length ?ls = NICE_LEVELS"
      using ok by (simp add: proc_ok_def)
    define s1 where "s1 = s\<lparr>sc_interrupts := False, sc_state := (sc_state s)(p := (sc_state s p)\<lparr>ps_threads := visited ?ls NICE_LEVELS None\<rparr>)\<rparr>"
    have scan: "(upd_state p (\<lambda>ps. ps\<lparr>ps_threads := visited ?ls NICE_LEVELS None, runCounts := ?rc\<rparr>) s)\<lparr>sc_interrupts := False\<rparr> = s1"
      by (simp add: s1_def upd_state_def)
    have s1: "sc_links s1 = sc_links s" "sc_info s1 = sc_info s" "sc_chain s1 = sc_chain s" "\<not> sc_interrupts s1" "keys s1 = keys s" "keys (s1\<lparr>g_StealLock := v\<rparr>) = keys s"
        "all_lists (s1\<lparr>g_StealLock := v\<rparr>) = all_lists s1" "sc_current s1 = p" "g_StealLock s1 = SPINLOCK_DEFAULT_VALUE" "sc_nice s1 = sc_nice s" "g_isRunning s1 = g_isRunning s" for v
      using sl p by (simp_all add: s1_def keys_def all_lists_def)
    have st: "sc_state s1 = (sc_state s)(p := (sc_state s p)\<lparr>ps_threads := visited ?ls NICE_LEVELS None\<rparr>)"
      by (simp add: s1_def)
    have inv1: "lists_inv (sc_links s) (all_lists s1) (keys s) Q"
      by (rule lists_inv_visited [OF inv K len]) (simp_all add: st)
    have "\<forall>r \<in> set (sc_chain s). proc_ok (sc_state s1 r)"
      using pre by (simp add: steal_pre_def st proc_ok_def)
    moreover have "(\<lambda>r. ps_id (sc_state s1 r)) = (\<lambda>r. ps_id (sc_state s r))"
      by (simp add: st fun_eq_iff)
    ultimately have "steal_pre p (s1\<lparr>g_StealLock := SPINLOCK_LOCKED_VALUE\<rparr>) Q"
      using inv1 s1 pre by (simp add: steal_pre_def)
    then obtain s2 t n where r: "StealThread_loop p (sc_chain s) (s1\<lparr>g_StealLock := SPINLOCK_LOCKED_VALUE\<rparr>) = Inr (s2, t, n)"
        "stolen p (sc_chain s) (s1\<lparr>g_StealLock := SPINLOCK_LOCKED_VALUE\<rparr>) Q s2 t n"
      using StealThread_loop_ok [of p "s1\<lparr>g_StealLock := SPINLOCK_LOCKED_VALUE\<rparr>" Q "sc_chain s"] s1(3) by auto
    define s3 where "s3 = s2\<lparr>g_StealLock := SPINLOCK_DEFAULT_VALUE\<rparr>"
    have steal: "StealThreadFromOther p s1 = Inr (s3, t, n)"
      using s1 r(1) by (simp add: StealThreadFromOther_def s3_def spinlock_release_def)
    have s3: "kept p s s3" "same_running s s3" "\<not> sc_interrupts s3" "all_lists s3 = all_lists s2" "sc_info s3 = sc_info s2" "sc_links s3 = sc_links s2"
      using r(2) s1 st sl p by (auto simp: stolen_def kept_def same_running_def s3_def same_ids_def proc_ok_def all_lists_def)
    have run: "PickNext lockState s = (if t = 0 then PickNext_finish lockState p (idleThread (sc_state s p)) n s3
      else PickNext_finish lockState p t n
        (count_run p n (upd_info t (\<lambda>i. i\<lparr>CPUInfo_state := p, CPUInfo_lock := spinlock_release (CPUInfo_lock i)\<rparr>) s3)))"
      using scan_queues [OF inv K len, of ?rc] None f i p scan steal idle s3(1)
      by (simp add: PickNext_def refreshed_def kept_def same_ids_def)
    have lk3: "lockState \<longrightarrow> ps_lock (sc_state s3 p) = SPINLOCK_DEFAULT_VALUE" and id3: "idleThread (sc_state s3 p) = idleThread (sc_state s p)"
        and ok3: "proc_ok (sc_state s3 p)"
      using lk s3(1) ok by (simp_all add: kept_def same_ids_def)
    have "\<exists>s' Q'. PickNext lockState s = Inr s' \<and> picked p s Q s' (if t = 0 then idleThread (sc_state s p) else t) Q'"
    proof (cases "t = 0")
      case True
      let ?s = "upd_state p (\<lambda>ps. ps\<lparr>runCounts := reset_counts n (runCounts ps), isIdle := (if idleThread (sc_state s p) = idleThread ps then 1 else 0),
        currentThread := idleThread (sc_state s p)\<rparr>) s3"
      have l: "all_lists ?s = all_lists s2"
        using s3(4) by (simp add: all_lists_upd)
      have "kept p s ?s"
        using s3(1) ok3 count_ok_reset by (auto simp: kept_def same_ids_def proc_ok_def)
      moreover have "lists_inv (sc_links ?s) (all_lists ?s) (keys s) Q" "sc_links ?s = sc_links s" "sc_info ?s = sc_info s"
          "\<forall>q \<in> set (sc_chain s). \<forall>i < NICE_LEVELS. Q (q, i) = []"
        using True r(2) s1 s3(4-6) em unfolding l by (auto simp: stolen_def)
      ultimately have "picked p s Q ?s (idleThread (sc_state s p)) Q"
        using s3(3) id3 by (simp add: picked_def)
      then show ?thesis
        using run True PickNext_finish_ok [OF lk3] by auto
    next
      case False
      obtain k Q' where k: "n = int (snd k)" "taken (s1\<lparr>g_StealLock := SPINLOCK_LOCKED_VALUE\<rparr>) Q k t s2 Q'" "lists_inv (sc_links s2) (all_lists s2) (keys s) Q'"
          "\<not> runs_used (runCounts (sc_state s2 p)) (snd k)" "sc_info s2 = (sc_info s)(t := (sc_info s t)\<lparr>CPUInfo_lock := SPINLOCK_LOCKED_VALUE\<rparr>)"
        using r(2) False s1 by (auto simp: stolen_def)
      let ?rc = "counted (runCounts (sc_state s3 p)) (snd k)"
      define s' where "s' = upd_state p (\<lambda>ps. ps\<lparr>runCounts := ?rc, isIdle := (if t = idleThread ps then 1 else 0), currentThread := t\<rparr>)
        (upd_info t (\<lambda>i. i\<lparr>CPUInfo_state := p, CPUInfo_lock := SPINLOCK_DEFAULT_VALUE\<rparr>) s3)"
      have go: "PickNext lockState s = Inr s'"
        using run False PickNext_finish_ok lk3 k(1)
        by (simp add: s'_def count_run_def counted_def spinlock_release_def upd_state_def upd_info_def)
      have n: "snd k < NICE_LEVELS" "t \<in> set (Q k)" "k \<in> keys s"
        using k(2) s1 by (auto simp: taken_def)
      have "CPUInfo_lock (sc_info s t) = SPINLOCK_DEFAULT_VALUE"
        using ml n by blast
      then have i: "sc_info s' = (sc_info s)(t := (sc_info s t)\<lparr>CPUInfo_state := p\<rparr>)"
        using k(5) s3(5) by (auto simp: s'_def fun_eq_iff)
      have l: "all_lists s' = all_lists s2" "sc_links s' = sc_links s2"
        using s3(4,6) by (simp_all add: s'_def all_lists_upd)
      have "count_ok ?rc"
        using count_ok_counted [of "runCounts (sc_state s3 p)" "snd k"] ok3 n k(4) by (simp add: proc_ok_def s3_def)
      then have "kept p s s'"
        using s3(1) ok3 by (auto simp: kept_def same_ids_def proc_ok_def s'_def)
      moreover have "taken s Q k t s' Q'"
        using k(2) s1 l(2) by (auto simp: taken_def)
      moreover have "\<not> sc_interrupts s'" "currentThread (sc_state s' p) = t" "isIdle (sc_state s' p) = (if t = idleThread (sc_state s p) then 1 else 0)"
        using s3(3) id3 by (simp_all add: s'_def)
      ultimately have "picked p s Q s' t Q'"
        using k(3) l i unfolding picked_def by metis
      then show ?thesis
        using go False by auto
    qed
    then show ?thesis
      by blast
  qed
qed

end
