(* ===== verification/SchedulerWait.thy ===== *)
theory SchedulerWait
  imports SchedulerPick
begin

text \<open>
  The run counts are the digits of a counter in base three: as long as a level has threads, each dispatch
  of another level brings its turn closer. So a thread waits for a bounded number of dispatches.
\<close>

section \<open>The turn of a level\<close>

text \<open>The runs the last \<open>d\<close> levels still have, the last level counting least.\<close>

primrec runs_left :: "u32 list \<Rightarrow> nat \<Rightarrow> nat" where
  "runs_left rc 0 = 0"
| "runs_left rc (Suc d) = runs_left rc d + (2 - unat (rc ! (15 - d))) * 3 ^ d"

definition turn :: "u32 list \<Rightarrow> nat \<Rightarrow> nat" where
  "turn rc i = runs_left rc (15 - i) + (if runs_used rc i then 3 ^ (15 - i) else 0)"

lemma runs_left_less: "runs_left rc d < 3 ^ d"
proof (induction d)
  case (Suc d)
  have "(2 - unat (rc ! (15 - d))) * 3 ^ d \<le> 2 * 3 ^ d"
    by (rule mult_le_mono1) simp
  then show ?case
    unfolding runs_left.simps power_Suc using Suc by linarith
qed simp

lemma turn_less: "turn rc i < 2 * 3 ^ (15 - i)"
  using runs_left_less [of rc "15 - i"] by (simp add: turn_def)

lemma runs_left_step:
  assumes n: "e < d" "d \<le> 15" and c: "unat (rc' ! (15 - e)) = Suc (unat (rc ! (15 - e)))" "unat (rc ! (15 - e)) < 2"
    and same: "\<And>j. 15 - d < j \<Longrightarrow> j < 15 - e \<Longrightarrow> rc' ! j = rc ! j"
  shows "runs_left rc' d < runs_left rc d"
  using n same
proof (induction d)
  case (Suc d)
  show ?case
  proof (cases "e = d")
    case True
    have "2 - unat (rc ! (15 - d)) = Suc (2 - unat (rc' ! (15 - d)))"
      using c True by simp
    then show ?thesis
      using runs_left_less [of rc' d] by simp
  next
    case False
    have "rc' ! (15 - d) = rc ! (15 - d)"
      by (rule Suc.prems(3)) (use False Suc.prems in auto)
    then show ?thesis
      using Suc.IH Suc.prems False by simp
  qed
qed simp

lemma MAX_RUN_COUNT_less: "\<not> MAX_RUN_COUNT \<le> c \<Longrightarrow> unat c < 2 \<and> unat (c + 1) = Suc (unat c)"
  by (auto simp: MAX_RUN_COUNT_def not_le word_less_nat_alt unat_word_ariths)

lemma counted_nth:
  assumes "length rc = NICE_LEVELS" "n < NICE_LEVELS" "j < NICE_LEVELS"
  shows "counted rc n ! j = (if j < n then rc ! j else if j = n then rc ! n + 1 else if runs_used rc j then 0 else rc ! j)"
  using assms by (auto simp: counted_def reset_counts_def)

lemma turn_decreases:
  assumes rc: "count_ok rc" and i: "ready i" "i < NICE_LEVELS" and n: "chosen ready (runs_used rc) NICE_LEVELS = Some n" "n \<noteq> i"
  shows "turn (counted (refreshed rc (first_ready ready NICE_LEVELS)) n) i < turn rc i"
proof -
  note ch = chosen_Some [OF n(1)]
  obtain f where f: "first_ready ready NICE_LEVELS = Some f"
    using n(1) chosen_first [of ready "runs_used rc" NICE_LEVELS] by (cases "first_ready ready NICE_LEVELS") auto
  have fi: "f \<le> i"
    using first_ready_Some [OF f] i(1) by (meson not_le)
  let ?r = "refreshed rc (Some f)"
  have len: "length ?r = NICE_LEVELS" "length rc = NICE_LEVELS"
    using rc by (simp_all add: count_ok_def)
  note c = counted_nth [OF len(1)]
  have r: "j \<noteq> f \<Longrightarrow> ?r ! j = rc ! j" for j
    by (simp add: refreshed_def)
  have lv: "NICE_LEVELS = 16"
    by (simp add: NICE_LEVELS_def)
  show ?thesis
  proof (cases "i < n")
    case True
    have nu: "\<not> runs_used rc n"
      using ch i True by blast
    have "runs_left (counted ?r n) (15 - i) < runs_left rc (15 - i)"
    proof (rule runs_left_step [of "15 - n"])
      show "unat (counted ?r n ! (15 - (15 - n))) = Suc (unat (rc ! (15 - (15 - n))))" "unat (rc ! (15 - (15 - n))) < 2"
        using c [of n n] r [of n] ch MAX_RUN_COUNT_less [OF nu] fi True by (auto simp: lv)
      show "counted ?r n ! j = rc ! j" if "15 - (15 - i) < j" "j < 15 - (15 - n)" for j
        using c [of n j] r [of j] that fi ch True by (auto simp: lv)
    qed (use True ch in \<open>auto simp: lv\<close>)
    moreover have "runs_used rc i" if "runs_used (counted ?r n) i"
      using that c [of n i] r [of i] True ch i by (cases "f = i") (auto simp: lv refreshed_def split: if_splits)
    ultimately show ?thesis
      using f by (auto simp: turn_def)
  next
    case False
    then have ni: "n < i" "runs_used rc i"
      using n(2) ch i by auto
    have "f \<noteq> i"
      using first_ready_Some [OF f] ni(1) ch by auto
    then have "counted ?r n ! i = 0"
      using c [of n i] r [of i] ni ch i by simp
    then have "turn (counted ?r n) i < 3 ^ (15 - i)"
      using runs_left_less [of "counted ?r n" "15 - i"] by (simp add: turn_def MAX_RUN_COUNT_def)
    then show ?thesis
      using f ni(2) by (simp add: turn_def)
  qed
qed

section \<open>Waiting\<close>

text \<open>A state in which processor \<open>p\<close> may dispatch.\<close>

definition dispatchable :: "u64 \<Rightarrow> Scheduler \<Rightarrow> (u64 \<times> nat \<Rightarrow> u64 list) \<Rightarrow> bool" where
  "dispatchable p s Q \<longleftrightarrow> lists_inv (sc_links s) (all_lists s) (keys s) Q \<and> sc_current s = p \<and> p \<noteq> 0 \<and> p \<in> set (sc_chain s) \<and>
     \<not> sc_interrupts s \<and> proc_ok (sc_state s p)"

text \<open>
  Thread \<open>t\<close>, once at position \<open>k\<close> of level \<open>i\<close>, has seen \<open>m\<close> dispatches of other threads. Between two dispatches
  anything may happen to the system that leaves the run counts of the processor alone and only appends to
  the queue of \<open>t\<close> or takes from its front, as other processors do.
\<close>

inductive passed_over :: "u64 \<Rightarrow> nat \<Rightarrow> u64 \<Rightarrow> nat \<Rightarrow> nat \<Rightarrow> Scheduler \<Rightarrow> (u64 \<times> nat \<Rightarrow> u64 list) \<Rightarrow> bool" for p i t k where
  start: "dispatchable p s Q \<Longrightarrow> i < NICE_LEVELS \<Longrightarrow> k < length (Q (p, i)) \<Longrightarrow> Q (p, i) ! k = t \<Longrightarrow> passed_over p i t k 0 s Q"
| pass: "passed_over p i t k m s Q \<Longrightarrow> PickNext False s = Inr s' \<Longrightarrow> currentThread (sc_state s' p) \<noteq> t \<Longrightarrow>
    lists_inv (sc_links s') (all_lists s') (keys s') Q' \<Longrightarrow>
    dispatchable p s'' Q'' \<Longrightarrow> runCounts (sc_state s'' p) = runCounts (sc_state s' p) \<Longrightarrow>
    Q'' (p, i) = drop d (Q' (p, i)) @ added \<Longrightarrow> t \<in> set (drop d (Q' (p, i))) \<Longrightarrow> passed_over p i t k (Suc m) s'' Q''"

lemma dlist_unique: "dlist m h as \<Longrightarrow> dlist m h bs \<Longrightarrow> as = bs"
proof -
  have "seg m pv h as 0 \<Longrightarrow> seg m pv h bs 0 \<Longrightarrow> as = bs" for pv
  proof (induction as arbitrary: pv h bs)
    case Nil
    then show ?case
      by (cases bs) auto
  next
    case (Cons a as)
    then show ?case
      by (cases bs) auto
  qed
  from this [of 0] show "dlist m h as \<Longrightarrow> dlist m h bs \<Longrightarrow> as = bs"
    by (simp add: dlist_def)
qed

lemma lists_inv_unique: "lists_inv th L K Q \<Longrightarrow> lists_inv th L K Q' \<Longrightarrow> k \<in> K \<Longrightarrow> Q k = Q' k"
  using lists_invD(1) [of th L K] dlist_unique by (metis tl_ok_def)

lemma dispatch_own:
  assumes d: "dispatchable p s Q" and i: "i < NICE_LEVELS" "Q (p, i) \<noteq> []"
  obtains n s' where "chosen (waiting Q p) (runs_used (runCounts (sc_state s p))) NICE_LEVELS = Some n"
    "PickNext False s = Inr s'" "own_picked p s Q n s'"
proof -
  have "chosen (waiting Q p) (runs_used (runCounts (sc_state s p))) NICE_LEVELS \<noteq> None"
    using i by (auto simp: chosen_None waiting_def)
  then obtain n where n: "chosen (waiting Q p) (runs_used (runCounts (sc_state s p))) NICE_LEVELS = Some n"
    by blast
  then show thesis
    using that PickNext_own [OF _ _ _ _ _ _ _ n, of False] d unfolding dispatchable_def by blast
qed

text \<open>The position of a thread in a queue never grows, and falls when its level is dispatched.\<close>

lemma drop_position:
  assumes "distinct q" "j < length q" "q ! j = t" "t \<in> set (drop d q)"
  shows "d \<le> j \<and> j - d < length (drop d q) \<and> drop d q ! (j - d) = t"
proof -
  obtain e where e: "e < length q - d" "q ! (d + e) = t"
    using assms(4) by (auto simp: in_set_conv_nth)
  then have "j = d + e"
    using assms(1-3) nth_eq_iff_index_eq [of q j "d + e"] by simp
  then show ?thesis
    using e by simp
qed

lemma passed_over_bound:
  assumes "passed_over p i t k m s Q"
  shows "i < NICE_LEVELS \<and> dispatchable p s Q \<and>
    (\<exists>j. j < length (Q (p, i)) \<and> Q (p, i) ! j = t \<and>
      m + turn (runCounts (sc_state s p)) i + j * (2 * 3 ^ (15 - i)) < Suc k * (2 * 3 ^ (15 - i)))"
  using assms
proof induction
  case (start s Q)
  then show ?case
    using turn_less [of "runCounts (sc_state s p)" i] by auto
next
  case (pass m s Q s' Q' s'' Q'' d added)
  let ?B = "2 * 3 ^ (15 - i) :: nat"
  obtain j where j: "i < NICE_LEVELS" "dispatchable p s Q" "j < length (Q (p, i))" "Q (p, i) ! j = t"
      "m + turn (runCounts (sc_state s p)) i + j * ?B < Suc k * ?B"
    using pass.IH by blast
  obtain n where n: "chosen (waiting Q p) (runs_used (runCounts (sc_state s p))) NICE_LEVELS = Some n" "own_picked p s Q n s'"
    using dispatch_own [OF j(2,1)] j(3) pass.hyps(2) by (metis list.size(3) not_less_zero sum.inject(2))
  have pk: "picked p s Q s' (hd (Q (p, n))) (Q((p, n) := tl (Q (p, n))))"
      "runCounts (sc_state s'' p) = counted (refreshed (runCounts (sc_state s p)) (first_ready (waiting Q p) NICE_LEVELS)) n"
    using n(2) pass.hyps(6) by (simp_all add: own_picked_def)
  have rc: "count_ok (runCounts (sc_state s p))" and ki: "(p, i) \<in> keys s"
    using j by (auto simp: dispatchable_def proc_ok_def keys_def)
  have "lists_inv (sc_links s') (all_lists s') (keys s') (Q((p, n) := tl (Q (p, n))))" and ks: "keys s' = keys s"
    using pk(1) kept_keys [of p s s'] by (simp_all only: picked_def)
  then have q': "Q' (p, i) = (Q((p, n) := tl (Q (p, n)))) (p, i)"
    using lists_inv_unique [OF pass.hyps(4)] ki ks by metis
  have dis: "distinct (Q (p, i))"
    using j(2) ki tl_ok_ends(4) lists_invD(1) by (metis dispatchable_def)
  show ?case
  proof (cases "n = i")
    case True
    have "hd (Q (p, i)) \<noteq> t"
      using pass.hyps(3) pk(1) True by (simp add: picked_def)
    then have j0: "j \<noteq> 0"
      using j(3,4) by (metis hd_conv_nth list.size(3) not_less_zero)
    then have tj: "j - 1 < length (Q' (p, i))" "Q' (p, i) ! (j - 1) = t" "distinct (Q' (p, i))"
      using j(3,4) dis q' True by (auto simp: nth_tl distinct_tl)
    note pos = drop_position [OF tj(3,1,2) pass.hyps(8)]
    have "(j - 1 - d) * ?B + ?B \<le> j * ?B"
      using mult_le_mono1 [of "Suc (j - 1 - d)" j ?B] j0 by (simp add: Suc_le_eq add.commute)
    then have "Suc m + turn (runCounts (sc_state s'' p)) i + (j - 1 - d) * ?B < Suc k * ?B"
      using turn_less [of "runCounts (sc_state s'' p)" i] j(5) by linarith
    then show ?thesis
      using j(1) pass.hyps(5,7) pos by (intro conjI exI [of _ "j - 1 - d"]) (auto simp: nth_append)
  next
    case False
    then have tj: "j < length (Q' (p, i))" "Q' (p, i) ! j = t" "distinct (Q' (p, i))"
      using j(3,4) dis q' by auto
    note pos = drop_position [OF tj(3,1,2) pass.hyps(8)]
    have "turn (runCounts (sc_state s'' p)) i < turn (runCounts (sc_state s p)) i"
      unfolding pk(2) by (rule turn_decreases [OF rc _ j(1) n(1)]) (use j(3) False in \<open>auto simp: waiting_def\<close>)
    moreover have "(j - d) * ?B \<le> j * ?B"
      by simp
    ultimately have "Suc m + turn (runCounts (sc_state s'' p)) i + (j - d) * ?B < Suc k * ?B"
      using j(5) by linarith
    then show ?thesis
      using j(1) pass.hyps(5,7) pos by (intro conjI exI [of _ "j - d"]) (auto simp: nth_append)
  qed
qed

end
