(* ===== verification/SchedulerOps.thy ===== *)
theory SchedulerOps
  imports SchedulerPick
begin

text \<open>
  The operations on the invariant of the whole scheduler: every thread is in one list or runs on one processor,
  and no operation loses or doubles a thread.
\<close>

section \<open>Waking the sleeping threads\<close>

definition time_up :: "u64 \<Rightarrow> Scheduler \<Rightarrow> u64 \<Rightarrow> bool" where
  "time_up ms s t \<longleftrightarrow> ms \<ge> sleepRemainingTime (sc_info s t)"

definition nice_of :: "Scheduler \<Rightarrow> u64 \<Rightarrow> nat" where
  "nice_of s t = unat (sc_nice s (m_Parent (sc_info s t)))"

text \<open>The sequences after the sleepers \<open>ys\<close> of processor \<open>p\<close>, behind \<open>xs\<close>, have been looked at.\<close>

definition woken :: "u64 \<Rightarrow> u64 \<Rightarrow> Scheduler \<Rightarrow> u64 list \<Rightarrow> u64 list \<Rightarrow> (u64 \<times> nat \<Rightarrow> u64 list) \<Rightarrow> (u64 \<times> nat \<Rightarrow> u64 list)" where
  "woken p ms s xs ys Q =
     (\<lambda>(q, i). if q = p \<and> i = NICE_LEVELS then xs @ filter (\<lambda>t. \<not> time_up ms s t) ys
       else if q = p \<and> i < NICE_LEVELS then Q (q, i) @ filter (\<lambda>t. time_up ms s t \<and> nice_of s t = i) ys
       else Q (q, i))"

definition slept :: "u64 \<Rightarrow> u64 set \<Rightarrow> (u64 \<Rightarrow> ThreadInfo) \<Rightarrow> (u64 \<Rightarrow> ThreadInfo)" where
  "slept ms T info =
     (\<lambda>t. if t \<in> T then (info t)\<lparr>sleepRemainingTime := (if ms \<ge> sleepRemainingTime (info t) then 0 else sleepRemainingTime (info t) - ms)\<rparr>
       else info t)"

lemma slept_insert:
  assumes "t \<notin> T"
  shows "slept ms T (info(t := (info t)\<lparr>sleepRemainingTime := (if ms \<ge> sleepRemainingTime (info t) then 0 else sleepRemainingTime (info t) - ms)\<rparr>))
    = slept ms (insert t T) info"
  using assms by (auto simp: slept_def fun_eq_iff)

lemma woken_cong:
  assumes "\<And>t. t \<in> set ys \<Longrightarrow> sc_info s' t = sc_info s t" "sc_nice s' = sc_nice s"
  shows "woken p ms s' xs ys Q = woken p ms s xs ys Q"
  using assms by (auto simp: woken_def time_up_def nice_of_def fun_eq_iff cong: filter_cong)

lemma members_move:
  assumes "Q S = A @ t # B" "S \<in> K" "k \<in> K" "k \<noteq> S"
  shows "members K (Q(S := A @ B, k := Q k @ [t])) = members K Q"
proof (intro equalityI UN_least)
  fix j
  assume j: "j \<in> K"
  have "set (A @ t # B) \<subseteq> members K Q"
    using assms(1,2) by (metis UN_upper)
  then show "set ((Q(S := A @ B, k := Q k @ [t])) j) \<subseteq> members K Q"
    using assms j by (cases "j = k"; cases "j = S") auto
  show "set (Q j) \<subseteq> members K (Q(S := A @ B, k := Q k @ [t]))"
  proof
    fix x
    assume x: "x \<in> set (Q j)"
    consider "j = S" "x = t" | "j = S" "x \<in> set (A @ B)" | "j \<noteq> S"
      using x assms(1) by fastforce
    then show "x \<in> members K (Q(S := A @ B, k := Q k @ [t]))"
    proof cases
      case 1
      then show ?thesis
        using assms(3) by (intro UN_I [of k]) auto
    next
      case 2
      then show ?thesis
        using assms by (intro UN_I [of S]) auto
    next
      case 3
      then show ?thesis
        using x j by (intro UN_I [of j]) auto
    qed
  qed
qed

lemma others_kept_trans:
  "others_kept p T th th' \<Longrightarrow> others_kept p T' th' th'' \<Longrightarrow> T \<subseteq> U \<Longrightarrow> T' \<subseteq> U \<Longrightarrow> others_kept p U th th''"
  unfolding others_kept_def by (metis subsetD)

definition wake_post :: "u64 \<Rightarrow> u64 \<Rightarrow> (u64 \<times> nat) set \<Rightarrow> (u64 \<times> nat \<Rightarrow> u64 list) \<Rightarrow> threads \<Rightarrow> ThreadList \<Rightarrow> Scheduler \<Rightarrow> u64 list \<Rightarrow> u64 list \<Rightarrow>
    (threads \<times> ThreadList \<times> Scheduler) res \<Rightarrow> bool" where
  "wake_post p ms K Q th l s xs ys r \<longleftrightarrow>
     (\<exists>th' l' s'. r = Inr (th', l', s') \<and>
       lists_inv th' ((all_lists s')((p, NICE_LEVELS) := l'\<lparr>tl_Lock := SPINLOCK_DEFAULT_VALUE\<rparr>)) K (woken p ms s xs ys Q) \<and>
       tl_intState l' = tl_intState l \<and> others_kept False (members K Q) th th' \<and>
       kept p s s' \<and> same_running s s' \<and> sc_interrupts s' = sc_interrupts s \<and> sc_info s' = slept ms (set ys) (sc_info s))"

lemma wake_post_step:
  assumes "wake_post p ms K Q1 th1 l1 s1 xs1 ys r" "woken p ms s1 xs1 ys Q1 = woken p ms s xs (t # ys) Q"
    "slept ms (set ys) (sc_info s1) = slept ms (set (t # ys)) (sc_info s)" "members K Q1 = members K Q" "tl_intState l1 = tl_intState l"
    "kept p s s1" "same_running s s1" "sc_interrupts s1 = sc_interrupts s" "others_kept False (members K Q) th th1"
  shows "wake_post p ms K Q th l s xs (t # ys) r"
  using assms kept_trans [OF assms(6)] others_kept_trans [OF assms(9)] unfolding wake_post_def same_running_def by (metis order_refl)

lemma wake_loop:
  assumes inv: "lists_inv th ((all_lists s)((p, NICE_LEVELS) := l\<lparr>tl_Lock := SPINLOCK_DEFAULT_VALUE\<rparr>)) K Q"
    and q: "Q (p, NICE_LEVELS) = xs @ ys" and K: "{p} \<times> {..NICE_LEVELS} \<subseteq> K" and ok: "proc_ok (sc_state s p)"
    and ready: "\<forall>t \<in> set ys. m_Parent (sc_info s t) \<noteq> 0 \<and> nice_of s t < NICE_LEVELS"
  shows "wake_post p ms K Q th l s xs ys (ThreadList_Enumerate_loop (timer_callback p ms) (length ys) th l (hd_or ys 0) s)"
  using inv q ok ready
proof (induction ys arbitrary: th l s Q xs)
  case Nil
  have "woken p ms s xs [] Q = Q"
    using Nil.prems(2) by (auto simp: woken_def fun_eq_iff)
  then show ?case
    using Nil.prems(1) by (simp add: wake_post_def slept_def same_running_def del: fun_upd_apply)
next
  case (Cons t ys)
  let ?S = "(p, NICE_LEVELS)" and ?L = "(all_lists s)((p, NICE_LEVELS) := l\<lparr>tl_Lock := SPINLOCK_DEFAULT_VALUE\<rparr>)"
  have S: "?S \<in> K"
    using subsetD [OF K, of ?S] by simp
  have l: "tl_ok th l (xs @ t # ys)" "\<not> IsProcList l"
    using lists_invD [OF Cons.prems(1) S] Cons.prems(2) by simp_all
  note at = links_at [OF l(1)]
  have dis: "t \<notin> set xs" "t \<notin> set ys"
    using tl_ok_ends(4) [OF l(1)] by auto
  let ?r = "sleepRemainingTime (sc_info s t)"
  show ?case
  proof (cases "time_up ms s t")
    case False
    define s1 where "s1 = upd_info t (\<lambda>i. i\<lparr>sleepRemainingTime := sleepRemainingTime i - ms\<rparr>) s"
    have go: "ThreadList_Enumerate_loop (timer_callback p ms) (length (t # ys)) th l (hd_or (t # ys) 0) s =
        ThreadList_Enumerate_loop (timer_callback p ms) (length ys) th l (hd_or ys 0) s1"
      using at l(2) False by (simp add: timer_callback_def time_up_def s1_def)
    have w: "woken p ms s1 (xs @ [t]) ys Q = woken p ms s xs (t # ys) Q"
    proof -
      have "woken p ms s1 (xs @ [t]) ys Q = woken p ms s (xs @ [t]) ys Q"
        by (rule woken_cong) (use dis(2) in \<open>auto simp: s1_def\<close>)
      also have "\<dots> = woken p ms s xs (t # ys) Q"
        using False by (simp add: woken_def fun_eq_iff)
      finally show ?thesis .
    qed
    have i: "slept ms (set ys) (sc_info s1) = slept ms (set (t # ys)) (sc_info s)"
      using slept_insert [OF dis(2), of ms "sc_info s"] False by (simp add: s1_def time_up_def)
    have k: "kept p s s1" "same_running s s1" "sc_interrupts s1 = sc_interrupts s" "all_lists s1 = all_lists s"
      by (simp_all add: s1_def kept_def same_ids_def same_running_def)
    have "\<forall>t \<in> set ys. m_Parent (sc_info s1 t) \<noteq> 0 \<and> nice_of s1 t < NICE_LEVELS"
      using Cons.prems(4) by (auto simp: s1_def nice_of_def)
    then have "wake_post p ms K Q th l s1 (xs @ [t]) ys (ThreadList_Enumerate_loop (timer_callback p ms) (length ys) th l (hd_or ys 0) s1)"
      using Cons.IH [of th s1 l Q "xs @ [t]"] Cons.prems(1-3) k(4) by (simp add: s1_def)
    then show ?thesis
      unfolding go by (rule wake_post_step) (use w i k in simp_all)
  next
    case True
    define s0 where "s0 = upd_info t (\<lambda>i. i\<lparr>sleepRemainingTime := 0\<rparr>) s"
    obtain th1 l1 where r: "ThreadList_remove th l t = Inr (th1, l1)" "tl_ok th1 l1 (xs @ ys)" "\<not> IsProcList l1" "clear_links th1 t"
        "others_kept False (set (xs @ t # ys)) th th1" "tl_intState l1 = tl_intState l" "tl_Lock l1 = tl_Lock l"
      using remove_ok [OF l(1)] l(2) by auto
    let ?L1 = "?L(?S := l1\<lparr>tl_Lock := SPINLOCK_DEFAULT_VALUE\<rparr>)" and ?Q1 = "Q(?S := xs @ ys)" and ?n = "nice_of s t"
    have inv1: "lists_inv th1 ?L1 K ?Q1"
      by (rule lists_inv_update [OF Cons.prems(1) S _ _ _ r(5)]) (use r Cons.prems(2) in auto)
    have n: "?n < NICE_LEVELS" "m_Parent (sc_info s t) \<noteq> 0"
      using Cons.prems(4) by auto
    have kn: "(p, ?n) \<in> K" "?L1 (p, ?n) = ps_threads (sc_state (s0\<lparr>sc_links := th1\<rparr>) p) ! ?n"
      using subsetD [OF K, of "(p, ?n)"] n by (auto simp: all_lists_def list_at_def s0_def)
    have out: "t \<notin> members K ?Q1"
    proof
      assume "t \<in> members K ?Q1"
      then obtain k where k: "k \<in> K" "t \<in> set (?Q1 k)"
        by blast
      then have "k \<noteq> ?S"
        using dis by auto
      then show False
        using k Cons.prems(1,2) S by (auto simp: lists_inv_def)
    qed
    obtain th2 l2 where p2: "push_level p ?n t (s0\<lparr>sc_links := th1\<rparr>) =
        Inr ((upd_state p (\<lambda>ps. ps\<lparr>ps_threads := (ps_threads ps)[?n := l2]\<rparr>) (s0\<lparr>sc_links := th1\<rparr>))\<lparr>sc_links := th2\<rparr>)"
      "lists_inv th2 (?L1((p, ?n) := l2)) K (?Q1((p, ?n) := ?Q1 (p, ?n) @ [t]))"
      "others_kept False (insert t (set (?Q1 (p, ?n)))) th1 th2"
      using push_level_ok [of "s0\<lparr>sc_links := th1\<rparr>" ?L1 K ?Q1 "(p, ?n)" p ?n t] inv1 kn n(1) at(2) out r(4) by auto
    define s2 where "s2 = (upd_state p (\<lambda>ps. ps\<lparr>ps_threads := (ps_threads ps)[?n := l2]\<rparr>) (s0\<lparr>sc_links := th1\<rparr>))\<lparr>sc_links := th2\<rparr>"
    have go: "ThreadList_Enumerate_loop (timer_callback p ms) (length (t # ys)) th l (hd_or (t # ys) 0) s =
        ThreadList_Enumerate_loop (timer_callback p ms) (length ys) th2 l1 (hd_or ys 0) s2"
      using at l(2) True r(1) p2(1) n(2)
      by (simp add: timer_callback_def time_up_def GetNice_def nice_of_def s0_def [symmetric] s2_def Let_def) (simp add: s0_def)
    have len: "length (ps_threads (sc_state s p)) = NICE_LEVELS"
      using Cons.prems(3) by (simp add: proc_ok_def)
    have al: "all_lists s2 = (all_lists s)((p, ?n) := l2)"
      using all_lists_queue [OF n(1) len, of s2 "(sc_state s p)\<lparr>ps_threads := (ps_threads (sc_state s p))[?n := l2]\<rparr>" l2]
      by (simp add: s2_def s0_def)
    have L2: "(all_lists s2)(?S := l1\<lparr>tl_Lock := SPINLOCK_DEFAULT_VALUE\<rparr>) = ?L1((p, ?n) := l2)"
      using n(1) unfolding al by (auto simp: fun_eq_iff)
    let ?Q2 = "?Q1((p, ?n) := ?Q1 (p, ?n) @ [t])"
    have w: "woken p ms s2 xs ys ?Q2 = woken p ms s xs (t # ys) Q"
    proof -
      have "woken p ms s2 xs ys ?Q2 = woken p ms s xs ys ?Q2"
        by (rule woken_cong) (use dis(2) in \<open>auto simp: s2_def s0_def\<close>)
      also have "\<dots> = woken p ms s xs (t # ys) Q"
        using True n(1) by (auto simp: woken_def fun_eq_iff)
      finally show ?thesis .
    qed
    have i: "slept ms (set ys) (sc_info s2) = slept ms (set (t # ys)) (sc_info s)"
      using slept_insert [OF dis(2), of ms "sc_info s"] True by (simp add: s2_def s0_def time_up_def)
    have k: "kept p s s2" "same_running s s2" "sc_interrupts s2 = sc_interrupts s"
      using len by (auto simp: s2_def s0_def kept_def same_ids_def same_running_def proc_ok_def)
    have m: "members K ?Q2 = members K Q"
      using members_move [of Q ?S xs t ys K "(p, ?n)"] Cons.prems(2) S kn(1) n(1) by simp
    have sub: "set (xs @ t # ys) \<subseteq> members K Q" "set (Q (p, ?n)) \<subseteq> members K Q"
      using UN_upper [OF S, of "\<lambda>k. set (Q k)"] UN_upper [OF kn(1), of "\<lambda>k. set (Q k)"] Cons.prems(2) by simp_all
    have ok2: "others_kept False (members K Q) th th2"
      by (rule others_kept_trans [OF r(5) p2(3)]) (use sub n(1) in auto)
    have rd: "\<forall>t \<in> set ys. m_Parent (sc_info s2 t) \<noteq> 0 \<and> nice_of s2 t < NICE_LEVELS" "proc_ok (sc_state s2 p)"
      using Cons.prems(3,4) by (auto simp: s2_def s0_def nice_of_def proc_ok_def)
    have q2: "?Q2 ?S = xs @ ys"
      using n(1) by simp
    have "wake_post p ms K ?Q2 th2 l1 s2 xs ys (ThreadList_Enumerate_loop (timer_callback p ms) (length ys) th2 l1 (hd_or ys 0) s2)"
      by (rule Cons.IH [OF p2(2) [folded L2] q2 rd(2,1)])
    then show ?thesis
      unfolding go by (rule wake_post_step) (use w i m k r(6) ok2 in simp_all)
  qed
qed

end
