(* ===== verification/SchedulerSafe.thy ===== *)
theory SchedulerSafe
  imports SchedulerOps
begin

text \<open>
  The invariant of the scheduler as a whole and what each operation does to it: every thread is in exactly one
  list or runs on exactly one processor, and the operations of all processors, in any order, keep it that way.
\<close>

section \<open>Invariant\<close>

definition running :: "Scheduler \<Rightarrow> u64 set" where
  "running s = {t. \<exists>p \<in> set (sc_chain s). t = currentThread (sc_state s p) \<and> t \<noteq> 0 \<and> t \<noteq> idleThread (sc_state s p)}"

text \<open>A thread the scheduler may queue: it has a process with a nice level, and is not an idle thread.\<close>

definition ready_thread :: "Scheduler \<Rightarrow> u64 \<Rightarrow> bool" where
  "ready_thread s t \<longleftrightarrow> t \<noteq> 0 \<and> m_Parent (sc_info s t) \<noteq> 0 \<and> nice_of s t < NICE_LEVELS \<and>
     CPUInfo_lock (sc_info s t) = SPINLOCK_DEFAULT_VALUE \<and> yieldCallback (sc_info s t) = 0 \<and>
     (\<forall>p \<in> set (sc_chain s). t \<noteq> idleThread (sc_state s p))"

definition processors_ok :: "Scheduler \<Rightarrow> bool" where
  "processors_ok s \<longleftrightarrow> 0 \<notin> set (sc_chain s) \<and> inj_on (\<lambda>p. ps_id (sc_state s p)) (set (sc_chain s)) \<and>
     g_StealLock s = SPINLOCK_DEFAULT_VALUE \<and>
     (\<forall>p \<in> set (sc_chain s). proc_ok (sc_state s p) \<and> idleThread (sc_state s p) \<noteq> 0)"

definition current_ok :: "Scheduler \<Rightarrow> bool" where
  "current_ok s \<longleftrightarrow>
     (\<forall>p \<in> set (sc_chain s). currentThread (sc_state s p) \<noteq> 0 \<longrightarrow>
        (isIdle (sc_state s p) = 0 \<longleftrightarrow> currentThread (sc_state s p) \<noteq> idleThread (sc_state s p))) \<and>
     (\<forall>p \<in> set (sc_chain s). \<forall>q \<in> set (sc_chain s). p \<noteq> q \<longrightarrow> currentThread (sc_state s p) \<in> running s \<longrightarrow>
        currentThread (sc_state s p) \<noteq> currentThread (sc_state s q))"

definition sched_inv :: "Scheduler \<Rightarrow> (u64 \<times> nat \<Rightarrow> u64 list) \<Rightarrow> bool" where
  "sched_inv s Q \<longleftrightarrow> processors_ok s \<and> current_ok s \<and> lists_inv (sc_links s) (all_lists s) (keys s) Q \<and>
     (\<forall>t \<in> members (keys s) Q \<union> running s. ready_thread s t) \<and>
     (\<forall>t \<in> running s. t \<notin> members (keys s) Q \<and> clear_links (sc_links s) t)"

definition present :: "Scheduler \<Rightarrow> (u64 \<times> nat \<Rightarrow> u64 list) \<Rightarrow> u64 set" where
  "present s Q = members (keys s) Q \<union> running s"

lemma sched_invD:
  assumes "sched_inv s Q"
  shows "processors_ok s" "current_ok s" "lists_inv (sc_links s) (all_lists s) (keys s) Q" "\<And>t. t \<in> present s Q \<Longrightarrow> ready_thread s t"
    "\<And>t. t \<in> running s \<Longrightarrow> t \<notin> members (keys s) Q" "\<And>t. t \<in> running s \<Longrightarrow> clear_links (sc_links s) t"
  using assms unfolding sched_inv_def present_def by blast+

text \<open>Which threads run is read off the chain, the current threads and the idle threads.\<close>

lemma running_cong:
  assumes "sc_chain s' = sc_chain s"
    "\<And>p. p \<in> set (sc_chain s) \<Longrightarrow> currentThread (sc_state s' p) = currentThread (sc_state s p) \<and> idleThread (sc_state s' p) = idleThread (sc_state s p)"
  shows "running s' = running s"
  using assms by (auto simp: running_def)

lemma kept_processors_ok:
  assumes "kept p s s'" "processors_ok s"
  shows "processors_ok s'"
proof -
  have "ps_id (sc_state s' q) = ps_id (sc_state s q)" for q
    using assms(1) by (simp add: kept_def same_ids_def)
  then show ?thesis
    using assms by (auto simp: processors_ok_def kept_def same_ids_def)
qed

text \<open>What of a thread makes it ready does not change in any operation.\<close>

definition same_thread :: "ThreadInfo \<Rightarrow> ThreadInfo \<Rightarrow> bool" where
  "same_thread i i' \<longleftrightarrow> m_Parent i' = m_Parent i \<and> CPUInfo_lock i' = CPUInfo_lock i \<and> yieldCallback i' = yieldCallback i"

lemma same_thread_refl [simp]: "same_thread i i"
  by (simp add: same_thread_def)

lemma same_thread_trans: "same_thread i i' \<Longrightarrow> same_thread i' i'' \<Longrightarrow> same_thread i i''"
  by (simp add: same_thread_def)

lemma kept_ready:
  assumes "kept p s s'" "same_thread (sc_info s t) (sc_info s' t)"
  shows "ready_thread s' t = ready_thread s t"
  using assms by (simp add: ready_thread_def kept_def same_ids_def same_thread_def nice_of_def)

text \<open>No thread outside of \<open>Z\<close> gets time to sleep.\<close>

definition awake_kept :: "u64 set \<Rightarrow> Scheduler \<Rightarrow> Scheduler \<Rightarrow> bool" where
  "awake_kept Z s s' \<longleftrightarrow> (\<forall>u. u \<notin> Z \<longrightarrow> sleepRemainingTime (sc_info s u) = 0 \<longrightarrow> sleepRemainingTime (sc_info s' u) = 0)"

lemma awake_kept_same: "sc_info s' = sc_info s \<Longrightarrow> awake_kept Z s s'"
  by (simp add: awake_kept_def)

lemma awake_kept_trans: "awake_kept Z s s' \<Longrightarrow> awake_kept Z s' s'' \<Longrightarrow> awake_kept Z s s''"
  by (simp add: awake_kept_def)

lemma awake_kept_mono: "awake_kept {} s s' \<Longrightarrow> awake_kept Z s s'"
  by (simp add: awake_kept_def)

section \<open>Dispatch\<close>

lemma others_kept_mono: "others_kept p T th th' \<Longrightarrow> T \<subseteq> U \<Longrightarrow> others_kept p U th th'"
  by (auto simp: others_kept_def)

lemma members_taken:
  assumes inv: "lists_inv th L K Q" and k: "k \<in> K" "Q k = t # ts"
  shows "members K (Q(k := ts)) = members K Q - {t}"
proof -
  have dis: "t \<notin> set ts"
    using tl_ok_ends(4) [OF lists_invD(1) [OF inv k(1)]] k(2) by simp
  have oth: "t \<notin> set (Q j)" if "j \<in> K" "j \<noteq> k" for j
    using inv k that unfolding lists_inv_def by fastforce
  show ?thesis
    using dis oth k by (auto split: if_splits) (metis set_ConsD)
qed

lemma current_ok_pick:
  assumes ok: "current_ok s" and rdy: "\<And>u. u \<in> running s \<Longrightarrow> ready_thread s u" and p: "p \<in> set (sc_chain s)"
    and ch: "sc_chain s' = sc_chain s" and ids: "\<And>q. idleThread (sc_state s' q) = idleThread (sc_state s q)"
    and oth: "\<And>q. q \<noteq> p \<Longrightarrow> currentThread (sc_state s' q) = currentThread (sc_state s q) \<and> isIdle (sc_state s' q) = isIdle (sc_state s q)"
    and t: "currentThread (sc_state s' p) = t" "isIdle (sc_state s' p) = (if t = idleThread (sc_state s p) then 1 else 0)"
      "t \<notin> running s" "t = idleThread (sc_state s p) \<or> ready_thread s t"
  shows "current_ok s'"
proof -
  have run: "u \<in> running s' \<Longrightarrow> u \<in> running s \<or> (u = t \<and> ready_thread s t)" for u
    using p ch ids oth t by (auto simp: running_def) (metis)+
  have fresh: "currentThread (sc_state s q) \<noteq> t" if "q \<in> set (sc_chain s)" "ready_thread s t" for q
    using that t(3) by (auto simp: running_def ready_thread_def)
  have nidle: "q \<in> set (sc_chain s) \<Longrightarrow> idleThread (sc_state s q) \<notin> running s" for q
    using rdy by (auto simp: ready_thread_def)
  have "currentThread (sc_state s' a) \<noteq> currentThread (sc_state s' b)"
    if "a \<in> set (sc_chain s)" "b \<in> set (sc_chain s)" "a \<noteq> b" "currentThread (sc_state s' a) \<in> running s'" for a b
  proof (cases "currentThread (sc_state s' a) \<in> running s")
    case True
    then have "a \<noteq> p"
      using t by auto
    then show ?thesis
      using True that ok oth t(1,3) by (cases "b = p") (auto simp: current_ok_def)
  next
    case False
    then have f: "currentThread (sc_state s' a) = t" "ready_thread s t"
      using run that(4) by auto
    then have "a = p"
      using fresh [OF that(1)] oth by metis
    then show ?thesis
      using f fresh [OF that(2)] oth that(3) by metis
  qed
  then show ?thesis
    using ok ch ids oth t(1,2) p unfolding current_ok_def by (metis zero_neq_one)
qed

text \<open>A processor without a current thread picks one, and nothing else changes hands.\<close>

lemma pick_inv:
  assumes inv: "sched_inv s Q" and p: "sc_current s = p" "p \<in> set (sc_chain s)" and i: "\<not> sc_interrupts s" and c: "currentThread (sc_state s p) = 0"
  shows "\<exists>s' Q'. PickNext False s = Inr s' \<and> sched_inv s' Q' \<and> present s' Q' = present s Q \<and> kept p s s' \<and> \<not> sc_interrupts s' \<and>
    currentThread (sc_state s' p) \<noteq> 0 \<and> (\<forall>t. same_thread (sc_info s t) (sc_info s' t)) \<and> others_kept False (present s Q) (sc_links s) (sc_links s') \<and>
    awake_kept {} s s'"
proof -
  note D = sched_invD [OF inv]
  have p0: "p \<noteq> 0" and id: "idleThread (sc_state s p) \<noteq> 0"
    using D(1) p by (auto simp: processors_ok_def)
  have rdy: "t \<in> members (keys s) Q \<Longrightarrow> ready_thread s t" for t
    using D(4) [of t] by (auto simp: present_def)
  have "steal_pre p s Q"
    using D(1,3) p(2) i rdy by (auto simp: steal_pre_def processors_ok_def ready_thread_def)
  then obtain s' t Q' where r: "PickNext False s = Inr s'" "picked p s Q s' t Q'"
    using PickNext_ok [of p s Q False] p p0 id D(1) by (auto simp: processors_ok_def)
  have k: "kept p s s'" and l: "lists_inv (sc_links s') (all_lists s') (keys s) Q'" and cur: "currentThread (sc_state s' p) = t"
    and idl: "isIdle (sc_state s' p) = (if t = idleThread (sc_state s p) then 1 else 0)" and ii: "\<not> sc_interrupts s'"
    using r(2) unfolding picked_def by blast+
  have info: "same_thread (sc_info s u) (sc_info s' u)" for u
    using r(2) by (auto simp: picked_def same_thread_def)
  have aw: "awake_kept {} s s'"
    using r(2) by (auto simp: picked_def awake_kept_def)
  have ks: "keys s' = keys s" "sc_chain s' = sc_chain s" and pr: "processors_ok s'"
    using k kept_keys [OF k] kept_processors_ok [OF k D(1)] by (simp_all add: kept_def)
  have ids: "idleThread (sc_state s' q) = idleThread (sc_state s q)" and co: "q \<noteq> p \<Longrightarrow> currentThread (sc_state s' q) = currentThread (sc_state s q)"
    and io: "q \<noteq> p \<Longrightarrow> isIdle (sc_state s' q) = isIdle (sc_state s q)" for q
    using k by (simp_all add: kept_def same_ids_def)
  have run: "running s' = running s \<union> (if t = idleThread (sc_state s p) \<or> t = 0 then {} else {t})"
    using p(2) c cur co ids ks(2) by (auto simp: running_def) metis+
  consider "t = idleThread (sc_state s p)" "Q' = Q" "sc_links s' = sc_links s" | k where "taken s Q k t s' Q'"
    using r(2) by (auto simp: picked_def)
  then show ?thesis
  proof cases
    case 1
    have rs: "running s' = running s"
      using run 1(1) by simp
    have "idleThread (sc_state s p) \<notin> running s"
      using D(4) p(2) by (auto simp: ready_thread_def present_def)
    then have "current_ok s'"
      using current_ok_pick [OF D(2) _ p(2) ks(2) ids _ cur idl] co io D(4) 1(1) by (auto simp: present_def)
    then have "sched_inv s' Q'"
      using pr l ks(1) rs 1 D(4-6) kept_ready [OF k info] by (auto simp: sched_inv_def present_def)
    then show ?thesis
      using r(1) k ii 1 cur id rs ks(1) info aw by (auto simp: present_def others_kept_def)
  next
    case (2 k)
    then obtain ts where q: "k \<in> keys s" "Q k = t # ts" "Q' = Q(k := ts)" "others_kept False (set (Q k)) (sc_links s) (sc_links s')"
        "clear_links (sc_links s') t"
      by (cases "Q k") (auto simp: taken_def)
    have tm: "t \<in> members (keys s) Q"
      using q(1,2) by force
    then have t: "ready_thread s t" "t \<notin> running s"
      using rdy D(5) by auto
    then have rs: "running s' = insert t (running s)"
      using run p(2) by (auto simp: ready_thread_def)
    have mem: "members (keys s) Q' = members (keys s) Q - {t}"
      unfolding q(3) by (rule members_taken [OF D(3) q(1,2)])
    have "current_ok s'"
      using current_ok_pick [OF D(2) _ p(2) ks(2) ids _ cur idl t(2)] co io D(4) t(1) by (auto simp: present_def)
    moreover have "clear_links (sc_links s') u" if "u \<in> running s" for u
      using D(5,6) [OF that] others_kept_data [OF q(4), of u] q(1) by (metis UN_I)
    moreover have "ready_thread s' u" if "u \<in> members (keys s) Q' \<union> running s'" for u
      using that unfolding mem rs kept_ready [OF k info] using D(4) t(1) unfolding present_def by blast
    moreover have "u \<notin> members (keys s) Q'" if "u \<in> running s'" for u
      using that unfolding mem rs using D(5) by blast
    ultimately have "sched_inv s' Q'"
      using pr l q(5) unfolding sched_inv_def ks(1) rs by blast
    moreover have "present s' Q' = present s Q"
      using tm unfolding present_def ks(1) rs mem by blast
    moreover have "set (Q k) \<subseteq> present s Q"
      using q(1) unfolding present_def by blast
    then have "others_kept False (present s Q) (sc_links s) (sc_links s')"
      by (rule others_kept_mono [OF q(4)])
    ultimately show ?thesis
      using r(1) k ii cur t(1) info aw by (auto simp: ready_thread_def)
  qed
qed

section \<open>Threads come and go\<close>

lemma add_inv:
  assumes inv: "sched_inv s Q" and t: "t \<notin> present s Q" "ready_thread s t" and k: "k \<in> keys s"
    and l: "lists_inv (sc_links s') (all_lists s') (keys s) (Q(k := Q k @ [t]))"
    and th: "others_kept False (insert t (set (Q k))) (sc_links s) (sc_links s')"
    and s': "kept p s s'" "same_running s s'" "\<And>u. same_thread (sc_info s u) (sc_info s' u)"
  shows "sched_inv s' (Q(k := Q k @ [t]))" "present s' (Q(k := Q k @ [t])) = insert t (present s Q)"
proof -
  note D = sched_invD [OF inv]
  have ks: "keys s' = keys s"
    by (rule kept_keys [OF s'(1)])
  have rs: "running s' = running s"
    by (rule running_cong) (use s' in \<open>auto simp: kept_def same_running_def same_ids_def\<close>)
  have co: "current_ok s'"
    using D(2) s'(1,2) rs unfolding current_ok_def kept_def same_running_def same_ids_def by simp
  have mem: "members (keys s) (Q(k := Q k @ [t])) = insert t (members (keys s) Q)"
    using k by (auto split: if_splits)
  show pr: "present s' (Q(k := Q k @ [t])) = insert t (present s Q)"
    unfolding present_def ks rs mem by blast
  have "ready_thread s' u" if "u \<in> insert t (present s Q)" for u
    using that D(4) t(2) unfolding kept_ready [OF s'(1,3)] by blast
  moreover have "u \<notin> members (keys s) (Q(k := Q k @ [t]))" "clear_links (sc_links s') u" if "u \<in> running s" for u
  proof -
    have u: "u \<noteq> t" "u \<notin> members (keys s) Q"
      using that t(1) D(5) unfolding present_def by blast+
    then show "u \<notin> members (keys s) (Q(k := Q k @ [t]))"
      unfolding mem by blast
    have "u \<notin> insert t (set (Q k))"
      using u k by blast
    then show "clear_links (sc_links s') u"
      using others_kept_data [OF th] D(6) [OF that] by metis
  qed
  ultimately show "sched_inv s' (Q(k := Q k @ [t]))"
    using kept_processors_ok [OF s'(1) D(1)] co l pr unfolding sched_inv_def ks rs mem present_def by blast
qed

lemma keys_upd [simp]: "keys (upd_state p f s) = keys s" "keys (upd_info t g s) = keys s" "keys (s\<lparr>sc_links := th\<rparr>) = keys s"
    "keys (s\<lparr>sc_interrupts := b\<rparr>) = keys s" "keys (s\<lparr>sc_current := p\<rparr>) = keys s"
  by (simp_all add: keys_def)

lemma sched_inv_cong:
  assumes "sched_inv s Q" "kept p s s'" "same_running s s'" "\<And>u. same_thread (sc_info s u) (sc_info s' u)"
    "sc_links s' = sc_links s" "all_lists s' = all_lists s"
  shows "sched_inv s' Q" "present s' Q = present s Q"
proof -
  note D = sched_invD [OF assms(1)]
  have ks: "keys s' = keys s"
    by (rule kept_keys [OF assms(2)])
  have rs: "running s' = running s"
    by (rule running_cong) (use assms(2,3) in \<open>auto simp: kept_def same_running_def same_ids_def\<close>)
  show "present s' Q = present s Q"
    unfolding present_def ks rs ..
  have "current_ok s'"
    using D(2) assms(2,3) rs unfolding current_ok_def kept_def same_running_def same_ids_def by simp
  then show "sched_inv s' Q"
    using D kept_processors_ok [OF assms(2) D(1)] kept_ready [OF assms(2,4)] assms(5,6) unfolding sched_inv_def ks rs present_def by simp
qed

text \<open>The current thread leaves its processor.\<close>

lemma vacate_inv:
  assumes inv: "sched_inv s Q" and p: "p \<in> set (sc_chain s)"
  defines "s' \<equiv> upd_state p (\<lambda>ps. ps\<lparr>currentThread := 0\<rparr>) s" and "t \<equiv> currentThread (sc_state s p)"
  shows "sched_inv s' Q" "present s' Q = present s Q - (if t = 0 \<or> t = idleThread (sc_state s p) then {} else {t})"
    "t \<noteq> 0 \<Longrightarrow> t \<noteq> idleThread (sc_state s p) \<Longrightarrow> ready_thread s' t \<and> clear_links (sc_links s') t \<and> t \<in> present s Q"
proof -
  note D = sched_invD [OF inv]
  let ?T = "if t = 0 \<or> t = idleThread (sc_state s p) then {} else {t}"
  have rt: "t \<in> running s" if "t \<noteq> 0" "t \<noteq> idleThread (sc_state s p)"
    using that p by (auto simp: running_def t_def)
  have idle: "t = 0 \<or> t = idleThread (sc_state s p) \<Longrightarrow> t \<notin> running s"
  proof
    assume "t = 0 \<or> t = idleThread (sc_state s p)" "t \<in> running s"
    moreover have "ready_thread s t"
      using D(4) \<open>t \<in> running s\<close> by (simp add: present_def)
    ultimately show False
      using p by (auto simp: ready_thread_def)
  qed
  have uniq: "currentThread (sc_state s q) \<noteq> t" if "q \<in> set (sc_chain s)" "q \<noteq> p" "t \<in> running s" for q
    using D(2) p that unfolding current_ok_def t_def by metis
  have rs: "running s' = running s - ?T"
  proof (intro equalityI subsetI)
    fix u
    assume "u \<in> running s'"
    then obtain q where q: "q \<in> set (sc_chain s)" "q \<noteq> p" "u = currentThread (sc_state s q)" "u \<noteq> 0" "u \<noteq> idleThread (sc_state s q)"
      by (auto simp: running_def s'_def split: if_splits)
    then show "u \<in> running s - ?T"
      using uniq [OF q(1,2)] rt by (auto simp: running_def)
  next
    fix u
    assume "u \<in> running s - ?T"
    then obtain q where "q \<in> set (sc_chain s)" "u = currentThread (sc_state s q)" "u \<noteq> 0" "u \<noteq> idleThread (sc_state s q)" "u \<notin> ?T"
      by (auto simp: running_def)
    then show "u \<in> running s'"
      by (auto simp: running_def s'_def t_def intro!: bexI [of _ q] split: if_splits)
  qed
  have ks: "keys s' = keys s" "all_lists s' = all_lists s" "sc_links s' = sc_links s"
    by (simp_all add: s'_def all_lists_upd)
  have rd: "ready_thread s' u = ready_thread s u" for u
    by (auto simp: ready_thread_def s'_def nice_of_def)
  show pr: "present s' Q = present s Q - ?T"
    using D(5) rt unfolding present_def ks rs by (auto split: if_splits)
  show "t \<noteq> 0 \<Longrightarrow> t \<noteq> idleThread (sc_state s p) \<Longrightarrow> ready_thread s' t \<and> clear_links (sc_links s') t \<and> t \<in> present s Q"
    using D(4,6) [of t] rt rd ks(3) by (metis UnCI present_def)
  have "ps_id (sc_state s' q) = ps_id (sc_state s q)" "proc_ok (sc_state s' q) = proc_ok (sc_state s q)"
      "idleThread (sc_state s' q) = idleThread (sc_state s q)" for q
    by (simp_all add: s'_def proc_ok_def)
  then have "processors_ok s'"
    using D(1) by (simp add: processors_ok_def) (simp add: s'_def)
  moreover have "0 \<notin> running s"
    by (simp add: running_def)
  then have "current_ok s'"
    using D(2) rs unfolding current_ok_def by (auto simp: s'_def)
  ultimately show "sched_inv s' Q"
    using D rd unfolding sched_inv_def ks rs present_def by blast
qed

text \<open>A thread that is nowhere is put into a queue of a processor.\<close>

lemma push_inv:
  assumes inv: "sched_inv s Q" and p: "p \<in> set (sc_chain s)" and n: "n < NICE_LEVELS"
    and t: "t \<notin> present s Q" "ready_thread s t" "clear_links (sc_links s) t"
  shows "\<exists>s' Q'. push_level p n t s = Inr s' \<and> sched_inv s' Q' \<and> present s' Q' = insert t (present s Q) \<and> kept p s s' \<and> same_running s s' \<and>
    sc_interrupts s' = sc_interrupts s \<and> sc_info s' = sc_info s \<and> others_kept False (insert t (present s Q)) (sc_links s) (sc_links s')"
proof -
  note D = sched_invD [OF inv]
  have kn: "(p, n) \<in> keys s" "all_lists s (p, n) = ps_threads (sc_state s p) ! n"
    using p n by (simp_all add: keys_def all_lists_def list_at_def)
  have t0: "t \<noteq> 0" "t \<notin> members (keys s) Q"
    using t(1,2) by (auto simp: ready_thread_def present_def)
  obtain th' l' where r: "push_level p n t s = Inr ((upd_state p (\<lambda>ps. ps\<lparr>ps_threads := (ps_threads ps)[n := l']\<rparr>) s)\<lparr>sc_links := th'\<rparr>)"
    "lists_inv th' ((all_lists s)((p, n) := l')) (keys s) (Q((p, n) := Q (p, n) @ [t]))" "others_kept False (insert t (set (Q (p, n)))) (sc_links s) th'"
    using push_level_ok [OF D(3) kn n t0 t(3)] by blast
  let ?s = "(upd_state p (\<lambda>ps. ps\<lparr>ps_threads := (ps_threads ps)[n := l']\<rparr>) s)\<lparr>sc_links := th'\<rparr>"
  have len: "length (ps_threads (sc_state s p)) = NICE_LEVELS"
    using D(1) p by (auto simp: processors_ok_def proc_ok_def)
  have al: "all_lists ?s = (all_lists s)((p, n) := l')"
    using all_lists_queue [OF n len, of ?s "(sc_state s p)\<lparr>ps_threads := (ps_threads (sc_state s p))[n := l']\<rparr>" l'] by simp
  have k: "kept p s ?s" "same_running s ?s" "sc_interrupts ?s = sc_interrupts s" "sc_info ?s = sc_info s"
    by (auto simp: kept_def same_ids_def same_running_def proc_ok_def)
  have "lists_inv (sc_links ?s) (all_lists ?s) (keys s) (Q((p, n) := Q (p, n) @ [t]))"
    unfolding al using r(2) by simp
  note a = add_inv [OF inv t(1,2) kn(1) this _ k(1,2)]
  have "insert t (set (Q (p, n))) \<subseteq> insert t (present s Q)"
    using kn(1) unfolding present_def by blast
  then show ?thesis
    using r(1,3) k a others_kept_mono [OF r(3)] by (intro exI [of _ ?s] exI [of _ "Q((p, n) := Q (p, n) @ [t])"]) simp
qed

end
