(* ===== verification/SchedulerSteps.thy ===== *)
theory SchedulerSteps
  imports SchedulerSafe
begin

text \<open>
  Each operation of the scheduler on the invariant: it returns, all locks are free again, and the set of threads
  the scheduler holds changes only by the thread that joins or leaves.
\<close>

section \<open>Parts of operations\<close>

lemma members_woken:
  assumes K: "{p} \<times> {..NICE_LEVELS} \<subseteq> K" and n: "\<forall>t \<in> set (Q (p, NICE_LEVELS)). nice_of s t < NICE_LEVELS"
  shows "members K (woken p ms s [] (Q (p, NICE_LEVELS)) Q) = members K Q"
proof (intro equalityI UN_least)
  fix k
  assume k: "k \<in> K"
  have S: "(p, NICE_LEVELS) \<in> K"
    using K by auto
  obtain q i where k': "k = (q, i)"
    by (cases k)
  have "set (woken p ms s [] (Q (p, NICE_LEVELS)) Q k) \<subseteq> set (Q k) \<union> set (Q (p, NICE_LEVELS))"
    by (auto simp: woken_def k')
  then show "set (woken p ms s [] (Q (p, NICE_LEVELS)) Q k) \<subseteq> members K Q"
    using k S by blast
  show "set (Q k) \<subseteq> members K (woken p ms s [] (Q (p, NICE_LEVELS)) Q)"
  proof
    fix x
    assume x: "x \<in> set (Q k)"
    show "x \<in> members K (woken p ms s [] (Q (p, NICE_LEVELS)) Q)"
    proof (cases "k = (p, NICE_LEVELS) \<and> time_up ms s x")
      case True
      then have "nice_of s x < NICE_LEVELS"
        using n x by simp
      then have "(p, nice_of s x) \<in> K"
        using subsetD [OF K, of "(p, nice_of s x)"] by simp
      then show ?thesis
        using True x n by (intro UN_I [of "(p, nice_of s x)"]) (auto simp: woken_def)
    next
      case False
      then show ?thesis
        using x k by (intro UN_I [OF k]) (auto simp: woken_def k')
    qed
  qed
qed

lemma same_thread_slept: "same_thread (info t) (slept ms T info t)"
  by (simp add: same_thread_def slept_def)

lemma awake_slept: "sc_info s' = slept ms T (sc_info s) \<Longrightarrow> awake_kept Z s s'"
  by (simp add: awake_kept_def slept_def)

lemma wake_inv:
  assumes inv: "sched_inv s Q" and p: "p \<in> set (sc_chain s)"
  shows "\<exists>s'. wake_sleepers p ms s = Inr s' \<and> sched_inv s' (woken p ms s [] (Q (p, NICE_LEVELS)) Q) \<and>
    present s' (woken p ms s [] (Q (p, NICE_LEVELS)) Q) = present s Q \<and> kept p s s' \<and> same_running s s' \<and>
    sc_interrupts s' = sc_interrupts s \<and> sc_info s' = slept ms (set (Q (p, NICE_LEVELS))) (sc_info s) \<and>
    others_kept False (present s Q) (sc_links s) (sc_links s')"
proof -
  note D = sched_invD [OF inv] and K = keys_row [OF p]
  let ?S = "(p, NICE_LEVELS)" and ?l = "(sleepingThreads (sc_state s p))\<lparr>tl_Lock := SPINLOCK_LOCKED_VALUE, tl_intState := sc_interrupts s\<rparr>"
  have S: "?S \<in> keys s" "all_lists s ?S = sleepingThreads (sc_state s p)"
    using p by (auto simp: keys_def all_lists_def list_at_def)
  note sl = lists_invD [OF D(3) S(1), unfolded S(2)]
  have mem: "set (Q ?S) \<subseteq> members (keys s) Q"
    using S(1) by blast
  have ready: "\<forall>t \<in> set (Q ?S). m_Parent (sc_info s t) \<noteq> 0 \<and> nice_of s t < NICE_LEVELS"
    using D(4) mem unfolding present_def ready_thread_def by blast
  let ?s = "s\<lparr>sc_interrupts := False\<rparr>"
  have w: "woken p ms ?s [] (Q ?S) Q = woken p ms s [] (Q ?S) Q"
    by (rule woken_cong) simp_all
  have "lists_inv (sc_links s) ((all_lists ?s)(?S := ?l\<lparr>tl_Lock := SPINLOCK_DEFAULT_VALUE\<rparr>)) (keys s) Q"
  proof -
    have "lists_inv (sc_links s) ((all_lists s)(?S := ?l\<lparr>tl_Lock := SPINLOCK_DEFAULT_VALUE\<rparr>)) (keys s) (Q(?S := Q ?S))"
      by (rule lists_inv_update [OF D(3) S(1), of _ _ _ "{}"]) (use sl in simp_all)
    then show ?thesis
      by (simp del: fun_upd_apply)
  qed
  then have "wake_post p ms (keys s) Q (sc_links s) ?l ?s [] (Q ?S)
      (ThreadList_Enumerate_loop (timer_callback p ms) (length (Q ?S)) (sc_links s) ?l (hd_or (Q ?S) 0) ?s)"
    by (rule wake_loop [OF _ _ K]) (use ready D(1) p in \<open>auto simp: processors_ok_def nice_of_def\<close>)
  moreover have "ThreadList_Enumerate (timer_callback p ms) (sc_links s) ?l ?s =
      ThreadList_Enumerate_loop (timer_callback p ms) (length (Q ?S)) (sc_links s) ?l (hd_or (Q ?S) 0) ?s"
    using tl_ok_ends(1,3) [OF sl(1)] by (simp add: ThreadList_Enumerate_def)
  ultimately obtain th' l' s1 where r: "ThreadList_Enumerate (timer_callback p ms) (sc_links s) ?l ?s = Inr (th', l', s1)"
      "lists_inv th' ((all_lists s1)(?S := l'\<lparr>tl_Lock := SPINLOCK_DEFAULT_VALUE\<rparr>)) (keys s) (woken p ms s [] (Q ?S) Q)"
      "tl_intState l' = sc_interrupts s" "others_kept False (members (keys s) Q) (sc_links s) th'" "kept p ?s s1" "same_running ?s s1"
      "\<not> sc_interrupts s1" "sc_info s1 = slept ms (set (Q ?S)) (sc_info s)"
    unfolding wake_post_def w by auto
  define s' where "s' = (upd_state p (\<lambda>ps. ps\<lparr>sleepingThreads := l'\<lparr>tl_Lock := SPINLOCK_DEFAULT_VALUE\<rparr>\<rparr>) s1)\<lparr>sc_links := th', sc_interrupts := sc_interrupts s\<rparr>"
  have run: "wake_sleepers p ms s = Inr s'"
    using sl(3) r(1,3,7) by (simp add: wake_sleepers_def lock_free unlock_held s'_def)
  have al: "all_lists s' = (all_lists s1)(?S := l'\<lparr>tl_Lock := SPINLOCK_DEFAULT_VALUE\<rparr>)"
    using all_lists_sleeping [of s' s1 p "(sc_state s1 p)\<lparr>sleepingThreads := l'\<lparr>tl_Lock := SPINLOCK_DEFAULT_VALUE\<rparr>\<rparr>"] by (simp add: s'_def)
  have k: "kept p s s'" "same_running s s'"
    using r(5,6) by (auto simp: s'_def kept_def same_ids_def same_running_def proc_ok_def)
  have info: "same_thread (sc_info s u) (sc_info s' u)" for u
    using r(8) same_thread_slept by (simp add: s'_def)
  have ks: "keys s' = keys s" and rs: "running s' = running s"
    using kept_keys [OF k(1)] running_cong [of s' s] k by (auto simp: kept_def same_running_def same_ids_def)
  have mem': "members (keys s) (woken p ms s [] (Q ?S) Q) = members (keys s) Q"
    by (rule members_woken [OF K]) (use ready in auto)
  have "current_ok s'"
    using D(2) k rs unfolding current_ok_def kept_def same_running_def same_ids_def by simp
  moreover have "clear_links th' u" if "u \<in> running s" for u
    using D(5,6) [OF that] others_kept_data [OF r(4), of u] by metis
  moreover have "lists_inv th' (all_lists s') (keys s) (woken p ms s [] (Q ?S) Q)"
    unfolding al using r(2) .
  moreover have "sc_links s' = th'"
    by (simp add: s'_def)
  ultimately have "sched_inv s' (woken p ms s [] (Q ?S) Q)"
    using kept_processors_ok [OF k(1) D(1)] D(4,5) kept_ready [OF k(1) info] unfolding sched_inv_def ks rs mem' present_def by simp
  moreover have "present s' (woken p ms s [] (Q ?S) Q) = present s Q"
    unfolding present_def ks rs mem' ..
  moreover have "others_kept False (present s Q) (sc_links s) th'"
    by (rule others_kept_mono [OF r(4)]) (simp add: present_def)
  ultimately show ?thesis
    using run k r(8) by (simp add: s'_def)
qed

text \<open>The thread that yields goes to sleep.\<close>

lemma sleep_inv:
  assumes inv: "sched_inv s Q" and p: "p \<in> set (sc_chain s)" and t: "t \<notin> present s Q" "ready_thread s t" "clear_links (sc_links s) t"
  shows "\<exists>s' Q'. push_sleeping p t s = Inr s' \<and> sched_inv s' Q' \<and> present s' Q' = insert t (present s Q) \<and> kept p s s' \<and> same_running s s' \<and>
    sc_interrupts s' = sc_interrupts s \<and> others_kept False (insert t (present s Q)) (sc_links s) (sc_links s') \<and> sc_info s' = sc_info s"
proof -
  note D = sched_invD [OF inv]
  let ?S = "(p, NICE_LEVELS)"
  have S: "?S \<in> keys s" "all_lists s ?S = sleepingThreads (sc_state s p)"
    using p by (auto simp: keys_def all_lists_def list_at_def)
  have t0: "t \<noteq> 0" "t \<notin> members (keys s) Q"
    using t(1,2) by (auto simp: ready_thread_def present_def)
  obtain th' l' where r: "ThreadList_lock (all_lists s ?S) (sc_interrupts s) = Inr ((all_lists s ?S)\<lparr>tl_Lock := SPINLOCK_LOCKED_VALUE, tl_intState := sc_interrupts s\<rparr>, False)"
    "ThreadList_pushBack (sc_links s) ((all_lists s ?S)\<lparr>tl_Lock := SPINLOCK_LOCKED_VALUE, tl_intState := sc_interrupts s\<rparr>) t = Inr (th', l')"
    "ThreadList_unlock l' False = (l'\<lparr>tl_Lock := SPINLOCK_DEFAULT_VALUE\<rparr>, sc_interrupts s)"
    "lists_inv th' ((all_lists s)(?S := l'\<lparr>tl_Lock := SPINLOCK_DEFAULT_VALUE\<rparr>)) (keys s) (Q(?S := Q ?S @ [t]))"
    "others_kept False (insert t (set (Q ?S))) (sc_links s) th'"
    using lists_push [OF D(3) S(1) t0 t(3)] by blast
  let ?l = "l'\<lparr>tl_Lock := SPINLOCK_DEFAULT_VALUE\<rparr>"
  let ?s = "(upd_state p (\<lambda>ps. ps\<lparr>sleepingThreads := ?l\<rparr>) s)\<lparr>sc_links := th'\<rparr>"
  have al: "all_lists ?s = (all_lists s)(?S := ?l)"
    using all_lists_sleeping [of ?s s p "(sc_state s p)\<lparr>sleepingThreads := ?l\<rparr>"] by simp
  have k: "kept p s ?s" "same_running s ?s"
    by (auto simp: kept_def same_ids_def same_running_def proc_ok_def)
  have "lists_inv (sc_links ?s) (all_lists ?s) (keys s) (Q(?S := Q ?S @ [t]))"
    unfolding al using r(4) by simp
  note a = add_inv [OF inv t(1,2) S(1) this _ k]
  have "push_sleeping p t s = Inr ?s"
    using r(1-3) S(2) by (simp add: push_sleeping_def upd_state_def)
  moreover have "insert t (set (Q ?S)) \<subseteq> insert t (present s Q)"
    using S(1) unfolding present_def by blast
  ultimately show ?thesis
    using a k r(5) others_kept_mono [OF r(5)] by (intro exI [of _ ?s] exI [of _ "Q(?S := Q ?S @ [t])"]) simp
qed

text \<open>Changing the accounting of a thread.\<close>

lemma info_inv:
  assumes "sched_inv s Q" "same_thread (sc_info s t) (g (sc_info s t))"
  shows "sched_inv (upd_info t g s) Q" "present (upd_info t g s) Q = present s Q"
  using sched_inv_cong [OF assms(1), of 0 "upd_info t g s"] assms(2) by (simp_all add: kept_def same_ids_def same_running_def)

lemma lock_inv:
  assumes "sched_inv s Q"
  shows "sched_inv (upd_state p (\<lambda>ps. ps\<lparr>ps_lock := v\<rparr>) s) Q" "present (upd_state p (\<lambda>ps. ps\<lparr>ps_lock := v\<rparr>) s) Q = present s Q"
proof -
  let ?s = "upd_state p (\<lambda>ps. ps\<lparr>ps_lock := v\<rparr>) s"
  have ks: "keys ?s = keys s" "all_lists ?s = all_lists s" "sc_links ?s = sc_links s" and rs: "running ?s = running s"
    by (simp_all add: all_lists_upd) (auto simp: running_def)
  have rd: "ready_thread ?s u = ready_thread s u" for u
    by (auto simp: ready_thread_def nice_of_def)
  show "present ?s Q = present s Q"
    unfolding present_def ks rs ..
  have f: "ps_id (sc_state ?s q) = ps_id (sc_state s q)" "proc_ok (sc_state ?s q) = proc_ok (sc_state s q)"
      "idleThread (sc_state ?s q) = idleThread (sc_state s q)" "currentThread (sc_state ?s q) = currentThread (sc_state s q)"
      "isIdle (sc_state ?s q) = isIdle (sc_state s q)" for q
    by (simp_all add: proc_ok_def)
  have "processors_ok ?s" "current_ok ?s"
    using sched_invD(1,2) [OF assms] unfolding processors_ok_def current_ok_def f rs by simp_all
  then show "sched_inv ?s Q"
    using assms rd unfolding sched_inv_def ks rs by blast
qed

text \<open>
  What an operation of processor \<open>p\<close> ends with: it holds the threads \<open>T\<close>, touched the links of threads of
  \<open>U\<close> only and gave time to sleep to threads of \<open>Z\<close> only.
\<close>

definition step_ok :: "u64 \<Rightarrow> Scheduler \<Rightarrow> u64 set \<Rightarrow> u64 set \<Rightarrow> u64 set \<Rightarrow> Scheduler res \<Rightarrow> bool" where
  "step_ok p s Z U T r \<longleftrightarrow>
     (\<exists>s' Q'. r = Inr s' \<and> sched_inv s' Q' \<and> present s' Q' = T \<and> kept p s s' \<and> others_kept False U (sc_links s) (sc_links s') \<and>
       (\<forall>u. same_thread (sc_info s u) (sc_info s' u)) \<and> awake_kept Z s s')"

lemma step_okI:
  "r = Inr s' \<Longrightarrow> sched_inv s' Q' \<Longrightarrow> present s' Q' = T \<Longrightarrow> kept p s s' \<Longrightarrow> others_kept False U (sc_links s) (sc_links s') \<Longrightarrow>
    (\<And>u. same_thread (sc_info s u) (sc_info s' u)) \<Longrightarrow> awake_kept Z s s' \<Longrightarrow> step_ok p s Z U T r"
  by (auto simp: step_ok_def)

lemma step_ok_trans:
  assumes "step_ok p s1 Z U T r" "kept p s s1" "others_kept False U' (sc_links s) (sc_links s1)" "awake_kept Z s s1" "U \<subseteq> V" "U' \<subseteq> V"
    "\<And>u. same_thread (sc_info s u) (sc_info s1 u)"
  shows "step_ok p s Z V T r"
  using assms(1) kept_trans [OF assms(2)] others_kept_trans [OF assms(3) _ assms(6,5)] same_thread_trans [OF assms(7)] awake_kept_trans [OF assms(4)]
  unfolding step_ok_def by blast

lemma dispatch_inv:
  assumes inv: "sched_inv s Q" and p: "sc_current s = p" "p \<in> set (sc_chain s)" and i: "\<not> sc_interrupts s" and c: "currentThread (sc_state s p) = 0"
  shows "step_ok p s {} (present s Q) (present s Q) (dispatch p s)"
proof -
  obtain s1 Q' where r: "PickNext False s = Inr s1" "sched_inv s1 Q'" "present s1 Q' = present s Q" "kept p s s1" "currentThread (sc_state s1 p) \<noteq> 0"
      "others_kept False (present s Q) (sc_links s) (sc_links s1)" "\<And>u. same_thread (sc_info s u) (sc_info s1 u)" "awake_kept {} s s1"
    using pick_inv [OF assms] by blast
  let ?t = "currentThread (sc_state s1 p)" and ?g = "\<lambda>i. i\<lparr>m_TimeRemaining := DEFAULT_TIMESLICE\<rparr>"
  have "sched_inv (upd_info ?t ?g s1) Q'" "present (upd_info ?t ?g s1) Q' = present s1 Q'"
    using info_inv [OF r(2), of ?t ?g] by (simp_all add: same_thread_def)
  moreover have "kept p s (upd_info ?t ?g s1)"
    using r(4) by (simp add: kept_def)
  ultimately show ?thesis
    using r by (intro step_okI [of _ "upd_info ?t ?g s1" Q']) (simp_all add: dispatch_def same_thread_def awake_kept_def)
qed

text \<open>The current thread goes back to the queue of its level.\<close>

lemma push_level_vacate:
  "push_level p n t (upd_state p (\<lambda>ps. ps\<lparr>currentThread := 0\<rparr>) s) =
     bindR (push_level p n t s) (\<lambda>s. Inr (upd_state p (\<lambda>ps. ps\<lparr>currentThread := 0\<rparr>) s))"
  by (auto simp: push_level_def bindR_def upd_state_def Let_def unlock_held intro!: Scheduler.equality split: sum.splits)

lemma requeue_inv:
  assumes inv: "sched_inv s Q" and p: "p \<in> set (sc_chain s)" and t: "currentThread (sc_state s p) = t" "t \<noteq> 0" "t \<noteq> idleThread (sc_state s p)"
  shows "\<exists>s' Q'. bindR (GetNice t s) (\<lambda>n. push_level p n t s) = Inr s' \<and> sched_inv (upd_state p (\<lambda>ps. ps\<lparr>currentThread := 0\<rparr>) s') Q' \<and>
    present (upd_state p (\<lambda>ps. ps\<lparr>currentThread := 0\<rparr>) s') Q' = present s Q \<and> kept p s (upd_state p (\<lambda>ps. ps\<lparr>currentThread := 0\<rparr>) s') \<and>
    sc_interrupts s' = sc_interrupts s \<and> others_kept False (present s Q) (sc_links s) (sc_links s') \<and> sc_info s' = sc_info s"
proof -
  let ?v = "\<lambda>s. upd_state p (\<lambda>ps. ps\<lparr>currentThread := 0\<rparr>) s"
  note v = vacate_inv [OF inv p, unfolded t(1)]
  have rd: "ready_thread (?v s) t" "clear_links (sc_links (?v s)) t" "t \<in> present s Q" "t \<notin> present (?v s) Q"
    using v(2,3) t by auto
  have n: "m_Parent (sc_info s t) \<noteq> 0" "nice_of s t < NICE_LEVELS"
    using rd(1) by (simp_all add: ready_thread_def nice_of_def)
  obtain s1 Q' where r: "push_level p (nice_of s t) t (?v s) = Inr s1" "sched_inv s1 Q'" "present s1 Q' = insert t (present (?v s) Q)" "kept p (?v s) s1"
      "sc_interrupts s1 = sc_interrupts s" "others_kept False (insert t (present (?v s) Q)) (sc_links s) (sc_links s1)"
      "sc_info s1 = sc_info s"
    using push_inv [OF v(1) _ n(2) rd(4,1,2), of p] p by auto
  then obtain s' where s': "push_level p (nice_of s t) t s = Inr s'" "s1 = ?v s'"
    unfolding push_level_vacate by (cases "push_level p (nice_of s t) t s") auto
  have "kept p s (?v s)"
    by (simp add: kept_def same_ids_def proc_ok_def)
  then have "kept p s s1"
    using kept_trans r(4) by blast
  moreover have "insert t (present (?v s) Q) = present s Q"
    using v(2) t rd(3) by auto
  ultimately show ?thesis
    using r(2,3,5-7) s' n(1) by (intro exI [of _ s'] exI [of _ Q']) (simp add: GetNice_def nice_of_def)
qed

section \<open>Operations\<close>

lemma TimerTick_inv:
  assumes inv: "sched_inv s Q" and p: "sc_current s = p" "p \<in> set (sc_chain s)" and i: "\<not> sc_interrupts s"
  shows "step_ok p s {} (present s Q) (present s Q) (TimerTick ms s)"
proof (cases "startAllowed (sc_state s p) = 0")
  case True
  then show ?thesis
    using inv p by (intro step_okI [of _ s Q]) (simp_all add: TimerTick_def awake_kept_same)
next
  case False
  have p0: "p \<noteq> 0"
    using sched_invD(1) [OF inv] p by (auto simp: processors_ok_def)
  obtain s1 Q1 where w: "wake_sleepers p ms s = Inr s1" "sched_inv s1 Q1" "present s1 Q1 = present s Q" "kept p s s1" "\<not> sc_interrupts s1"
      "others_kept False (present s Q) (sc_links s) (sc_links s1)" "sc_info s1 = slept ms (set (Q (p, NICE_LEVELS))) (sc_info s)"
    using wake_inv [OF inv p(2), of ms] i by blast
  have i1: "same_thread (sc_info s u) (sc_info s1 u)" for u
    unfolding w(7) by (rule same_thread_slept)
  have a1: "awake_kept {} s s1"
    by (rule awake_slept [OF w(7)])
  have p1: "sc_current s1 = p" "p \<in> set (sc_chain s1)"
    using w(4) p by (simp_all add: kept_def)
  let ?old = "currentThread (sc_state s1 p)"
  define s2 where "s2 = upd_info ?old (\<lambda>i. i\<lparr>m_TimeRemaining := (if ms \<ge> m_TimeRemaining (sc_info s1 ?old) then 0 else m_TimeRemaining (sc_info s1 ?old) - ms)\<rparr>) s1"
  have s2: "sched_inv s2 Q1" "present s2 Q1 = present s Q" "kept p s s2" "sc_current s2 = p" "p \<in> set (sc_chain s2)" "\<not> sc_interrupts s2"
      "sc_state s2 = sc_state s1" "others_kept False (present s Q) (sc_links s) (sc_links s2)"
    using info_inv [OF w(2)] w(3-6) p1 by (simp_all add: s2_def same_thread_def kept_def)
  have i2: "same_thread (sc_info s u) (sc_info s2 u)" for u
    using i1 by (simp add: s2_def same_thread_def)
  have a2: "awake_kept {} s s2"
    using a1 by (simp add: s2_def awake_kept_def)
  note cur = sched_invD(2) [OF w(2), unfolded current_ok_def]
  have tick: "TimerTick ms s = (if ?old = 0 then dispatch p s1
     else if m_TimeRemaining (sc_info s2 ?old) > 0 \<and> isIdle (sc_state s2 p) = 0 then Inr s2
     else bindR (if isIdle (sc_state s2 p) = 0 then bindR (GetNice ?old s2) (\<lambda>n. push_level p n ?old s2) else Inr s2)
       (\<lambda>s. dispatch p (upd_state p (\<lambda>ps. ps\<lparr>currentThread := 0\<rparr>) s)))"
    using False p p0 w(1) by (simp add: TimerTick_def s2_def Let_def)
  consider "?old = 0" | "?old \<noteq> 0" "m_TimeRemaining (sc_info s2 ?old) > 0" "isIdle (sc_state s2 p) = 0"
    | "?old \<noteq> 0" "isIdle (sc_state s2 p) = 0" "\<not> m_TimeRemaining (sc_info s2 ?old) > 0" | "?old \<noteq> 0" "isIdle (sc_state s2 p) \<noteq> 0"
    by blast
  then show ?thesis
  proof cases
    case 1
    then show ?thesis
      using step_ok_trans [OF dispatch_inv [OF w(2) p1 w(5) 1] w(4,6) a1] i1 tick w(3) by simp
  next
    case 2
    then show ?thesis
      using tick s2 i2 a2 by (intro step_okI [of _ s2 Q1]) simp_all
  next
    case 3
    then have "?old \<noteq> idleThread (sc_state s2 p)"
      using cur p1(2) s2(7) by metis
    then obtain s3 Q3 where r: "bindR (GetNice ?old s2) (\<lambda>n. push_level p n ?old s2) = Inr s3"
        "sched_inv (upd_state p (\<lambda>ps. ps\<lparr>currentThread := 0\<rparr>) s3) Q3" "present (upd_state p (\<lambda>ps. ps\<lparr>currentThread := 0\<rparr>) s3) Q3 = present s Q"
        "kept p s2 (upd_state p (\<lambda>ps. ps\<lparr>currentThread := 0\<rparr>) s3)" "\<not> sc_interrupts s3" "others_kept False (present s Q) (sc_links s2) (sc_links s3)"
        "sc_info s3 = sc_info s2"
      using requeue_inv [OF s2(1,5), of ?old] 3 s2(2,6,7) by auto
    let ?s = "upd_state p (\<lambda>ps. ps\<lparr>currentThread := 0\<rparr>) s3"
    have "step_ok p ?s {} (present s Q) (present s Q) (dispatch p ?s)"
      using dispatch_inv [OF r(2), of p] r(3-5) s2(4,5) by (simp add: kept_def)
    moreover have "others_kept False (present s Q) (sc_links s) (sc_links ?s)"
      using others_kept_trans [OF s2(8) r(6)] by simp
    ultimately have "step_ok p s {} (present s Q) (present s Q) (dispatch p ?s)"
      using step_ok_trans [OF _ kept_trans [OF s2(3) r(4)], of "{}" _ _ _ "present s Q" "present s Q"] i2 r(7) a2 by (simp add: awake_kept_def)
    then show ?thesis
      using tick 3 r(1) by simp
  next
    case 4
    then have "?old = idleThread (sc_state s2 p)"
      using cur p1(2) s2(7) by metis
    then have v: "sched_inv (upd_state p (\<lambda>ps. ps\<lparr>currentThread := 0\<rparr>) s2) Q1" "present (upd_state p (\<lambda>ps. ps\<lparr>currentThread := 0\<rparr>) s2) Q1 = present s Q"
      using vacate_inv(1,2) [OF s2(1,5)] s2(2,7) by simp_all
    have k: "kept p s (upd_state p (\<lambda>ps. ps\<lparr>currentThread := 0\<rparr>) s2)"
      using s2(3) by (auto simp: kept_def same_ids_def proc_ok_def)
    let ?s = "upd_state p (\<lambda>ps. ps\<lparr>currentThread := 0\<rparr>) s2"
    have "step_ok p ?s {} (present s Q) (present s Q) (dispatch p ?s)"
      using dispatch_inv [OF v(1), of p] v(2) s2(4-6) by simp
    then have "step_ok p s {} (present s Q) (present s Q) (dispatch p ?s)"
      using step_ok_trans [OF _ k, of "{}" _ _ _ "present s Q"] s2(8) i2 a2 by (simp add: awake_kept_def)
    then show ?thesis
      using tick 4 by simp
  qed
qed

text \<open>A yield runs under the lock of the processor, with interrupts off.\<close>

definition locked :: "u64 \<Rightarrow> Scheduler \<Rightarrow> Scheduler" where
  "locked p s = upd_state p (\<lambda>ps. ps\<lparr>ps_lock := SPINLOCK_LOCKED_VALUE\<rparr>) (s\<lparr>sc_interrupts := False\<rparr>)"

lemma locked_inv:
  assumes "sched_inv s Q"
  shows "sched_inv (locked p s) Q" "present (locked p s) Q = present s Q"
proof -
  have i: "sched_inv (s\<lparr>sc_interrupts := False\<rparr>) Q" "present (s\<lparr>sc_interrupts := False\<rparr>) Q = present s Q"
    using sched_inv_cong [OF assms, of 0 "s\<lparr>sc_interrupts := False\<rparr>"] by (simp_all add: kept_def same_ids_def same_running_def)
  show "sched_inv (locked p s) Q" "present (locked p s) Q = present s Q"
    unfolding locked_def using lock_inv [OF i(1)] i(2) by simp_all
qed

lemma locked_simps [simp]:
  "sc_current (locked p s) = sc_current s" "sc_chain (locked p s) = sc_chain s" "\<not> sc_interrupts (locked p s)" "sc_info (locked p s) = sc_info s"
  "sc_links (locked p s) = sc_links s" "currentThread (sc_state (locked p s) q) = currentThread (sc_state s q)"
  "idleThread (sc_state (locked p s) q) = idleThread (sc_state s q)" "nice_of (locked p s) t = nice_of s t" "sc_nice (locked p s) = sc_nice s"
  by (simp_all add: locked_def nice_of_def)

definition yield_end :: "u64 \<Rightarrow> Scheduler \<Rightarrow> Scheduler res" where
  "yield_end p s =
     (let t = currentThread (sc_state s p) in
      if t = 0 then Inl Panicked
      else Inr (upd_state p (\<lambda>ps. ps\<lparr>ps_lock := spinlock_release (ps_lock ps)\<rparr>) (upd_info t (\<lambda>i. i\<lparr>m_TimeRemaining := DEFAULT_TIMESLICE\<rparr>) s)))"

lemma bindR_assoc: "bindR (bindR r f) g = bindR r (\<lambda>x. bindR (f x) g)"
  by (simp add: bindR_def split: sum.splits)

lemma Yield_Internal_locked:
  assumes "sc_current s = p" "p \<noteq> 0" "ps_lock (sc_state s p) = SPINLOCK_DEFAULT_VALUE"
  shows "Yield_Internal cb force old s =
     bindR
       (if old \<noteq> 0 then
          bindR
            (if sleepRemainingTime (sc_info s old) > 0 then push_sleeping p old (locked p s)
             else if yieldCallback (sc_info s old) \<noteq> 0 then cb (yieldCallback (sc_info s old)) old (locked p s)
             else Inr (locked p s))
            (PickNext False)
        else
          bindR
            (if currentThread (sc_state s p) \<noteq> 0 \<and> force then
               bindR (bindR (GetNice (currentThread (sc_state s p)) (locked p s)) (\<lambda>n. push_level p n (currentThread (sc_state s p)) (locked p s)))
                 (\<lambda>s. Inr (upd_state p (\<lambda>ps. ps\<lparr>currentThread := 0\<rparr>) s))
             else Inr (locked p s))
            (if currentThread (sc_state s p) = 0 \<or> force then PickNext False else Inr))
       (yield_end p)"
proof -
  have l: "upd_state p (\<lambda>ps. ps\<lparr>ps_lock := SPINLOCK_LOCKED_VALUE\<rparr>) (s\<lparr>sc_interrupts := False\<rparr>) = locked p s"
    by (simp add: locked_def)
  show ?thesis
    using assms unfolding Yield_Internal_def yield_end_def [abs_def] Let_def
    by (simp add: l bindR_assoc cong: if_cong)
qed

lemma yield_end_ok:
  assumes inv: "sched_inv s2 Q2" and c: "currentThread (sc_state s2 p) \<noteq> 0" and k: "kept p (locked p s) s2"
    and lk: "ps_lock (sc_state s p) = SPINLOCK_DEFAULT_VALUE" and th: "others_kept False U (sc_links s) (sc_links s2)"
      "\<And>u. same_thread (sc_info s u) (sc_info s2 u)" "awake_kept Z s s2"
  shows "step_ok p s Z U (present s2 Q2) (yield_end p s2)"
proof -
  let ?i = "upd_info (currentThread (sc_state s2 p)) (\<lambda>i. i\<lparr>m_TimeRemaining := DEFAULT_TIMESLICE\<rparr>) s2"
  let ?s = "upd_state p (\<lambda>ps. ps\<lparr>ps_lock := SPINLOCK_DEFAULT_VALUE\<rparr>) ?i"
  have i: "sched_inv ?i Q2" "present ?i Q2 = present s2 Q2"
    using info_inv [OF inv] by (simp_all add: same_thread_def)
  have "kept p s ?s"
    using k lk by (auto simp: kept_def same_ids_def locked_def proc_ok_def split: if_splits)
  then show ?thesis
    using lock_inv [OF i(1)] i(2) c th by (intro step_okI [of _ ?s Q2]) (simp_all add: yield_end_def spinlock_release_def same_thread_def awake_kept_def)
qed

text \<open>A yield of the running thread.\<close>

lemma Yield_inv:
  assumes inv: "sched_inv s Q" and p: "sc_current s = p" "p \<in> set (sc_chain s)" and lk: "ps_lock (sc_state s p) = SPINLOCK_DEFAULT_VALUE"
    and f: "force \<longrightarrow> currentThread (sc_state s p) \<noteq> idleThread (sc_state s p)"
  shows "step_ok p s {} (present s Q) (present s Q) (Yield_Internal cb force 0 s)"
proof -
  have p0: "p \<noteq> 0"
    using sched_invD(1) [OF inv] p by (auto simp: processors_ok_def)
  let ?c = "currentThread (sc_state s p)"
  note l = locked_inv [OF inv, of p] and y = Yield_Internal_locked [OF p(1) p0 lk, of cb force 0]
  consider "?c = 0" | "?c \<noteq> 0" "force" | "?c \<noteq> 0" "\<not> force"
    by blast
  then show ?thesis
  proof cases
    case 1
    then obtain s2 Q2 where "PickNext False (locked p s) = Inr s2" "sched_inv s2 Q2" "present s2 Q2 = present s Q" "kept p (locked p s) s2"
        "currentThread (sc_state s2 p) \<noteq> 0" "others_kept False (present s Q) (sc_links s) (sc_links s2)"
        "\<And>u. same_thread (sc_info s u) (sc_info s2 u)" "awake_kept {} s s2"
      using pick_inv [OF l(1), of p] p l(2) by (auto simp: awake_kept_def)
    then show ?thesis
      using yield_end_ok [of s2 Q2 p s] lk y 1 by simp
  next
    case 2
    then obtain s1 Q1 where r: "bindR (GetNice ?c (locked p s)) (\<lambda>n. push_level p n ?c (locked p s)) = Inr s1"
        "sched_inv (upd_state p (\<lambda>ps. ps\<lparr>currentThread := 0\<rparr>) s1) Q1" "present (upd_state p (\<lambda>ps. ps\<lparr>currentThread := 0\<rparr>) s1) Q1 = present s Q"
        "kept p (locked p s) (upd_state p (\<lambda>ps. ps\<lparr>currentThread := 0\<rparr>) s1)" "\<not> sc_interrupts s1"
        "others_kept False (present s Q) (sc_links s) (sc_links s1)" "sc_info s1 = sc_info s"
      using requeue_inv [OF l(1), of p ?c] p f l(2) by auto
    let ?s = "upd_state p (\<lambda>ps. ps\<lparr>currentThread := 0\<rparr>) s1"
    have ps: "sc_current ?s = p" "p \<in> set (sc_chain ?s)" "\<not> sc_interrupts ?s" "currentThread (sc_state ?s p) = 0"
      using r(4,5) p by (simp_all add: kept_def)
    obtain s2 Q2 where "PickNext False ?s = Inr s2" "sched_inv s2 Q2" "present s2 Q2 = present s Q" "kept p ?s s2" "currentThread (sc_state s2 p) \<noteq> 0"
        "others_kept False (present s Q) (sc_links s1) (sc_links s2)" "\<And>u. same_thread (sc_info s1 u) (sc_info s2 u)"
        "awake_kept {} s s2"
      using pick_inv [OF r(2) ps] r(3,7) by (auto simp: awake_kept_def)
    then show ?thesis
      using yield_end_ok [of s2 Q2 p s] lk y 2 r(1,7) kept_trans [OF r(4)] others_kept_trans [OF r(6)] by simp
  next
    case 3
    then show ?thesis
      using yield_end_ok [OF l(1), of p s] lk y l(2) by (simp add: awake_kept_same)
  qed
qed

text \<open>A yield after the running thread left: it sleeps if it has time to sleep, otherwise it is on its own.\<close>

lemma Yield_asleep_inv:
  assumes inv: "sched_inv s Q" and p: "sc_current s = p" "p \<in> set (sc_chain s)" and lk: "ps_lock (sc_state s p) = SPINLOCK_DEFAULT_VALUE"
    and c: "currentThread (sc_state s p) = 0" and t: "t \<notin> present s Q" "sleepRemainingTime (sc_info s t) > 0" "ready_thread s t" "clear_links (sc_links s) t"
  shows "step_ok p s {} (insert t (present s Q)) (insert t (present s Q)) (Yield_Internal cb force t s)"
proof -
  have p0: "p \<noteq> 0"
    using sched_invD(1) [OF inv] p by (auto simp: processors_ok_def)
  note l = locked_inv [OF inv, of p] and y = Yield_Internal_locked [OF p(1) p0 lk, of cb force t]
  have rd: "ready_thread (locked p s) t" "clear_links (sc_links (locked p s)) t" "t \<notin> present (locked p s) Q" "t \<noteq> 0"
    using t l(2) by (auto simp: ready_thread_def)
  have pl: "p \<in> set (sc_chain (locked p s))"
    using p by simp
  obtain s1 Q1 where r: "push_sleeping p t (locked p s) = Inr s1" "sched_inv s1 Q1" "present s1 Q1 = insert t (present s Q)"
      "kept p (locked p s) s1" "same_running (locked p s) s1" "\<not> sc_interrupts s1" "others_kept False (insert t (present s Q)) (sc_links s) (sc_links s1)" "sc_info s1 = sc_info s"
    using sleep_inv [OF l(1) pl rd(3,1,2)] l(2) by auto
  have ps: "sc_current s1 = p" "p \<in> set (sc_chain s1)" "\<not> sc_interrupts s1" "currentThread (sc_state s1 p) = 0"
    using r(4-6) p c by (simp_all add: kept_def same_running_def)
  obtain s2 Q2 where "PickNext False s1 = Inr s2" "sched_inv s2 Q2" "present s2 Q2 = insert t (present s Q)" "kept p s1 s2" "currentThread (sc_state s2 p) \<noteq> 0"
      "others_kept False (insert t (present s Q)) (sc_links s1) (sc_links s2)" "\<And>u. same_thread (sc_info s1 u) (sc_info s2 u)" "awake_kept {} s1 s2"
    using pick_inv [OF r(2) ps] r(3) by auto
  then have "step_ok p s {} (insert t (present s Q)) (insert t (present s Q)) (yield_end p s2)" "PickNext False s1 = Inr s2"
    using yield_end_ok [of s2 Q2 p s "insert t (present s Q)" "{}"] lk kept_trans [OF r(4)] others_kept_trans [OF r(7)] r(8) by (auto simp: awake_kept_def)
  then show ?thesis
    using y rd(4) t(2) r(1) by simp
qed

lemma Yield_away_inv:
  assumes inv: "sched_inv s Q" and p: "sc_current s = p" "p \<in> set (sc_chain s)" and lk: "ps_lock (sc_state s p) = SPINLOCK_DEFAULT_VALUE"
    and c: "currentThread (sc_state s p) = 0" and t: "t \<noteq> 0 \<Longrightarrow> yieldCallback (sc_info s t) = 0 \<and> sleepRemainingTime (sc_info s t) = 0"
  shows "step_ok p s {} (present s Q) (present s Q) (Yield_Internal cb False t s)"
proof (cases "t = 0")
  case True
  then show ?thesis
    using Yield_inv [OF inv p lk, of False cb] by simp
next
  case False
  have p0: "p \<noteq> 0"
    using sched_invD(1) [OF inv] p by (auto simp: processors_ok_def)
  note l = locked_inv [OF inv, of p] and y = Yield_Internal_locked [OF p(1) p0 lk, of cb False t]
  obtain s2 Q2 where r: "PickNext False (locked p s) = Inr s2" "sched_inv s2 Q2" "present s2 Q2 = present s Q" "kept p (locked p s) s2"
      "currentThread (sc_state s2 p) \<noteq> 0" "others_kept False (present s Q) (sc_links s) (sc_links s2)"
      "\<And>u. same_thread (sc_info s u) (sc_info s2 u)" "awake_kept {} s s2"
    using pick_inv [OF l(1), of p] p l(2) c by (auto simp: awake_kept_def)
  then have "step_ok p s {} (present s Q) (present s Q) (yield_end p s2)"
    using yield_end_ok [OF r(2,5,4) lk r(6-8)] by simp
  with r(1) show ?thesis
    using y t False by simp
qed

lemma RemoveCurrentThread_ok:
  assumes "sc_current s = p" "p \<noteq> 0" "ps_lock (sc_state s p) = SPINLOCK_DEFAULT_VALUE"
  shows "RemoveCurrentThread True s = Inr (upd_state p (\<lambda>ps. ps\<lparr>currentThread := 0\<rparr>) s, currentThread (sc_state s p))"
proof -
  have "upd_state p (\<lambda>ps. ps\<lparr>currentThread := 0, ps_lock := SPINLOCK_DEFAULT_VALUE\<rparr>) s = upd_state p (\<lambda>ps. ps\<lparr>currentThread := 0\<rparr>) s"
    by (rule upd_state_cong) (use assms in simp)
  then show ?thesis
    using assms by (simp add: RemoveCurrentThread_def Let_def)
qed

lemma vacate_kept: "kept p s (upd_state p (\<lambda>ps. ps\<lparr>currentThread := 0\<rparr>) s)"
  by (simp add: kept_def same_ids_def proc_ok_def)

lemma Sleep_inv:
  assumes inv: "sched_inv s Q" and p: "sc_current s = p" "p \<in> set (sc_chain s)" and i: "\<not> sc_interrupts s"
    and lk: "ps_lock (sc_state s p) = SPINLOCK_DEFAULT_VALUE" and f: "currentThread (sc_state s p) \<noteq> idleThread (sc_state s p)"
  shows "step_ok p s {currentThread (sc_state s p)} (present s Q) (present s Q) (SleepCurrentThread cb ms s)"
proof (cases "ms = 0")
  case True
  then show ?thesis
    using inv by (intro step_okI [of _ s Q]) (simp_all add: SleepCurrentThread_def awake_kept_same)
next
  case False
  have p0: "p \<noteq> 0"
    using sched_invD(1) [OF inv] p by (auto simp: processors_ok_def)
  let ?v = "upd_state p (\<lambda>ps. ps\<lparr>currentThread := 0\<rparr>) s" and ?t = "currentThread (sc_state s p)"
  have si: "s\<lparr>sc_interrupts := False\<rparr> = s" "?v\<lparr>sc_interrupts := sc_interrupts s\<rparr> = ?v"
    using i by (simp_all add: upd_state_def)
  note v = vacate_inv [OF inv p(2)] and r = RemoveCurrentThread_ok [OF p(1) p0 lk]
  let ?s = "upd_info ?t (\<lambda>i. i\<lparr>sleepRemainingTime := ms\<rparr>) ?v"
  have go: "SleepCurrentThread cb ms s = (if ?t = 0 then Inr ?v else Yield_Internal cb False ?t ?s)"
    unfolding SleepCurrentThread_def si(1) r bindR_simps prod.case si(2) using False by (rule if_not_P)
  show ?thesis
  proof (cases "?t = 0")
    case True
    then show ?thesis
      using go v(1,2) vacate_kept [of p s] by (intro step_okI [of _ ?v Q]) (simp_all add: awake_kept_same)
  next
    case t: False
    have a: "sched_inv ?s Q" "present ?s Q = present s Q - {?t}"
      using info_inv [OF v(1)] v(2) t f by (simp_all add: same_thread_def)
    have rd: "ready_thread ?s ?t" "clear_links (sc_links ?s) ?t" "?t \<in> present s Q"
      using v(3) t f by (auto simp: ready_thread_def nice_of_def)
    have "step_ok p ?s {} (insert ?t (present ?s Q)) (insert ?t (present ?s Q)) (Yield_Internal cb False ?t ?s)"
      using Yield_asleep_inv [OF a(1), of p ?t cb False] p lk rd(1,2) a(2) False by (simp add: word_greater_zero_iff)
    moreover have "insert ?t (present ?s Q) = present s Q" "kept p s ?s"
      using a(2) rd(3) vacate_kept [of p s] by (auto simp: kept_def)
    moreover have "step_ok p ?s {?t} U T r" if "step_ok p ?s {} U T r" for U T r
      using that unfolding step_ok_def using awake_kept_mono by blast
    ultimately have "step_ok p s {?t} (present s Q) (present s Q) (Yield_Internal cb False ?t ?s)"
      using step_ok_trans [of p ?s "{?t}" "present s Q" "present s Q" _ s "present s Q"] by (simp add: same_thread_def awake_kept_def)
    then show ?thesis
      using go t by simp
  qed
qed

text \<open>A thread that was in none of the lists becomes ready.\<close>

lemma AddExistingThread_inv:
  assumes inv: "sched_inv s Q" and p: "sc_current s = p" "p \<in> set (sc_chain s)" and t: "t \<notin> present s Q" "ready_thread s t"
  shows "\<exists>s' Q'. AddExistingThread t s = Inr (s', True) \<and> sched_inv s' Q' \<and> present s' Q' = insert t (present s Q) \<and> kept p s s' \<and> same_running s s' \<and>
    others_kept False (insert t (present s Q)) (sc_links s) (sc_links s') \<and> (\<forall>u. same_thread (sc_info s u) (sc_info s' u)) \<and> awake_kept {} s s'"
proof -
  note D = sched_invD [OF inv]
  have p0: "p \<noteq> 0"
    using D(1) p by (auto simp: processors_ok_def)
  let ?g = "\<lambda>i. i\<lparr>m_TimeRemaining := DEFAULT_TIMESLICE, sleepRemainingTime := 0\<rparr>"
  let ?h = "\<lambda>i. i\<lparr>CPUInfo_state := p, CPUInfo_lock := SPINLOCK_DEFAULT_VALUE\<rparr>"
  let ?s1 = "upd_info t ?h (upd_info t ?g s)"
  let ?th = "set_data False (sc_links s) t \<lparr>tl_previous = 0, tl_next = 0\<rparr>"
  define s2 where "s2 = ?s1\<lparr>sc_links := ?th\<rparr>"
  have rd: "m_Parent (sc_info s t) \<noteq> 0" "nice_of s t < NICE_LEVELS" "CPUInfo_lock (sc_info s t) = SPINLOCK_DEFAULT_VALUE"
    using t(2) by (simp_all add: ready_thread_def)
  have go: "AddExistingThread t s = bindR (push_level p (nice_of s t) t s2) (\<lambda>s. Inr (s, True))"
    using p(1) p0 rd by (simp add: AddExistingThread_def nice_of_def s2_def spinlock_release_def Let_def)
  have th: "others_kept False {t} (sc_links s) ?th"
    by (rule others_kept_set_data) simp_all
  have k: "kept p s s2" "same_running s s2" "same_thread (sc_info s u) (sc_info s2 u)" for u
    using rd(3) by (auto simp: s2_def kept_def same_ids_def same_running_def same_thread_def)
  have ks: "keys s2 = keys s" and rs: "running s2 = running s" and al: "all_lists s2 = all_lists s"
    using k by (auto simp: s2_def running_def)
  have tm: "t \<notin> members (keys s) Q" "t \<notin> running s"
    using t(1) unfolding present_def by blast+
  have "lists_inv ?th (all_lists s2) (keys s) Q"
    unfolding al by (rule lists_inv_frame [OF D(3) th]) (use tm(1) in blast)
  moreover have "clear_links ?th u" if "u \<in> running s" for u
    using D(6) [OF that] others_kept_data [OF th, of u] by (cases "u = t") simp_all
  moreover have "current_ok s2"
    using D(2) k(1,2) rs unfolding current_ok_def kept_def same_running_def same_ids_def by simp
  moreover have lk: "sc_links s2 = ?th"
    by (simp add: s2_def)
  ultimately have inv2: "sched_inv s2 Q"
    using kept_processors_ok [OF k(1) D(1)] D(4,5) kept_ready [OF k(1,3)] unfolding sched_inv_def ks rs present_def by simp
  have pr: "present s2 Q = present s Q"
    unfolding present_def ks rs ..
  have "clear_links (sc_links s2) t" "ready_thread s2 t" "t \<notin> present s2 Q" "p \<in> set (sc_chain s2)"
    using kept_ready [OF k(1,3)] t pr p by (simp_all add: s2_def)
  then obtain s' Q' where "push_level p (nice_of s t) t s2 = Inr s'" "sched_inv s' Q'" "present s' Q' = insert t (present s Q)" "kept p s2 s'"
      "same_running s2 s'" "others_kept False (insert t (present s Q)) ?th (sc_links s')" "sc_info s' = sc_info s2"
    using push_inv [OF inv2 _ rd(2), of p t] pr lk by auto
  then show ?thesis
    using go kept_trans [OF k(1)] others_kept_trans [OF th] k(2,3) by (auto simp: awake_kept_def same_running_def s2_def)
qed

end
