(* ===== verification/SchedulerProps.thy ===== *)
theory SchedulerProps
  imports SchedulerWait SchedulerSteps
begin

text \<open>
  The properties of the scheduler: which thread runs next, how long a thread can wait, that no thread is lost
  or runs twice, what the timer does with sleeping threads, and the numbering of the processors.
\<close>

section \<open>An example system\<close>

text \<open>One processor at address 1 with idle thread 100, and thread 7 of process 50 ready at level 8.\<close>

definition ex_ready :: ThreadList where
  "ex_ready = (ThreadList_new False)\<lparr>tl_Head := 7, tl_Tail := 7, tl_Count := 1\<rparr>"

definition ex_processor :: ProcessorState where
  "ex_processor = \<lparr>ps_id = 0, ps_processor = 1, currentThread = 0, idleThread = 100, runCounts = replicate NICE_LEVELS 0,
     ps_threads = (replicate NICE_LEVELS (ThreadList_new False))[8 := ex_ready], sleepingThreads = ThreadList_new False,
     isIdle = 0, startAllowed = 1, ps_lock = SPINLOCK_DEFAULT_VALUE, ps_prev = 0\<rparr>"

definition ex_sched :: Scheduler where
  "ex_sched = \<lparr>sc_links = no_links,
     sc_info = (\<lambda>t. \<lparr>m_Parent = 50, m_TID = 0, m_TimeRemaining = 0, sleepRemainingTime = 0, yieldCallback = 0, CPUInfo_state = 0,
       CPUInfo_lock = SPINLOCK_DEFAULT_VALUE\<rparr>),
     sc_nice = (\<lambda>p. 8), sc_state = (\<lambda>p. ex_processor), sc_chain = [1], sc_current = 1, sc_interrupts = False, g_processorCount = 1,
     g_isRunning = 1, g_ProcessorsLock = SPINLOCK_DEFAULT_VALUE, g_StealLock = SPINLOCK_DEFAULT_VALUE\<rparr>"

definition ex_queues :: "u64 \<times> nat \<Rightarrow> u64 list" where
  "ex_queues k = (if k = (1, 8) then [7] else [])"

lemma ex_lists_inv: "lists_inv (sc_links ex_sched) (all_lists ex_sched) (keys ex_sched) ex_queues"
proof -
  have "tl_ok no_links (all_lists ex_sched (1, i)) (ex_queues (1, i)) \<and> \<not> IsProcList (all_lists ex_sched (1, i)) \<and>
      tl_Lock (all_lists ex_sched (1, i)) = SPINLOCK_DEFAULT_VALUE" for i
    by (auto simp: all_lists_def list_at_def ex_sched_def ex_processor_def ex_queues_def NICE_LEVELS_def nth_list_update tl_ok_def dlist_def
        ex_ready_def ThreadList_new_def)
  then show ?thesis
    by (auto simp: lists_inv_def keys_def ex_sched_def ex_queues_def)
qed

lemma ex_proc_ok: "proc_ok ex_processor"
  by (auto simp: proc_ok_def count_ok_def ex_processor_def MAX_RUN_COUNT_def)

lemma ex_members: "members (keys ex_sched) ex_queues = {7}"
proof -
  have "(1, 8) \<in> keys ex_sched"
    by (simp add: keys_def ex_sched_def NICE_LEVELS_def)
  then show ?thesis
    by (auto simp: ex_queues_def split: if_splits)
qed

lemma ex_sched_inv: "sched_inv ex_sched ex_queues" "present ex_sched ex_queues = {7}"
proof -
  have run: "running ex_sched = {}"
    by (simp add: running_def ex_sched_def ex_processor_def)
  note mem = ex_members
  show "present ex_sched ex_queues = {7}"
    unfolding present_def mem run by simp
  have "processors_ok ex_sched"
    using ex_proc_ok by (simp add: processors_ok_def ex_sched_def ex_processor_def)
  moreover have "current_ok ex_sched"
    using run by (simp add: current_ok_def ex_sched_def ex_processor_def)
  moreover have "ready_thread ex_sched 7"
    by (simp add: ready_thread_def nice_of_def ex_sched_def ex_processor_def NICE_LEVELS_def)
  ultimately show "sched_inv ex_sched ex_queues"
    using ex_lists_inv unfolding sched_inv_def mem run by simp
qed

section \<open>Choice of the next thread\<close>

text \<open>A thread of any processor, or the idle thread.\<close>

lemma PickNext_elsewhere:
  assumes "steal_pre p s Q" "sc_current s = p" "p \<noteq> 0" "g_StealLock s = SPINLOCK_DEFAULT_VALUE" "idleThread (sc_state s p) \<noteq> 0"
  shows "\<exists>s' Q'. PickNext False s = Inr s' \<and> lists_inv (sc_links s') (all_lists s') (keys s') Q' \<and> proc_ok (sc_state s' p) \<and>
    (if \<exists>q \<in> set (sc_chain s). \<exists>i < NICE_LEVELS. Q (q, i) \<noteq> [] then
       \<exists>q n. q \<in> set (sc_chain s) \<and> n < NICE_LEVELS \<and> Q (q, n) \<noteq> [] \<and> currentThread (sc_state s' p) = hd (Q (q, n)) \<and> Q' = Q((q, n) := tl (Q (q, n)))
     else currentThread (sc_state s' p) = idleThread (sc_state s p) \<and> isIdle (sc_state s' p) = 1 \<and> Q' = Q)"
proof -
  obtain s' t Q' where r: "PickNext False s = Inr s'" "picked p s Q s' t Q'"
    using PickNext_ok [of p s Q False] assms by blast
  have k: "kept p s s'" and l: "lists_inv (sc_links s') (all_lists s') (keys s) Q'" and t: "currentThread (sc_state s' p) = t"
      "isIdle (sc_state s' p) = (if t = idleThread (sc_state s p) then 1 else 0)"
    and c: "(t = idleThread (sc_state s p) \<and> Q' = Q \<and> (\<forall>q \<in> set (sc_chain s). \<forall>i < NICE_LEVELS. Q (q, i) = [])) \<or> (\<exists>k. taken s Q k t s' Q')"
    using r(2) unfolding picked_def by blast+
  have "proc_ok (sc_state s p)"
    using assms(1) by (auto simp: steal_pre_def)
  then have ok: "keys s' = keys s" "proc_ok (sc_state s' p)"
    using kept_keys [OF k] k by (simp_all add: kept_def same_ids_def)
  show ?thesis
  proof (cases "\<exists>q \<in> set (sc_chain s). \<exists>i < NICE_LEVELS. Q (q, i) \<noteq> []")
    case True
    then obtain q n where "taken s Q (q, n) t s' Q'"
      using c by auto
    then show ?thesis
      using True r(1) l ok t by (intro exI [of _ s'] exI [of _ Q']) (auto simp: taken_def keys_def)
  next
    case F: False
    then have "\<not> taken s Q k t s' Q'" for k
      by (cases k) (auto simp: taken_def keys_def)
    then show ?thesis
      using F c r(1) l ok t by (intro exI [of _ s'] exI [of _ Q']) auto
  qed
qed

text \<open>
  C37. \<^verbatim>\<open>PickNext\<close> makes a thread current: the first of the chosen level of the processor's own queues if
  any has threads, otherwise the first of some queue of another processor, and the idle thread only if
  no processor has a ready thread. That thread leaves its queue, nothing else moves, every list is unlocked
  again, and the run counts stay between 0 and 2.
\<close>

theorem PickNext_correct:
  assumes "steal_pre p s Q" "sc_current s = p" "p \<noteq> 0" "g_StealLock s = SPINLOCK_DEFAULT_VALUE" "idleThread (sc_state s p) \<noteq> 0"
  shows "\<exists>s' Q'. PickNext False s = Inr s' \<and> lists_inv (sc_links s') (all_lists s') (keys s') Q' \<and> proc_ok (sc_state s' p) \<and>
    (if \<exists>i < NICE_LEVELS. Q (p, i) \<noteq> [] then
       \<exists>n. chosen (waiting Q p) (runs_used (runCounts (sc_state s p))) NICE_LEVELS = Some n \<and>
         currentThread (sc_state s' p) = hd (Q (p, n)) \<and> Q' = Q((p, n) := tl (Q (p, n)))
     else if \<exists>q \<in> set (sc_chain s). \<exists>i < NICE_LEVELS. Q (q, i) \<noteq> [] then
       \<exists>q n. q \<in> set (sc_chain s) \<and> n < NICE_LEVELS \<and> Q (q, n) \<noteq> [] \<and> currentThread (sc_state s' p) = hd (Q (q, n)) \<and> Q' = Q((q, n) := tl (Q (q, n)))
     else currentThread (sc_state s' p) = idleThread (sc_state s p) \<and> isIdle (sc_state s' p) = 1 \<and> Q' = Q)"
proof (cases "\<exists>i < NICE_LEVELS. Q (p, i) \<noteq> []")
  case True
  have "dispatchable p s Q"
    using assms(1-3) by (auto simp: steal_pre_def dispatchable_def)
  with True obtain n s' where n: "chosen (waiting Q p) (runs_used (runCounts (sc_state s p))) NICE_LEVELS = Some n"
      "PickNext False s = Inr s'" "own_picked p s Q n s'"
    using dispatch_own by metis
  then have pk: "picked p s Q s' (hd (Q (p, n))) (Q((p, n) := tl (Q (p, n))))"
    by (simp add: own_picked_def)
  have k: "kept p s s'"
    using pk by (simp add: picked_def)
  moreover have "proc_ok (sc_state s p)"
    using assms(1) by (auto simp: steal_pre_def)
  ultimately have ok: "keys s' = keys s" "proc_ok (sc_state s' p)"
    using kept_keys [OF k] by (simp_all add: kept_def same_ids_def)
  have "lists_inv (sc_links s') (all_lists s') (keys s') (Q((p, n) := tl (Q (p, n)))) \<and> currentThread (sc_state s' p) = hd (Q (p, n))"
    using pk ok(1) by (simp only: picked_def)
  then show ?thesis
    using True n ok(2) by (intro exI [of _ s'] exI [of _ "Q((p, n) := tl (Q (p, n)))"]) simp
next
  case False
  then show ?thesis
    using PickNext_elsewhere [OF assms] by (simp only: if_False)
qed

theorem PickNext_correct_witness:
  "steal_pre 1 ex_sched ex_queues \<and> (\<exists>s'. PickNext False ex_sched = Inr s' \<and> currentThread (sc_state s' 1) = 7)"
proof -
  have "CPUInfo_lock (sc_info ex_sched 7) = SPINLOCK_DEFAULT_VALUE" "\<forall>q. sc_state ex_sched q = ex_processor" "sc_chain ex_sched = [1]"
      "\<not> sc_interrupts ex_sched"
    by (simp_all add: ex_sched_def)
  then have pre: "steal_pre 1 ex_sched ex_queues"
    using ex_lists_inv ex_proc_ok unfolding steal_pre_def ex_members by simp
  have ex: "sc_current ex_sched = 1" "g_StealLock ex_sched = SPINLOCK_DEFAULT_VALUE" "idleThread (sc_state ex_sched 1) \<noteq> 0"
    by (simp_all add: ex_sched_def ex_processor_def)
  have "\<exists>i < NICE_LEVELS. ex_queues (1, i) \<noteq> []"
    by (intro exI [of _ 8]) (simp add: ex_queues_def NICE_LEVELS_def)
  moreover have n: "n = 8" if "chosen (waiting ex_queues 1) u NICE_LEVELS = Some n" for u n
    using chosen_Some [OF that] by (auto simp: waiting_def ex_queues_def split: if_splits)
  ultimately show ?thesis
    using PickNext_correct [OF pre ex(1) _ ex(2,3)] pre by (auto simp: ex_queues_def dest!: n)
qed

section \<open>Waiting time\<close>

text \<open>
  C9. A thread at position \<open>k\<close> of the queue of nice level \<open>i\<close> is passed over by fewer than
  \<open>(k + 1) * 2 * 3 ^ (15 - i)\<close> dispatches of its processor, whatever is queued on other levels or
  behind it in between: as long as it waits \<^verbatim>\<open>PickNext\<close> returns, and at the latest then it is the one that runs.
\<close>

theorem PickNext_bounded_wait:
  assumes "passed_over p i t k m s Q"
  shows "m < (k + 1) * (2 * 3 ^ (15 - i)) \<and> t \<in> set (Q (p, i)) \<and> (\<exists>s'. PickNext False s = Inr s')"
proof -
  obtain j where j: "i < NICE_LEVELS" "dispatchable p s Q" "j < length (Q (p, i))" "Q (p, i) ! j = t"
      "m + turn (runCounts (sc_state s p)) i + j * (2 * 3 ^ (15 - i)) < Suc k * (2 * 3 ^ (15 - i))"
    using passed_over_bound [OF assms] by blast
  have "Q (p, i) \<noteq> []"
    using j(3) by auto
  then obtain s' where "PickNext False s = Inr s'"
    using dispatch_own [OF j(2,1)] by metis
  moreover have "t \<in> set (Q (p, i))"
    using j(3,4) nth_mem by metis
  moreover have "m < (k + 1) * (2 * 3 ^ (15 - i))"
    using j(5) by simp
  ultimately show ?thesis
    by blast
qed

theorem PickNext_bounded_wait_witness:
  "passed_over 1 8 7 0 0 ex_sched ex_queues \<and> (7 :: u64) \<in> set (ex_queues (1, 8)) \<and> (\<exists>s'. PickNext False ex_sched = Inr s')"
proof -
  have "dispatchable 1 ex_sched ex_queues"
    using ex_lists_inv ex_proc_ok by (simp add: dispatchable_def ex_sched_def)
  then have "passed_over 1 8 7 0 0 ex_sched ex_queues"
    by (rule passed_over.start) (simp_all add: NICE_LEVELS_def ex_queues_def)
  then show ?thesis
    using PickNext_bounded_wait [of 1 8 7 0 0 ex_sched ex_queues] by simp
qed

section \<open>No thread is lost\<close>

text \<open>Processor \<open>p\<close> enters the kernel: it is the current one and takes no interrupts.\<close>

definition enter :: "u64 \<Rightarrow> Scheduler \<Rightarrow> Scheduler" where
  "enter p s = s\<lparr>sc_current := p, sc_interrupts := False\<rparr>"

text \<open>
  The operations of all processors in any order. \<open>T\<close> holds the threads that are with the scheduler; \<open>Y p\<close> is the thread
  that has left processor \<open>p\<close> while \<open>p\<close> has not yielded yet (0 for a thread that exits). A thread that blocks
  removes itself, is linked into a list of its own, where other processors find it, and yields; all of them may act
  in between, and may make it ready again.

  Three restrictions are part of the rules. A forced yield does not come from the idle thread: \<^verbatim>\<open>Yield_Internal\<close> has
  no test for it and would queue the idle thread. A thread that was made ready before its old processor
  yielded does not go to sleep before that yield: the old processor would find the time to sleep and put it into a
  second list of sleeping threads. No thread leaves a function to be called by the yield.
\<close>

inductive sched_steps :: "Scheduler \<Rightarrow> u64 set \<Rightarrow> Scheduler \<Rightarrow> u64 set \<Rightarrow> (u64 \<rightharpoonup> u64) \<Rightarrow> bool" for s0 T0 where
  init: "sched_steps s0 T0 s0 T0 Map.empty"
| tick: "sched_steps s0 T0 s T Y \<Longrightarrow> p \<in> set (sc_chain s) \<Longrightarrow> p \<notin> dom Y \<Longrightarrow> TimerTick ms (enter p s) = Inr s' \<Longrightarrow> sched_steps s0 T0 s' T Y"
| yield: "sched_steps s0 T0 s T Y \<Longrightarrow> p \<in> set (sc_chain s) \<Longrightarrow> p \<notin> dom Y \<Longrightarrow>
    \<not> force \<or> currentThread (sc_state s p) \<noteq> idleThread (sc_state s p) \<Longrightarrow> Yield_Internal cb force 0 (enter p s) = Inr s' \<Longrightarrow> sched_steps s0 T0 s' T Y"
| sleep: "sched_steps s0 T0 s T Y \<Longrightarrow> p \<in> set (sc_chain s) \<Longrightarrow> p \<notin> dom Y \<Longrightarrow>
    currentThread (sc_state s p) \<notin> insert (idleThread (sc_state s p)) (ran Y) \<Longrightarrow>
    SleepCurrentThread cb ms (enter p s) = Inr s' \<Longrightarrow> sched_steps s0 T0 s' T Y"
| block: "sched_steps s0 T0 s T Y \<Longrightarrow> p \<in> set (sc_chain s) \<Longrightarrow> p \<notin> dom Y \<Longrightarrow> currentThread (sc_state s p) \<noteq> idleThread (sc_state s p) \<Longrightarrow>
    RemoveCurrentThread True (enter p s) = Inr (s', t) \<Longrightarrow> t \<noteq> 0 \<Longrightarrow>
    sched_steps s0 T0 (upd_info t (\<lambda>i. i\<lparr>sleepRemainingTime := 0, yieldCallback := 0\<rparr>) s') (T - {t}) (Y(p \<mapsto> t))"
| exit: "sched_steps s0 T0 s T Y \<Longrightarrow> p \<in> set (sc_chain s) \<Longrightarrow> p \<notin> dom Y \<Longrightarrow> currentThread (sc_state s p) \<noteq> idleThread (sc_state s p) \<Longrightarrow>
    RemoveCurrentThread True (enter p s) = Inr (s', t) \<Longrightarrow> t \<noteq> 0 \<Longrightarrow> sched_steps s0 T0 s' (T - {t}) (Y(p \<mapsto> 0))"
| relink: "sched_steps s0 T0 s T Y \<Longrightarrow> others_kept False W (sc_links s) th \<Longrightarrow> W \<inter> T = {} \<Longrightarrow> sched_steps s0 T0 (s\<lparr>sc_links := th\<rparr>) T Y"
| finish: "sched_steps s0 T0 s T Y \<Longrightarrow> Y p = Some t \<Longrightarrow> Yield_Internal cb False t (enter p s) = Inr s' \<Longrightarrow> sched_steps s0 T0 s' T (Y(p := None))"
| ready: "sched_steps s0 T0 s T Y \<Longrightarrow> p \<in> set (sc_chain s) \<Longrightarrow> t \<notin> T \<Longrightarrow> ready_thread s t \<Longrightarrow>
    AddExistingThread t (enter p s) = Inr (s', b) \<Longrightarrow> sched_steps s0 T0 s' (insert t T) Y"

definition locks_free :: "Scheduler \<Rightarrow> bool" where
  "locks_free s \<longleftrightarrow> (\<forall>p \<in> set (sc_chain s). ps_lock (sc_state s p) = SPINLOCK_DEFAULT_VALUE)"

definition holds :: "Scheduler \<Rightarrow> u64 set \<Rightarrow> bool" where
  "holds s T \<longleftrightarrow> (\<exists>Q. sched_inv s Q \<and> present s Q = T) \<and> locks_free s"

lemma holdsI: "sched_inv s Q \<Longrightarrow> present s Q = T \<Longrightarrow> locks_free s \<Longrightarrow> holds s T"
  unfolding holds_def by blast

lemma kept_locks_free: "kept p s s' \<Longrightarrow> locks_free s \<Longrightarrow> locks_free s'"
  by (simp add: locks_free_def kept_def same_ids_def)

lemma enter_holds:
  assumes "holds s T" "p \<in> set (sc_chain s)"
  obtains Q where "sched_inv (enter p s) Q" "present (enter p s) Q = T" "sc_current (enter p s) = p" "p \<in> set (sc_chain (enter p s))"
    "\<not> sc_interrupts (enter p s)" "ps_lock (sc_state (enter p s) p) = SPINLOCK_DEFAULT_VALUE" "locks_free (enter p s)" "sc_state (enter p s) = sc_state s" "p \<noteq> 0"
proof -
  obtain Q where Q: "sched_inv s Q" "present s Q = T" "locks_free s"
    using assms(1) by (auto simp: holds_def)
  note D = sched_invD [OF Q(1)]
  let ?s = "enter p s"
  have e: "keys ?s = keys s" "running ?s = running s" "all_lists ?s = all_lists s" "sc_links ?s = sc_links s" "ready_thread ?s t = ready_thread s t"
      "processors_ok ?s = processors_ok s" "current_ok ?s = current_ok s" for t
    by (simp_all add: enter_def keys_def running_def all_lists_def ready_thread_def nice_of_def processors_ok_def current_ok_def)
  have "sched_inv ?s Q" "present ?s Q = T"
    using Q(1,2) unfolding sched_inv_def present_def e by blast+
  then show thesis
    using that [of Q] Q(3) assms(2) D(1) by (auto simp: enter_def locks_free_def processors_ok_def)
qed

lemma step_holds: "step_ok p s Z U T r \<Longrightarrow> r = Inr s' \<Longrightarrow> locks_free s \<Longrightarrow> holds s' T"
  unfolding step_ok_def holds_def using kept_locks_free by blast

text \<open>A processor that has not yielded yet runs nothing, and the thread that left it neither sleeps nor has a function to be called.\<close>

definition pending_ok :: "Scheduler \<Rightarrow> (u64 \<rightharpoonup> u64) \<Rightarrow> bool" where
  "pending_ok s Y \<longleftrightarrow> (\<forall>p t. Y p = Some t \<longrightarrow> p \<in> set (sc_chain s) \<and> currentThread (sc_state s p) = 0 \<and>
     (t \<noteq> 0 \<longrightarrow> yieldCallback (sc_info s t) = 0 \<and> sleepRemainingTime (sc_info s t) = 0))"

lemma pending_simps [simp]: "pending_ok s Map.empty" "pending_ok (enter p s) Y = pending_ok s Y" "pending_ok (s\<lparr>sc_links := th\<rparr>) Y = pending_ok s Y"
    "pending_ok s Y \<Longrightarrow> pending_ok s (Y(p := None))"
  by (simp_all add: pending_ok_def enter_def)

lemma pending_step:
  assumes "pending_ok s Y" "kept p s s'" "\<And>u. same_thread (sc_info s u) (sc_info s' u)" "awake_kept Z s s'" "Z \<inter> ran Y = {}"
    "p \<in> dom Y \<Longrightarrow> currentThread (sc_state s' p) = 0"
  shows "pending_ok s' Y"
proof -
  have "t \<notin> Z" if "Y q = Some t" for q t
    using assms(5) ranI [of Y q t] that by auto
  moreover have "currentThread (sc_state s' q) = 0" if "Y q = Some t" for q t
    using assms(1,2,6) that by (cases "q = p") (auto simp: pending_ok_def kept_def)
  ultimately show ?thesis
    using assms(1-4) by (auto simp: pending_ok_def kept_def same_thread_def awake_kept_def)
qed

lemma step_pending:
  assumes "step_ok p s Z U T r" "r = Inr s'" "pending_ok s Y" "Z \<inter> ran Y = {}" "p \<notin> dom Y"
  shows "pending_ok s' Y"
proof -
  have "kept p s s'" "\<And>u. same_thread (sc_info s u) (sc_info s' u)" "awake_kept Z s s'"
    using assms(1,2) by (auto simp: step_ok_def)
  then show ?thesis
    using pending_step [OF assms(3)] assms(4,5) by blast
qed

text \<open>What the thread that leaves does to the rest of the system.\<close>

lemma leave_inv:
  assumes inv: "sched_inv s Q" and p: "sc_current s = p" "p \<in> set (sc_chain s)" "p \<noteq> 0" and lk: "ps_lock (sc_state s p) = SPINLOCK_DEFAULT_VALUE"
    and f: "currentThread (sc_state s p) \<noteq> idleThread (sc_state s p)" and r: "RemoveCurrentThread True s = Inr (s1, t)" "t \<noteq> 0"
  shows "sched_inv s1 Q" "present s1 Q = present s Q - {t}" "kept p s s1" "currentThread (sc_state s1 p) = 0" "sc_links s1 = sc_links s"
    "sc_current s1 = p" "sc_chain s1 = sc_chain s" "sc_state s1 = (sc_state s)(p := (sc_state s p)\<lparr>currentThread := 0\<rparr>)"
proof -
  have s1: "s1 = upd_state p (\<lambda>ps. ps\<lparr>currentThread := 0\<rparr>) s" "t = currentThread (sc_state s p)"
    using RemoveCurrentThread_ok [OF p(1,3) lk] r(1) by simp_all
  show "sched_inv s1 Q" "present s1 Q = present s Q - {t}"
    using vacate_inv(1,2) [OF inv p(2)] f r(2) s1 by simp_all
  show "kept p s s1" "currentThread (sc_state s1 p) = 0" "sc_links s1 = sc_links s" "sc_current s1 = p" "sc_chain s1 = sc_chain s"
      "sc_state s1 = (sc_state s)(p := (sc_state s p)\<lparr>currentThread := 0\<rparr>)"
    using vacate_kept [of p s] s1 p by simp_all
qed

lemma relink_inv:
  assumes inv: "sched_inv s Q" and th: "others_kept False W (sc_links s) th" "W \<inter> present s Q = {}"
  shows "sched_inv (s\<lparr>sc_links := th\<rparr>) Q" "present (s\<lparr>sc_links := th\<rparr>) Q = present s Q"
proof -
  let ?s = "s\<lparr>sc_links := th\<rparr>"
  have e: "keys ?s = keys s" "running ?s = running s" "all_lists ?s = all_lists s" "ready_thread ?s t = ready_thread s t"
      "processors_ok ?s = processors_ok s" "current_ok ?s = current_ok s" for t
    by (simp_all add: keys_def running_def all_lists_def ready_thread_def nice_of_def processors_ok_def current_ok_def)
  show "present ?s Q = present s Q"
    unfolding present_def e ..
  note D = sched_invD [OF inv]
  have "lists_inv th (all_lists s) (keys s) Q"
    by (rule lists_inv_frame [OF D(3) th(1)]) (use th(2) in \<open>auto simp: present_def\<close>)
  moreover have "clear_links th u" if "u \<in> running s" for u
    using D(6) [OF that] others_kept_data [OF th(1), of u] th(2) that by (auto simp: present_def)
  ultimately show "sched_inv ?s Q"
    using D unfolding sched_inv_def e present_def by simp
qed

text \<open>The thread that blocks is left without time to sleep and without a function to be called.\<close>

lemma block_inv:
  assumes inv: "sched_inv s Q" and p: "sc_current s = p" "p \<in> set (sc_chain s)" "p \<noteq> 0" and lk: "ps_lock (sc_state s p) = SPINLOCK_DEFAULT_VALUE"
    and f: "currentThread (sc_state s p) \<noteq> idleThread (sc_state s p)" and r: "RemoveCurrentThread True s = Inr (s1, t)" "t \<noteq> 0"
    and Y: "pending_ok s Y" "p \<notin> dom Y"
  defines "s' \<equiv> upd_info t (\<lambda>i. i\<lparr>sleepRemainingTime := 0, yieldCallback := 0\<rparr>) s1"
  shows "sched_inv s' Q" "present s' Q = present s Q - {t}" "kept p s s'" "pending_ok s' (Y(p \<mapsto> t))" "pending_ok s1 (Y(p \<mapsto> 0))"
proof -
  note l = leave_inv [OF inv p lk f r]
  have s1: "s1 = upd_state p (\<lambda>ps. ps\<lparr>currentThread := 0\<rparr>) s" "t = currentThread (sc_state s p)"
    using RemoveCurrentThread_ok [OF p(1,3) lk] r(1) by simp_all
  have "ready_thread s1 t"
    using vacate_inv(3) [OF inv p(2)] f r(2) s1 by simp
  then have yc: "yieldCallback (sc_info s1 t) = 0"
    by (simp add: ready_thread_def)
  then show "sched_inv s' Q" "present s' Q = present s Q - {t}"
    using info_inv [OF l(1)] l(2) by (simp_all add: s'_def same_thread_def)
  show k: "kept p s s'"
    using l(3) by (simp add: s'_def kept_def)
  have i: "same_thread (sc_info s u) (sc_info s' u)" "awake_kept {} s s'" for u
    using yc s1(1) by (auto simp: s'_def same_thread_def awake_kept_def)
  have "pending_ok s' Y"
    by (rule pending_step [OF Y(1) k i]) (use Y(2) in auto)
  then show "pending_ok s' (Y(p \<mapsto> t))"
    using l(4,7) p(2) by (auto simp: pending_ok_def s'_def)
  have "pending_ok s1 Y"
    by (rule pending_step [OF Y(1) l(3)]) (use Y(2) s1(1) in \<open>auto simp: awake_kept_def\<close>)
  then show "pending_ok s1 (Y(p \<mapsto> 0))"
    using l(4,7) p(2) by (auto simp: pending_ok_def)
qed

lemma ready_inv:
  assumes h: "holds s T" and p: "p \<in> set (sc_chain s)" and t: "t \<notin> T" "ready_thread s t" and Y: "pending_ok s Y"
    and r: "AddExistingThread t (enter p s) = Inr (s', b)"
  shows "holds s' (insert t T) \<and> pending_ok s' Y"
proof -
  obtain Q where Q: "sched_inv (enter p s) Q" "present (enter p s) Q = T" "sc_current (enter p s) = p" "p \<in> set (sc_chain (enter p s))"
      "locks_free (enter p s)"
    using enter_holds [OF h p] by metis
  have "ready_thread (enter p s) t"
    using t(2) by (simp add: enter_def ready_thread_def nice_of_def)
  then obtain Q' where a: "sched_inv s' Q'" "present s' Q' = insert t T" "kept p (enter p s) s'" "same_running (enter p s) s'"
      "\<And>u. same_thread (sc_info (enter p s) u) (sc_info s' u)" "awake_kept {} (enter p s) s'"
    using AddExistingThread_inv [OF Q(1,3,4), of t] t(1) Q(2) r by auto
  have "pending_ok s' Y"
  proof (rule pending_step [OF _ a(3,5,6)])
    show "pending_ok (enter p s) Y"
      using Y by simp
    show "currentThread (sc_state s' p) = 0" if "p \<in> dom Y"
      using that Y a(4) by (auto simp: pending_ok_def same_running_def enter_def)
  qed simp
  then show ?thesis
    using a(1,2) kept_locks_free [OF a(3) Q(5)] by (auto simp: holds_def)
qed

lemma finish_step:
  assumes h: "holds s T" and Y: "pending_ok s Y" "Y p = Some t"
  obtains "step_ok p (enter p s) {} T T (Yield_Internal cb False t (enter p s))" "p \<in> set (sc_chain s)" "locks_free (enter p s)"
proof -
  have p: "p \<in> set (sc_chain s)" "currentThread (sc_state s p) = 0" "t \<noteq> 0 \<Longrightarrow> yieldCallback (sc_info s t) = 0 \<and> sleepRemainingTime (sc_info s t) = 0"
    using Y by (auto simp: pending_ok_def)
  obtain Q where Q: "sched_inv (enter p s) Q" "present (enter p s) Q = T" "sc_current (enter p s) = p" "p \<in> set (sc_chain (enter p s))"
      "ps_lock (sc_state (enter p s) p) = SPINLOCK_DEFAULT_VALUE" "locks_free (enter p s)" "sc_state (enter p s) = sc_state s"
    using enter_holds [OF h p(1)] by metis
  have "sc_info (enter p s) = sc_info s"
    by (simp add: enter_def)
  then have "step_ok p (enter p s) {} T T (Yield_Internal cb False t (enter p s))"
    using Yield_away_inv [OF Q(1,3-5), of t cb] p(2,3) Q(2,7) by simp
  then show thesis
    using that p(1) Q(6) by blast
qed

lemma sched_steps_holds:
  assumes "sched_steps s0 T0 s T Y" "holds s0 T0"
  shows "holds s T \<and> pending_ok s Y"
  using assms
proof induction
  case (tick s T Y p ms s')
  then obtain Q where Q: "sched_inv (enter p s) Q" "present (enter p s) Q = T" "sc_current (enter p s) = p" "p \<in> set (sc_chain (enter p s))"
      "\<not> sc_interrupts (enter p s)" "locks_free (enter p s)"
    using enter_holds by metis
  note st = TimerTick_inv [OF Q(1,3-5), of ms]
  show ?case
    using step_holds [OF st tick.hyps(4) Q(6)] step_pending [OF st tick.hyps(4) _ _ tick.hyps(3)] tick.IH tick.prems Q(2) by simp
next
  case (yield s T Y p force cb s')
  then obtain Q where Q: "sched_inv (enter p s) Q" "present (enter p s) Q = T" "sc_current (enter p s) = p" "p \<in> set (sc_chain (enter p s))"
      "ps_lock (sc_state (enter p s) p) = SPINLOCK_DEFAULT_VALUE" "locks_free (enter p s)" "sc_state (enter p s) = sc_state s"
    using enter_holds by metis
  have "force \<longrightarrow> currentThread (sc_state (enter p s) p) \<noteq> idleThread (sc_state (enter p s) p)"
    using yield.hyps(4) Q(7) by auto
  note st = Yield_inv [OF Q(1,3-5) this, of cb]
  show ?case
    using step_holds [OF st yield.hyps(5) Q(6)] step_pending [OF st yield.hyps(5) _ _ yield.hyps(3)] yield.IH yield.prems Q(2) by simp
next
  case (sleep s T Y p cb ms s')
  then obtain Q where Q: "sched_inv (enter p s) Q" "present (enter p s) Q = T" "sc_current (enter p s) = p" "p \<in> set (sc_chain (enter p s))"
      "\<not> sc_interrupts (enter p s)" "ps_lock (sc_state (enter p s) p) = SPINLOCK_DEFAULT_VALUE" "locks_free (enter p s)" "sc_state (enter p s) = sc_state s"
    using enter_holds by metis
  have c: "currentThread (sc_state (enter p s) p) \<noteq> idleThread (sc_state (enter p s) p)" "{currentThread (sc_state (enter p s) p)} \<inter> ran Y = {}"
    using sleep.hyps(4) Q(8) by auto
  note st = Sleep_inv [OF Q(1,3-6) c(1), of cb ms]
  show ?case
    using step_holds [OF st sleep.hyps(5) Q(7)] step_pending [OF st sleep.hyps(5) _ c(2) sleep.hyps(3)] sleep.IH sleep.prems Q(2) by simp
next
  case (block s T Y p s' t)
  then obtain Q where Q: "sched_inv (enter p s) Q" "present (enter p s) Q = T" "sc_current (enter p s) = p" "p \<in> set (sc_chain (enter p s))"
      "ps_lock (sc_state (enter p s) p) = SPINLOCK_DEFAULT_VALUE" "locks_free (enter p s)" "sc_state (enter p s) = sc_state s" "p \<noteq> 0"
    using enter_holds by metis
  have Y: "pending_ok (enter p s) Y"
    using block.IH block.prems by simp
  note b = block_inv [OF Q(1,3,4,8,5) _ block.hyps(5,6) Y block.hyps(3), unfolded Q(7), OF block.hyps(4)]
  show ?case
    using holdsI [OF b(1,2) kept_locks_free [OF b(3) Q(6)]] b(4) Q(2) by blast
next
  case (exit s T Y p s' t)
  then obtain Q where Q: "sched_inv (enter p s) Q" "present (enter p s) Q = T" "sc_current (enter p s) = p" "p \<in> set (sc_chain (enter p s))"
      "ps_lock (sc_state (enter p s) p) = SPINLOCK_DEFAULT_VALUE" "locks_free (enter p s)" "sc_state (enter p s) = sc_state s" "p \<noteq> 0"
    using enter_holds by metis
  have Y: "pending_ok (enter p s) Y"
    using exit.IH exit.prems by simp
  note l = leave_inv [OF Q(1,3,4,8,5) _ exit.hyps(5,6), unfolded Q(7), OF exit.hyps(4)]
    and b = block_inv(5) [OF Q(1,3,4,8,5) _ exit.hyps(5,6) Y exit.hyps(3), unfolded Q(7), OF exit.hyps(4)]
  show ?case
    using holdsI [OF l(1,2) kept_locks_free [OF l(3) Q(6)]] b Q(2) by blast
next
  case (relink s T Y W th)
  then obtain Q where Q: "sched_inv s Q" "present s Q = T" "locks_free s" "pending_ok s Y"
    by (auto simp: holds_def)
  have "sched_inv (s\<lparr>sc_links := th\<rparr>) Q" "present (s\<lparr>sc_links := th\<rparr>) Q = T"
    using relink_inv [OF Q(1) relink.hyps(2)] relink.hyps(3) Q(2) by simp_all
  moreover have "locks_free (s\<lparr>sc_links := th\<rparr>)"
    using Q(3) by (simp add: locks_free_def)
  ultimately show ?case
    using holdsI Q(4) by simp
next
  case (finish s T Y p t cb s')
  then have h: "holds s T" "pending_ok s Y"
    by simp_all
  from finish_step [OF h finish.hyps(2)] obtain st: "step_ok p (enter p s) {} T T (Yield_Internal cb False t (enter p s))" "locks_free (enter p s)"
    by blast
  have "pending_ok (enter p s) (Y(p := None))"
    using h(2) by (simp del: fun_upd_apply)
  then have "pending_ok s' (Y(p := None))"
    by (rule step_pending [OF st(1) finish.hyps(3)]) simp_all
  then show ?case
    using step_holds [OF st(1) finish.hyps(3) st(2)] by blast
next
  case (ready s T Y p t s' b)
  then show ?case
    using ready_inv by blast
qed simp

text \<open>
  C1. From a state of the scheduler in which every thread has one place, timer ticks, yields, sleeps, exits, blocks and
  wake-ups of all processors, in any order, lead only to states in which every thread the scheduler holds is in
  exactly one list or is the current thread of exactly one processor, the lists are well formed and all locks are free.
  A thread that blocks first leaves its processor and is open to wake-ups of other processors before its own
  processor yields. In every such state the timer tick of a processor returns, without a failed assertion, a panic or
  a lock held, and so does the yield of a processor that a thread has just left. Not among the sequences are
  forced yields of an idle processor (they queue the idle thread), the sleep of a thread whose old processor has not
  yielded yet (it may end up in two lists), and yields with a function to be called.
\<close>

theorem Scheduler_no_thread_lost:
  assumes "sched_steps s0 T0 s T Y" "holds s0 T0"
  shows "(\<exists>Q. lists_inv (sc_links s) (all_lists s) (keys s) Q \<and> T = members (keys s) Q \<union> running s \<and> members (keys s) Q \<inter> running s = {} \<and> locks_free s \<and>
      (\<forall>p \<in> set (sc_chain s). \<forall>q \<in> set (sc_chain s). p \<noteq> q \<longrightarrow> currentThread (sc_state s p) \<in> running s \<longrightarrow>
        currentThread (sc_state s p) \<noteq> currentThread (sc_state s q))) \<and>
    (\<forall>p \<in> set (sc_chain s). p \<notin> dom Y \<longrightarrow> (\<exists>s'. TimerTick ms (enter p s) = Inr s' \<and> holds s' T)) \<and>
    (\<forall>p t. Y p = Some t \<longrightarrow> currentThread (sc_state s p) = 0 \<and> (\<exists>s'. Yield_Internal cb False t (enter p s) = Inr s' \<and> holds s' T))"
proof (intro conjI ballI impI allI)
  have h: "holds s T" "pending_ok s Y"
    using sched_steps_holds [OF assms] by simp_all
  then obtain Q where Q: "sched_inv s Q" "present s Q = T" "locks_free s"
    by (auto simp: holds_def)
  then show "\<exists>Q. lists_inv (sc_links s) (all_lists s) (keys s) Q \<and> T = members (keys s) Q \<union> running s \<and> members (keys s) Q \<inter> running s = {} \<and> locks_free s \<and>
      (\<forall>p \<in> set (sc_chain s). \<forall>q \<in> set (sc_chain s). p \<noteq> q \<longrightarrow> currentThread (sc_state s p) \<in> running s \<longrightarrow>
        currentThread (sc_state s p) \<noteq> currentThread (sc_state s q))"
    unfolding sched_inv_def present_def current_ok_def by blast
  show "\<exists>s'. TimerTick ms (enter p s) = Inr s' \<and> holds s' T" if p: "p \<in> set (sc_chain s)" for p
  proof -
    obtain Q where Q: "sched_inv (enter p s) Q" "present (enter p s) Q = T" "sc_current (enter p s) = p" "p \<in> set (sc_chain (enter p s))"
        "\<not> sc_interrupts (enter p s)" "locks_free (enter p s)"
      using enter_holds [OF h(1) p] by metis
    then show ?thesis
      using TimerTick_inv [OF Q(1,3-5), of ms] step_holds unfolding step_ok_def by metis
  qed
  fix p t
  assume Y: "Y p = Some t"
  then show "currentThread (sc_state s p) = 0"
    using h(2) by (simp add: pending_ok_def)
  from finish_step [OF h Y] obtain st: "step_ok p (enter p s) {} T T (Yield_Internal cb False t (enter p s))" "locks_free (enter p s)"
    by blast
  from st(1) obtain s' where "Yield_Internal cb False t (enter p s) = Inr s'"
    by (auto simp: step_ok_def)
  then show "\<exists>s'. Yield_Internal cb False t (enter p s) = Inr s' \<and> holds s' T"
    using step_holds [OF st(1) _ st(2)] by blast
qed

lemma ex_holds: "holds ex_sched {7}"
  using ex_sched_inv by (auto simp: holds_def locks_free_def ex_sched_def ex_processor_def)

theorem Scheduler_no_thread_lost_witness:
  "holds ex_sched {7} \<and> (\<exists>s. sched_steps ex_sched {7} s {7} Map.empty \<and> TimerTick 10 (enter 1 ex_sched) = Inr s \<and>
     (\<exists>Q. lists_inv (sc_links s) (all_lists s) (keys s) Q \<and> {7} = members (keys s) Q \<union> running s))"
proof -
  have i: "sched_steps ex_sched {7} ex_sched {7} Map.empty" and c: "1 \<in> set (sc_chain ex_sched)"
    by (rule sched_steps.init) (simp add: ex_sched_def)
  then obtain s where s: "TimerTick 10 (enter 1 ex_sched) = Inr s"
    using Scheduler_no_thread_lost [OF i ex_holds, of 10, THEN conjunct2, THEN conjunct1] by auto
  have st: "sched_steps ex_sched {7} s {7} Map.empty"
    by (rule sched_steps.tick [OF i c _ s]) simp
  from Scheduler_no_thread_lost [OF this ex_holds, THEN conjunct1]
  obtain Q where "lists_inv (sc_links s) (all_lists s) (keys s) Q" "{7} = members (keys s) Q \<union> running s"
    by (elim exE conjE) (rule that)
  then show ?thesis
    using ex_holds st s by (intro conjI exI [of _ s] exI [of _ Q])
qed

section \<open>Sleeping threads\<close>

text \<open>
  C38. On a timer tick of \<open>ms\<close> milliseconds the sleeping threads of the processor whose remaining time is at most
  \<open>ms\<close> leave the list of sleepers and join the back of the queue of their nice level, in order; the
  others stay in order and have their time reduced by \<open>ms\<close>, without wrapping around.
\<close>

theorem TimerTick_wakes:
  assumes "sched_inv s Q" "p \<in> set (sc_chain s)"
  shows "\<exists>s' Q'. wake_sleepers p ms s = Inr s' \<and> sched_inv s' Q' \<and> present s' Q' = present s Q \<and>
    Q' (p, NICE_LEVELS) = filter (\<lambda>t. \<not> ms \<ge> sleepRemainingTime (sc_info s t)) (Q (p, NICE_LEVELS)) \<and>
    (\<forall>n < NICE_LEVELS. Q' (p, n) = Q (p, n) @ filter (\<lambda>t. ms \<ge> sleepRemainingTime (sc_info s t) \<and> nice_of s t = n) (Q (p, NICE_LEVELS))) \<and>
    (\<forall>t \<in> set (Q (p, NICE_LEVELS)). unat (sleepRemainingTime (sc_info s' t)) = unat (sleepRemainingTime (sc_info s t)) - unat ms)"
proof -
  let ?Q = "woken p ms s [] (Q (p, NICE_LEVELS)) Q"
  obtain s' where s': "wake_sleepers p ms s = Inr s'" "sched_inv s' ?Q" "present s' ?Q = present s Q"
      "sc_info s' = slept ms (set (Q (p, NICE_LEVELS))) (sc_info s)"
    using wake_inv [OF assms, of ms] by blast
  have "unat (sleepRemainingTime (slept ms T info t)) = unat (sleepRemainingTime (info t)) - unat ms" if "t \<in> T" for T t info
    using that by (auto simp: slept_def word_le_nat_alt unat_sub)
  then show ?thesis
    using s' by (intro exI [of _ s'] exI [of _ ?Q]) (simp add: woken_def time_up_def)
qed

theorem TimerTick_wakes_witness:
  "sched_inv ex_sched ex_queues \<and> 1 \<in> set (sc_chain ex_sched) \<and> (\<exists>s'. wake_sleepers 1 5 ex_sched = Inr s')"
proof -
  have p: "1 \<in> set (sc_chain ex_sched)"
    by (simp add: ex_sched_def)
  then show ?thesis
    using TimerTick_wakes [OF ex_sched_inv(1) p, of 5] ex_sched_inv(1) by blast
qed

section \<open>Processors\<close>

text \<open>
  Identifiers increase along the chain, and the state before each in the chain is its \<^verbatim>\<open>prev\<close> or \<^verbatim>\<open>prev\<close> is null.
\<close>

definition processors_linked :: "Scheduler \<Rightarrow> bool" where
  "processors_linked s \<longleftrightarrow> sc_chain s \<noteq> [] \<and> 0 \<notin> set (sc_chain s) \<and> sorted_wrt (<) (map (\<lambda>p. ps_id (sc_state s p)) (sc_chain s)) \<and>
     ps_prev (sc_state s (hd (sc_chain s))) = 0 \<and> successively (\<lambda>a b. ps_prev (sc_state s b) \<in> {0, a}) (sc_chain s) \<and>
     g_ProcessorsLock s = SPINLOCK_DEFAULT_VALUE"

lemma processors_linkedD:
  assumes "processors_linked s"
  shows "sc_chain s \<noteq> []" "0 \<notin> set (sc_chain s)" "sorted_wrt (<) (map (\<lambda>p. ps_id (sc_state s p)) (sc_chain s))"
    "ps_prev (sc_state s (hd (sc_chain s))) = 0" "successively (\<lambda>a b. ps_prev (sc_state s b) \<in> {0, a}) (sc_chain s)"
    "g_ProcessorsLock s = SPINLOCK_DEFAULT_VALUE"
  using assms by (simp_all add: processors_linked_def)

lemma sorted_distinct: "sorted_wrt (<) (map (f :: _ \<Rightarrow> u64) xs) \<Longrightarrow> distinct xs"
  by (induction xs) auto

lemma GetProcessor_loop_found:
  "sorted_wrt (<) (map (\<lambda>p. ps_id (st p)) ps) \<Longrightarrow> q \<in> set ps \<Longrightarrow> GetProcessor_loop st (ps_id (st q)) ps = q"
  by (induction ps) auto

lemma GetProcessor_loop_none: "(\<forall>q \<in> set ps. ps_id (st q) \<noteq> i) \<Longrightarrow> GetProcessor_loop st i ps = 0"
  by (induction ps) auto

lemma GetProcessor_ok: "g_ProcessorsLock s = SPINLOCK_DEFAULT_VALUE \<Longrightarrow> GetProcessor i s = Inr (s, GetProcessor_loop (sc_state s) i (sc_chain s))"
proof -
  assume l: "g_ProcessorsLock s = SPINLOCK_DEFAULT_VALUE"
  then have "s\<lparr>g_ProcessorsLock := SPINLOCK_DEFAULT_VALUE\<rparr> = s"
    by simp
  with l show ?thesis
    unfolding GetProcessor_def l spin.acquire_free bindR_simps spin.release_held by metis
qed

lemma sorted_last:
  assumes "sorted_wrt (<) (map (f :: _ \<Rightarrow> u64) xs)" "y \<in> set xs"
  shows "f y \<le> f (last xs)"
  using assms by (induction xs) (auto simp: less_imp_le)

lemma less_plus_one:
  fixes x y :: u64
  assumes "y \<le> x" "x \<noteq> - 1"
  shows "y < x + 1"
proof -
  have "unat x \<noteq> unat (- 1 :: u64)"
    using assms(2) by (simp only: word_eq_iff_unsigned [symmetric]) simp
  then have "unat x \<noteq> 18446744073709551615"
    by (simp add: unsigned_minus_1_eq_mask mask_eq_exp_minus_1)
  then have "unat x < 18446744073709551615"
    using unat_lt_2p64 [of x] by linarith
  then have "unat x + 1 < 2 ^ 64"
    by simp
  then have "unat (x + 1) = unat x + 1"
    by (simp add: unat_word_ariths)
  then show ?thesis
    using assms(1) by (simp add: word_less_nat_alt word_le_nat_alt)
qed

lemma AddProcessor_ok:
  assumes "processors_linked s" and p: "p \<noteq> 0" "p \<notin> set (sc_chain s)" "ps_id (sc_state s (last (sc_chain s))) \<noteq> - 1"
  shows "\<exists>s'. AddProcessor p s = Inr s' \<and> processors_linked s' \<and> GetProcessorCount s' = GetProcessorCount s + 1 \<and>
    GetProcessor (ps_id (sc_state s' p)) s' = Inr (s', p) \<and> ps_prev (sc_state s' p) \<noteq> 0 \<and>
    (\<forall>q \<in> set (sc_chain s). GetProcessor (ps_id (sc_state s q)) s' = Inr (s', q))"
proof -
  note c = processors_linkedD [OF assms(1)]
  let ?l = "last (sc_chain s)"
  define s' where "s' = s\<lparr>sc_chain := sc_chain s @ [p], sc_state := (sc_state s)(p := (sc_state s p)\<lparr>ps_id := ps_id (sc_state s ?l) + 1, isIdle := 0,
    startAllowed := 0, runCounts := replicate NICE_LEVELS 0, currentThread := 0, ps_prev := ?l\<rparr>), g_processorCount := g_processorCount s + 1,
    g_ProcessorsLock := SPINLOCK_DEFAULT_VALUE\<rparr>"
  have run: "AddProcessor p s = Inr s'"
    using c(6) by (simp add: AddProcessor_def s'_def Let_def upd_state_def)
  have old: "q \<in> set (sc_chain s) \<Longrightarrow> ps_id (sc_state s' q) = ps_id (sc_state s q) \<and> ps_prev (sc_state s' q) = ps_prev (sc_state s q)" for q
    using p(2) by (auto simp: s'_def)
  have less: "ps_id (sc_state s q) < ps_id (sc_state s ?l) + 1" if "q \<in> set (sc_chain s)" for q
    by (rule less_plus_one [OF sorted_last [OF c(3) that] p(3)])
  have srt: "sorted_wrt (<) (map (\<lambda>p. ps_id (sc_state s' p)) (sc_chain s'))"
    using c(3) old less by (auto simp: s'_def sorted_wrt_append cong: map_cong)
  have "successively (\<lambda>a b. ps_prev (sc_state s' b) \<in> {0, a}) (sc_chain s)"
    using c(5) by (rule successively_cong [THEN iffD1, rotated 2]) (simp_all add: old)
  then have "successively (\<lambda>a b. ps_prev (sc_state s' b) \<in> {0, a}) (sc_chain s')"
    by (simp add: s'_def successively_append_iff)
  moreover have "ps_prev (sc_state s' (hd (sc_chain s'))) = 0"
    using c(1,4) old [of "hd (sc_chain s)"] by (simp add: s'_def)
  ultimately have "processors_linked s'"
    using srt c p by (simp add: processors_linked_def s'_def)
  moreover have "?l \<in> set (sc_chain s)"
    using c(1) by simp
  then have "ps_prev (sc_state s' p) \<noteq> 0"
    using c(2) by (auto simp: s'_def)
  moreover have "g_ProcessorsLock s' = SPINLOCK_DEFAULT_VALUE" and m: "p \<in> set (sc_chain s')" "\<And>q. q \<in> set (sc_chain s) \<Longrightarrow> q \<in> set (sc_chain s')"
      and n: "GetProcessorCount s' = GetProcessorCount s + 1"
    by (simp_all add: s'_def GetProcessorCount_def)
  then have "GetProcessor (ps_id (sc_state s' q)) s' = Inr (s', q)" if "q \<in> set (sc_chain s')" for q
    using GetProcessor_ok [of s'] GetProcessor_loop_found [OF srt that] by simp
  ultimately show ?thesis
    using run m n old by (intro exI [of _ s'] conjI ballI) metis+
qed

lemma set_next_unlink:
  assumes "distinct (xs @ q # ys)" "xs \<noteq> []"
  shows "set_next (last xs) ys (xs @ q # ys) = xs @ ys"
proof -
  obtain zs a where xs: "xs = zs @ [a]"
    using assms(2) by (meson rev_exhaust)
  then have "takeWhile (\<lambda>r. r \<noteq> a) (zs @ a # q # ys) = zs"
    using assms(1) by (auto simp: takeWhile_append)
  then show ?thesis
    by (simp add: set_next_def xs)
qed

lemma after_split: "q \<notin> set xs \<Longrightarrow> tl (dropWhile (\<lambda>r. r \<noteq> q) (xs @ q # ys)) = ys"
  by (subst dropWhile_append2) auto

text \<open>Unlinking \<open>q\<close>, or only telling its successor what is before it.\<close>

lemma successively_unlink:
  assumes P: "successively (\<lambda>a b. prev b \<in> {0, a}) (xs @ q # ys)" and d: "distinct (xs @ q # ys)"
    and q: "prev q = 0 \<or> (xs \<noteq> [] \<and> prev q = last xs)"
    and prev': "\<And>b. prev' b = (if ys \<noteq> [] \<and> b = hd ys then prev q else prev b)"
  shows "successively (\<lambda>a b. prev' b \<in> {0 :: u64, a}) (if prev q = 0 then xs @ q # ys else xs @ ys)"
proof -
  have x: "successively (\<lambda>a b. prev' b \<in> {0, a}) xs"
    using P d by (subst successively_cong [OF _ refl, of _ _ "\<lambda>a b. prev b \<in> {0, a}"]) (auto simp: prev' successively_append_iff)
  have "successively (\<lambda>a b. prev' b \<in> {0, a}) ys"
  proof (cases ys)
    case (Cons y zs)
    have "successively (\<lambda>a b. prev b \<in> {0, a}) (y # zs)"
      using P by (simp add: Cons successively_append_iff)
    then show ?thesis
      using d unfolding Cons by (cases zs) (auto simp: prev' Cons intro: successively_cong [THEN iffD1, rotated 2])
  qed simp
  then show ?thesis
    using x P q by (cases ys) (auto simp: prev' successively_append_iff)
qed

lemma RemoveProcessor_ok:
  assumes "processors_linked s" and q: "q \<in> set (sc_chain s)"
  shows "\<exists>s'. RemoveProcessor (ps_id (sc_state s q)) s = Inr s' \<and> processors_linked s' \<and> GetProcessorCount s' = GetProcessorCount s - 1 \<and>
    GetProcessor (ps_id (sc_state s q)) s' = Inr (s', if ps_prev (sc_state s q) = 0 then q else 0) \<and>
    (\<forall>r \<in> set (sc_chain s). r \<noteq> q \<longrightarrow> GetProcessor (ps_id (sc_state s r)) s' = Inr (s', r)) \<and>
    (\<forall>xs r ys. sc_chain s = xs @ q # r # ys \<longrightarrow> ps_prev (sc_state s' r) = ps_prev (sc_state s q))"
proof -
  note c = processors_linkedD [OF assms(1)]
  have d: "distinct (sc_chain s)"
    by (rule sorted_distinct [OF c(3)])
  obtain xs ys where ch: "sc_chain s = xs @ q # ys"
    using q by (meson split_list)
  let ?pr = "\<lambda>p. ps_prev (sc_state s p)"
  let ?ch = "if ?pr q = 0 then xs @ q # ys else xs @ ys"
  let ?st = "if ys = [] then sc_state s else (sc_state s)(hd ys := (sc_state s (hd ys))\<lparr>ps_prev := ?pr q\<rparr>)"
  define s' where "s' = s\<lparr>sc_chain := ?ch, sc_state := ?st, g_processorCount := g_processorCount s - 1\<rparr>"
  have q0: "q \<noteq> 0" "GetProcessor_loop (sc_state s) (ps_id (sc_state s q)) (sc_chain s) = q"
    using c(2) q GetProcessor_loop_found [OF c(3) q] by auto
  have pq: "?pr q = 0 \<or> (xs \<noteq> [] \<and> ?pr q = last xs)"
    using c(4,5) unfolding ch successively_append_iff by (cases "xs = []") auto
  have rest: "tl (dropWhile (\<lambda>r. r \<noteq> q) (sc_chain s)) = ys"
    using d unfolding ch by (intro after_split) auto
  have nx: "(if ?pr q \<noteq> 0 then set_next (?pr q) ys (sc_chain s) else sc_chain s) = ?ch"
    using set_next_unlink [of xs q ys] d pq unfolding ch by auto
  have run: "RemoveProcessor (ps_id (sc_state s q)) s = Inr s'"
    using c(6) q0 rest nx by (cases "?pr q = 0"; cases "ys = []") (simp_all add: RemoveProcessor_def s'_def upd_state_def ch)
  have id: "ps_id (sc_state s' r) = ps_id (sc_state s r)" and pr': "ps_prev (sc_state s' r) = (if ys \<noteq> [] \<and> r = hd ys then ?pr q else ?pr r)" for r
    by (simp_all add: s'_def)
  have srt: "sorted_wrt (<) (map (\<lambda>p. ps_id (sc_state s' p)) (sc_chain s'))"
    using c(3) unfolding id ch by (auto simp: s'_def sorted_wrt_append)
  have "successively (\<lambda>a b. ps_prev (sc_state s' b) \<in> {0, a}) (sc_chain s')"
    using successively_unlink [of ?pr xs q ys "\<lambda>b. ps_prev (sc_state s' b)", OF c(5) [unfolded ch] d [unfolded ch] pq pr'] by (simp add: s'_def)
  moreover have "ps_prev (sc_state s' (hd (sc_chain s'))) = 0"
    using c(4) d pq unfolding pr' ch by (cases xs; cases ys) (auto simp: s'_def)
  moreover have "sc_chain s' \<noteq> []" "set (sc_chain s') = (if ?pr q = 0 then set (sc_chain s) else set (sc_chain s) - {q})"
    using pq d unfolding ch by (auto simp: s'_def)
  ultimately have lk: "processors_linked s'" and set': "set (sc_chain s') = (if ?pr q = 0 then set (sc_chain s) else set (sc_chain s) - {q})"
    using srt c(2,6) by (auto simp: processors_linked_def) (simp_all add: s'_def)
  have got: "GetProcessor i s' = Inr (s', GetProcessor_loop (sc_state s') i (sc_chain s'))" for i
    using GetProcessor_ok [of s'] processors_linkedD(6) [OF lk] by blast
  have found: "GetProcessor (ps_id (sc_state s r)) s' = Inr (s', r)" if "r \<in> set (sc_chain s')" for r
    using got GetProcessor_loop_found [OF srt that] unfolding id by simp
  have "ps_id (sc_state s r) \<noteq> ps_id (sc_state s q)" if "r \<in> set (sc_chain s)" "r \<noteq> q" for r
    using GetProcessor_loop_found [OF c(3) that(1)] q0(2) that(2) by metis
  then have gone: "GetProcessor_loop (sc_state s') (ps_id (sc_state s q)) (sc_chain s') = 0" if "?pr q \<noteq> 0"
    using that set' id by (intro GetProcessor_loop_none) auto
  have "ps_prev (sc_state s' r) = ?pr q" if "sc_chain s = as @ q # r # bs" for as r bs
  proof -
    have "tl (dropWhile (\<lambda>r. r \<noteq> q) (as @ q # r # bs)) = r # bs"
      using d unfolding that by (intro after_split) auto
    then have "ys = r # bs"
      using rest that by simp
    then show ?thesis
      using pr' by simp
  qed
  moreover have "GetProcessor (ps_id (sc_state s q)) s' = Inr (s', if ?pr q = 0 then q else 0)"
    using found [of q] gone got set' q by simp
  moreover have "\<forall>r \<in> set (sc_chain s). r \<noteq> q \<longrightarrow> GetProcessor (ps_id (sc_state s r)) s' = Inr (s', r)"
    using found set' by auto
  moreover have "GetProcessorCount s' = GetProcessorCount s - 1"
    by (simp add: s'_def GetProcessorCount_def)
  ultimately show ?thesis
    using run lk by blast
qed

text \<open>
  C39. Processor identifiers increase along the chain, so a processor that was added is found under the
  identifier it got and the others are found as before. Removing one lowers the count, keeps the others and makes its
  identifier unknown, except if its \<^verbatim>\<open>prev\<close> is null: then it stays in the chain and is found as before. That is so
  for the boot processor, and since a removal hands \<^verbatim>\<open>prev\<close> on to the successor, then also for the next in the chain.
\<close>

theorem Processors_roundtrip:
  assumes "processors_linked s"
  shows "(p \<noteq> 0 \<and> p \<notin> set (sc_chain s) \<and> ps_id (sc_state s (last (sc_chain s))) \<noteq> - 1 \<longrightarrow>
      (\<exists>s'. AddProcessor p s = Inr s' \<and> processors_linked s' \<and> GetProcessorCount s' = GetProcessorCount s + 1 \<and>
        GetProcessor (ps_id (sc_state s' p)) s' = Inr (s', p) \<and> ps_prev (sc_state s' p) \<noteq> 0 \<and>
        (\<forall>q \<in> set (sc_chain s). GetProcessor (ps_id (sc_state s q)) s' = Inr (s', q)))) \<and>
    (q \<in> set (sc_chain s) \<longrightarrow>
      (\<exists>s'. RemoveProcessor (ps_id (sc_state s q)) s = Inr s' \<and> processors_linked s' \<and> GetProcessorCount s' = GetProcessorCount s - 1 \<and>
        GetProcessor (ps_id (sc_state s q)) s' = Inr (s', if ps_prev (sc_state s q) = 0 then q else 0) \<and>
        (\<forall>r \<in> set (sc_chain s). r \<noteq> q \<longrightarrow> GetProcessor (ps_id (sc_state s r)) s' = Inr (s', r)) \<and>
        (\<forall>xs r ys. sc_chain s = xs @ q # r # ys \<longrightarrow> ps_prev (sc_state s' r) = ps_prev (sc_state s q)))) \<and>
    ps_prev (sc_state s (hd (sc_chain s))) = 0"
  using AddProcessor_ok [OF assms] RemoveProcessor_ok [OF assms] processors_linkedD(4) [OF assms] by blast

theorem Processors_roundtrip_witness:
  "processors_linked ex_sched \<and>
   (\<exists>s'. AddProcessor 2 ex_sched = Inr s' \<and> GetProcessor (ps_id (sc_state s' 2)) s' = Inr (s', 2)) \<and>
   (\<exists>s'. RemoveProcessor (ps_id (sc_state ex_sched 1)) ex_sched = Inr s' \<and> GetProcessor (ps_id (sc_state ex_sched 1)) s' = Inr (s', 1))"
proof -
  have i: "processors_linked ex_sched" and c: "sc_chain ex_sched = [1]" "ps_id (sc_state ex_sched 1) \<noteq> - 1" "ps_prev (sc_state ex_sched 1) = 0"
    by (simp_all add: processors_linked_def ex_sched_def ex_processor_def)
  show ?thesis
    using i c Processors_roundtrip [OF i, of 2 1] by auto
qed

end
