(* ===== verification/Semaphores.thy ===== *)
theory Semaphores
  imports SchedulerProps
begin

text \<open>
  Semaphores and mutexes between threads, src/Scheduling/Semaphore.cpp and src/Scheduling/Mutex.hpp, on top of the
  scheduler: a thread that finds no value leaves its processor and joins the list of waiting threads, and a signal
  makes the first of them ready again. A wait is one call that gives up its lock, and its processor, in the middle. Its
  parts are separate definitions, so that other processors act in between: up to the release of the lock, the yield
  that follows it, and what the thread does when it runs again.
\<close>

section \<open>Operations\<close>

record Semaphore =
  m_value :: u64
  m_maxValue :: u64
  m_waitingThreads :: ThreadList
  m_lock :: u64

definition Semaphore_new :: "u64 \<Rightarrow> u64 \<Rightarrow> Semaphore" where
  "Semaphore_new value maxValue =
     \<lparr>m_value = value, m_maxValue = maxValue, m_waitingThreads = ThreadList_new False, m_lock = SPINLOCK_DEFAULT_VALUE\<rparr>"

definition can_block :: "Scheduler \<Rightarrow> bool" where
  "can_block s \<longleftrightarrow> isRunning s \<and> sc_current s \<noteq> 0 \<and> ps_processor (sc_state s (sc_current s)) \<noteq> 0 \<and> currentThread (sc_state s (sc_current s)) \<noteq> 0"

text \<open>The current thread joins the waiting threads; the lock of the semaphore is released.\<close>

definition Wait_enqueue :: "Scheduler \<Rightarrow> Semaphore \<Rightarrow> (Scheduler \<times> Semaphore \<times> u64) res" where
  "Wait_enqueue s sem =
     bindR (RemoveCurrentThread True s) (\<lambda>(s, t).
     assertR (t \<noteq> 0)
     (let s = upd_info t (\<lambda>i. i\<lparr>sleepRemainingTime := 0, yieldCallback := 0\<rparr>) s in
      bindR (ThreadList_pushBack (sc_links s) (m_waitingThreads sem) t) (\<lambda>(th, l).
      Inr (s\<lparr>sc_links := th\<rparr>, sem\<lparr>m_waitingThreads := l, m_lock := spinlock_release (m_lock sem)\<rparr>, t))))"

text \<open>
  What a wait comes to when it releases the lock: it is over, its thread has left the processor, which has to yield
  next, or there is no scheduler to yield to and it only gives the lock away for a moment.
\<close>

datatype wait_state = Over | Leaves u64 | Spins

definition Wait_block :: "Scheduler \<Rightarrow> Semaphore \<Rightarrow> (Scheduler \<times> Semaphore \<times> wait_state) res" where
  "Wait_block s sem =
     (if can_block s then bindR (Wait_enqueue s sem) (\<lambda>(s, sem, t). Inr (s, sem, Leaves t))
      else Inr (s, sem\<lparr>m_lock := spinlock_release (m_lock sem)\<rparr>, Spins))"

text \<open>The yield, outside of the lock. The argument is what a yielding thread may leave to be called.\<close>

definition Wait_yield :: "(u64 \<Rightarrow> u64 \<Rightarrow> Scheduler \<Rightarrow> Scheduler res) \<Rightarrow> u64 \<Rightarrow> Scheduler \<Rightarrow> Scheduler res" where
  "Wait_yield callback t s = Yield callback t False True s"

text \<open>Take a unit if there is one, else block.\<close>

definition Wait_try :: "bool \<Rightarrow> Scheduler \<Rightarrow> Semaphore \<Rightarrow> (Scheduler \<times> Semaphore \<times> wait_state) res" where
  "Wait_try intState s sem =
     (if m_value sem > 0 then
        Inr (s\<lparr>sc_interrupts := sc_interrupts s \<or> intState\<rparr>, sem\<lparr>m_value := m_value sem - 1, m_lock := spinlock_release (m_lock sem)\<rparr>, Over)
      else Wait_block s sem)"

definition Wait_begin :: "Scheduler \<Rightarrow> Semaphore \<Rightarrow> (Scheduler \<times> Semaphore \<times> wait_state) res" where
  "Wait_begin s sem =
     (let intState = sc_interrupts s in
      bindR (spinlock_acquire (m_lock sem)) (\<lambda>v. Wait_try intState (s\<lparr>sc_interrupts := False\<rparr>) (sem\<lparr>m_lock := v\<rparr>)))"

definition Wait_resume :: "bool \<Rightarrow> Scheduler \<Rightarrow> Semaphore \<Rightarrow> (Scheduler \<times> Semaphore \<times> wait_state) res" where
  "Wait_resume intState s sem =
     bindR (spinlock_acquire (m_lock sem)) (\<lambda>v. Wait_try intState s (sem\<lparr>m_lock := v\<rparr>))"

definition wake_first :: "Scheduler \<Rightarrow> Semaphore \<Rightarrow> (Scheduler \<times> Semaphore) res" where
  "wake_first s sem =
     (let (th, l, t) = ThreadList_popFront (sc_links s) (m_waitingThreads sem);
          s = upd_info t (\<lambda>i. i\<lparr>yieldCallback := 0, sleepRemainingTime := 0\<rparr>) (s\<lparr>sc_links := th\<rparr>) in
      bindR (AddExistingThread t s) (\<lambda>(s, b). assertR b (Inr (s, sem\<lparr>m_waitingThreads := l\<rparr>))))"

definition Signal :: "Scheduler \<Rightarrow> Semaphore \<Rightarrow> (Scheduler \<times> Semaphore) res" where
  "Signal s sem =
     (let intState = sc_interrupts s; s = s\<lparr>sc_interrupts := False\<rparr> in
      bindR (spinlock_acquire (m_lock sem)) (\<lambda>v.
      (let sem = sem\<lparr>m_lock := v\<rparr> in
       bindR
         (if m_value sem < m_maxValue sem then
            (let sem = sem\<lparr>m_value := m_value sem + 1\<rparr> in
             if isRunning s \<and> ThreadList_getCount (m_waitingThreads sem) > 0 then wake_first s sem else Inr (s, sem))
          else Inr (s, sem))
         (\<lambda>(s, sem). Inr (s\<lparr>sc_interrupts := sc_interrupts s \<or> intState\<rparr>, sem\<lparr>m_lock := spinlock_release (m_lock sem)\<rparr>)))))"

text \<open>The destructor wakes every waiting thread.\<close>

primrec Semaphore_destroy_loop :: "nat \<Rightarrow> Scheduler \<Rightarrow> Semaphore \<Rightarrow> (Scheduler \<times> Semaphore) res" where
  "Semaphore_destroy_loop 0 s sem = Inr (s, sem)"
| "Semaphore_destroy_loop (Suc n) s sem =
     (if ThreadList_getCount (m_waitingThreads sem) > 0 then
        (let (th, l, t) = ThreadList_popFront (sc_links s) (m_waitingThreads sem) in
         assertR (t \<noteq> 0)
         (bindR (AddExistingThread t (upd_info t (\<lambda>i. i\<lparr>yieldCallback := 0\<rparr>) (s\<lparr>sc_links := th\<rparr>))) (\<lambda>(s, b).
          assertR b (Semaphore_destroy_loop n s (sem\<lparr>m_waitingThreads := l\<rparr>)))))
      else Inr (s, sem))"

definition Semaphore_destroy :: "Scheduler \<Rightarrow> Semaphore \<Rightarrow> (Scheduler \<times> Semaphore) res" where
  "Semaphore_destroy s sem =
     bindR (spinlock_acquire (m_lock sem)) (\<lambda>v.
     bindR (Semaphore_destroy_loop (unat (ThreadList_getCount (m_waitingThreads sem))) s (sem\<lparr>m_lock := v\<rparr>)) (\<lambda>(s, sem).
     Inr (s, sem\<lparr>m_lock := spinlock_release (m_lock sem)\<rparr>)))"

definition Mutex_new :: Semaphore where
  "Mutex_new = Semaphore_new 1 1"

section \<open>Invariant\<close>

text \<open>The waiting threads \<open>W\<close> are in the list of the semaphore and nowhere else; the scheduler holds \<open>T\<close>.\<close>

definition sem_inv :: "Scheduler \<Rightarrow> Semaphore \<Rightarrow> u64 set \<Rightarrow> u64 list \<Rightarrow> bool" where
  "sem_inv s sem T W \<longleftrightarrow> holds s T \<and> isRunning s \<and> tl_ok (sc_links s) (m_waitingThreads sem) W \<and> \<not> IsProcList (m_waitingThreads sem) \<and>
     set W \<inter> T = {} \<and> (\<forall>t \<in> set W. ready_thread s t) \<and> m_lock sem = SPINLOCK_DEFAULT_VALUE \<and> m_value sem \<le> m_maxValue sem \<and>
     (\<forall>p \<in> set (sc_chain s). ps_processor (sc_state s p) \<noteq> 0)"

end
