(* ===== verification/SemaphoreProps.thy ===== *)
theory SemaphoreProps
  imports Semaphores
begin

text \<open>
  Waits and signals of several threads, interleaved with the scheduler: units are neither lost nor invented, a waiting
  thread is woken for every unit, and a mutex has one holder. A signal may also come between the moment a waiting
  thread releases the lock and the moment its processor has yielded. Registers and stacks are not part of the model:
  that the thread may then run elsewhere before its registers are saved is not seen here.
\<close>

section \<open>Parts of operations\<close>

lemma holdsD:
  assumes "holds s T"
  obtains Q where "sched_inv s Q" "present s Q = T" "locks_free s"
  using assms by (auto simp: holds_def)

text \<open>Work of the scheduler leaves the waiting threads alone.\<close>

lemma sem_inv_step:
  assumes inv: "sem_inv s sem T W" and h: "holds s' T'" and k: "kept p s s'" and th: "others_kept False U (sc_links s) (sc_links s')"
    and i: "\<And>u. same_thread (sc_info s u) (sc_info s' u)" and dis: "U \<inter> set W = {}" "T' \<inter> set W = {}"
  shows "sem_inv s' sem T' W"
proof -
  have "tl_ok (sc_links s') (m_waitingThreads sem) W"
    using tl_ok_frame [OF _ th dis(1)] inv by (simp add: sem_inv_def)
  moreover have "isRunning s' = isRunning s" "\<forall>q. ps_processor (sc_state s' q) = ps_processor (sc_state s q)" "sc_chain s' = sc_chain s"
    using k by (simp_all add: kept_def same_ids_def isRunning_def)
  ultimately show ?thesis
    using inv h dis(2) kept_ready [OF k i] by (auto simp: sem_inv_def)
qed

lemma sem_inv_step_ok:
  assumes "sem_inv s sem T W" "step_ok p s Z U T' r" "r = Inr s'" "U \<inter> set W = {}" "T' \<inter> set W = {}"
  shows "sem_inv s' sem T' W"
proof -
  have "locks_free s"
    using assms(1) by (simp add: sem_inv_def holds_def)
  then have "holds s' T'"
    using step_holds [OF assms(2,3)] by blast
  moreover have "kept p s s'" "others_kept False U (sc_links s) (sc_links s')" "\<And>u. same_thread (sc_info s u) (sc_info s' u)"
    using assms(2,3) by (auto simp: step_ok_def)
  ultimately show ?thesis
    using sem_inv_step [OF assms(1)] assms(4,5) by blast
qed

lemma sem_inv_enter:
  assumes "sem_inv s sem T W" "p \<in> set (sc_chain s)"
  shows "sem_inv (enter p s) sem T W"
proof -
  obtain Q where "sched_inv (enter p s) Q" "present (enter p s) Q = T" "locks_free (enter p s)"
    using enter_holds assms by (metis sem_inv_def)
  then have "holds (enter p s) T"
    by (auto simp: holds_def)
  then show ?thesis
    using assms(1) by (simp add: sem_inv_def enter_def isRunning_def ready_thread_def nice_of_def)
qed

text \<open>Interrupts play no role in the invariant.\<close>

lemma sem_inv_interrupts: "sem_inv (s\<lparr>sc_interrupts := b\<rparr>) sem T W = sem_inv s sem T W"
proof -
  have "sched_inv (s\<lparr>sc_interrupts := b\<rparr>) Q = sched_inv s Q" "present (s\<lparr>sc_interrupts := b\<rparr>) Q = present s Q" for Q
    by (simp_all add: sched_inv_def present_def processors_ok_def current_ok_def running_def ready_thread_def nice_of_def)
  then show ?thesis
    by (simp add: sem_inv_def holds_def locks_free_def isRunning_def ready_thread_def nice_of_def)
qed

lemma pending_interrupts [simp]: "pending_ok (s\<lparr>sc_interrupts := b\<rparr>) Y = pending_ok s Y"
  by (simp add: pending_ok_def)

text \<open>The current thread joins the waiting threads.\<close>

lemma Wait_enqueue_ok:
  assumes inv: "sem_inv s sem T W" and p: "sc_current s = p" "p \<in> set (sc_chain s)"
    and t: "currentThread (sc_state s p) = t" "t \<noteq> 0" "t \<noteq> idleThread (sc_state s p)"
  shows "\<exists>s' l. Wait_enqueue s (sem\<lparr>m_lock := SPINLOCK_LOCKED_VALUE\<rparr>) = Inr (s', sem\<lparr>m_waitingThreads := l\<rparr>, t) \<and>
    sem_inv s' (sem\<lparr>m_waitingThreads := l\<rparr>) (T - {t}) (W @ [t]) \<and> sc_current s' = p \<and> p \<in> set (sc_chain s') \<and> t \<in> T \<and>
    kept p s s' \<and> (\<forall>u. same_thread (sc_info s u) (sc_info s' u)) \<and> awake_kept {} s s' \<and>
    currentThread (sc_state s' p) = 0 \<and> yieldCallback (sc_info s' t) = 0 \<and> sleepRemainingTime (sc_info s' t) = 0"
proof -
  have S: "tl_ok (sc_links s) (m_waitingThreads sem) W" "\<not> IsProcList (m_waitingThreads sem)" "set W \<inter> T = {}" "\<forall>u \<in> set W. ready_thread s u"
      "m_lock sem = SPINLOCK_DEFAULT_VALUE" "m_value sem \<le> m_maxValue sem" "isRunning s" "\<forall>p \<in> set (sc_chain s). ps_processor (sc_state s p) \<noteq> 0" "holds s T"
    using inv by (simp_all add: sem_inv_def)
  obtain Q where Q: "sched_inv s Q" "present s Q = T" "locks_free s"
    using holdsD [OF S(9)] .
  have lk: "ps_lock (sc_state s p) = SPINLOCK_DEFAULT_VALUE" and p0: "p \<noteq> 0"
    using Q(3) p sched_invD(1) [OF Q(1)] by (auto simp: locks_free_def processors_ok_def)
  let ?v = "upd_state p (\<lambda>ps. ps\<lparr>currentThread := 0\<rparr>) s" and ?g = "\<lambda>i. i\<lparr>sleepRemainingTime := 0, yieldCallback := 0\<rparr>"
  have r: "RemoveCurrentThread True s = Inr (?v, t)"
    using RemoveCurrentThread_ok [OF p(1) p0 lk] t(1) by simp
  note v = vacate_inv [OF Q(1) p(2), unfolded t(1)]
  have rd: "ready_thread ?v t" "clear_links (sc_links ?v) t" "t \<in> T" and pv: "present ?v Q = T - {t}"
    using v(2,3) t(2,3) Q(2) by auto
  have tW: "t \<notin> set W"
    using rd(3) S(3) by auto
  obtain th l where push: "ThreadList_pushBack (sc_links s) (m_waitingThreads sem) t = Inr (th, l)" "tl_ok th l (W @ [t])" "\<not> IsProcList l"
      "others_kept False (insert t (set W)) (sc_links s) th"
    using pushBack_ok [OF S(1) t(2) tW] rd(2) S(2) by auto
  let ?i = "upd_info t ?g ?v"
  have yc: "yieldCallback (sc_info s t) = 0"
    using rd(1) by (simp add: ready_thread_def)
  have inv1: "sched_inv ?i Q" "present ?i Q = T - {t}"
    using info_inv [OF v(1), of t ?g] pv yc by (simp_all add: same_thread_def)
  have dis: "insert t (set W) \<inter> present ?i Q = {}" and th': "others_kept False (insert t (set W)) (sc_links ?i) th"
    using inv1(2) S(3) push(4) by auto
  note rl = relink_inv [OF inv1(1) th' dis]
  define s' where "s' = ?i\<lparr>sc_links := th\<rparr>"
  have go: "Wait_enqueue s (sem\<lparr>m_lock := SPINLOCK_LOCKED_VALUE\<rparr>) = Inr (s', sem\<lparr>m_waitingThreads := l, m_lock := SPINLOCK_DEFAULT_VALUE\<rparr>, t)"
    using r push(1) t(2) by (simp add: Wait_enqueue_def s'_def spinlock_release_def)
  have sm: "sem\<lparr>m_waitingThreads := l, m_lock := SPINLOCK_DEFAULT_VALUE\<rparr> = sem\<lparr>m_waitingThreads := l\<rparr>"
    using S(5) by simp
  have "holds s' (T - {t})"
    using rl inv1(2) Q(3) by (auto simp: holds_def s'_def locks_free_def)
  moreover have "ready_thread s' u = ready_thread s u" for u
    using yc by (auto simp: s'_def ready_thread_def nice_of_def)
  moreover have "ready_thread s t"
    using rd(1) kept_ready [OF vacate_kept [of p s], of t] by simp
  ultimately have "sem_inv s' (sem\<lparr>m_waitingThreads := l\<rparr>) (T - {t}) (W @ [t])"
    using push(2,3) S by (auto simp: sem_inv_def s'_def isRunning_def)
  moreover have "kept p s s'" "\<forall>u. same_thread (sc_info s u) (sc_info s' u)" "awake_kept {} s s'"
    using vacate_kept [of p s] yc by (auto simp: s'_def kept_def same_thread_def awake_kept_def)
  ultimately show ?thesis
    using go sm p rd(3) by (auto simp: s'_def)
qed

text \<open>A wait that finds no unit: the thread leaves, and its processor is about to yield.\<close>

lemma Wait_block_ok:
  assumes inv: "sem_inv s sem T W" and p: "sc_current s = p" "p \<in> set (sc_chain s)"
    and t: "currentThread (sc_state s p) = t" "t \<noteq> 0" "t \<noteq> idleThread (sc_state s p)" and Y: "pending_ok s Y" "p \<notin> dom Y"
  shows "\<exists>s' l. Wait_block s (sem\<lparr>m_lock := SPINLOCK_LOCKED_VALUE\<rparr>) = Inr (s', sem\<lparr>m_waitingThreads := l\<rparr>, Leaves t) \<and>
    sem_inv s' (sem\<lparr>m_waitingThreads := l\<rparr>) (T - {t}) (W @ [t]) \<and> t \<in> T \<and> pending_ok s' (Y(p \<mapsto> t))"
proof -
  obtain s1 l where e: "Wait_enqueue s (sem\<lparr>m_lock := SPINLOCK_LOCKED_VALUE\<rparr>) = Inr (s1, sem\<lparr>m_waitingThreads := l\<rparr>, t)"
      "sem_inv s1 (sem\<lparr>m_waitingThreads := l\<rparr>) (T - {t}) (W @ [t])" "p \<in> set (sc_chain s1)" "t \<in> T" "kept p s s1"
      "\<And>u. same_thread (sc_info s u) (sc_info s1 u)" "awake_kept {} s s1"
      "currentThread (sc_state s1 p) = 0" "yieldCallback (sc_info s1 t) = 0" "sleepRemainingTime (sc_info s1 t) = 0"
    using Wait_enqueue_ok [OF inv p t] by blast
  have "0 \<notin> set (sc_chain s)" "ps_processor (sc_state s p) \<noteq> 0"
    using inv p(2) by (auto simp: sem_inv_def holds_def sched_inv_def processors_ok_def)
  then have can: "can_block s"
    using inv p t by (auto simp: can_block_def sem_inv_def)
  have "pending_ok s1 Y"
    by (rule pending_step [OF Y(1) e(5-7)]) (use Y(2) in auto)
  then have "pending_ok s1 (Y(p \<mapsto> t))"
    using e(3,8-10) by (auto simp: pending_ok_def)
  then show ?thesis
    using can e(1,2,4) by (auto simp: Wait_block_def)
qed

text \<open>What both parts of a wait do once they hold the lock.\<close>

lemma Wait_try_ok:
  assumes inv: "sem_inv s sem T W" and p: "sc_current s = p" "p \<in> set (sc_chain s)"
    and t: "currentThread (sc_state s p) = t" "t \<noteq> 0" "t \<noteq> idleThread (sc_state s p)" and Y: "pending_ok s Y"
  shows "m_value sem > 0 \<Longrightarrow> \<exists>s'. Wait_try i s (sem\<lparr>m_lock := SPINLOCK_LOCKED_VALUE\<rparr>) = Inr (s', sem\<lparr>m_value := m_value sem - 1\<rparr>, Over) \<and>
      sem_inv s' (sem\<lparr>m_value := m_value sem - 1\<rparr>) T W \<and> pending_ok s' Y"
    and "m_value sem = 0 \<Longrightarrow> \<exists>s' l. Wait_try i s (sem\<lparr>m_lock := SPINLOCK_LOCKED_VALUE\<rparr>) = Inr (s', sem\<lparr>m_waitingThreads := l\<rparr>, Leaves t) \<and>
      sem_inv s' (sem\<lparr>m_waitingThreads := l\<rparr>) (T - {t}) (W @ [t]) \<and> t \<in> T \<and> pending_ok s' (Y(p \<mapsto> t))"
proof -
  have lk: "m_lock sem = SPINLOCK_DEFAULT_VALUE" and le: "m_value sem \<le> m_maxValue sem"
    using inv by (simp_all add: sem_inv_def)
  assume v: "m_value sem > 0"
  let ?sem = "sem\<lparr>m_value := m_value sem - 1\<rparr>"
  have "sem\<lparr>m_lock := SPINLOCK_LOCKED_VALUE, m_value := m_value sem - 1, m_lock := SPINLOCK_DEFAULT_VALUE\<rparr> = ?sem"
    using lk by simp
  moreover have "m_value sem - 1 \<le> m_value sem"
    using v by (simp add: word_le_nat_alt unat_minus_one word_greater_zero_iff)
  then have "m_value sem - 1 \<le> m_maxValue sem"
    using le by simp
  then have "sem_inv (s\<lparr>sc_interrupts := sc_interrupts s \<or> i\<rparr>) ?sem T W"
    using inv unfolding sem_inv_interrupts by (simp add: sem_inv_def)
  ultimately show "\<exists>s'. Wait_try i s (sem\<lparr>m_lock := SPINLOCK_LOCKED_VALUE\<rparr>) = Inr (s', ?sem, Over) \<and> sem_inv s' ?sem T W \<and> pending_ok s' Y"
    using v Y by (auto simp: Wait_try_def spinlock_release_def)
next
  have "p \<notin> dom Y"
    using Y t(1,2) by (auto simp: pending_ok_def)
  moreover assume "m_value sem = 0"
  ultimately show "\<exists>s' l. Wait_try i s (sem\<lparr>m_lock := SPINLOCK_LOCKED_VALUE\<rparr>) = Inr (s', sem\<lparr>m_waitingThreads := l\<rparr>, Leaves t) \<and>
      sem_inv s' (sem\<lparr>m_waitingThreads := l\<rparr>) (T - {t}) (W @ [t]) \<and> t \<in> T \<and> pending_ok s' (Y(p \<mapsto> t))"
    using Wait_block_ok [OF assms] by (auto simp: Wait_try_def)
qed

lemma Wait_begin_ok:
  assumes inv: "sem_inv s sem T W"
  shows "Wait_begin s sem = Wait_try (sc_interrupts s) (s\<lparr>sc_interrupts := False\<rparr>) (sem\<lparr>m_lock := SPINLOCK_LOCKED_VALUE\<rparr>)"
    "Wait_resume i s sem = Wait_try i s (sem\<lparr>m_lock := SPINLOCK_LOCKED_VALUE\<rparr>)"
  using inv by (simp_all add: Wait_begin_def Wait_resume_def sem_inv_def)

text \<open>A signal wakes the first waiting thread.\<close>

lemma wake_first_ok:
  assumes inv: "sem_inv s sem T (t # W)" and p: "sc_current s = p" "p \<in> set (sc_chain s)" and Y: "pending_ok s Y"
  shows "\<exists>s' l. wake_first s sem = Inr (s', sem\<lparr>m_waitingThreads := l\<rparr>) \<and> sem_inv s' (sem\<lparr>m_waitingThreads := l\<rparr>) (insert t T) W \<and> pending_ok s' Y"
proof -
  have S: "tl_ok (sc_links s) (m_waitingThreads sem) (t # W)" "\<not> IsProcList (m_waitingThreads sem)" "set (t # W) \<inter> T = {}" "\<forall>u \<in> set (t # W). ready_thread s u"
      "holds s T"
    using inv by (simp_all add: sem_inv_def)
  obtain Q where Q: "sched_inv s Q" "present s Q = T" "locks_free s"
    using holdsD [OF S(5)] .
  obtain th l where pop: "ThreadList_popFront (sc_links s) (m_waitingThreads sem) = (th, l, t)" "tl_ok th l W" "\<not> IsProcList l"
      "others_kept False (set (t # W)) (sc_links s) th"
    using popFront_ok [OF S(1)] S(2) by auto
  have tW: "t \<notin> set W"
    using tl_ok_ends(4) [OF S(1)] by simp
  have "set (t # W) \<inter> present s Q = {}"
    using S(3) Q(2) by simp
  note rl = relink_inv [OF Q(1) pop(4) this]
  let ?g = "\<lambda>i. i\<lparr>yieldCallback := 0, sleepRemainingTime := 0\<rparr>"
  define s1 where "s1 = upd_info t ?g (s\<lparr>sc_links := th\<rparr>)"
  have rd: "ready_thread s t" "yieldCallback (sc_info s t) = 0"
    using S(4) by (auto simp: ready_thread_def)
  have inv1: "sched_inv s1 Q" "present s1 Q = T"
    using info_inv [OF rl(1), of t ?g] rl(2) rd(2) Q(2) by (simp_all add: same_thread_def s1_def)
  have k1: "kept p s s1" "same_thread (sc_info s u) (sc_info s1 u)" for u
    using rd(2) by (auto simp: s1_def kept_def same_ids_def same_thread_def)
  have "t \<notin> present s1 Q" "ready_thread s1 t" "sc_current s1 = p" "p \<in> set (sc_chain s1)"
    using S(3) inv1(2) rd(1) kept_ready [OF k1] p by (auto simp: s1_def)
  then obtain s' Q' where a: "AddExistingThread t s1 = Inr (s', True)" "sched_inv s' Q'" "present s' Q' = insert t T" "kept p s1 s'"
      "others_kept False (insert t T) (sc_links s1) (sc_links s')" "\<And>u. same_thread (sc_info s1 u) (sc_info s' u)"
      "same_running s1 s'" "awake_kept {} s1 s'"
    using AddExistingThread_inv [OF inv1(1), of p t] inv1(2) by auto
  let ?sem = "sem\<lparr>m_waitingThreads := l\<rparr>"
  have lf: "locks_free s1"
    using Q(3) by (simp add: s1_def locks_free_def)
  have sem1: "sem_inv s1 ?sem T W"
    using inv inv1 lf pop(2,3) k1(1) kept_ready [OF k1] by (auto simp: sem_inv_def holds_def s1_def isRunning_def)
  have "holds s' (insert t T)"
    using a(2,3) kept_locks_free [OF a(4) lf] by (auto simp: holds_def)
  then have "sem_inv s' ?sem (insert t T) W"
    by (rule sem_inv_step [OF sem1 _ a(4,5,6)]) (use S(3) tW in auto)
  moreover have "pending_ok s1 Y"
    using Y by (auto simp: pending_ok_def s1_def)
  then have "pending_ok s' Y"
    by (rule pending_step [OF _ a(4,6,8)]) (use Y a(7) in \<open>auto simp: pending_ok_def same_running_def s1_def\<close>)
  ultimately show ?thesis
    using pop(1) a(1) by (auto simp: wake_first_def s1_def)
qed

lemma wake_first_lock:
  assumes "wake_first s sem = Inr (s', sem\<lparr>m_waitingThreads := l\<rparr>)"
  shows "wake_first s (sem\<lparr>m_lock := v\<rparr>) = Inr (s', sem\<lparr>m_lock := v, m_waitingThreads := l\<rparr>)"
proof -
  obtain th l0 t where pop: "ThreadList_popFront (sc_links s) (m_waitingThreads sem) = (th, l0, t)"
    by (cases "ThreadList_popFront (sc_links s) (m_waitingThreads sem)") auto
  let ?s = "upd_info t (\<lambda>i. i\<lparr>yieldCallback := 0, sleepRemainingTime := 0\<rparr>) (s\<lparr>sc_links := th\<rparr>)"
  have w: "wake_first s (sem\<lparr>m_lock := u\<rparr>) = bindR (AddExistingThread t ?s) (\<lambda>(s, b). assertR b (Inr (s, sem\<lparr>m_lock := u, m_waitingThreads := l0\<rparr>)))" for u
    using pop by (simp add: wake_first_def)
  have "AddExistingThread t ?s = Inr (s', True) \<and> sem\<lparr>m_waitingThreads := l0\<rparr> = sem\<lparr>m_waitingThreads := l\<rparr>"
    using assms pop by (cases "AddExistingThread t ?s") (auto simp: wake_first_def assertR_def split: if_splits)
  moreover have "m_waitingThreads (sem\<lparr>m_waitingThreads := l0\<rparr>) = l0" "m_waitingThreads (sem\<lparr>m_waitingThreads := l\<rparr>) = l"
    by simp_all
  ultimately have "AddExistingThread t ?s = Inr (s', True)" "l0 = l"
    by metis+
  then show ?thesis
    using w by simp
qed

lemma Signal_ok:
  assumes inv: "sem_inv s sem T W" and p: "sc_current s = p" "p \<in> set (sc_chain s)" and Y: "pending_ok s Y"
  shows "\<exists>s' sem'. Signal s sem = Inr (s', sem') \<and> m_maxValue sem' = m_maxValue sem \<and> pending_ok s' Y \<and>
    (if m_value sem < m_maxValue sem then
       m_value sem' = m_value sem + 1 \<and> (case W of [] \<Rightarrow> sem_inv s' sem' T [] | t # W' \<Rightarrow> sem_inv s' sem' (insert t T) W')
     else m_value sem' = m_value sem \<and> sem_inv s' sem' T W)"
proof -
  let ?s = "s\<lparr>sc_interrupts := False\<rparr>" and ?l = "sem\<lparr>m_lock := SPINLOCK_LOCKED_VALUE\<rparr>"
  have lk: "m_lock sem = SPINLOCK_DEFAULT_VALUE" and run: "isRunning ?s" and tl: "tl_ok (sc_links s) (m_waitingThreads sem) W"
    using inv by (simp_all add: sem_inv_def isRunning_def)
  have cnt: "ThreadList_getCount (m_waitingThreads sem) > 0 \<longleftrightarrow> W \<noteq> []"
    using tl_ok_count [OF tl] by (simp add: ThreadList_getCount_def word_greater_zero_iff)
  let ?up = "sem\<lparr>m_value := m_value sem + 1\<rparr>"
  show ?thesis
  proof (cases "m_value sem < m_maxValue sem")
    case False
    have "Signal s sem = Inr (?s\<lparr>sc_interrupts := sc_interrupts s\<rparr>, sem)"
      using False lk by (simp add: Signal_def spinlock_release_def)
    then show ?thesis
      using False inv Y by (auto simp: sem_inv_interrupts)
  next
    case True
    then have le: "m_value sem + 1 \<le> m_maxValue sem"
      by (rule inc_le)
    have up: "sem_inv ?s ?up T W"
      using inv le unfolding sem_inv_interrupts by (simp add: sem_inv_def)
    show ?thesis
    proof (cases W)
      case Nil
      have "Signal s sem = Inr (?s\<lparr>sc_interrupts := sc_interrupts s\<rparr>, ?up)"
        using True lk cnt Nil by (simp add: Signal_def spinlock_release_def)
      moreover have "sem_inv (?s\<lparr>sc_interrupts := sc_interrupts s\<rparr>) ?up T W"
        unfolding sem_inv_interrupts using up by (simp only: sem_inv_interrupts)
      ultimately show ?thesis
        using True Nil Y by (intro exI [of _ "?s\<lparr>sc_interrupts := sc_interrupts s\<rparr>"] exI [of _ ?up]) simp
    next
      case (Cons t W')
      obtain s' l where w: "wake_first ?s ?up = Inr (s', ?up\<lparr>m_waitingThreads := l\<rparr>)" "sem_inv s' (?up\<lparr>m_waitingThreads := l\<rparr>) (insert t T) W'"
          "pending_ok s' Y"
        using wake_first_ok [of ?s ?up T t W' p Y] up Cons p Y by auto
      have "wake_first ?s (?up\<lparr>m_lock := SPINLOCK_LOCKED_VALUE\<rparr>) = Inr (s', ?up\<lparr>m_lock := SPINLOCK_LOCKED_VALUE, m_waitingThreads := l\<rparr>)"
        using wake_first_lock [OF w(1)] by simp
      moreover have "?up\<lparr>m_lock := SPINLOCK_LOCKED_VALUE\<rparr> = sem\<lparr>m_lock := SPINLOCK_LOCKED_VALUE, m_value := m_value sem + 1\<rparr>"
        by simp
      ultimately have go: "wake_first ?s (sem\<lparr>m_lock := SPINLOCK_LOCKED_VALUE, m_value := m_value sem + 1\<rparr>) =
          Inr (s', ?up\<lparr>m_lock := SPINLOCK_LOCKED_VALUE, m_waitingThreads := l\<rparr>)"
        by metis
      have "?up\<lparr>m_lock := SPINLOCK_LOCKED_VALUE, m_waitingThreads := l, m_lock := SPINLOCK_DEFAULT_VALUE\<rparr> = ?up\<lparr>m_waitingThreads := l\<rparr>"
        using lk by simp
      then have "Signal s sem = Inr (s'\<lparr>sc_interrupts := sc_interrupts s' \<or> sc_interrupts s\<rparr>, ?up\<lparr>m_waitingThreads := l\<rparr>)"
        using True lk cnt run Cons go by (simp add: Signal_def spinlock_release_def)
      then show ?thesis
        using True Cons w(2,3) by (auto simp: sem_inv_interrupts)
    qed
  qed
qed

section \<open>Interleavings\<close>

text \<open>
  Waits and signals by the threads of all processors, with the scheduler acting in between. \<open>Y\<close> holds the processors
  that a waiting thread has just left and that have not yielded yet, \<open>G\<close> the threads that a signal has woken inside of a
  wait and that have not run since; the number counts the waits that are over minus the signals that added a
  unit. As for the scheduler alone, forced yields do not come from an idle thread, and a thread does not go to sleep
  before the processor it left in a wait has yielded.
\<close>

definition at_thread :: "Scheduler \<Rightarrow> u64 \<Rightarrow> u64 \<Rightarrow> bool" where
  "at_thread s p c \<longleftrightarrow> p \<in> set (sc_chain s) \<and> currentThread (sc_state s p) = c \<and> c \<noteq> 0 \<and> c \<noteq> idleThread (sc_state s p)"

definition woken :: "Semaphore \<Rightarrow> u64 set" where
  "woken sem = (if m_value sem < m_maxValue sem \<and> tl_Head (m_waitingThreads sem) \<noteq> 0 then {tl_Head (m_waitingThreads sem)} else {})"

definition left_by :: "u64 \<Rightarrow> wait_state \<Rightarrow> (u64 \<rightharpoonup> u64) \<Rightarrow> (u64 \<rightharpoonup> u64)" where
  "left_by p w Y = (case w of Leaves t \<Rightarrow> Y(p \<mapsto> t) | _ \<Rightarrow> Y)"

inductive background :: "(u64 \<rightharpoonup> u64) \<Rightarrow> Scheduler \<Rightarrow> Scheduler \<Rightarrow> bool" where
  tick: "p \<in> set (sc_chain s) \<Longrightarrow> p \<notin> dom Y \<Longrightarrow> TimerTick ms (enter p s) = Inr s' \<Longrightarrow> background Y s s'"
| yield: "at_thread s p c \<Longrightarrow> Yield_Internal cb force 0 (enter p s) = Inr s' \<Longrightarrow> background Y s s'"
| sleep: "at_thread s p c \<Longrightarrow> c \<notin> ran Y \<Longrightarrow> SleepCurrentThread cb ms (enter p s) = Inr s' \<Longrightarrow> background Y s s'"

inductive sem_run :: "Scheduler \<Rightarrow> Semaphore \<Rightarrow> Scheduler \<Rightarrow> Semaphore \<Rightarrow> (u64 \<rightharpoonup> u64) \<Rightarrow> u64 set \<Rightarrow> int \<Rightarrow> bool" for s0 sem0 where
  init: "sem_run s0 sem0 s0 sem0 Map.empty {} 0"
| other: "sem_run s0 sem0 s sem Y G H \<Longrightarrow> background Y s s' \<Longrightarrow> sem_run s0 sem0 s' sem Y G H"
| wait: "sem_run s0 sem0 s sem Y G H \<Longrightarrow> at_thread s p c \<Longrightarrow> c \<notin> G \<Longrightarrow> Wait_begin (enter p s) sem = Inr (s', sem', w) \<Longrightarrow>
    sem_run s0 sem0 s' sem' (left_by p w Y) G (H + of_bool (w = Over))"
| yielded: "sem_run s0 sem0 s sem Y G H \<Longrightarrow> Y p = Some t \<Longrightarrow> Wait_yield cb t (enter p s) = Inr s' \<Longrightarrow> sem_run s0 sem0 s' sem (Y(p := None)) G H"
| resume: "sem_run s0 sem0 s sem Y G H \<Longrightarrow> at_thread s p c \<Longrightarrow> c \<in> G \<Longrightarrow> Wait_resume i (enter p s) sem = Inr (s', sem', w) \<Longrightarrow>
    sem_run s0 sem0 s' sem' (left_by p w Y) (G - {c}) (H + of_bool (w = Over))"
| signal: "sem_run s0 sem0 s sem Y G H \<Longrightarrow> at_thread s p c \<Longrightarrow> Signal (enter p s) sem = Inr (s', sem') \<Longrightarrow>
    sem_run s0 sem0 s' sem' Y (G \<union> woken sem) (H - of_bool (m_value sem < m_maxValue sem))"

text \<open>
  The invariant of the interleavings: every thread is either with the scheduler or in the list of the semaphore, and
  as long as a thread waits, each unit has a woken thread that is on its way to take it.
\<close>

definition sem_ok :: "Scheduler \<Rightarrow> Semaphore \<Rightarrow> (u64 \<rightharpoonup> u64) \<Rightarrow> u64 set \<Rightarrow> bool" where
  "sem_ok s sem Y G \<longleftrightarrow> pending_ok s Y \<and> (\<exists>T W. sem_inv s sem T W \<and> G \<subseteq> T \<and> finite G \<and> (W \<noteq> [] \<longrightarrow> unat (m_value sem) \<le> card G))"

text \<open>A thread that runs on a processor can wait and signal.\<close>

lemma at_thread_enter:
  assumes "sem_inv s sem T W" "at_thread s p c"
  shows "sem_inv (enter p s) sem T W" "sc_current (enter p s) = p" "p \<in> set (sc_chain (enter p s))" "currentThread (sc_state (enter p s) p) = c"
    "c \<noteq> 0" "c \<noteq> idleThread (sc_state (enter p s) p)"
  using assms sem_inv_enter by (auto simp: at_thread_def enter_def)

text \<open>Both parts of a wait, for a thread that is no longer in the set.\<close>

lemma Wait_try_sem_ok:
  assumes inv: "sem_inv s sem T W" and p: "sc_current s = p" "p \<in> set (sc_chain s)"
    and c: "currentThread (sc_state s p) = c" "c \<noteq> 0" "c \<noteq> idleThread (sc_state s p)" and Y: "pending_ok s Y"
    and G: "G \<subseteq> T" "finite G" "W \<noteq> [] \<Longrightarrow> unat (m_value sem) \<le> card (insert c G)" "c \<notin> G"
    and r: "Wait_try i s (sem\<lparr>m_lock := SPINLOCK_LOCKED_VALUE\<rparr>) = Inr (s', sem', w)"
  shows "sem_ok s' sem' (left_by p w Y) G \<and> unat (m_value sem) = unat (m_value sem') + of_bool (w = Over)"
proof (cases "m_value sem > 0")
  case True
  then have o: "sem' = sem\<lparr>m_value := m_value sem - 1\<rparr>" "w = Over" "sem_inv s' sem' T W" "pending_ok s' Y"
    using Wait_try_ok(1) [OF inv p c Y, of i] r by auto
  have v: "unat (m_value sem) = unat (m_value sem - 1) + 1"
    using True unat_minus_one [of "m_value sem"] by (simp add: word_greater_zero_iff unat_gt_0)
  have "card (insert c G) = card G + 1"
    using G(2,4) by simp
  then have "W \<noteq> [] \<Longrightarrow> unat (m_value sem') \<le> card G"
    using G(3) v o(1) by simp
  then show ?thesis
    using o v G(1,2) unfolding sem_ok_def left_by_def by auto
next
  case False
  then have z: "m_value sem = 0"
    by (simp add: word_greater_zero_iff)
  then obtain l where o: "sem' = sem\<lparr>m_waitingThreads := l\<rparr>" "w = Leaves c" "sem_inv s' sem' (T - {c}) (W @ [c])" "pending_ok s' (Y(p \<mapsto> c))"
    using Wait_try_ok(2) [OF inv p c Y, of i] r by auto
  have "G \<subseteq> T - {c}" "unat (m_value sem') \<le> card G" "unat (m_value sem) = unat (m_value sem') + of_bool (w = Over)"
    using G(1,4) z o(1,2) by auto
  moreover have "pending_ok s' (left_by p w Y)"
    using o(2,4) by (simp add: left_by_def del: fun_upd_apply)
  ultimately show ?thesis
    using o(3) G(2) unfolding sem_ok_def by blast
qed

lemma Signal_sem_ok:
  assumes inv: "sem_inv s sem T W" and p: "sc_current s = p" "p \<in> set (sc_chain s)" and Y: "pending_ok s Y"
    and G: "G \<subseteq> T" "finite G" "W \<noteq> [] \<Longrightarrow> unat (m_value sem) \<le> card G" and r: "Signal s sem = Inr (s', sem')"
  shows "sem_ok s' sem' Y (G \<union> woken sem) \<and> unat (m_value sem') = unat (m_value sem) + of_bool (m_value sem < m_maxValue sem)"
proof -
  have tl: "tl_ok (sc_links s) (m_waitingThreads sem) W" and dis: "set W \<inter> T = {}"
    using inv by (simp_all add: sem_inv_def)
  have hd: "tl_Head (m_waitingThreads sem) = (case W of [] \<Rightarrow> 0 | t # _ \<Rightarrow> t)" "0 \<notin> set W"
    using tl_ok_ends [OF tl] by (auto split: list.split)
  note S = Signal_ok [OF inv p Y]
  show ?thesis
  proof (cases "m_value sem < m_maxValue sem")
    case False
    then have "sem_inv s' sem' T W" "m_value sem' = m_value sem" "woken sem = {}" "pending_ok s' Y"
      using S r by (auto simp: woken_def)
    then show ?thesis
      using False G unfolding sem_ok_def by auto
  next
    case True
    then have "unat (m_value sem) < unat (m_maxValue sem)"
      by (simp add: word_less_nat_alt)
    then have "unat (m_value sem) + 1 < 18446744073709551616"
      using unat_lt_2p64 [of "m_maxValue sem"] by linarith
    then have u: "unat (m_value sem + 1) = unat (m_value sem) + 1"
      by (simp add: unat_word_ariths)
    show ?thesis
    proof (cases W)
      case Nil
      then have "sem_inv s' sem' T []" "m_value sem' = m_value sem + 1" "woken sem = {}" "pending_ok s' Y"
        using S r True hd by (auto simp: woken_def)
      then show ?thesis
        using True u G unfolding sem_ok_def by auto
    next
      case (Cons t W')
      then have o: "sem_inv s' sem' (insert t T) W'" "m_value sem' = m_value sem + 1" "woken sem = {t}" "pending_ok s' Y"
        using S r True hd by (auto simp: woken_def)
      have "t \<notin> G"
        using Cons dis G(1) by auto
      then have "card (G \<union> {t}) = card G + 1"
        using G(2) by simp
      then have "unat (m_value sem') \<le> card (G \<union> {t})" "G \<union> {t} \<subseteq> insert t T"
        using G(1,3) Cons u o(2) by auto
      then show ?thesis
        using o u True G(2) unfolding sem_ok_def by auto
    qed
  qed
qed

text \<open>The scheduler on its own.\<close>

lemma enter_sem_step:
  assumes inv: "sem_inv s sem T W" and p: "p \<in> set (sc_chain s)" and Y: "pending_ok s Y" "p \<notin> dom Y" "Z \<inter> ran Y = {}"
    and st: "\<And>Q. sched_inv (enter p s) Q \<Longrightarrow> present (enter p s) Q = T \<Longrightarrow> step_ok p (enter p s) Z T T r" and r: "r = Inr s'"
  shows "sem_inv s' sem T W \<and> pending_ok s' Y"
proof -
  have e: "sem_inv (enter p s) sem T W"
    by (rule sem_inv_enter [OF inv p])
  then obtain Q where Q: "sched_inv (enter p s) Q" "present (enter p s) Q = T"
    using holdsD by (metis sem_inv_def)
  have "pending_ok (enter p s) Y"
    using Y(1) by simp
  then show ?thesis
    using sem_inv_step_ok [OF e st [OF Q] r] step_pending [OF st [OF Q] r _ Y(3,2)] inv by (auto simp: sem_inv_def)
qed

lemma background_sem_inv:
  assumes "background Y s s'" and inv: "sem_inv s sem T W" and Y: "pending_ok s Y"
  shows "sem_inv s' sem T W \<and> pending_ok s' Y"
  using assms(1)
proof cases
  case (tick p ms)
  show ?thesis
    by (rule enter_sem_step [OF inv tick(1) Y tick(2) _ _ tick(3), where Z = "{}"]) (use TimerTick_inv [of "enter p s"] tick(1) in \<open>auto simp: enter_def\<close>)
next
  case (yield p c cb force)
  then have p: "p \<in> set (sc_chain s)" "currentThread (sc_state s p) \<noteq> idleThread (sc_state s p)" "p \<notin> dom Y"
    using Y by (auto simp: at_thread_def pending_ok_def)
  have lk: "ps_lock (sc_state s p) = SPINLOCK_DEFAULT_VALUE"
    using inv p(1) by (simp add: sem_inv_def holds_def locks_free_def)
  show ?thesis
    by (rule enter_sem_step [OF inv p(1) Y p(3) _ _ yield(2), where Z = "{}"]) (use Yield_inv [of "enter p s"] p lk in \<open>auto simp: enter_def\<close>)
next
  case (sleep p c cb ms)
  then have p: "p \<in> set (sc_chain s)" "currentThread (sc_state s p) \<noteq> idleThread (sc_state s p)" "p \<notin> dom Y" "currentThread (sc_state s p) = c"
    using Y by (auto simp: at_thread_def pending_ok_def)
  have lk: "ps_lock (sc_state s p) = SPINLOCK_DEFAULT_VALUE"
    using inv p(1) by (simp add: sem_inv_def holds_def locks_free_def)
  show ?thesis
    by (rule enter_sem_step [OF inv p(1) Y p(3) _ _ sleep(3), where Z = "{c}"])
      (use Sleep_inv [of "enter p s"] p lk sleep(2) in \<open>auto simp: enter_def\<close>)
qed

text \<open>The yield of a processor that a waiting thread has left.\<close>

lemma Wait_yield_ok:
  assumes inv: "sem_inv s sem T W" and Y: "pending_ok s Y" "Y p = Some t"
  shows "\<exists>s'. Wait_yield cb t (enter p s) = Inr s' \<and> sem_inv s' sem T W \<and> pending_ok s' (Y(p := None))"
proof -
  have h: "holds s T"
    using inv by (simp add: sem_inv_def)
  from finish_step [OF h Y] obtain st: "step_ok p (enter p s) {} T T (Yield_Internal cb False t (enter p s))" and p: "p \<in> set (sc_chain s)"
    by blast
  from st obtain s' where r: "Yield_Internal cb False t (enter p s) = Inr s'"
    by (auto simp: step_ok_def)
  have "p \<noteq> 0"
    using enter_holds [OF h p] by metis
  then have "Wait_yield cb t (enter p s) = Inr s'"
    using r by (simp add: Wait_yield_def Yield_def enter_def)
  moreover have "pending_ok s (Y(p := None))"
    using Y(1) by (simp del: fun_upd_apply)
  from enter_sem_step [OF inv p this _ _ st r] have "sem_inv s' sem T W \<and> pending_ok s' (Y(p := None))"
    by simp
  ultimately show ?thesis
    by blast
qed

text \<open>The invariant and the count along every interleaving.\<close>

lemma sem_run_ok:
  assumes "sem_run s0 sem0 s sem Y G H" "sem_inv s0 sem0 T0 []"
  shows "sem_ok s sem Y G \<and> int (unat (m_value sem)) + H = int (unat (m_value sem0))"
  using assms
proof (induction rule: sem_run.induct)
  case init
  then show ?case
    by (auto simp: sem_ok_def)
next
  case (other s sem Y G H s')
  then show ?case
    using background_sem_inv [OF other.hyps(2)] unfolding sem_ok_def by blast
next
  case (wait s sem Y G H p c s' sem' w)
  then obtain T W where i: "sem_inv s sem T W" "G \<subseteq> T" "finite G" "W \<noteq> [] \<longrightarrow> unat (m_value sem) \<le> card G" and Y: "pending_ok s Y"
    by (auto simp: sem_ok_def)
  note e = at_thread_enter [OF i(1) wait.hyps(2)]
  let ?s = "(enter p s)\<lparr>sc_interrupts := False\<rparr>"
  have si: "sem_inv ?s sem T W" and yi: "pending_ok ?s Y"
    using e(1) Y by (simp_all only: sem_inv_interrupts pending_interrupts pending_simps)
  have r: "Wait_try False ?s (sem\<lparr>m_lock := SPINLOCK_LOCKED_VALUE\<rparr>) = Inr (s', sem', w)"
    using wait.hyps(4) Wait_begin_ok(1) [OF e(1)] by (simp add: enter_def)
  have "W \<noteq> [] \<Longrightarrow> unat (m_value sem) \<le> card (insert c G)"
    using i(3,4) wait.hyps(3) by simp
  from Wait_try_sem_ok [OF si _ _ _ e(5) _ yi i(2,3) this wait.hyps(3) r, of p] e
  show ?case
    using wait.IH wait.prems by simp
next
  case (yielded s sem Y G H p t cb s')
  then obtain T W where i: "sem_inv s sem T W" "G \<subseteq> T" "finite G" "W \<noteq> [] \<longrightarrow> unat (m_value sem) \<le> card G" and Y: "pending_ok s Y"
    by (auto simp: sem_ok_def)
  from Wait_yield_ok [OF i(1) Y yielded.hyps(2), of cb] have "sem_inv s' sem T W" "pending_ok s' (Y(p := None))"
    using yielded.hyps(3) by auto
  then have "sem_ok s' sem (Y(p := None)) G"
    using i(2-4) unfolding sem_ok_def by blast
  then show ?case
    using yielded.IH yielded.prems by blast
next
  case (resume s sem Y G H p c i s' sem' w)
  then obtain T W where i: "sem_inv s sem T W" "G \<subseteq> T" "finite G" "W \<noteq> [] \<longrightarrow> unat (m_value sem) \<le> card G" and Y: "pending_ok s Y"
    by (auto simp: sem_ok_def)
  note e = at_thread_enter [OF i(1) resume.hyps(2)]
  have r: "Wait_try i (enter p s) (sem\<lparr>m_lock := SPINLOCK_LOCKED_VALUE\<rparr>) = Inr (s', sem', w)" and Y': "pending_ok (enter p s) Y"
    using resume.hyps(4) Wait_begin_ok(2) [OF e(1)] Y by simp_all
  have "insert c (G - {c}) = G" and sub: "G - {c} \<subseteq> T" "finite (G - {c})" "c \<notin> G - {c}"
    using resume.hyps(3) i(2,3) by auto
  then have w: "W \<noteq> [] \<Longrightarrow> unat (m_value sem) \<le> card (insert c (G - {c}))"
    using i(4) by simp
  from Wait_try_sem_ok [OF e(1-6) Y' sub(1,2) w sub(3) r]
  show ?case
    using resume.IH resume.prems by simp
next
  case (signal s sem Y G H p c s' sem')
  then obtain T W where i: "sem_inv s sem T W" "G \<subseteq> T" "finite G" "W \<noteq> [] \<longrightarrow> unat (m_value sem) \<le> card G" and Y: "pending_ok s Y"
    by (auto simp: sem_ok_def)
  note e = at_thread_enter [OF i(1) signal.hyps(2)]
  have "W \<noteq> [] \<Longrightarrow> unat (m_value sem) \<le> card G" and Y': "pending_ok (enter p s) Y"
    using i(4) Y by simp_all
  from Signal_sem_ok [OF e(1-3) Y' i(2,3) this(1) signal.hyps(3)]
  show ?case
    using signal.IH signal.prems by simp
qed

section \<open>An example\<close>

text \<open>The example processor with thread 7 running, and a mutex.\<close>

definition ex_busy :: Scheduler where
  "ex_busy = ex_sched\<lparr>sc_state := (\<lambda>p. ex_processor\<lparr>currentThread := 7, ps_threads := replicate NICE_LEVELS (ThreadList_new False)\<rparr>)\<rparr>"

lemma ex_busy_lists: "lists_inv (sc_links ex_busy) (all_lists ex_busy) (keys ex_busy) (\<lambda>_. [])"
proof -
  have "tl_ok no_links (all_lists ex_busy (1, i)) [] \<and> \<not> IsProcList (all_lists ex_busy (1, i)) \<and>
      tl_Lock (all_lists ex_busy (1, i)) = SPINLOCK_DEFAULT_VALUE" for i
    by (simp add: all_lists_def list_at_def ex_busy_def ex_processor_def tl_ok_def ThreadList_new_def)
  then show ?thesis
    by (auto simp: lists_inv_def keys_def ex_busy_def ex_sched_def)
qed

lemma ex_busy_sem_inv: "v \<le> 1 \<Longrightarrow> sem_inv ex_busy (Semaphore_new v 1) {7} []"
proof -
  have run: "running ex_busy = {7}" and mem: "members (keys ex_busy) (\<lambda>_. []) = {}"
    by (auto simp: running_def ex_busy_def ex_sched_def ex_processor_def)
  have "proc_ok (ex_processor\<lparr>currentThread := 7, ps_threads := replicate NICE_LEVELS (ThreadList_new False)\<rparr>)"
    using ex_proc_ok by (simp add: proc_ok_def)
  then have "processors_ok ex_busy"
    by (simp add: processors_ok_def ex_busy_def ex_sched_def ex_processor_def)
  moreover have "current_ok ex_busy"
    by (simp add: current_ok_def ex_busy_def ex_sched_def ex_processor_def)
  moreover have "ready_thread ex_busy 7" "clear_links (sc_links ex_busy) 7"
    by (simp_all add: ready_thread_def nice_of_def ex_busy_def ex_sched_def ex_processor_def NICE_LEVELS_def GetDataFromThread_def no_links_def)
  ultimately have "sched_inv ex_busy (\<lambda>_. [])" "present ex_busy (\<lambda>_. []) = {7}"
    using ex_busy_lists unfolding sched_inv_def present_def mem run by simp_all
  moreover have "locks_free ex_busy"
    by (simp add: locks_free_def ex_busy_def ex_sched_def ex_processor_def)
  ultimately have "holds ex_busy {7}"
    by (auto simp: holds_def)
  then show "v \<le> 1 \<Longrightarrow> sem_inv ex_busy (Semaphore_new v 1) {7} []"
    by (simp add: sem_inv_def isRunning_def ex_busy_def ex_sched_def ex_processor_def Semaphore_new_def tl_ok_def ThreadList_new_def)
qed

section \<open>The property\<close>

text \<open>
  C5. Along every interleaving of waits, signals and the scheduler on all processors, with signals also between the
  moment a waiting thread releases the lock and the yield of its processor: the units taken minus the units given back
  and the value of the semaphore always add up to the initial value, so that no more waits are over than there
  were units, and a mutex has one holder; every thread is either with the scheduler or in the list of waiting
  threads, and while one waits, each unit has a woken thread on its way to take it, so no wake-up is lost. A
  running thread can always signal, start a wait and go on with one, where the wait is over at once just if there is a
  unit, and the yield of a processor that a waiting thread has left returns. Forced yields of an idle processor and
  the sleep of a thread before the processor it left in a wait has yielded are not among the interleavings; registers
  and stacks are not modelled.
\<close>

theorem Semaphore_no_lost_wakeup:
  assumes "sem_run s0 sem0 s sem Y G H" "sem_inv s0 sem0 T0 []"
  shows "int (unat (m_value sem)) + H = int (unat (m_value sem0)) \<and> H \<le> int (unat (m_value sem0)) \<and>
    (\<exists>T W. holds s T \<and> tl_ok (sc_links s) (m_waitingThreads sem) W \<and> set W \<inter> T = {} \<and> G \<subseteq> T \<and>
      (W \<noteq> [] \<longrightarrow> unat (m_value sem) \<le> card G)) \<and>
    (at_thread s p c \<longrightarrow> (\<exists>s' sem'. Wait_begin (enter p s) sem = Inr (s', sem', if m_value sem > 0 then Over else Leaves c))) \<and>
    (at_thread s p c \<longrightarrow> (\<exists>s' sem'. Wait_resume i (enter p s) sem = Inr (s', sem', if m_value sem > 0 then Over else Leaves c))) \<and>
    (at_thread s p c \<longrightarrow> (\<exists>s' sem'. Signal (enter p s) sem = Inr (s', sem'))) \<and>
    (Y p = Some t \<longrightarrow> (\<exists>s'. Wait_yield cb t (enter p s) = Inr s'))"
proof (intro conjI impI)
  note ok = sem_run_ok [OF assms]
  then show eq: "int (unat (m_value sem)) + H = int (unat (m_value sem0))"
    by simp
  then show "H \<le> int (unat (m_value sem0))"
    by (smt (verit) of_nat_0_le_iff)
  obtain T W where i: "sem_inv s sem T W" "G \<subseteq> T" "W \<noteq> [] \<longrightarrow> unat (m_value sem) \<le> card G" and Y: "pending_ok s Y"
    using ok by (auto simp: sem_ok_def)
  then show "\<exists>T W. holds s T \<and> tl_ok (sc_links s) (m_waitingThreads sem) W \<and> set W \<inter> T = {} \<and> G \<subseteq> T \<and>
      (W \<noteq> [] \<longrightarrow> unat (m_value sem) \<le> card G)"
    unfolding sem_inv_def by blast
  show "\<exists>s'. Wait_yield cb t (enter p s) = Inr s'" if "Y p = Some t"
    using Wait_yield_ok [OF i(1) Y that] by blast
  assume "at_thread s p c"
  note e = at_thread_enter [OF i(1) this]
  have Y': "pending_ok (enter p s) Y"
    using Y by simp
  have tr: "\<exists>s' sem'. Wait_try j s1 (sem\<lparr>m_lock := SPINLOCK_LOCKED_VALUE\<rparr>) = Inr (s', sem', if m_value sem > 0 then Over else Leaves c)"
    if "s1 = (enter p s)\<lparr>sc_interrupts := b\<rparr>" for j s1 b
  proof -
    have "sem_inv s1 sem T W" "pending_ok s1 Y"
      using e(1) Y' unfolding that by (simp_all only: sem_inv_interrupts pending_interrupts)
    from Wait_try_ok [OF this(1) _ _ _ e(5) _ this(2), of p j] e show ?thesis
      by (cases "m_value sem > 0") (auto simp: that word_greater_zero_iff)
  qed
  show "\<exists>s' sem'. Wait_begin (enter p s) sem = Inr (s', sem', if m_value sem > 0 then Over else Leaves c)"
    unfolding Wait_begin_ok(1) [OF e(1)] by (rule tr) (rule refl)
  show "\<exists>s' sem'. Wait_resume i (enter p s) sem = Inr (s', sem', if m_value sem > 0 then Over else Leaves c)"
    unfolding Wait_begin_ok(2) [OF e(1)] by (rule tr [where b = False]) (simp add: enter_def)
  show "\<exists>s' sem'. Signal (enter p s) sem = Inr (s', sem')"
    using Signal_ok [OF e(1-3) Y'] by blast
qed

theorem Semaphore_no_lost_wakeup_witness:
  "(\<exists>s sem. sem_run ex_busy Mutex_new s sem Map.empty {} 1 \<and> m_value sem = 0) \<and>
   (\<exists>s sem s'. sem_run ex_busy (Semaphore_new 0 1) s sem [1 \<mapsto> 7] {} 0 \<and> Wait_yield (\<lambda>_ _. Inr) 7 (enter 1 s) = Inr s')"
proof
  have at: "at_thread ex_busy 1 7"
    by (simp add: at_thread_def ex_busy_def ex_sched_def ex_processor_def)
  have inv: "sem_inv ex_busy Mutex_new {7} []" "sem_inv ex_busy (Semaphore_new 0 1) {7} []"
    by (simp_all add: Mutex_new_def ex_busy_sem_inv)
  note w = Semaphore_no_lost_wakeup [where p = 1 and c = 7 and i = False, OF sem_run.init]
  obtain s sem where "Wait_begin (enter 1 ex_busy) Mutex_new = Inr (s, sem, Over)"
    using w [OF inv(1)] at by (auto simp: Mutex_new_def Semaphore_new_def)
  from sem_run.wait [OF sem_run.init at _ this] have r: "sem_run ex_busy Mutex_new s sem Map.empty {} 1"
    by (simp add: left_by_def)
  have "int (unat (m_value sem)) + 1 = int (unat (m_value Mutex_new))"
    by (rule Semaphore_no_lost_wakeup [OF r inv(1), THEN conjunct1])
  then have "unat (m_value sem) = 0"
    by (simp add: Mutex_new_def Semaphore_new_def del: of_nat_unat)
  then have "m_value sem = 0"
    by (simp only: unat_eq_zero)
  then show "\<exists>s sem. sem_run ex_busy Mutex_new s sem Map.empty {} 1 \<and> m_value sem = 0"
    using r by blast
  obtain s sem where "Wait_begin (enter 1 ex_busy) (Semaphore_new 0 1) = Inr (s, sem, Leaves 7)"
    using w [OF inv(2)] at by (auto simp: Semaphore_new_def)
  from sem_run.wait [OF sem_run.init at _ this] have r: "sem_run ex_busy (Semaphore_new 0 1) s sem [1 \<mapsto> 7] {} 0"
    by (simp add: left_by_def)
  moreover obtain s' where "Wait_yield (\<lambda>_ _. Inr) 7 (enter 1 s) = Inr s'"
    using Semaphore_no_lost_wakeup [OF r inv(2), where p = 1 and t = 7 and c = 7 and i = False and cb = "\<lambda>_ _. Inr"] by auto
  ultimately show "\<exists>s sem s'. sem_run ex_busy (Semaphore_new 0 1) s sem [1 \<mapsto> 7] {} 0 \<and> Wait_yield (\<lambda>_ _. Inr) 7 (enter 1 s) = Inr s'"
    by blast
qed

end
