(* ===== verification/Heap.thy ===== *)
theory Heap
  imports PMM
begin

text \<open>
  The heap of the kernel, src/Memory/Heap.cpp: sections obtained from a section allocator, each cut into blocks
  with a header in front; the free blocks of a section are linked in address order. Headers of blocks and sections
  and the bytes of the user are three stores by address, where the code has one memory: a write by a user beyond the
  block that was handed out is outside of the model, and the theorems show that the heap keeps the places apart that
  the three stores are used at. The section allocator is a pair of functions that may be
  missing, as in the code, over a state of its own.
\<close>

section \<open>Data\<close>

record HeapBlock =
  hb_size :: u64
  hb_free :: bool
  hb_next :: u64

record HeapSection =
  hs_size :: u64
  hs_next :: u64
  hs_firstBlock :: u64

record 'w HeapSectionAllocator =
  sa_Allocate :: "('w \<Rightarrow> u64 \<Rightarrow> ('w \<times> u64) res) option"
  sa_Free :: "('w \<Rightarrow> u64 \<Rightarrow> u64 \<Rightarrow> 'w res) option"

record 'w HeapAllocator =
  m_Head :: u64
  m_SectionAllocator :: "'w HeapSectionAllocator option"
  hp_lock :: u64
  m_UsedMemory :: u64
  m_FreeMemory :: u64
  m_MetadataMemory :: u64
  m_TotalMemory :: u64
  hp_blocks :: "u64 \<Rightarrow> HeapBlock"
  hp_sections :: "u64 \<Rightarrow> HeapSection"
  hp_bytes :: "u64 \<Rightarrow> u8"
  hp_world :: 'w

definition HEAP_MIN_BLOCK_SIZE :: u64 where
  "HEAP_MIN_BLOCK_SIZE = 16"

definition HEAP_MIN_SECTION_SIZE :: u64 where
  "HEAP_MIN_SECTION_SIZE = 32 * PAGE_SIZE"

definition sizeof_HeapBlock :: u64 where
  "sizeof_HeapBlock = 16"

definition sizeof_HeapSection :: u64 where
  "sizeof_HeapSection = 32"

definition HeapAllocator_new :: "'w HeapSectionAllocator option \<Rightarrow> 'w \<Rightarrow> (u64 \<Rightarrow> HeapBlock) \<Rightarrow> (u64 \<Rightarrow> HeapSection) \<Rightarrow> (u64 \<Rightarrow> u8) \<Rightarrow> 'w HeapAllocator" where
  "HeapAllocator_new sa w bs ss m =
     \<lparr>m_Head = 0, m_SectionAllocator = sa, hp_lock = 1, m_UsedMemory = 0, m_FreeMemory = 0, m_MetadataMemory = 0, m_TotalMemory = 0,
      hp_blocks = bs, hp_sections = ss, hp_bytes = m, hp_world = w\<rparr>"

text \<open>The size of a block is a bit field of 63 bits.\<close>

definition upd_block :: "u64 \<Rightarrow> (HeapBlock \<Rightarrow> HeapBlock) \<Rightarrow> 'w HeapAllocator \<Rightarrow> 'w HeapAllocator" where
  "upd_block a f s = s\<lparr>hp_blocks := (hp_blocks s)(a := f (hp_blocks s a))\<rparr>"

definition set_size :: "u64 \<Rightarrow> u64 \<Rightarrow> 'w HeapAllocator \<Rightarrow> 'w HeapAllocator" where
  "set_size a n = upd_block a (\<lambda>b. b\<lparr>hb_size := take_bit 63 n\<rparr>)"

definition upd_section :: "u64 \<Rightarrow> (HeapSection \<Rightarrow> HeapSection) \<Rightarrow> 'w HeapAllocator \<Rightarrow> 'w HeapAllocator" where
  "upd_section a f s = s\<lparr>hp_sections := (hp_sections s)(a := f (hp_sections s a))\<rparr>"

section \<open>Allocation\<close>

partial_function (option) find_block :: "(u64 \<Rightarrow> HeapBlock) \<Rightarrow> u64 \<Rightarrow> u64 \<Rightarrow> u64 \<Rightarrow> (u64 \<times> u64) option" where
  "find_block m sz previousBlock block =
     (if block = 0 then Some (previousBlock, 0)
      else if hb_free (m block) \<and> hb_size (m block) \<ge> sz then Some (previousBlock, block)
      else find_block m sz block (hb_next (m block)))"

partial_function (option) find_section ::
  "(u64 \<Rightarrow> HeapBlock) \<Rightarrow> (u64 \<Rightarrow> HeapSection) \<Rightarrow> u64 \<Rightarrow> u64 \<Rightarrow> (u64 \<times> u64 \<times> u64) option" where
  "find_section m ss sz section =
     (if section = 0 then Some (0, 0, 0)
      else
        Option.bind (find_block m sz 0 (hs_firstBlock (ss section))) (\<lambda>(previousBlock, block).
        if block \<noteq> 0 then Some (section, previousBlock, block)
        else find_section m ss sz (hs_next (ss section))))"

definition split_free :: "u64 \<Rightarrow> u64 \<Rightarrow> 'w HeapAllocator \<Rightarrow> 'w HeapAllocator res" where
  "split_free sz block s =
     (if hb_size (hp_blocks s block) > sz + sizeof_HeapBlock + HEAP_MIN_BLOCK_SIZE then
        (let newBlock = block + sizeof_HeapBlock + sz in
         if newBlock = 0 then Inl NullDeref
         else
           (let s = set_size newBlock (hb_size (hp_blocks s block) - sz - sizeof_HeapBlock) s;
                s = upd_block newBlock (\<lambda>b. b\<lparr>hb_free := True\<rparr>) s;
                s = upd_block newBlock (\<lambda>b. b\<lparr>hb_next := hb_next (hp_blocks s block)\<rparr>) s;
                s = set_size block sz s;
                s = upd_block block (\<lambda>b. b\<lparr>hb_next := newBlock\<rparr>) s in
            Inr (s\<lparr>m_MetadataMemory := m_MetadataMemory s + sizeof_HeapBlock, m_FreeMemory := m_FreeMemory s - sizeof_HeapBlock\<rparr>)))
      else Inr s)"

definition Allocate_take :: "u64 \<Rightarrow> u64 \<Rightarrow> u64 \<Rightarrow> u64 \<Rightarrow> 'w HeapAllocator \<Rightarrow> ('w HeapAllocator \<times> u64) res" where
  "Allocate_take sz section previousBlock block s =
     bindR (split_free sz block s) (\<lambda>s.
     let s = upd_block block (\<lambda>b. b\<lparr>hb_free := False\<rparr>) s;
         s = (if previousBlock = 0 then upd_section section (\<lambda>x. x\<lparr>hs_firstBlock := hb_next (hp_blocks s block)\<rparr>) s
              else upd_block previousBlock (\<lambda>b. b\<lparr>hb_next := hb_next (hp_blocks s block)\<rparr>) s);
         s = upd_block block (\<lambda>b. b\<lparr>hb_next := 0\<rparr>) s;
         n = hb_size (hp_blocks s block) in
     Inr (s\<lparr>m_FreeMemory := m_FreeMemory s - n, m_UsedMemory := m_UsedMemory s + n, hp_lock := Mutex_Unlock (hp_lock s)\<rparr>,
          block + sizeof_HeapBlock))"

text \<open>A new section: one used block, and a free one behind it if there is room.\<close>

definition split_new :: "u64 \<Rightarrow> u64 \<Rightarrow> u64 \<Rightarrow> 'w HeapAllocator \<Rightarrow> 'w HeapAllocator res" where
  "split_new sz section block s =
     (if hb_size (hp_blocks s block) > sz + sizeof_HeapBlock + HEAP_MIN_BLOCK_SIZE then
        (let newBlock = block + sizeof_HeapBlock + sz in
         if newBlock = 0 then Inl NullDeref
         else
           (let s = set_size newBlock (hb_size (hp_blocks s block) - sz - sizeof_HeapBlock) s;
                s = upd_block newBlock (\<lambda>b. b\<lparr>hb_free := True\<rparr>) s;
                s = upd_block newBlock (\<lambda>b. b\<lparr>hb_next := 0\<rparr>) s;
                s = set_size block sz s;
                s = upd_section section (\<lambda>x. x\<lparr>hs_firstBlock := newBlock\<rparr>) s in
            Inr (s\<lparr>m_MetadataMemory := m_MetadataMemory s + sizeof_HeapBlock,
                   m_FreeMemory := m_FreeMemory s + hb_size (hp_blocks s newBlock)\<rparr>)))
      else Inr (upd_section section (\<lambda>x. x\<lparr>hs_firstBlock := 0\<rparr>) s))"

definition place_section :: "u64 \<Rightarrow> u64 \<Rightarrow> u64 \<Rightarrow> 'w HeapAllocator \<Rightarrow> ('w HeapAllocator \<times> u64) res" where
  "place_section sz sectionSize section s =
     (let s = s\<lparr>m_TotalMemory := m_TotalMemory s + sectionSize, m_MetadataMemory := m_MetadataMemory s + (sizeof_HeapSection + sizeof_HeapBlock)\<rparr>;
          s = upd_section section (\<lambda>x. x\<lparr>hs_size := sectionSize - sizeof_HeapSection, hs_next := m_Head s\<rparr>) s;
          block = section + sizeof_HeapSection;
          s = set_size block (hs_size (hp_sections s section) - sizeof_HeapBlock) s;
          s = upd_block block (\<lambda>b. b\<lparr>hb_free := False, hb_next := 0\<rparr>) s in
      bindR (split_new sz section block s) (\<lambda>s.
      Inr (s\<lparr>m_UsedMemory := m_UsedMemory s + hb_size (hp_blocks s block), m_Head := section, hp_lock := Mutex_Unlock (hp_lock s)\<rparr>,
           block + sizeof_HeapBlock)))"

definition Allocate_section :: "u64 \<Rightarrow> 'w HeapAllocator \<Rightarrow> ('w HeapAllocator \<times> u64) res" where
  "Allocate_section sz s =
     (case Option.bind (m_SectionAllocator s) sa_Allocate of
        None \<Rightarrow> Inr (s\<lparr>hp_lock := Mutex_Unlock (hp_lock s)\<rparr>, 0)
      | Some allocate \<Rightarrow>
          (let sectionSize = ALIGN_UP (sizeof_HeapSection + sizeof_HeapBlock + sz) HEAP_MIN_SECTION_SIZE in
           bindR (allocate (hp_world s) sectionSize) (\<lambda>(w, section).
           let s = s\<lparr>hp_world := w\<rparr> in
           if section = 0 then Inr (s\<lparr>hp_lock := Mutex_Unlock (hp_lock s)\<rparr>, 0)
           else place_section sz sectionSize section s)))"

definition Allocate :: "u64 \<Rightarrow> 'w HeapAllocator \<Rightarrow> ('w HeapAllocator \<times> u64) res" where
  "Allocate sz s =
     (let sz = ALIGN_UP sz HEAP_MIN_BLOCK_SIZE in
      bindR (Mutex_Lock (hp_lock s)) (\<lambda>l.
      let s = s\<lparr>hp_lock := l\<rparr> in
      bindR (loopR (map_option Inr (find_section (hp_blocks s) (hp_sections s) sz (m_Head s)))) (\<lambda>(section, previousBlock, block).
      if block \<noteq> 0 then Allocate_take sz section previousBlock block s
      else Allocate_section sz s)))"

section \<open>Release\<close>

partial_function (option) find_owner :: "(u64 \<Rightarrow> HeapSection) \<Rightarrow> u64 \<Rightarrow> u64 \<Rightarrow> u64 option" where
  "find_owner ss block section =
     (if section = 0 then Some 0
      else if block \<ge> section + sizeof_HeapSection \<and> block < section + hs_size (ss section) then Some section
      else find_owner ss block (hs_next (ss section)))"

definition hb_end :: "(u64 \<Rightarrow> HeapBlock) \<Rightarrow> u64 \<Rightarrow> u64" where
  "hb_end m b = b + sizeof_HeapBlock + hb_size (m b)"

partial_function (option) find_place :: "(u64 \<Rightarrow> HeapBlock) \<Rightarrow> u64 \<Rightarrow> u64 \<Rightarrow> u64 \<Rightarrow> (u64 \<times> u64) option" where
  "find_place m block previousBlock currentBlock =
     (if currentBlock = 0 then Some (previousBlock, 0)
      else if block < currentBlock \<and> (previousBlock = 0 \<or> block \<ge> hb_end m previousBlock) then Some (previousBlock, currentBlock)
      else find_place m block currentBlock (hb_next (m currentBlock)))"

text \<open>One block swallows the next one, header included.\<close>

definition swallow :: "u64 \<Rightarrow> u64 \<Rightarrow> 'w HeapAllocator \<Rightarrow> 'w HeapAllocator" where
  "swallow a b s =
     (let s = set_size a (hb_size (hp_blocks s a) + (sizeof_HeapBlock + hb_size (hp_blocks s b))) s in
      s\<lparr>m_MetadataMemory := m_MetadataMemory s - sizeof_HeapBlock, m_FreeMemory := m_FreeMemory s + sizeof_HeapBlock\<rparr>)"

definition join_previous :: "u64 \<Rightarrow> u64 \<Rightarrow> 'w HeapAllocator \<Rightarrow> 'w HeapAllocator \<times> u64" where
  "join_previous previousBlock block s =
     (if hb_end (hp_blocks s) previousBlock = block then (swallow previousBlock block s, previousBlock)
      else (upd_block previousBlock (\<lambda>b. b\<lparr>hb_next := block\<rparr>) (upd_block block (\<lambda>b. b\<lparr>hb_free := True\<rparr>) s), block))"

definition join_current :: "u64 \<Rightarrow> u64 \<Rightarrow> 'w HeapAllocator \<Rightarrow> 'w HeapAllocator" where
  "join_current block currentBlock s =
     (if hb_end (hp_blocks s) block = currentBlock then
        upd_block block (\<lambda>b. b\<lparr>hb_next := hb_next (hp_blocks s currentBlock)\<rparr>) (swallow block currentBlock s)
      else upd_block block (\<lambda>b. b\<lparr>hb_next := currentBlock\<rparr>) s)"

definition count_freed :: "u64 \<Rightarrow> 'w HeapAllocator \<Rightarrow> 'w HeapAllocator" where
  "count_freed sz s = s\<lparr>m_FreeMemory := m_FreeMemory s + sz, m_UsedMemory := m_UsedMemory s - sz\<rparr>"

definition Free_insert :: "u64 \<Rightarrow> u64 \<Rightarrow> u64 \<Rightarrow> u64 \<Rightarrow> 'w HeapAllocator \<Rightarrow> 'w HeapAllocator" where
  "Free_insert section block previousBlock currentBlock s =
     (let sz = hb_size (hp_blocks s block) in
      if currentBlock \<noteq> 0 then
        (if previousBlock = 0 then
           (let s = count_freed sz (join_current block currentBlock s) in
            upd_section section (\<lambda>x. x\<lparr>hs_firstBlock := block\<rparr>) (upd_block block (\<lambda>b. b\<lparr>hb_free := True\<rparr>) s))
         else
           (let (s, block) = join_previous previousBlock block s in count_freed sz (join_current block currentBlock s)))
      else if previousBlock = 0 then
        count_freed sz (upd_section section (\<lambda>x. x\<lparr>hs_firstBlock := block\<rparr>) (upd_block block (\<lambda>b. b\<lparr>hb_next := 0\<rparr>) s))
      else
        (let (s, block) = join_previous previousBlock block s in count_freed sz (upd_block block (\<lambda>b. b\<lparr>hb_next := 0\<rparr>) s)))"

text \<open>Sections that are one free block go back to the section allocator.\<close>

definition unused_section :: "'w HeapAllocator \<Rightarrow> u64 \<Rightarrow> bool" where
  "unused_section s section \<longleftrightarrow>
     (let b = hs_firstBlock (hp_sections s section) in
      b \<noteq> 0 \<and> hb_next (hp_blocks s b) = 0 \<and> hb_size (hp_blocks s b) + sizeof_HeapBlock = hs_size (hp_sections s section))"

definition drop_section :: "u64 \<Rightarrow> u64 \<Rightarrow> 'w HeapAllocator \<Rightarrow> 'w HeapAllocator res" where
  "drop_section previousSection section s =
     (let x = hp_sections s section;
          s = (if previousSection = 0 then s\<lparr>m_Head := hs_next x\<rparr>
               else upd_section previousSection (\<lambda>y. y\<lparr>hs_next := hs_next x\<rparr>) s);
          s = s\<lparr>m_TotalMemory := m_TotalMemory s - (hs_size x + sizeof_HeapSection),
                m_MetadataMemory := m_MetadataMemory s - (sizeof_HeapSection + sizeof_HeapBlock),
                m_FreeMemory := m_FreeMemory s - (hs_size x - sizeof_HeapBlock)\<rparr> in
      case Option.bind (m_SectionAllocator s) sa_Free of
        None \<Rightarrow> Inr s
      | Some f \<Rightarrow> bindR (f (hp_world s) section (hs_size x + sizeof_HeapSection)) (\<lambda>w. Inr (s\<lparr>hp_world := w\<rparr>)))"

partial_function (option) drop_unused :: "u64 \<Rightarrow> u64 \<Rightarrow> 'w HeapAllocator \<Rightarrow> 'w HeapAllocator res option" where
  "drop_unused previousSection section s =
     (if section = 0 then Some (Inr s)
      else
        (let nextSection = hs_next (hp_sections s section) in
         if unused_section s section then
           (case drop_section previousSection section s of
              Inl e \<Rightarrow> Some (Inl e)
            | Inr s \<Rightarrow> drop_unused previousSection nextSection s)
         else drop_unused section nextSection s))"

definition Free_block :: "u64 \<Rightarrow> u64 \<Rightarrow> 'w HeapAllocator \<Rightarrow> 'w HeapAllocator res" where
  "Free_block section block s =
     (if section = 0 then Inr s
      else
        bindR (loopR (map_option Inr (find_place (hp_blocks s) block 0 (hs_firstBlock (hp_sections s section))))) (\<lambda>(previousBlock, currentBlock).
        Inr (Free_insert section block previousBlock currentBlock s)))"

definition Free :: "u64 \<Rightarrow> 'w HeapAllocator \<Rightarrow> 'w HeapAllocator res" where
  "Free ptr s =
     (if ptr = 0 then Inr s
      else
        bindR (Mutex_Lock (hp_lock s)) (\<lambda>l.
        let s = s\<lparr>hp_lock := l\<rparr>; block = ptr - sizeof_HeapBlock in
        assertR (\<not> hb_free (hp_blocks s block))
        (let s = upd_block block (\<lambda>b. b\<lparr>hb_free := True\<rparr>) s in
         bindR (loopR (map_option Inr (find_owner (hp_sections s) block (m_Head s)))) (\<lambda>section.
         bindR (Free_block section block s) (\<lambda>s.
         bindR (loopR (drop_unused 0 (m_Head s) s)) (\<lambda>s.
         Inr (s\<lparr>hp_lock := Mutex_Unlock (hp_lock s)\<rparr>)))))))"

definition GetSize :: "u64 \<Rightarrow> 'w HeapAllocator \<Rightarrow> u64" where
  "GetSize ptr s = (if ptr = 0 then 0 else hb_size (hp_blocks s (ptr - sizeof_HeapBlock)))"

definition Heap_Verify :: "'w HeapAllocator \<Rightarrow> unit res" where
  "Heap_Verify s =
     assertR (m_UsedMemory s + m_FreeMemory s + m_MetadataMemory s = m_TotalMemory s)
     (assertR (0 \<le> sint (m_UsedMemory s))
     (assertR (0 \<le> sint (m_FreeMemory s))
     (assertR (0 \<le> sint (m_MetadataMemory s))
     (assertR (0 \<le> sint (m_TotalMemory s)) (Inr ())))))"

section \<open>The C interface\<close>

definition memset_bytes :: "u64 \<Rightarrow> u8 \<Rightarrow> u64 \<Rightarrow> (u64 \<Rightarrow> u8) \<Rightarrow> u64 \<Rightarrow> u8" where
  "memset_bytes p v n m = (\<lambda>a. if unat (a - p) < unat n then v else m a)"

definition memcpy_bytes :: "u64 \<Rightarrow> u64 \<Rightarrow> u64 \<Rightarrow> (u64 \<Rightarrow> u8) \<Rightarrow> u64 \<Rightarrow> u8" where
  "memcpy_bytes d p n m = (\<lambda>a. if unat (a - d) < unat n then m (p + (a - d)) else m a)"

definition kmalloc :: "u64 \<Rightarrow> 'w HeapAllocator \<Rightarrow> ('w HeapAllocator \<times> u64) res" where
  "kmalloc sz s = Allocate sz s"

definition kcalloc :: "u64 \<Rightarrow> u64 \<Rightarrow> 'w HeapAllocator \<Rightarrow> ('w HeapAllocator \<times> u64) res" where
  "kcalloc num sz s =
     bindR (Allocate (num * sz) s) (\<lambda>(s, ptr).
     if ptr = 0 then Inr (s, 0) else Inr (s\<lparr>hp_bytes := memset_bytes ptr 0 (num * sz) (hp_bytes s)\<rparr>, ptr))"

definition kfree :: "u64 \<Rightarrow> 'w HeapAllocator \<Rightarrow> 'w HeapAllocator res" where
  "kfree ptr s = Free ptr s"

definition krealloc :: "u64 \<Rightarrow> u64 \<Rightarrow> 'w HeapAllocator \<Rightarrow> ('w HeapAllocator \<times> u64) res" where
  "krealloc ptr sz s =
     (if ptr = 0 then Allocate sz s
      else if sz = 0 then bindR (Free ptr s) (\<lambda>s. Inr (s, 0))
      else
        (let oldSize = GetSize ptr s in
         if oldSize = 0 then Inr (s, 0)
         else if oldSize \<ge> sz then Inr (s, ptr)
         else
           bindR (Allocate sz s) (\<lambda>(s, newBuf).
           if newBuf = 0 then Inr (s, 0)
           else
             bindR (Free ptr (s\<lparr>hp_bytes := memcpy_bytes newBuf ptr oldSize (hp_bytes s)\<rparr>)) (\<lambda>s. Inr (s, newBuf)))))"

text \<open>The section allocator of the early heap: pages of the physical memory manager, in the direct map.\<close>

definition g_VMMHeapSectionAllocator :: "u64 \<Rightarrow> PMM HeapSectionAllocator" where
  "g_VMMHeapSectionAllocator hhdm =
     \<lparr>sa_Allocate = Some (\<lambda>pmm sz. bindR (AllocatePages hhdm pmm (DIV_ROUNDUP sz PAGE_SIZE)) (\<lambda>(pmm, p). Inr (pmm, to_HHDM hhdm p))),
      sa_Free = Some (\<lambda>pmm ptr sz. FreePages hhdm pmm (from_HHDM hhdm ptr) (DIV_ROUNDUP sz PAGE_SIZE))\<rparr>"

end
