(* ===== verification/HeapBlocks.thy ===== *)
theory HeapBlocks
  imports Heap
begin

text \<open>
  The blocks of one section of the heap. They tile the section, the headers tell their sizes and whether they are
  free, the free ones are linked in address order, and no two free ones touch. Taking a block and giving it
  back are read as changes of the list of tiles.
\<close>

section \<open>Tiles\<close>

text \<open>A block is its address, its size and whether it is free.\<close>

type_synonym tile = "u64 \<times> nat \<times> bool"

fun tiling :: "nat \<Rightarrow> tile list \<Rightarrow> nat \<Rightarrow> bool" where
  "tiling x [] e \<longleftrightarrow> x = e"
| "tiling x ((a, n, f) # bs) e \<longleftrightarrow> unat a = x \<and> 16 dvd n \<and> tiling (x + 16 + n) bs e"

fun frees :: "tile list \<Rightarrow> u64 list" where
  "frees [] = []"
| "frees ((a, n, f) # bs) = (if f then a # frees bs else frees bs)"

fun used_sum :: "tile list \<Rightarrow> nat" where
  "used_sum [] = 0"
| "used_sum ((a, n, f) # bs) = (if f then 0 else n) + used_sum bs"

fun free_sum :: "tile list \<Rightarrow> nat" where
  "free_sum [] = 0"
| "free_sum ((a, n, f) # bs) = (if f then n else 0) + free_sum bs"

definition used_tiles :: "tile list \<Rightarrow> (u64 \<times> nat) set" where
  "used_tiles bs = {(a, n). (a, n, False) \<in> set bs}"

lemma tile_append [simp]:
  "frees (bs @ cs) = frees bs @ frees cs" "used_sum (bs @ cs) = used_sum bs + used_sum cs" "free_sum (bs @ cs) = free_sum bs + free_sum cs"
  by (induction bs rule: frees.induct) auto

lemma tiling_append: "tiling x (bs @ cs) e \<longleftrightarrow> (\<exists>y. tiling x bs y \<and> tiling y cs e)"
  by (induction bs arbitrary: x rule: frees.induct) auto

lemma tiling_le: "tiling x bs e \<Longrightarrow> x \<le> e"
  by (induction x bs e rule: tiling.induct) auto

lemma tiling_mem: "tiling x bs e \<Longrightarrow> (a, n, f) \<in> set bs \<Longrightarrow> x \<le> unat a \<and> unat a + 16 + n \<le> e \<and> 16 dvd n"
proof (induction x bs e rule: tiling.induct)
  case (2 x b k g bs e)
  then show ?case
    using tiling_le [of "x + 16 + k" bs e] by auto
qed simp

lemma tiling_total: "tiling x bs e \<Longrightarrow> x + used_sum bs + free_sum bs + 16 * length bs = e"
  by (induction x bs e rule: tiling.induct) auto

lemma frees_set: "a \<in> set (frees bs) \<longleftrightarrow> (\<exists>n. (a, n, True) \<in> set bs)"
  by (induction bs rule: frees.induct) auto

text \<open>The tile at an address; the tiles before and behind it.\<close>

lemma tiling_split:
  assumes "tiling x (pre @ (a, n, f) # post) e"
  shows "tiling x pre (unat a)" "tiling (unat a + 16 + n) post e" "16 dvd n" "x \<le> unat a" "unat a + 16 + n \<le> e"
    and "\<And>b k g. (b, k, g) \<in> set pre \<Longrightarrow> unat b + 16 + k \<le> unat a" "\<And>b k g. (b, k, g) \<in> set post \<Longrightarrow> unat a + 16 + n \<le> unat b"
proof -
  show t: "tiling x pre (unat a)" "tiling (unat a + 16 + n) post e" "16 dvd n"
    using assms by (auto simp: tiling_append)
  show "x \<le> unat a" "unat a + 16 + n \<le> e"
    using tiling_le t(1,2) by auto
  show "\<And>b k g. (b, k, g) \<in> set pre \<Longrightarrow> unat b + 16 + k \<le> unat a" "\<And>b k g. (b, k, g) \<in> set post \<Longrightarrow> unat a + 16 + n \<le> unat b"
    using tiling_mem [OF t(1)] tiling_mem [OF t(2)] by blast+
qed

lemma tiling_distinct: "tiling x bs e \<Longrightarrow> distinct (map fst bs)"
proof (induction x bs e rule: tiling.induct)
  case (2 x a n f bs e)
  then show ?case
    using tiling_mem [of "x + 16 + n" bs e] by fastforce
qed simp

lemma frees_distinct: "distinct (map fst bs) \<Longrightarrow> distinct (frees bs)"
  by (induction bs rule: frees.induct) (auto simp: frees_set image_iff)

section \<open>The list of free blocks\<close>

fun linked :: "(u64 \<Rightarrow> HeapBlock) \<Rightarrow> u64 \<Rightarrow> u64 list \<Rightarrow> u64 \<Rightarrow> bool" where
  "linked m p [] q \<longleftrightarrow> p = q"
| "linked m p (a # as) q \<longleftrightarrow> p = a \<and> a \<noteq> 0 \<and> linked m (hb_next (m a)) as q"

lemma linked_append: "linked m p (xs @ ys) q \<longleftrightarrow> (\<exists>r. linked m p xs r \<and> linked m r ys q)"
  by (induction xs arbitrary: p) auto

text \<open>Another end for a list whose other links stay.\<close>

lemma linked_relink:
  assumes "linked m h xs q" "\<And>a. a \<in> set (butlast xs) \<Longrightarrow> hb_next (m' a) = hb_next (m a)" "xs \<noteq> [] \<Longrightarrow> hb_next (m' (last xs)) = r"
  shows "linked m' (if xs = [] then r else h) xs r"
  using assms
proof (induction xs arbitrary: h)
  case (Cons x xs)
  then show ?case
    by (cases "xs = []") auto
qed simp

lemma linked_cong:
  assumes "linked m h xs q" "\<And>a. a \<in> set xs \<Longrightarrow> hb_next (m' a) = hb_next (m a)"
  shows "linked m' h xs q"
  using assms by (induction xs arbitrary: h) auto

definition last_or0 :: "u64 list \<Rightarrow> u64" where
  "last_or0 xs = (if xs = [] then 0 else last xs)"

lemma last_or0_simps [simp]: "last_or0 [] = 0" "last_or0 (xs @ [a]) = a"
  by (simp_all add: last_or0_def)

lemma last_or0_zero: "linked m h xs q \<Longrightarrow> last_or0 xs = 0 \<longleftrightarrow> xs = []"
  by (induction xs arbitrary: h) (auto simp: last_or0_def)

lemma linked_first: "linked m h xs 0 \<Longrightarrow> h = (case xs of [] \<Rightarrow> 0 | a # _ \<Rightarrow> a)"
  by (cases xs) auto

text \<open>The searches walk this list.\<close>

lemma find_block_found:
  assumes "linked m h (xs @ a # ys) 0" "\<And>b. b \<in> set (xs @ a # ys) \<Longrightarrow> hb_free (m b)" "\<And>b. b \<in> set xs \<Longrightarrow> hb_size (m b) < sz" "hb_size (m a) \<ge> sz"
  shows "find_block m sz p h = Some (if xs = [] then p else last xs, a)"
  using assms
proof (induction xs arbitrary: h p)
  case Nil
  then show ?case
    by (subst find_block.simps) simp
next
  case (Cons b xs)
  have "\<not> sz \<le> hb_size (m b)" "h = b" "b \<noteq> 0"
    using Cons.prems(3) [of b] Cons.prems(1) by auto
  then have "find_block m sz p h = find_block m sz b (hb_next (m b))"
    by (subst find_block.simps) simp
  then show ?case
    using Cons.IH [of "hb_next (m b)" b] Cons.prems by auto
qed

lemma find_block_none:
  assumes "linked m h xs 0" "\<And>b. b \<in> set xs \<Longrightarrow> hb_size (m b) < sz"
  shows "\<exists>q. find_block m sz p h = Some (q, 0)"
  using assms
proof (induction xs arbitrary: h p)
  case Nil
  then show ?case
    by (subst find_block.simps) simp
next
  case (Cons b xs)
  have "\<not> sz \<le> hb_size (m b)" "h = b" "b \<noteq> 0"
    using Cons.prems(2) [of b] Cons.prems(1) by auto
  then have "find_block m sz p h = find_block m sz b (hb_next (m b))"
    by (subst find_block.simps) simp
  then show ?case
    using Cons.IH [of "hb_next (m b)" b] Cons.prems by simp
qed

text \<open>The place of a block between its free neighbours.\<close>

lemma find_place_found:
  assumes "linked m h (xs @ ys) 0" "\<And>b. b \<in> set xs \<Longrightarrow> b < a" "\<And>c. c \<in> set ys \<Longrightarrow> a < c" "\<And>b. b \<in> set xs \<Longrightarrow> hb_end m b \<le> a" "p = 0 \<or> hb_end m p \<le> a"
  shows "find_place m a p h = Some (if xs = [] then p else last xs, case ys of [] \<Rightarrow> 0 | c # _ \<Rightarrow> c)"
  using assms
proof (induction xs arbitrary: h p)
  case Nil
  then show ?case
    by (cases ys) (subst find_place.simps; auto)+
next
  case (Cons b xs)
  have "\<not> a < b" "h = b" "b \<noteq> 0"
    using Cons.prems(2) [of b] Cons.prems(1) by auto
  then have "find_place m a p h = find_place m a b (hb_next (m b))"
    by (subst find_place.simps) simp
  then show ?case
    using Cons.IH [of "hb_next (m b)" b] Cons.prems by auto
qed

section \<open>The contents of a section\<close>

text \<open>
  The blocks of the section at \<open>x\<close> with size field \<open>z\<close> and first free block \<open>h\<close>. Every block starts at least 48 bytes
  before the end of the section.
\<close>

definition content_ok :: "(u64 \<Rightarrow> HeapBlock) \<Rightarrow> u64 \<Rightarrow> u64 \<Rightarrow> u64 \<Rightarrow> tile list \<Rightarrow> bool" where
  "content_ok m x z h bs \<longleftrightarrow>
     x \<noteq> 0 \<and> unat x + 32 + unat z < 2 ^ 64 \<and> unat z < 2 ^ 63 \<and> tiling (unat x + 32) bs (unat x + 32 + unat z) \<and>
     (\<forall>(a, n, f) \<in> set bs. hb_size (m a) = of_nat n \<and> hb_free (m a) = f \<and> unat a + 48 \<le> unat x + 32 + unat z) \<and>
     linked m h (frees bs) 0 \<and> successively (\<lambda>b c. \<not> (snd (snd b) \<and> snd (snd c))) bs"

lemma content_mem:
  assumes "content_ok m x z h bs" "(a, n, f) \<in> set bs"
  shows "hb_size (m a) = of_nat n" "hb_free (m a) = f" "unat x + 32 \<le> unat a" "unat a + 16 + n \<le> unat x + 32 + unat z" "16 dvd n"
    "unat (of_nat n :: u64) = n" "n + 16 \<le> unat z" "a \<noteq> 0" "unat a + 48 \<le> unat x + 32 + unat z"
proof -
  have t: "unat x + 32 \<le> unat a" "unat a + 16 + n \<le> unat x + 32 + unat z" "16 dvd n"
    using tiling_mem [of "unat x + 32" bs _ a n f] assms by (auto simp: content_ok_def)
  then show "unat x + 32 \<le> unat a" "unat a + 16 + n \<le> unat x + 32 + unat z" "16 dvd n" "n + 16 \<le> unat z" "a \<noteq> 0"
    by auto
  have "n < 18446744073709551616"
    using t unat_lt_2p64 [of z] by linarith
  then show "unat (of_nat n :: u64) = n"
    by (simp add: unat_of_nat)
  show "hb_size (m a) = of_nat n" "hb_free (m a) = f" "unat a + 48 \<le> unat x + 32 + unat z"
    using assms by (auto simp: content_ok_def)
qed

lemma content_frees:
  assumes "content_ok m x z h bs" "a \<in> set (frees bs)"
  shows "unat x + 32 \<le> unat a" "unat a < unat x + 32 + unat z" "a \<noteq> 0" "hb_free (m a)"
proof -
  obtain n where "(a, n, True) \<in> set bs"
    using assms(2) by (auto simp: frees_set)
  note content_mem [OF assms(1) this]
  then show "unat x + 32 \<le> unat a" "unat a < unat x + 32 + unat z" "a \<noteq> 0" "hb_free (m a)"
    by auto
qed

text \<open>Some tiles are replaced by others of the same extent.\<close>

lemma content_replace:
  assumes c: "content_ok m x z h (pre @ mid @ post)" and t: "\<And>y e. tiling y mid e \<Longrightarrow> tiling y mid' e"
    and new: "\<And>a n f. (a, n, f) \<in> set mid' \<Longrightarrow> hb_size (m' a) = of_nat n \<and> hb_free (m' a) = f \<and> unat a + 48 \<le> unat x + 32 + unat z"
    and old: "\<And>a n f. (a, n, f) \<in> set pre \<union> set post \<Longrightarrow> hb_size (m' a) = hb_size (m a) \<and> hb_free (m' a) = hb_free (m a)"
    and l: "linked m' h' (frees pre @ frees mid' @ frees post) 0"
    and s: "successively (\<lambda>b c. \<not> (snd (snd b) \<and> snd (snd c))) (pre @ mid' @ post)"
  shows "content_ok m' x z h' (pre @ mid' @ post)"
proof -
  have "tiling (unat x + 32) (pre @ mid' @ post) (unat x + 32 + unat z)"
    using c t by (auto simp: content_ok_def tiling_append)
  moreover have "hb_size (m' a) = of_nat n \<and> hb_free (m' a) = f \<and> unat a + 48 \<le> unat x + 32 + unat z"
    if "(a, n, f) \<in> set (pre @ mid' @ post)" for a n f
    using that new [of a n f] old [of a n f] content_mem [OF c, of a n f] by auto
  ultimately show ?thesis
    using c l s by (auto simp: content_ok_def)
qed

lemma relink_mid:
  assumes "linked m h (xs @ ms @ ys) 0" "\<And>a. a \<in> set (butlast xs) \<union> set ys \<Longrightarrow> hb_next (m' a) = hb_next (m a)"
    "xs \<noteq> [] \<Longrightarrow> hb_next (m' (last xs)) = r" "linked m' r ms' (case ys of [] \<Rightarrow> 0 | c # _ \<Rightarrow> c)"
  shows "linked m' (if xs = [] then r else h) (xs @ ms' @ ys) 0"
proof -
  obtain q where q: "linked m h xs q" "linked m (case ys of [] \<Rightarrow> 0 | c # _ \<Rightarrow> c) ys 0"
    using assms(1) linked_first unfolding linked_append by metis
  have "linked m' (if xs = [] then r else h) xs r"
    by (rule linked_relink [OF q(1)]) (use assms(2,3) in auto)
  moreover have "linked m' (case ys of [] \<Rightarrow> 0 | c # _ \<Rightarrow> c) ys 0"
    by (rule linked_cong [OF q(2)]) (use assms(2) in auto)
  ultimately show ?thesis
    using assms(4) unfolding linked_append by blast
qed

section \<open>Steps of one section\<close>

text \<open>
  What an operation on the blocks of the section at \<open>x\<close> leaves alone, and how the counters follow the tiles.
\<close>

definition section_step :: "u64 \<Rightarrow> tile list \<Rightarrow> tile list \<Rightarrow> 'w HeapAllocator \<Rightarrow> 'w HeapAllocator \<Rightarrow> bool" where
  "section_step x mid mid' s s' \<longleftrightarrow>
     (\<forall>a. unat a \<notin> {unat x ..< unat x + 32 + unat (hs_size (hp_sections s x))} \<longrightarrow> hp_blocks s' a = hp_blocks s a) \<and>
     (\<forall>y. hs_size (hp_sections s' y) = hs_size (hp_sections s y) \<and> hs_next (hp_sections s' y) = hs_next (hp_sections s y) \<and>
        (y \<noteq> x \<longrightarrow> hs_firstBlock (hp_sections s' y) = hs_firstBlock (hp_sections s y))) \<and>
     m_Head s' = m_Head s \<and> m_SectionAllocator s' = m_SectionAllocator s \<and> hp_world s' = hp_world s \<and> hp_bytes s' = hp_bytes s \<and>
     m_TotalMemory s' = m_TotalMemory s \<and>
     m_UsedMemory s' = m_UsedMemory s - of_nat (used_sum mid) + of_nat (used_sum mid') \<and>
     m_FreeMemory s' = m_FreeMemory s - of_nat (free_sum mid) + of_nat (free_sum mid') \<and>
     m_MetadataMemory s' = m_MetadataMemory s - 16 * of_nat (length mid) + 16 * of_nat (length mid')"

abbreviation section_ok :: "'w HeapAllocator \<Rightarrow> u64 \<Rightarrow> tile list \<Rightarrow> bool" where
  "section_ok s x bs \<equiv> content_ok (hp_blocks s) x (hs_size (hp_sections s x)) (hs_firstBlock (hp_sections s x)) bs"

lemma take_bit_63: "unat (v :: u64) < 2 ^ 63 \<Longrightarrow> take_bit 63 v = v"
  by (rule unat_inj) (simp add: unsigned_take_bit_eq take_bit_nat_eq_self)

lemmas heap_defs = upd_block_def set_size_def upd_section_def sizeof_HeapBlock_def sizeof_HeapSection_def HEAP_MIN_BLOCK_SIZE_def

text \<open>The tiles of a taken block: the rest stays free if it has room for a header and a minimal block.\<close>

definition cut_tile :: "u64 \<Rightarrow> nat \<Rightarrow> nat \<Rightarrow> tile list" where
  "cut_tile a n k = (if k + 32 < n then [(a, k, False), (a + 16 + of_nat k, n - k - 16, True)] else [(a, n, False)])"

lemma cut_tiling:
  assumes "16 dvd k" "unat a + 16 + n < 2 ^ 64" "tiling y [(a, n, True)] e"
  shows "tiling y (cut_tile a n k) e"
proof (cases "k + 32 < n")
  case True
  then have "unat (16 + of_nat k :: u64) = 16 + k"
    using assms(2) by (simp add: unat_word_ariths unat_of_nat)
  then have "unat (a + (16 + of_nat k)) = unat a + 16 + k"
    using True assms(2) by (subst unat_add_nowrap) auto
  then show ?thesis
    using True assms by (auto simp: cut_tile_def add.assoc)
next
  case False
  then show ?thesis
    using assms by (simp add: cut_tile_def)
qed

lemma block_fields: "b\<lparr>hb_size := n, hb_free := f, hb_next := q\<rparr> = \<lparr>hb_size = n, hb_free = f, hb_next = q\<rparr>"
  by (cases b) simp

text \<open>The split in front of a taken block.\<close>

lemma split_free_eq:
  assumes n: "hb_size (hp_blocks s a) = of_nat n" "unat a + 16 + n < 2 ^ 64" "n < 2 ^ 63" and k: "unat sz = k" "k \<le> n" and nb: "nb = a + 16 + sz"
  shows "k + 32 < n \<Longrightarrow> nb \<noteq> 0 \<and> nb \<noteq> a \<and> unat nb = unat a + 16 + k \<and>
      split_free sz a s = Inr (s\<lparr>hp_blocks := (hp_blocks s)
          (nb := \<lparr>hb_size = of_nat (n - k - 16), hb_free = True, hb_next = hb_next (hp_blocks s a)\<rparr>,
           a := (hp_blocks s a)\<lparr>hb_size := sz, hb_next := nb\<rparr>),
        m_MetadataMemory := m_MetadataMemory s + 16, m_FreeMemory := m_FreeMemory s - 16\<rparr>)"
    "\<not> k + 32 < n \<Longrightarrow> split_free sz a s = Inr s"
proof -
  have u: "unat (of_nat n :: u64) = n" "unat (sz + 16 + 16) = k + 32"
    using n(2,3) k by (simp_all add: unat_of_nat unat_word_ariths)
  then have gt: "of_nat n > sz + 16 + 16 \<longleftrightarrow> k + 32 < n"
    by (simp add: word_less_nat_alt)
  {
    assume kn: "k + 32 < n"
    have "unat (a + (16 + sz)) = unat a + unat (16 + sz)" "unat (16 + sz) = 16 + k"
      using n(2) k kn by (simp_all add: unat_word_ariths)
    then have un: "unat nb = unat a + 16 + k"
      using nb by (simp add: add.assoc)
    have "unat (of_nat n - sz) = n - k" 
      using k u(1) by (subst unat_sub_nowrap) auto
    then have "unat (of_nat n - sz - 16) = n - k - 16"
      using kn by (subst unat_sub_nowrap) auto
    then obtain r where r: "of_nat (n - k - 16) = r" "of_nat n - sz - 16 = r" "unat r = n - k - 16"
      by (metis of_nat_unat_u64)
    have tb: "take_bit 63 r = r" "take_bit 63 sz = sz"
      using n(3) k r(3) by (auto intro!: take_bit_63)
    have ne: "nb \<noteq> 0" "nb \<noteq> a" and gt': "hb_size (hp_blocks s a) > sz + 16 + 16"
      using un gt kn n(1) by auto
    then show "nb \<noteq> 0 \<and> nb \<noteq> a \<and> unat nb = unat a + 16 + k \<and>
      split_free sz a s = Inr (s\<lparr>hp_blocks := (hp_blocks s)
          (nb := \<lparr>hb_size = of_nat (n - k - 16), hb_free = True, hb_next = hb_next (hp_blocks s a)\<rparr>,
           a := (hp_blocks s a)\<lparr>hb_size := sz, hb_next := nb\<rparr>),
        m_MetadataMemory := m_MetadataMemory s + 16, m_FreeMemory := m_FreeMemory s - 16\<rparr>)"
      unfolding r(1) split_free_def heap_defs nb [symmetric] Let_def using un tb r(2) n(1) by (simp add: block_fields)
  next
    assume "\<not> k + 32 < n"
    then show "split_free sz a s = Inr s"
      using gt n(1) by (simp add: split_free_def heap_defs)
  }
qed

text \<open>The store after a block has been taken: it is unlinked, and the block in front of it links to what follows.\<close>

lemma Allocate_take_eq:
  assumes n: "hb_size (hp_blocks s a) = of_nat n" "unat a + 16 + n < 2 ^ 64" "n < 2 ^ 63" and k: "unat sz \<le> n" and p: "p \<noteq> a" "p \<noteq> a + 16 + sz"
    and lk: "hp_lock s = 0"
  defines "nb \<equiv> a + 16 + sz" and "m \<equiv> hp_blocks s" and "part \<equiv> unat sz + 32 < n"
  defines "r \<equiv> if part then nb else hb_next (m a)"
  shows "\<exists>s'. Allocate_take sz x p a s = Inr (s', a + 16) \<and> hp_lock s' = 1 \<and>
    hp_blocks s' = (\<lambda>b. if b = a then \<lparr>hb_size = of_nat (if part then unat sz else n), hb_free = False, hb_next = 0\<rparr>
      else if part \<and> b = nb then \<lparr>hb_size = of_nat (n - unat sz - 16), hb_free = True, hb_next = hb_next (m a)\<rparr>
      else if p \<noteq> 0 \<and> b = p then (m b)\<lparr>hb_next := r\<rparr> else m b) \<and>
    hp_sections s' = (if p = 0 then (hp_sections s)(x := (hp_sections s x)\<lparr>hs_firstBlock := r\<rparr>) else hp_sections s) \<and>
    m_Head s' = m_Head s \<and> m_SectionAllocator s' = m_SectionAllocator s \<and> hp_world s' = hp_world s \<and> hp_bytes s' = hp_bytes s \<and>
    m_TotalMemory s' = m_TotalMemory s \<and> m_UsedMemory s' = m_UsedMemory s + of_nat (if part then unat sz else n) \<and>
    m_FreeMemory s' = m_FreeMemory s - of_nat (if part then unat sz + 16 else n) \<and>
    m_MetadataMemory s' = m_MetadataMemory s + (if part then 16 else 0)"
proof (cases part)
  case True
  then have kn: "unat sz + 32 < n"
    by (simp add: part_def)
  note sp = split_free_eq(1) [OF n refl k refl kn, folded nb_def]
  show ?thesis
    using sp True p by (auto simp: Allocate_take_def heap_defs nb_def [symmetric] m_def r_def lk fun_eq_iff Let_def)
next
  case False
  then have kn: "\<not> unat sz + 32 < n"
    by (simp add: part_def)
  show ?thesis
    using split_free_eq(2) [OF n refl k refl kn] False n(1) p
    by (auto simp: Allocate_take_def heap_defs m_def r_def lk fun_eq_iff Let_def block_fields)
qed

lemma Allocate_take_ok:
  assumes c: "section_ok s x (pre @ (a, n, True) # post)" and sz: "16 dvd unat sz" "unat sz \<le> n" and lk: "hp_lock s = 0"
  shows "\<exists>s'. Allocate_take sz x (last_or0 (frees pre)) a s = Inr (s', a + 16) \<and> hp_lock s' = 1 \<and>
    section_ok s' x (pre @ cut_tile a n (unat sz) @ post) \<and> section_step x [(a, n, True)] (cut_tile a n (unat sz)) s s'"
proof -
  let ?m = "hp_blocks s" and ?z = "hs_size (hp_sections s x)" and ?h = "hs_firstBlock (hp_sections s x)" and ?nb = "a + 16 + sz"
    and ?p = "last_or0 (frees pre)" and ?mid = "cut_tile a n (unat sz)"
  define part where "part \<longleftrightarrow> unat sz + 32 < n"
  define r where "r = (if part then ?nb else hb_next (?m a))"
  note b = content_mem [OF c, of a n True, simplified]
  have z: "unat x + 32 + unat ?z < 2 ^ 64" "unat ?z < 2 ^ 63" and tl: "tiling (unat x + 32) (pre @ (a, n, True) # post) (unat x + 32 + unat ?z)"
    and ln: "linked ?m ?h (frees pre @ [a] @ frees post) 0" and su: "successively (\<lambda>b c. \<not> (snd (snd b) \<and> snd (snd c))) (pre @ (a, n, True) # post)"
    using c by (auto simp: content_ok_def)
  note t = tiling_split [OF tl]
  have n: "unat a + 16 + n < 2 ^ 64" "n < 2 ^ 63"
    using b z by linarith+
  have "unat (16 + sz) = 16 + unat sz"
    using sz(2) n(2) by (subst unat_add_nowrap) auto
  then have unb: "unat ?nb = unat a + 16 + unat sz"
    using sz(2) n(1) by (simp add: add.assoc unat_add_nowrap)
  have apart: "b \<noteq> a" "part \<or> (b, k, g) \<in> set pre \<Longrightarrow> b \<noteq> ?nb" if "(b, k, g) \<in> set pre \<union> set post" for b k g
    using that t(6,7) [of b k g] unb by (fastforce simp: part_def)+
  have fr: "b \<noteq> a" "part \<or> b \<in> set (frees pre) \<Longrightarrow> b \<noteq> ?nb" if "b \<in> set (frees pre) \<union> set (frees post)" for b
    using that apart unfolding frees_set Un_iff by blast+
  have nz: "16 + sz \<noteq> 0" "?nb \<noteq> 0"
    using unb \<open>unat (16 + sz) = 16 + unat sz\<close> by auto
  then have p: "frees pre \<noteq> [] \<Longrightarrow> ?p = last (frees pre)" "?p = 0 \<longleftrightarrow> frees pre = []" "?p \<noteq> a" "?p \<noteq> ?nb"
    using last_or0_zero [of ?m ?h "frees pre"] ln b(8) fr [OF UnI1, OF last_in_set] by (auto simp: linked_append last_or0_def split: if_splits)
  obtain s' where s': "Allocate_take sz x ?p a s = Inr (s', a + 16)" "hp_lock s' = 1"
    "hp_blocks s' = (\<lambda>b. if b = a then \<lparr>hb_size = of_nat (if part then unat sz else n), hb_free = False, hb_next = 0\<rparr>
      else if part \<and> b = ?nb then \<lparr>hb_size = of_nat (n - unat sz - 16), hb_free = True, hb_next = hb_next (?m a)\<rparr>
      else if ?p \<noteq> 0 \<and> b = ?p then (?m b)\<lparr>hb_next := r\<rparr> else ?m b)"
    "hp_sections s' = (if ?p = 0 then (hp_sections s)(x := (hp_sections s x)\<lparr>hs_firstBlock := r\<rparr>) else hp_sections s)"
    and st: "m_Head s' = m_Head s" "m_SectionAllocator s' = m_SectionAllocator s" "hp_world s' = hp_world s" "hp_bytes s' = hp_bytes s"
    "m_TotalMemory s' = m_TotalMemory s" "m_UsedMemory s' = m_UsedMemory s + of_nat (if part then unat sz else n)"
    "m_FreeMemory s' = m_FreeMemory s - of_nat (if part then unat sz + 16 else n)"
    "m_MetadataMemory s' = m_MetadataMemory s + (if part then 16 else 0)"
    using Allocate_take_eq [OF b(1) n sz(2) p(3,4) lk, of x] unfolding r_def part_def by blast
  have h': "hs_size (hp_sections s' x) = ?z" "hs_firstBlock (hp_sections s' x) = (if frees pre = [] then r else ?h)"
    using s'(4) p(2) by auto
  have nx: "hb_next (?m a) = (case frees post of [] \<Rightarrow> 0 | c # _ \<Rightarrow> c)"
    using ln linked_first [of ?m "hb_next (?m a)" "frees post"] by (auto simp: linked_append)
  have ln': "linked (hp_blocks s') (if frees pre = [] then r else ?h) (frees pre @ frees ?mid @ frees post) 0"
  proof (rule relink_mid [OF ln])
    show "hb_next (hp_blocks s' b) = hb_next (?m b)" if "b \<in> set (butlast (frees pre)) \<union> set (frees post)" for b
    proof -
      have "distinct (frees pre @ frees post)"
        using frees_distinct [OF tiling_distinct [OF tl]] by auto
      then have "frees pre \<noteq> [] \<Longrightarrow> b \<noteq> last (frees pre)"
        using that by (cases "frees pre" rule: rev_cases) auto
      then show ?thesis
        using that fr [of b] p(1,2) in_set_butlastD [of b "frees pre"] by (auto simp: s'(3))
    qed
    show "hb_next (hp_blocks s' (last (frees pre))) = r" if "frees pre \<noteq> []"
      using p that fr [OF UnI1, OF last_in_set] by (simp add: s'(3))
    show "linked (hp_blocks s') r (frees ?mid) (case frees post of [] \<Rightarrow> 0 | c # _ \<Rightarrow> c)"
      using nx nz by (auto simp: r_def part_def cut_tile_def s'(3))
  qed
  have "content_ok (hp_blocks s') x ?z (if frees pre = [] then r else ?h) (pre @ ?mid @ post)"
  proof (rule content_replace [where mid = "[(a, n, True)]" and m = ?m and h = ?h, OF _ _ _ _ ln'])
    show "content_ok ?m x ?z ?h (pre @ [(a, n, True)] @ post)"
      using c by simp
    show "tiling y ?mid e" if "tiling y [(a, n, True)] e" for y e
      by (rule cut_tiling [OF sz(1) n(1) that])
    show "hb_size (hp_blocks s' b) = of_nat k \<and> hb_free (hp_blocks s' b) = f \<and> unat b + 48 \<le> unat x + 32 + unat ?z" if "(b, k, f) \<in> set ?mid" for b k f
    proof -
      have "16 dvd n - unat sz"
        using b(5) sz(1) by (rule dvd_diff_nat)
      then have "part \<Longrightarrow> 48 \<le> n - unat sz"
        by (auto simp: part_def elim!: dvdE)
      then have far: "part \<Longrightarrow> unat ?nb + 48 \<le> unat x + 32 + unat ?z"
        using b(4) unb by simp
      show ?thesis
      proof (cases part)
        case True
        then have "(b, k, f) = (a, unat sz, False) \<or> (b, k, f) = (?nb, n - unat sz - 16, True)"
          using that by (auto simp: cut_tile_def part_def)
        then show ?thesis
          using far [OF True] b(9) nz True by (elim disjE) (simp_all add: s'(3))
      next
        case False
        then show ?thesis
          using that b(9) by (auto simp: cut_tile_def part_def s'(3))
      qed
    qed
    show "hb_size (hp_blocks s' b) = hb_size (?m b) \<and> hb_free (hp_blocks s' b) = hb_free (?m b)" if "(b, k, f) \<in> set pre \<union> set post" for b k f
      using apart [OF that] by (auto simp: s'(3))
    show "successively (\<lambda>b c. \<not> (snd (snd b) \<and> snd (snd c))) (pre @ ?mid @ post)"
      using su by (auto simp: cut_tile_def successively_append_iff successively_Cons)
  qed
  moreover have "section_step x [(a, n, True)] ?mid s s'"
  proof -
    have "unat x + 32 \<le> unat q \<and> unat q < unat x + 32 + unat ?z" if "q = a \<or> part \<and> q = ?nb \<or> ?p \<noteq> 0 \<and> q = ?p" for q
    proof -
      have "?p \<noteq> 0 \<Longrightarrow> ?p \<in> set (frees (pre @ (a, n, True) # post))"
        using p(1,2) by simp
      then have "?p \<noteq> 0 \<Longrightarrow> unat x + 32 \<le> unat ?p \<and> unat ?p < unat x + 32 + unat ?z"
        using content_frees(1,2) [OF c] by blast
      then show ?thesis
        using that b(3,4) unb by (auto simp: part_def)
    qed
    then have "hp_blocks s' q = ?m q" if "unat q \<notin> {unat x ..< unat x + 32 + unat ?z}" for q
      using that by (fastforce simp: s'(3))
    moreover have "part \<Longrightarrow> (of_nat (n - (unat sz + 16)) :: u64) = of_nat n - (sz + 16)"
      by (simp add: part_def of_nat_diff)
    ultimately show ?thesis
      using st s'(4) by (auto simp: section_step_def cut_tile_def part_def [symmetric])
  qed
  ultimately show ?thesis
    using s'(1,2) h' by auto
qed

section \<open>Giving a block back\<close>

lemma join_current_eq:
  assumes "b \<noteq> c" "B \<longleftrightarrow> hb_end (hp_blocks s) b = c" "n2 = (if B then hb_size (hp_blocks s b) + (16 + hb_size (hp_blocks s c)) else hb_size (hp_blocks s b))" "unat n2 < 2 ^ 63"
  shows "join_current b c s = s\<lparr>
    hp_blocks := (hp_blocks s)(b := (hp_blocks s b)\<lparr>hb_size := n2, hb_next := if B then hb_next (hp_blocks s c) else c\<rparr>),
    m_MetadataMemory := m_MetadataMemory s - (if B then 16 else 0), m_FreeMemory := m_FreeMemory s + (if B then 16 else 0)\<rparr>"
  using assms take_bit_63 [OF assms(4)] by (auto simp: join_current_def swallow_def heap_defs)

lemma join_previous_eq:
  assumes "p \<noteq> a" "A \<longleftrightarrow> hb_end (hp_blocks s) p = a" "n1 = hb_size (hp_blocks s p) + (16 + hb_size (hp_blocks s a))" "A \<Longrightarrow> unat n1 < 2 ^ 63" "hb_free (hp_blocks s a)"
  shows "join_previous p a s =
    (if A then (s\<lparr>hp_blocks := (hp_blocks s)(p := (hp_blocks s p)\<lparr>hb_size := n1\<rparr>), m_MetadataMemory := m_MetadataMemory s - 16,
       m_FreeMemory := m_FreeMemory s + 16\<rparr>, p)
     else (s\<lparr>hp_blocks := (hp_blocks s)(p := (hp_blocks s p)\<lparr>hb_next := a\<rparr>)\<rparr>, a))"
proof (cases A)
  case True
  then show ?thesis
    using assms take_bit_63 [of n1] by (simp add: join_previous_def swallow_def heap_defs)
next
  case False
  have "(hp_blocks s)(a := (hp_blocks s a)\<lparr>hb_free := True\<rparr>) = hp_blocks s"
    using assms(5) by (intro fun_upd_idem) simp
  then show ?thesis
    using False assms by (simp add: join_previous_def heap_defs)
qed

text \<open>The store after a block has been put between its free neighbours, joined with those it touches.\<close>

lemma Free_insert_eq:
  fixes s :: "'w HeapAllocator"
  defines "m \<equiv> hp_blocks s"
  assumes ne: "p \<noteq> a" "c \<noteq> a" "p = 0 \<or> p \<noteq> c" and f: "hb_free (m a)" "p \<noteq> 0 \<Longrightarrow> hb_free (m p)"
    and A: "A \<longleftrightarrow> p \<noteq> 0 \<and> hb_end m p = a" and B: "B \<longleftrightarrow> c \<noteq> 0 \<and> hb_end m a = c"
    and n1: "n1 = (if A then hb_size (m p) + (16 + hb_size (m a)) else hb_size (m a))" "unat n1 < 2 ^ 63"
    and n2: "n2 = (if B then n1 + (16 + hb_size (m c)) else n1)" "unat n2 < 2 ^ 63"
  shows "\<exists>s'. Free_insert x a p c s = s' \<and>
    hp_blocks s' = (\<lambda>b. if b = (if A then p else a) then \<lparr>hb_size = n2, hb_free = True, hb_next = if B then hb_next (m c) else c\<rparr>
      else if p \<noteq> 0 \<and> \<not> A \<and> b = p then (m b)\<lparr>hb_next := a\<rparr> else m b) \<and>
    hp_sections s' = (if p = 0 then (hp_sections s)(x := (hp_sections s x)\<lparr>hs_firstBlock := a\<rparr>) else hp_sections s) \<and>
    hp_lock s' = hp_lock s \<and> m_Head s' = m_Head s \<and> m_SectionAllocator s' = m_SectionAllocator s \<and> hp_world s' = hp_world s \<and> hp_bytes s' = hp_bytes s \<and>
    m_TotalMemory s' = m_TotalMemory s \<and> m_UsedMemory s' = m_UsedMemory s - hb_size (m a) \<and>
    m_FreeMemory s' = m_FreeMemory s + hb_size (m a) + (if A then 16 else 0) + (if B then 16 else 0) \<and>
    m_MetadataMemory s' = m_MetadataMemory s - (if A then 16 else 0) - (if B then 16 else 0)"
proof -
  have e: "A \<Longrightarrow> hb_end (m(p := (m p)\<lparr>hb_size := n1\<rparr>)) p = hb_end m a" "hb_end (m(p := (m p)\<lparr>hb_next := a\<rparr>)) a = hb_end m a"
    using A n1(1) ne by (auto simp: hb_end_def sizeof_HeapBlock_def algebra_simps)
  note jp = join_previous_eq [of p a A s, folded m_def, OF ne(1) _ refl]
  note jc = join_current_eq [of _ c B]
  consider "p = 0" "c = 0" | "p = 0" "c \<noteq> 0" | "p \<noteq> 0" "c = 0" "A" | "p \<noteq> 0" "c = 0" "\<not> A" | "p \<noteq> 0" "c \<noteq> 0" "A" | "p \<noteq> 0" "c \<noteq> 0" "\<not> A"
    by blast
  then show ?thesis
  proof cases
    case 1
    then show ?thesis
      using A B f n1(1) n2(1) by (auto simp: Free_insert_def count_freed_def heap_defs m_def fun_eq_iff block_fields Let_def)
  next
    case 2
    then have "\<not> A" "B \<longleftrightarrow> hb_end (hp_blocks s) a = c"
      using A B by (auto simp: m_def)
    then show ?thesis
      using 2 jc [of a s n2] n1(1) n2 ne f
      by (auto simp: Free_insert_def count_freed_def heap_defs m_def fun_eq_iff block_fields Let_def)
  next
    case 3
    then have "\<not> B" "A \<longleftrightarrow> hb_end m p = a" "hb_free (hp_blocks s a)"
      using A B f by (auto simp: m_def)
    then show ?thesis
      using 3 jp n1 n2(1) ne f by (auto simp: Free_insert_def count_freed_def heap_defs m_def fun_eq_iff block_fields Let_def)
  next
    case 4
    then have "\<not> B" "A \<longleftrightarrow> hb_end m p = a" "hb_free (hp_blocks s a)"
      using A B f by (auto simp: m_def)
    then show ?thesis
      using 4 jp n1 n2(1) ne f by (auto simp: Free_insert_def count_freed_def heap_defs m_def fun_eq_iff block_fields Let_def)
  next
    case 5
    let ?s = "s\<lparr>hp_blocks := m(p := (m p)\<lparr>hb_size := n1\<rparr>), m_MetadataMemory := m_MetadataMemory s - 16, m_FreeMemory := m_FreeMemory s + 16\<rparr>"
    have "join_previous p a s = (?s, p)"
      using jp 5 A f n1 by (auto simp: m_def)
    moreover have "join_current p c ?s = ?s\<lparr>hp_blocks := (hp_blocks ?s)(p := (hp_blocks ?s p)\<lparr>hb_size := n2, hb_next := if B then hb_next (m c) else c\<rparr>),
        m_MetadataMemory := m_MetadataMemory ?s - (if B then 16 else 0), m_FreeMemory := m_FreeMemory ?s + (if B then 16 else 0)\<rparr>"
      using jc [of p ?s n2] 5 B e(1) n2 ne by auto
    ultimately show ?thesis
      using 5 ne f by (auto simp: Free_insert_def count_freed_def m_def fun_eq_iff block_fields Let_def)
  next
    case 6
    let ?s = "s\<lparr>hp_blocks := m(p := (m p)\<lparr>hb_next := a\<rparr>)\<rparr>"
    have "join_previous p a s = (?s, a)"
      using jp 6 A f by (auto simp: m_def)
    moreover have "join_current a c ?s = ?s\<lparr>hp_blocks := (hp_blocks ?s)(a := (hp_blocks ?s a)\<lparr>hb_size := n2, hb_next := if B then hb_next (m c) else c\<rparr>),
        m_MetadataMemory := m_MetadataMemory ?s - (if B then 16 else 0), m_FreeMemory := m_FreeMemory ?s + (if B then 16 else 0)\<rparr>"
      using jc [of a ?s n2] 6 B e(2) n1(1) n2 ne by auto
    ultimately show ?thesis
      using 6 ne f by (auto simp: Free_insert_def count_freed_def m_def fun_eq_iff block_fields Let_def)
  qed
qed

end
