(* ===== verification/HeapSections.thy ===== *)
theory HeapSections
  imports HeapBlocks
begin

text \<open>
  Giving a block of a section back: it becomes free, together with the free blocks it touches, and everything
  else of the section stays as it was.
\<close>

section \<open>The free neighbours of a block\<close>

lemma unat_hb_end:
  assumes "hb_size (m p) = of_nat k" "unat p + 16 + k < 18446744073709551616"
  shows "unat (hb_end m p) = unat p + 16 + k"
  using assms by (simp add: hb_end_def sizeof_HeapBlock_def unat_word_ariths unat_of_nat)

lemma linked_last: "linked m h (xs @ b # ys) q \<Longrightarrow> xs \<noteq> [] \<Longrightarrow> hb_next (m (last xs)) = b"
proof (induction xs arbitrary: h)
  case (Cons x xs)
  then show ?case
    by (cases xs) auto
qed simp

lemma last_free:
  assumes c: "content_ok m x z h (pre @ (a, n, f) # post)"
  obtains p k pre0 where "pre = pre0 @ [(p, k, True)]" "last_or0 (frees pre) = p" "p \<noteq> 0" "hb_end m p = a"
  | "pre = [] \<or> \<not> snd (snd (last pre))" "last_or0 (frees pre) \<noteq> 0 \<Longrightarrow> hb_end m (last_or0 (frees pre)) \<noteq> a"
proof (cases "pre \<noteq> [] \<and> snd (snd (last pre))")
  case True
  then obtain p k pre0 where pre: "pre = pre0 @ [(p, k, True)]"
    by (cases pre rule: rev_cases) auto
  have "tiling (unat x + 32) (pre0 @ (p, k, True) # (a, n, f) # post) (unat x + 32 + unat z)"
    using c pre by (simp add: content_ok_def)
  then have "unat p + 16 + k = unat a"
    using tiling_split(2) by fastforce
  moreover have "unat a < 18446744073709551616" and b: "hb_size (m p) = of_nat k" "p \<noteq> 0"
    using content_mem [OF c, of p k True] pre by auto
  ultimately have "hb_end m p = a"
    using unat_hb_end [of m p k] by (metis unat_inj)
  then show ?thesis
    using that(1) pre b(2) by simp
next
  case False
  have "hb_end m (last_or0 (frees pre)) \<noteq> a" if "last_or0 (frees pre) \<noteq> 0"
  proof -
    have "last_or0 (frees pre) \<in> set (frees pre)"
      using that by (auto simp: last_or0_def split: if_splits)
    then obtain k u v where uv: "pre = u @ (last_or0 (frees pre), k, True) # v"
      by (metis frees_set split_list)
    define p where "p = last_or0 (frees pre)"
    have pre: "pre = u @ (p, k, True) # v"
      using uv by (simp add: p_def)
    then obtain b l g v' where v: "v = (b, l, g) # v'"
      using False by (cases v) auto
    have t: "tiling (unat x + 32) (u @ (p, k, True) # v @ (a, n, f) # post) (unat x + 32 + unat z)"
      using c pre by (simp add: content_ok_def)
    have "unat b = unat p + 16 + k"
      using tiling_split(2) [OF t] v by simp
    moreover have "tiling (unat x + 32) (pre @ (a, n, f) # post) (unat x + 32 + unat z)" "(b, l, g) \<in> set pre"
      using c pre v by (simp_all add: content_ok_def)
    then have "unat b + 16 + l \<le> unat a"
      by (rule tiling_split(6))
    moreover have "unat a < 18446744073709551616" "hb_size (m p) = of_nat k"
      using content_mem [OF c, of p k True] pre by auto
    ultimately have "unat (hb_end m p) < unat a"
      using unat_hb_end [of m p k] by linarith
    then show ?thesis
      by (auto simp: p_def)
  qed
  then show ?thesis
    using that(2) False by blast
qed

lemma first_free:
  assumes c: "content_ok m x z h (pre @ (a, n, f) # post)"
  obtains q k post0 where "post = (q, k, True) # post0" "q \<noteq> 0" "hb_end m a = q"
  | "post = [] \<or> \<not> snd (snd (hd post))" "\<And>q. q \<in> set (frees post) \<Longrightarrow> hb_end m a \<noteq> q"
proof -
  have t: "tiling (unat x + 32) (pre @ (a, n, f) # post) (unat x + 32 + unat z)" "unat x + 32 + unat z < 2 ^ 64"
    using c by (simp_all add: content_ok_def)
  have "hb_size (m a) = of_nat n"
    using content_mem [OF c, of a n f] by auto
  then have e: "unat (hb_end m a) = unat a + 16 + n"
    using t tiling_split(5) [OF t(1)] by (intro unat_hb_end) simp_all
  show ?thesis
  proof (cases "post \<noteq> [] \<and> snd (snd (hd post))")
    case True
    then obtain q k post0 where post: "post = (q, k, True) # post0"
      by (cases post) auto
    moreover from this have "hb_end m a = q"
      using tiling_split(2) [OF t(1)] e by (intro unat_inj) simp
    ultimately show ?thesis
      using that(1) content_mem(8) [OF c, of q k True] by simp
  next
    case False
    have "hb_end m a \<noteq> q" if q: "q \<in> set (frees post)" for q
    proof (cases post)
      case (Cons b rest)
      then obtain b k where b: "post = (b, k, False) # rest"
        using False by (cases b) auto
      then have "tiling (unat b + 16 + k) rest (unat x + 32 + unat z)" "unat b = unat a + 16 + n"
        using tiling_split(2) [OF t(1)] by auto
      then have "unat a + 16 + n + 16 \<le> unat q"
        using q b tiling_mem by (fastforce simp: frees_set)
      then show ?thesis
        using e by auto
    qed (use q in simp)
    then show ?thesis
      using that(2) False by blast
  qed
qed

text \<open>Both neighbours as lists of at most one tile.\<close>

lemma before_block:
  assumes "content_ok m x z h (pre @ (a, n, f) # post)"
  obtains A p k pre0 where "pre = pre0 @ (if A then [(p, k, True)] else [])" "\<not> A \<Longrightarrow> pre0 = [] \<or> \<not> snd (snd (last pre0))"
    "A \<longleftrightarrow> last_or0 (frees pre) \<noteq> 0 \<and> hb_end m (last_or0 (frees pre)) = a" "A \<Longrightarrow> last_or0 (frees pre) = p"
  using assms
proof (cases rule: last_free)
  case (1 p k pre0)
  then show ?thesis
    using that [of pre0 True p k] by auto
next
  case 2
  then show ?thesis
    using that [of pre False] by auto
qed

lemma behind_block:
  assumes "content_ok m x z h (pre @ (a, n, f) # post)"
  defines "Q \<equiv> case frees post of [] \<Rightarrow> 0 | c # _ \<Rightarrow> c"
  obtains B q l post0 where "post = (if B then [(q, l, True)] else []) @ post0" "\<not> B \<Longrightarrow> post0 = [] \<or> \<not> snd (snd (hd post0))"
    "B \<longleftrightarrow> Q \<noteq> 0 \<and> hb_end m a = Q" "B \<Longrightarrow> Q = q"
  using assms(1)
proof (cases rule: first_free)
  case (1 q k post0)
  then show ?thesis
    using that [of True q k post0] by (auto simp: Q_def)
next
  case 2
  then have "Q \<noteq> 0 \<Longrightarrow> hb_end m a \<noteq> Q"
    by (cases "frees post") (auto simp: Q_def)
  then show ?thesis
    using that [of False _ _ post] 2 by auto
qed

text \<open>The search finds them.\<close>

lemma find_place_ok:
  assumes c: "content_ok m x z h (pre @ (a, n, False) # post)" and m': "\<And>b. hb_next (m' b) = hb_next (m b) \<and> hb_size (m' b) = hb_size (m b)"
  shows "find_place m' a 0 h = Some (last_or0 (frees pre), case frees post of [] \<Rightarrow> 0 | c # _ \<Rightarrow> c)"
proof -
  have t: "tiling (unat x + 32) (pre @ (a, n, False) # post) (unat x + 32 + unat z)" and l: "linked m h (frees pre @ frees post) 0"
    using c by (simp_all add: content_ok_def)
  note ts = tiling_split [OF t]
  have e: "hb_end m' b = hb_end m b" for b
    using m' by (simp add: hb_end_def)
  have pre: "b < a \<and> hb_end m' b \<le> a" if "b \<in> set (frees pre)" for b
  proof -
    obtain k where k: "(b, k, True) \<in> set pre"
      using \<open>b \<in> _\<close> by (auto simp: frees_set)
    have "unat b + 16 + k \<le> unat a" "hb_size (m b) = of_nat k"
      using ts(6) [OF k] content_mem(1) [OF c, of b k True] k by auto
    moreover from this have "unat (hb_end m b) = unat b + 16 + k"
      using unat_lt_2p64 [of a] by (intro unat_hb_end) linarith+
    ultimately show ?thesis
      by (simp add: e word_less_nat_alt word_le_nat_alt)
  qed
  have post: "a < b" if "b \<in> set (frees post)" for b
    using that ts(7) by (force simp: frees_set word_less_nat_alt)
  have "linked m' h (frees pre @ frees post) 0"
    by (rule linked_cong [OF l]) (simp add: m')
  then have "find_place m' a 0 h = Some (if frees pre = [] then 0 else last (frees pre), case frees post of [] \<Rightarrow> 0 | c # _ \<Rightarrow> c)"
    by (rule find_place_found) (use pre post in auto)
  then show ?thesis
    by (simp add: last_or0_def)
qed

section \<open>The section after the release\<close>

text \<open>
  The tiles in front of the block without the one it is joined with, and the tiles behind it likewise: the store after
  \<open>Free_insert\<close> holds one free block in their place.
\<close>

lemma given_back:
  fixes A B :: bool
  assumes c: "content_ok m x z h (pre0 @ (as @ [(a, n, False)] @ cs) @ post0)"
    and as: "as = (if A then [(p, k, True)] else [])" and cs: "cs = (if B then [(q, l, True)] else [])"
    and nA: "\<not> A \<Longrightarrow> pre0 = [] \<or> \<not> snd (snd (last pre0))" and nB: "\<not> B \<Longrightarrow> post0 = [] \<or> \<not> snd (snd (hd post0))"
    and P: "P = last_or0 (frees (pre0 @ as))" and Q: "Q = (case frees (cs @ post0) of [] \<Rightarrow> 0 | c # _ \<Rightarrow> c)"
    and N: "N = (if A then k + 16 else 0) + n + (if B then 16 + l else 0)"
    and m': "m' = (\<lambda>b. if b = (if A then p else a) then \<lparr>hb_size = of_nat N, hb_free = True, hb_next = if B then hb_next (m q) else Q\<rparr>
      else if P \<noteq> 0 \<and> \<not> A \<and> b = P then (m b)\<lparr>hb_next := a\<rparr> else if b = a then (m b)\<lparr>hb_free := True\<rparr> else m b)"
  shows "content_ok m' x z (if P = 0 then a else h) (pre0 @ [(if A then p else a, N, True)] @ post0)"
proof -
  let ?b = "if A then p else a"
  have tl: "tiling (unat x + 32) ((pre0 @ as) @ (a, n, False) # (cs @ post0)) (unat x + 32 + unat z)"
    and ln: "linked m h (frees pre0 @ (frees as @ frees cs) @ frees post0) 0"
    and su: "successively (\<lambda>b c. \<not> (snd (snd b) \<and> snd (snd c))) (pre0 @ (as @ [(a, n, False)] @ cs) @ post0)"
    using c by (simp_all add: content_ok_def)
  have d: "distinct (map fst ((pre0 @ as) @ (a, n, False) # (cs @ post0)))"
    by (rule tiling_distinct [OF tl])
  have ap: "b \<noteq> a" "b \<noteq> ?b" if "(b, j, f) \<in> set pre0 \<union> set post0" for b j f
    using that d as by (auto simp: image_iff split: if_splits)
  have fr: "b \<noteq> a" "b \<noteq> ?b" if "b \<in> set (frees pre0) \<union> set (frees post0)" for b
    using that ap unfolding frees_set Un_iff by blast+
  have fd: "distinct (frees pre0 @ frees post0)"
    using frees_distinct [OF d] by auto
  have P0: "P = 0 \<longleftrightarrow> frees (pre0 @ as) = []"
    using ln last_or0_zero [of m h "frees (pre0 @ as)"] by (auto simp: P linked_append)
  have PA: "\<not> A \<Longrightarrow> frees pre0 \<noteq> [] \<Longrightarrow> P = last (frees pre0)"
    by (simp add: P as last_or0_def)
  have b0: "?b \<noteq> 0" and far: "unat ?b + 48 \<le> unat x + 32 + unat z"
    using content_mem(8,9) [OF c, of a n False] content_mem(8,9) [OF c, of p k True] as by auto
  have Q0: "(if B then hb_next (m q) else Q) = (case frees post0 of [] \<Rightarrow> 0 | c # _ \<Rightarrow> c)"
    using ln linked_first [of m _ "frees post0"] by (auto simp: Q cs linked_append)
  have hd: "(if P = 0 then a else h) = (if frees pre0 = [] then ?b else h)"
    using ln P0 by (auto simp: as linked_append split: if_splits)
  have ln': "linked m' (if frees pre0 = [] then ?b else h) (frees pre0 @ [?b] @ frees post0) 0"
  proof (rule relink_mid [OF ln])
    show "hb_next (m' b) = hb_next (m b)" if "b \<in> set (butlast (frees pre0)) \<union> set (frees post0)" for b
    proof -
      have "frees pre0 \<noteq> [] \<Longrightarrow> b \<noteq> last (frees pre0)"
        using that fd by (cases "frees pre0" rule: rev_cases) auto
      then show ?thesis
        using that fr [of b] P0 PA in_set_butlastD [of b "frees pre0"] by (auto simp: m' as)
    qed
    show "hb_next (m' (last (frees pre0))) = ?b" if ne: "frees pre0 \<noteq> []"
    proof (cases A)
      case True
      then have "hb_next (m (last (frees pre0))) = p"
        using linked_last [of m h "frees pre0" p] ln ne by (simp add: as)
      then show ?thesis
        using True fr [of "last (frees pre0)"] ne by (simp add: m')
    next
      case False
      then show ?thesis
        using fr [of "last (frees pre0)"] ne PA P0 by (simp add: m')
    qed
    show "linked m' ?b [?b] (case frees post0 of [] \<Rightarrow> 0 | c # _ \<Rightarrow> c)"
      using b0 Q0 by (simp add: m')
  qed
  have "content_ok m' x z (if P = 0 then a else h) (pre0 @ [(?b, N, True)] @ post0)"
    unfolding hd
  proof (rule content_replace [OF c])
    show "tiling y [(?b, N, True)] e" if "tiling y (as @ [(a, n, False)] @ cs) e" for y e
      using that by (auto simp: as cs N split: if_splits)
    show "hb_size (m' b) = of_nat j \<and> hb_free (m' b) = f \<and> unat b + 48 \<le> unat x + 32 + unat z" if "(b, j, f) \<in> set [(?b, N, True)]" for b j f
      using that far by (simp add: m')
    show "hb_size (m' b) = hb_size (m b) \<and> hb_free (m' b) = hb_free (m b)" if "(b, j, f) \<in> set pre0 \<union> set post0" for b j f
      using ap [OF that] by (simp add: m')
    show "linked m' (if frees pre0 = [] then ?b else h) (frees pre0 @ frees [(?b, N, True)] @ frees post0) 0"
      using ln' by simp
    show "successively (\<lambda>b c. \<not> (snd (snd b) \<and> snd (snd c))) (pre0 @ [(?b, N, True)] @ post0)"
      using su nA nB by (auto simp: as cs successively_append_iff successively_Cons split: if_splits)
  qed
  then show ?thesis .
qed

lemma Free_block_ok:
  fixes s0 :: "'w HeapAllocator"
  assumes c: "section_ok s0 x (pre @ (a, n, False) # post)"
  defines "s \<equiv> upd_block a (\<lambda>b. b\<lparr>hb_free := True\<rparr>) s0"
  shows "\<exists>s' bs'. Free_block x a s = Inr s' \<and> hp_lock s' = hp_lock s0 \<and> section_ok s' x bs' \<and>
    section_step x (pre @ (a, n, False) # post) bs' s0 s' \<and> used_tiles bs' = used_tiles (pre @ (a, n, False) # post) - {(a, n)}"
proof -
  let ?m = "hp_blocks s0" and ?z = "hs_size (hp_sections s0 x)" and ?h = "hs_firstBlock (hp_sections s0 x)"
  define P where "P = last_or0 (frees pre)"
  define Q where "Q = (case frees post of [] \<Rightarrow> 0 | c # _ \<Rightarrow> c)"
  obtain A p k pre0 where pre: "pre = pre0 @ (if A then [(p, k, True)] else [])" "\<not> A \<Longrightarrow> pre0 = [] \<or> \<not> snd (snd (last pre0))"
      "A \<longleftrightarrow> P \<noteq> 0 \<and> hb_end ?m P = a" "A \<Longrightarrow> P = p"
    using before_block [OF c] unfolding P_def by metis
  obtain B q l post0 where post: "post = (if B then [(q, l, True)] else []) @ post0" "\<not> B \<Longrightarrow> post0 = [] \<or> \<not> snd (snd (hd post0))"
      "B \<longleftrightarrow> Q \<noteq> 0 \<and> hb_end ?m a = Q" "B \<Longrightarrow> Q = q"
    using behind_block [OF c] unfolding Q_def by metis
  define N where "N = (if A then k + 16 else 0) + n + (if B then 16 + l else 0)"
  let ?b = "if A then p else a" and ?bs = "pre0 @ [(if A then p else a, N, True)] @ post0"
  define m' where "m' = (\<lambda>b. if b = ?b then \<lparr>hb_size = of_nat N, hb_free = True, hb_next = if B then hb_next (?m q) else Q\<rparr>
      else if P \<noteq> 0 \<and> \<not> A \<and> b = P then (?m b)\<lparr>hb_next := a\<rparr> else if b = a then (?m b)\<lparr>hb_free := True\<rparr> else ?m b)"
  have c0: "content_ok ?m x ?z ?h (pre0 @ ((if A then [(p, k, True)] else []) @ [(a, n, False)] @ (if B then [(q, l, True)] else [])) @ post0)"
    using c unfolding pre(1) post(1) by simp
  have c': "content_ok m' x ?z (if P = 0 then a else ?h) ?bs"
    by (rule given_back [OF c0 refl refl pre(2) post(2) P_def [unfolded pre(1)] Q_def [unfolded post(1)] N_def m'_def])
  have t: "tiling (unat x + 32) (pre @ (a, n, False) # post) (unat x + 32 + unat ?z)" and z: "unat ?z < 2 ^ 63"
    using c by (simp_all add: content_ok_def)
  have Pin: "P \<noteq> 0 \<Longrightarrow> P \<in> set (frees pre)" and Qin: "Q \<noteq> 0 \<Longrightarrow> Q \<in> set (frees post)"
    by (auto simp: P_def Q_def last_or0_def split: if_splits list.splits)
  have lt: "P \<noteq> 0 \<Longrightarrow> unat P < unat a" "Q \<noteq> 0 \<Longrightarrow> unat a < unat Q"
    using Pin Qin tiling_split(6,7) [OF t] by (fastforce simp: frees_set)+
  have a: "hb_size (?m a) = of_nat n" "a \<noteq> 0" and Pf: "P \<noteq> 0 \<Longrightarrow> hb_free (?m P)"
    using content_mem [OF c, of a n False] content_frees(4) [OF c, of P] Pin by auto
  have kl: "A \<Longrightarrow> hb_size (?m P) = of_nat k" "B \<Longrightarrow> hb_size (?m Q) = of_nat l"
    using content_mem(1) [OF c0, of p k True] content_mem(1) [OF c0, of q l True] pre(4) post(4) by auto
  define N1 where "N1 = (if A then k + 16 else 0) + n"
  have NN: "N < 2 ^ 63" "N1 < 2 ^ 63"
    using content_mem(7) [OF c', of ?b N True] z by (auto simp: N1_def N_def)
  have ne: "P \<noteq> a" "Q \<noteq> a" "P = 0 \<or> P \<noteq> Q"
    using lt a(2) by auto
  have sm: "hb_next (hp_blocks s b) = hb_next (?m b)" "hb_size (hp_blocks s b) = hb_size (?m b)" "hb_end (hp_blocks s) b = hb_end ?m b"
      "hp_sections s = hp_sections s0" "hb_free (hp_blocks s a)" for b
    by (simp_all add: s_def upd_block_def hb_end_def)
  have n1: "of_nat N1 = (if A then hb_size (hp_blocks s P) + (16 + hb_size (hp_blocks s a)) else hb_size (hp_blocks s a))"
    and n2: "of_nat N = (if B then of_nat N1 + (16 + hb_size (hp_blocks s Q)) else of_nat N1)"
    using kl a(1) by (auto simp: N_def N1_def sm)
  have u: "unat (of_nat N1 :: u64) < 2 ^ 63" "unat (of_nat N :: u64) < 2 ^ 63"
    using NN by (simp_all add: unat_of_nat)
  have fP: "hb_free (hp_blocks s P)" if "P \<noteq> 0"
    using Pf that ne(1) by (simp add: s_def upd_block_def)
  have AB: "A \<longleftrightarrow> P \<noteq> 0 \<and> hb_end (hp_blocks s) P = a" "B \<longleftrightarrow> Q \<noteq> 0 \<and> hb_end (hp_blocks s) a = Q"
    using pre(3) post(3) by (simp_all only: sm(3))
  obtain s' where s': "Free_insert x a P Q s = s'"
    "hp_blocks s' = (\<lambda>b. if b = (if A then P else a) then \<lparr>hb_size = of_nat N, hb_free = True, hb_next = if B then hb_next (hp_blocks s Q) else Q\<rparr>
      else if P \<noteq> 0 \<and> \<not> A \<and> b = P then (hp_blocks s b)\<lparr>hb_next := a\<rparr> else hp_blocks s b)"
    "hp_sections s' = (if P = 0 then (hp_sections s)(x := (hp_sections s x)\<lparr>hs_firstBlock := a\<rparr>) else hp_sections s)" "hp_lock s' = hp_lock s"
    and st: "m_Head s' = m_Head s" "m_SectionAllocator s' = m_SectionAllocator s" "hp_world s' = hp_world s" "hp_bytes s' = hp_bytes s"
    "m_TotalMemory s' = m_TotalMemory s" "m_UsedMemory s' = m_UsedMemory s - hb_size (hp_blocks s a)"
    "m_FreeMemory s' = m_FreeMemory s + hb_size (hp_blocks s a) + (if A then 16 else 0) + (if B then 16 else 0)"
    "m_MetadataMemory s' = m_MetadataMemory s - (if A then 16 else 0) - (if B then 16 else 0)"
    using Free_insert_eq [OF ne sm(5) fP AB n1 u(1) n2 u(2), of x] by blast
  have m': "hp_blocks s' = m'"
    using pre(4) post(4) ne by (auto simp: s'(2) m'_def sm fun_eq_iff) (auto simp: s_def upd_block_def)
  have h': "hs_size (hp_sections s' x) = ?z" "hs_firstBlock (hp_sections s' x) = (if P = 0 then a else ?h)"
    by (simp_all add: s'(3) sm)
  have "Free_block x a s = Inr s'"
    using c find_place_ok [OF c, of "hp_blocks s"] s'(1) sm by (simp add: Free_block_def content_ok_def P_def Q_def)
  moreover have "section_ok s' x ?bs"
    using c' m' h' by simp
  moreover have "section_step x (pre @ (a, n, False) # post) ?bs s0 s'"
  proof -
    have out: "hp_blocks s' b = ?m b" if "unat b \<notin> {unat x ..< unat x + 32 + unat ?z}" for b
    proof -
      have "b \<noteq> a" "b \<noteq> ?b" "P \<noteq> 0 \<Longrightarrow> b \<noteq> P"
        using that content_mem(3,4) [OF c, of a n False] content_mem(3,4) [OF c', of ?b N True] content_frees(1,2) [OF c, of P] Pin by auto
      then show ?thesis
        by (auto simp: m' m'_def)
    qed
    have s0: "m_Head s = m_Head s0" "m_SectionAllocator s = m_SectionAllocator s0" "hp_world s = hp_world s0" "hp_bytes s = hp_bytes s0"
        "m_TotalMemory s = m_TotalMemory s0" "m_UsedMemory s = m_UsedMemory s0" "m_FreeMemory s = m_FreeMemory s0" "m_MetadataMemory s = m_MetadataMemory s0"
      by (simp_all add: s_def upd_block_def)
    have cnt: "m_UsedMemory s' = m_UsedMemory s0 - of_nat (used_sum (pre @ (a, n, False) # post)) + of_nat (used_sum ?bs)"
      "m_FreeMemory s' = m_FreeMemory s0 - of_nat (free_sum (pre @ (a, n, False) # post)) + of_nat (free_sum ?bs)"
      "m_MetadataMemory s' = m_MetadataMemory s0 - 16 * of_nat (length (pre @ (a, n, False) # post)) + 16 * of_nat (length ?bs)"
      unfolding st s0 sm(2) a(1) by (auto simp: pre(1) post(1) N_def)
    have "hs_size (hp_sections s' y) = hs_size (hp_sections s0 y) \<and> hs_next (hp_sections s' y) = hs_next (hp_sections s0 y) \<and>
        (y \<noteq> x \<longrightarrow> hs_firstBlock (hp_sections s' y) = hs_firstBlock (hp_sections s0 y))" for y
      by (simp add: s'(3) sm(4))
    then show ?thesis
      unfolding section_step_def using out cnt st(1-5) s0 by metis
  qed
  moreover have "used_tiles ?bs = used_tiles (pre @ (a, n, False) # post) - {(a, n)}"
    using tiling_distinct [OF t] by (auto simp: used_tiles_def pre(1) post(1) image_iff split: if_splits)
  ultimately show ?thesis
    using s'(4) by (intro exI [of _ s'] exI [of _ ?bs]) (simp add: s_def upd_block_def)
qed

end
