(* ===== verification/HeapInv.thy ===== *)
theory HeapInv
  imports HeapSections
begin

text \<open>
  The whole heap: a chain of sections, each tiled by its blocks, apart from each other, with counters that follow
  the tiles. The section allocator is described by what it must do: hand out ranges apart from those it has handed
  out, and take them back.
\<close>

section \<open>The section allocator\<close>

definition range_of :: "u64 \<times> u64 \<Rightarrow> nat set" where
  "range_of r = {unat (fst r) ..< unat (fst r) + unat (snd r)}"

definition source_ok :: "'w HeapSectionAllocator option \<Rightarrow> ('w \<Rightarrow> (u64 \<times> u64) set \<Rightarrow> bool) \<Rightarrow> bool" where
  "source_ok sa I \<longleftrightarrow>
     (\<forall>allocate w R n. Option.bind sa sa_Allocate = Some allocate \<longrightarrow> I w R \<longrightarrow>
        (\<exists>w' a. allocate w n = Inr (w', a) \<and>
           (if a = 0 then I w' R
            else unat a + unat n < 2 ^ 64 \<and> (\<forall>r \<in> R. range_of (a, n) \<inter> range_of r = {}) \<and> I w' (insert (a, n) R)))) \<and>
     (\<forall>f w R a n. Option.bind sa sa_Free = Some f \<longrightarrow> I w R \<longrightarrow> (a, n) \<in> R \<longrightarrow> (\<exists>w'. f w a n = Inr w' \<and> I w' (R - {(a, n)})))"

section \<open>The invariant\<close>

fun chained :: "(u64 \<Rightarrow> HeapSection) \<Rightarrow> u64 \<Rightarrow> u64 list \<Rightarrow> u64 \<Rightarrow> bool" where
  "chained ss p [] q \<longleftrightarrow> p = q"
| "chained ss p (x # xs) q \<longleftrightarrow> p = x \<and> x \<noteq> 0 \<and> chained ss (hs_next (ss x)) xs q"

definition section_span :: "'w HeapAllocator \<Rightarrow> u64 \<Rightarrow> nat set" where
  "section_span s x = {unat x ..< unat x + 32 + unat (hs_size (hp_sections s x))}"

definition counted_sizes :: "'w HeapAllocator \<Rightarrow> (u64 \<times> tile list) list \<Rightarrow> bool" where
  "counted_sizes s L \<longleftrightarrow>
     m_UsedMemory s = (\<Sum>(x, bs) \<leftarrow> L. of_nat (used_sum bs)) \<and> m_FreeMemory s = (\<Sum>(x, bs) \<leftarrow> L. of_nat (free_sum bs)) \<and>
     m_MetadataMemory s = (\<Sum>(x, bs) \<leftarrow> L. 32 + 16 * of_nat (length bs)) \<and> m_TotalMemory s = (\<Sum>(x, bs) \<leftarrow> L. 32 + hs_size (hp_sections s x))"

definition heap_inv :: "('w \<Rightarrow> (u64 \<times> u64) set \<Rightarrow> bool) \<Rightarrow> 'w HeapAllocator \<Rightarrow> (u64 \<times> tile list) list \<Rightarrow> bool" where
  "heap_inv I s L \<longleftrightarrow>
     chained (hp_sections s) (m_Head s) (map fst L) 0 \<and> distinct (map fst L) \<and> (\<forall>(x, bs) \<in> set L. section_ok s x bs) \<and>
     (\<forall>x \<in> fst ` set L. \<forall>y \<in> fst ` set L. x \<noteq> y \<longrightarrow> section_span s x \<inter> section_span s y = {}) \<and> counted_sizes s L \<and>
     source_ok (m_SectionAllocator s) I \<and> (\<exists>R. I (hp_world s) R \<and> (\<forall>x \<in> fst ` set L. (x, hs_size (hp_sections s x) + 32) \<in> R))"

text \<open>Between operations the lock is free and every section has a block in use.\<close>

definition heap_ok :: "('w \<Rightarrow> (u64 \<times> u64) set \<Rightarrow> bool) \<Rightarrow> 'w HeapAllocator \<Rightarrow> (u64 \<times> tile list) list \<Rightarrow> bool" where
  "heap_ok I s L \<longleftrightarrow> heap_inv I s L \<and> hp_lock s = 1 \<and> (\<forall>(x, bs) \<in> set L. used_tiles bs \<noteq> {})"

definition used :: "(u64 \<times> tile list) list \<Rightarrow> (u64 \<times> nat) set" where
  "used L = (\<Union>(x, bs) \<in> set L. used_tiles bs)"

lemma used_simps [simp]: "used [] = {}" "used ((x, bs) # L) = used_tiles bs \<union> used L" "used (L @ M) = used L \<union> used M"
  by (auto simp: used_def)

lemma used_tiles_simps [simp]:
  "used_tiles [] = {}" "used_tiles ((a, n, f) # bs) = (if f then {} else {(a, n)}) \<union> used_tiles bs" "used_tiles (bs @ cs) = used_tiles bs \<union> used_tiles cs"
  by (auto simp: used_tiles_def)

section \<open>Frames\<close>

lemma content_cong:
  assumes "content_ok m x z h bs" "\<And>a. unat a \<in> {unat x ..< unat x + 32 + unat z} \<Longrightarrow> m' a = m a"
  shows "content_ok m' x z h bs"
proof -
  have e: "m' a = m a" if "(a, n, f) \<in> set bs" for a n f
    using assms(2) [of a] content_mem(3,4) [OF assms(1) that] by simp
  have "linked m h (frees bs) 0"
    using assms(1) by (simp add: content_ok_def)
  then have "linked m' h (frees bs) 0"
    by (rule linked_cong) (use e in \<open>auto simp: frees_set\<close>)
  moreover have "hb_size (m' a) = of_nat n \<and> hb_free (m' a) = f" if "(a, n, f) \<in> set bs" for a n f
    using content_mem(1,2) [OF assms(1) that] e [OF that] by simp
  ultimately show ?thesis
    using assms(1) by (auto simp: content_ok_def)
qed

lemma section_step_frame:
  assumes "section_step x mid mid' s s'" "section_ok s y bs" "x \<noteq> y" "section_span s x \<inter> section_span s y = {}"
  shows "section_ok s' y bs"
proof -
  have "hs_size (hp_sections s' y) = hs_size (hp_sections s y)" "hs_firstBlock (hp_sections s' y) = hs_firstBlock (hp_sections s y)"
    using assms(1,3) by (auto simp: section_step_def)
  moreover have "hp_blocks s' a = hp_blocks s a" if "unat a \<in> section_span s y" for a
    using that assms(1,4) by (auto simp: section_step_def section_span_def)
  ultimately show ?thesis
    using content_cong [OF assms(2), of "hp_blocks s'"] by (simp add: section_span_def)
qed

lemma section_step_context: "section_step x mid mid' s s' \<Longrightarrow> section_step x (pre @ mid @ post) (pre @ mid' @ post) s s'"
  by (auto simp: section_step_def algebra_simps)

lemma chained_append: "chained ss p (xs @ ys) q \<longleftrightarrow> (\<exists>r. chained ss p xs r \<and> chained ss r ys q)"
  by (induction xs arbitrary: p) auto

lemma chained_cong: "chained ss p xs q \<Longrightarrow> (\<And>x. x \<in> set xs \<Longrightarrow> hs_next (ss' x) = hs_next (ss x)) \<Longrightarrow> chained ss' p xs q"
  by (induction xs arbitrary: p) auto

lemma heap_inv_member: "heap_inv I s L \<Longrightarrow> (x, bs) \<in> set L \<Longrightarrow> section_ok s x bs"
  by (auto simp: heap_inv_def)

lemma heap_inv_apart:
  assumes "heap_inv I s L" "(x, bs) \<in> set L" "(y, cs) \<in> set L" "x \<noteq> y"
  shows "section_span s x \<inter> section_span s y = {}"
proof -
  have "x \<in> fst ` set L" "y \<in> fst ` set L"
    using imageI [OF assms(2), of fst] imageI [OF assms(3), of fst] by simp_all
  then show ?thesis
    using assms(1,4) unfolding heap_inv_def by blast
qed

text \<open>A step inside of one section.\<close>

lemma heap_inv_step:
  assumes inv: "heap_inv I s (L1 @ (x, bs) # L2)" and st: "section_step x bs bs' s s'" and ok: "section_ok s' x bs'"
  shows "heap_inv I s' (L1 @ (x, bs') # L2)"
proof -
  let ?L = "L1 @ (x, bs) # L2" and ?L' = "L1 @ (x, bs') # L2"
  have sz: "hs_size (hp_sections s' y) = hs_size (hp_sections s y)" "hs_next (hp_sections s' y) = hs_next (hp_sections s y)" for y
    using st by (simp_all add: section_step_def)
  then have sp: "section_span s' y = section_span s y" for y
    by (simp add: section_span_def)
  have "section_ok s' y cs" if "(y, cs) \<in> set ?L'" for y cs
  proof (cases "y = x")
    case True
    then have "cs = bs'"
      using that inv by (auto simp: heap_inv_def image_iff)
    then show ?thesis
      using True ok by simp
  next
    case False
    then have "(y, cs) \<in> set ?L"
      using that by auto
    then have "section_ok s y cs" "section_span s x \<inter> section_span s y = {}"
      using heap_inv_member [OF inv] heap_inv_apart [OF inv, of x bs y cs] False by auto
    then show ?thesis
      using section_step_frame [OF st] False by auto
  qed
  moreover have "chained (hp_sections s') (m_Head s') (map fst ?L') 0"
    using inv st sz(2) by (auto simp: heap_inv_def section_step_def intro: chained_cong [of "hp_sections s"])
  moreover have "counted_sizes s' ?L'"
    using inv st sz(1) by (auto simp: heap_inv_def counted_sizes_def section_step_def)
  ultimately show ?thesis
    using inv st by (auto simp: heap_inv_def sp sz(1) section_step_def)
qed

end
