(* ===== verification/HeapOps.thy ===== *)
theory HeapOps
  imports HeapInv
begin

text \<open>
  The operations of the heap on the invariant: a request takes the first free block that is large enough, or
  a new section, and a release gives the block back and returns its section if nothing of it is in use.
\<close>

section \<open>The search for a block\<close>

definition too_small :: "u64 \<Rightarrow> tile list \<Rightarrow> bool" where
  "too_small sz bs \<longleftrightarrow> (\<forall>(a, n, f) \<in> set bs. f \<longrightarrow> n < unat sz)"

lemma content_fits:
  assumes "content_ok m x z h bs" "(a, n, f) \<in> set bs"
  shows "hb_size (m a) \<ge> sz \<longleftrightarrow> unat sz \<le> n"
  using content_mem(1,6) [OF assms] by (simp add: word_le_nat_alt)

lemma find_block_ok:
  assumes c: "content_ok m x z h bs"
  shows "(\<exists>pre a n post. bs = pre @ (a, n, True) # post \<and> unat sz \<le> n \<and> too_small sz pre \<and> find_block m sz 0 h = Some (last_or0 (frees pre), a) \<and> a \<noteq> 0) \<or>
    (too_small sz bs \<and> (\<exists>q. find_block m sz 0 h = Some (q, 0)))"
proof (cases "too_small sz bs")
  case True
  have "linked m h (frees bs) 0"
    using c by (simp add: content_ok_def)
  moreover have "hb_size (m b) < sz" if "b \<in> set (frees bs)" for b
    using that True content_fits [OF c] by (fastforce simp: frees_set too_small_def not_le [symmetric])
  ultimately show ?thesis
    using True find_block_none by blast
next
  case False
  then obtain u where "u \<in> set bs" "\<not> (case u of (a, n, f) \<Rightarrow> f \<longrightarrow> n < unat sz)"
    unfolding too_small_def by blast
  then have ex: "\<exists>t \<in> set bs. snd (snd t) \<and> unat sz \<le> fst (snd t)"
    by (intro bexI [of _ u]) (auto split: prod.splits)
  obtain pre t post where t: "bs = pre @ t # post" "snd (snd t) \<and> unat sz \<le> fst (snd t)" "\<forall>u \<in> set pre. \<not> (snd (snd u) \<and> unat sz \<le> fst (snd u))"
    using split_list_first_prop [OF ex] by blast
  obtain a n where a: "t = (a, n, True)"
    using t(2) by (cases t) auto
  have bs: "bs = pre @ (a, n, True) # post" and n: "unat sz \<le> n"
    using t(1,2) a by auto
  have small: "too_small sz pre"
    using t(3) by (fastforce simp: too_small_def)
  have l: "linked m h (frees pre @ a # frees post) 0"
    using c bs by (simp add: content_ok_def)
  have "find_block m sz 0 h = Some (if frees pre = [] then 0 else last (frees pre), a)"
  proof (rule find_block_found [OF l])
    show "hb_free (m b)" if "b \<in> set (frees pre @ a # frees post)" for b
      using that content_frees(4) [OF c, of b] bs by simp
    show "hb_size (m b) < sz" if "b \<in> set (frees pre)" for b
      using that small content_fits [OF c] bs by (fastforce simp: frees_set too_small_def not_le [symmetric])
    show "sz \<le> hb_size (m a)"
      using content_fits [OF c, of a n True] n bs by simp
  qed
  moreover have "a \<noteq> 0"
    using content_mem(8) [OF c, of a n True] bs by simp
  ultimately show ?thesis
    using bs n small by (auto simp: last_or0_def)
qed

lemma find_section_ok:
  assumes "chained (hp_sections s) h (map fst L) 0" "\<forall>(x, bs) \<in> set L. section_ok s x bs"
  shows "(\<exists>L1 x pre a n post L2. L = L1 @ (x, pre @ (a, n, True) # post) # L2 \<and> unat sz \<le> n \<and> too_small sz pre \<and> (\<forall>(y, cs) \<in> set L1. too_small sz cs) \<and>
      find_section (hp_blocks s) (hp_sections s) sz h = Some (x, last_or0 (frees pre), a) \<and> a \<noteq> 0) \<or>
    ((\<forall>(y, cs) \<in> set L. too_small sz cs) \<and> find_section (hp_blocks s) (hp_sections s) sz h = Some (0, 0, 0))"
  using assms
proof (induction L arbitrary: h)
  case Nil
  then show ?case
    by (subst find_section.simps) (simp add: find_section.simps)
next
  case (Cons e L)
  obtain x bs where e: "e = (x, bs)"
    by (cases e)
  have h: "h = x" "x \<noteq> 0" "chained (hp_sections s) (hs_next (hp_sections s x)) (map fst L) 0" and c: "section_ok s x bs"
    using Cons.prems e by auto
  note step = find_section.simps [of "hp_blocks s" "hp_sections s" sz h]
  from find_block_ok [OF c, of sz] show ?case
  proof (elim disjE exE conjE)
    fix pre a n post
    assume f: "bs = pre @ (a, n, True) # post" "unat sz \<le> n" "too_small sz pre" "a \<noteq> 0"
      "find_block (hp_blocks s) sz 0 (hs_firstBlock (hp_sections s x)) = Some (last_or0 (frees pre), a)"
    then have "find_section (hp_blocks s) (hp_sections s) sz h = Some (x, last_or0 (frees pre), a)"
      using step h by simp
    then show ?case
      using f e by (intro disjI1 exI [of _ "[]"]) auto
  next
    fix q
    assume f: "too_small sz bs" "find_block (hp_blocks s) sz 0 (hs_firstBlock (hp_sections s x)) = Some (q, 0)"
    then have go: "find_section (hp_blocks s) (hp_sections s) sz h = find_section (hp_blocks s) (hp_sections s) sz (hs_next (hp_sections s x))"
      using step h by simp
    have IH: "(\<exists>L1 y pre a n post L2. L = L1 @ (y, pre @ (a, n, True) # post) # L2 \<and> unat sz \<le> n \<and> too_small sz pre \<and> (\<forall>(y, cs) \<in> set L1. too_small sz cs) \<and>
        find_section (hp_blocks s) (hp_sections s) sz (hs_next (hp_sections s x)) = Some (y, last_or0 (frees pre), a) \<and> a \<noteq> 0) \<or>
      ((\<forall>(y, cs) \<in> set L. too_small sz cs) \<and> find_section (hp_blocks s) (hp_sections s) sz (hs_next (hp_sections s x)) = Some (0, 0, 0))"
      by (rule Cons.IH [OF h(3)]) (use Cons.prems(2) in auto)
    then show ?case
    proof (elim disjE exE conjE, goal_cases)
      case (1 L1 y pre a n post L2)
      then show ?case
        using go f(1) e by (intro disjI1 exI [of _ "e # L1"] exI [of _ y] exI [of _ pre] exI [of _ a] exI [of _ n] exI [of _ post] exI [of _ L2]) auto
    next
      case 2
      then show ?case
        using go f(1) e by auto
    qed
  qed
qed

section \<open>A new section\<close>

lemma split_new_eq:
  assumes n: "hb_size (hp_blocks s a) = of_nat n" "unat a + 16 + n < 2 ^ 64" "n < 2 ^ 63" and k: "unat sz = k" "k \<le> n" and nb: "nb = a + 16 + sz"
  shows "k + 32 < n \<Longrightarrow> split_new sz x a s = Inr (s\<lparr>hp_blocks := (hp_blocks s)
          (nb := \<lparr>hb_size = of_nat (n - k - 16), hb_free = True, hb_next = 0\<rparr>, a := (hp_blocks s a)\<lparr>hb_size := sz\<rparr>),
        hp_sections := (hp_sections s)(x := (hp_sections s x)\<lparr>hs_firstBlock := nb\<rparr>),
        m_MetadataMemory := m_MetadataMemory s + 16, m_FreeMemory := m_FreeMemory s + of_nat (n - k - 16)\<rparr>)"
    "\<not> k + 32 < n \<Longrightarrow> split_new sz x a s = Inr (s\<lparr>hp_sections := (hp_sections s)(x := (hp_sections s x)\<lparr>hs_firstBlock := 0\<rparr>)\<rparr>)"
proof -
  have u: "unat (of_nat n :: u64) = n" "unat (sz + 16 + 16) = k + 32"
    using n(2,3) k by (simp_all add: unat_of_nat unat_word_ariths)
  then have gt: "of_nat n > sz + 16 + 16 \<longleftrightarrow> k + 32 < n"
    by (simp add: word_less_nat_alt)
  {
    assume kn: "k + 32 < n"
    have ne: "nb \<noteq> 0" "nb \<noteq> a"
      using split_free_eq(1) [OF n k nb kn] by simp_all
    have "unat (of_nat n - sz) = n - k" 
      using k u(1) by (subst unat_sub_nowrap) auto
    then have "unat (of_nat n - sz - 16) = n - k - 16"
      using kn by (subst unat_sub_nowrap) auto
    then obtain r where r: "of_nat (n - k - 16) = r" "of_nat n - sz - 16 = r" "unat r = n - k - 16"
      by (metis of_nat_unat_u64)
    have tb: "take_bit 63 r = r" "take_bit 63 sz = sz"
      using n(3) k r(3) by (auto intro!: take_bit_63)
    have gt': "hb_size (hp_blocks s a) > sz + 16 + 16"
      using gt kn n(1) by auto
    then show "split_new sz x a s = Inr (s\<lparr>hp_blocks := (hp_blocks s)
          (nb := \<lparr>hb_size = of_nat (n - k - 16), hb_free = True, hb_next = 0\<rparr>, a := (hp_blocks s a)\<lparr>hb_size := sz\<rparr>),
        hp_sections := (hp_sections s)(x := (hp_sections s x)\<lparr>hs_firstBlock := nb\<rparr>),
        m_MetadataMemory := m_MetadataMemory s + 16, m_FreeMemory := m_FreeMemory s + of_nat (n - k - 16)\<rparr>)"
      unfolding r(1) split_new_def heap_defs nb [symmetric] Let_def using ne tb r(2) n(1) by (simp add: block_fields)
  next
    assume "\<not> k + 32 < n"
    then show "split_new sz x a s = Inr (s\<lparr>hp_sections := (hp_sections s)(x := (hp_sections s x)\<lparr>hs_firstBlock := 0\<rparr>)\<rparr>)"
      using gt n(1) by (simp add: split_new_def heap_defs)
  }
qed

lemma place_section_eq:
  assumes S: "unat S = n + 48" "n + 48 < 2 ^ 63" "unat x + n + 48 < 2 ^ 64" and k: "unat sz \<le> n" and lk: "hp_lock s = 0"
  defines "a \<equiv> x + 32" and "nb \<equiv> x + 32 + 16 + sz" and "part \<equiv> unat sz + 32 < n"
  shows "\<exists>s'. place_section sz S x s = Inr (s', x + 48) \<and> hp_lock s' = 1 \<and>
    hp_blocks s' = (\<lambda>b. if b = a then \<lparr>hb_size = of_nat (if part then unat sz else n), hb_free = False, hb_next = 0\<rparr>
      else if part \<and> b = nb then \<lparr>hb_size = of_nat (n - unat sz - 16), hb_free = True, hb_next = 0\<rparr> else hp_blocks s b) \<and>
    hp_sections s' = (hp_sections s)(x := (hp_sections s x)\<lparr>hs_size := S - 32, hs_next := m_Head s, hs_firstBlock := if part then nb else 0\<rparr>) \<and>
    m_Head s' = x \<and> m_SectionAllocator s' = m_SectionAllocator s \<and> hp_world s' = hp_world s \<and> hp_bytes s' = hp_bytes s \<and>
    m_TotalMemory s' = m_TotalMemory s + S \<and> m_UsedMemory s' = m_UsedMemory s + of_nat (if part then unat sz else n) \<and>
    m_FreeMemory s' = m_FreeMemory s + (if part then of_nat (n - unat sz - 16) else 0) \<and>
    m_MetadataMemory s' = m_MetadataMemory s + 48 + (if part then 16 else 0)"
proof -
  have ua: "unat a = unat x + 32"
    using S(3) by (simp add: a_def unat_word_ariths)
  have "unat (S - 32) = n + 16"
    using S(1) by (subst unat_sub_nowrap) auto
  then have un: "unat (S - 32 - 16) = n"
    by (subst unat_sub_nowrap) auto
  then have n: "S - 32 - 16 = of_nat n"
    by (metis of_nat_unat_u64)
  have tb: "take_bit 63 (S - 32 - 16) = of_nat n"
    using un S(2) n by (subst take_bit_63) auto
  let ?s = "s\<lparr>m_TotalMemory := m_TotalMemory s + S, m_MetadataMemory := m_MetadataMemory s + 48,
    hp_sections := (hp_sections s)(x := (hp_sections s x)\<lparr>hs_size := S - 32, hs_next := m_Head s\<rparr>),
    hp_blocks := (hp_blocks s)(a := \<lparr>hb_size = of_nat n, hb_free = False, hb_next = 0\<rparr>)\<rparr>"
  have pl: "place_section sz S x s = bindR (split_new sz x a ?s) (\<lambda>s. Inr (s\<lparr>m_UsedMemory := m_UsedMemory s + hb_size (hp_blocks s a), m_Head := x,
      hp_lock := Mutex_Unlock (hp_lock s)\<rparr>, a + 16))"
    using tb by (simp add: place_section_def heap_defs a_def block_fields Let_def)
  have nn: "hb_size (hp_blocks ?s a) = of_nat n" "unat a + 16 + n < 2 ^ 64" "n < 2 ^ 63"
    using ua S(2,3) by simp_all
  have a48: "a + 16 = x + 48" and nb: "nb = a + 16 + sz"
    by (simp_all add: a_def nb_def)
  show ?thesis
  proof (cases part)
    case True
    then have kn: "unat sz + 32 < n"
      by (simp add: part_def)
    have ne: "nb \<noteq> a"
      using split_free_eq(1) [OF nn refl k nb kn] by simp
    show ?thesis
      using split_new_eq(1) [OF nn refl k nb kn, of x] pl True ne a48 lk by (auto simp: fun_eq_iff)
  next
    case False
    then have kn: "\<not> unat sz + 32 < n"
      by (simp add: part_def)
    show ?thesis
      using split_new_eq(2) [OF nn refl k nb kn, of x] pl False a48 lk by (auto simp: fun_eq_iff)
  qed
qed

lemma section_range:
  assumes "section_ok s y cs"
  shows "range_of (y, hs_size (hp_sections s y) + 32) = section_span s y" "unat (hs_size (hp_sections s y) + 32) = unat (hs_size (hp_sections s y)) + 32"
proof -
  show "unat (hs_size (hp_sections s y) + 32) = unat (hs_size (hp_sections s y)) + 32"
    using assms by (subst unat_add_nowrap) (auto simp: content_ok_def)
  then show "range_of (y, hs_size (hp_sections s y) + 32) = section_span s y"
    by (simp add: range_of_def section_span_def ac_simps)
qed

text \<open>The section that is placed is tiled, and apart from the others.\<close>

lemma fresh_section_apart:
  assumes inv: "heap_inv I s L" and w: "\<forall>y \<in> fst ` set L. (y, hs_size (hp_sections s y) + 32) \<in> R"
    and x: "\<forall>r \<in> R. range_of (x, S) \<inter> range_of r = {}" and S: "0 < unat S" and m: "(y, cs) \<in> set L"
  shows "y \<noteq> x" "range_of (x, S) \<inter> section_span s y = {}"
proof -
  have c: "section_ok s y cs"
    by (rule heap_inv_member [OF inv m])
  have "y \<in> fst ` set L"
    using imageI [OF m, of fst] by simp
  then have "(y, hs_size (hp_sections s y) + 32) \<in> R"
    by (rule bspec [OF w])
  then show dis: "range_of (x, S) \<inter> section_span s y = {}"
    using x section_range [OF c] by metis
  have "unat y \<in> section_span s y" "unat x \<in> range_of (x, S)"
    using S by (simp_all add: section_span_def range_of_def)
  then show "y \<noteq> x"
    using dis by blast
qed

lemma heap_inv_add:
  assumes inv: "heap_inv I s L" and w: "I (hp_world s') (insert (x, S) R)" "\<forall>y \<in> fst ` set L. (y, hs_size (hp_sections s y) + 32) \<in> R"
    and old: "\<And>y cs. (y, cs) \<in> set L \<Longrightarrow> y \<noteq> x" "\<And>y cs. (y, cs) \<in> set L \<Longrightarrow> range_of (x, S) \<inter> section_span s y = {}"
    and new: "x \<noteq> 0" "section_ok s' x bs" "counted_sizes s' ((x, bs) # L)"
    and h: "hs_size (hp_sections s' x) + 32 = S" "range_of (x, S) = section_span s' x" "hs_next (hp_sections s' x) = m_Head s"
      "\<And>y. y \<noteq> x \<Longrightarrow> hp_sections s' y = hp_sections s y"
    and keep: "\<And>b. unat b \<notin> range_of (x, S) \<Longrightarrow> hp_blocks s' b = hp_blocks s b"
    and st: "m_Head s' = x" "m_SectionAllocator s' = m_SectionAllocator s"
  shows "heap_inv I s' ((x, bs) # L)"
  unfolding heap_inv_def
proof (intro conjI)
  have sec: "section_ok s' y cs" "section_span s' y = section_span s y" if "(y, cs) \<in> set L" for y cs
  proof -
    have e: "hp_sections s' y = hp_sections s y"
      using h(4) old(1) [OF that] by simp
    then show "section_span s' y = section_span s y"
      by (simp add: section_span_def)
    show "section_ok s' y cs"
      unfolding e by (rule content_cong [OF heap_inv_member [OF inv that]])
        (use keep old(2) [OF that] in \<open>unfold section_span_def, blast\<close>)
  qed
  have hn: "hs_next (hp_sections s' y) = hs_next (hp_sections s y)" "hs_size (hp_sections s' y) = hs_size (hp_sections s y)" if "y \<in> fst ` set L" for y
    using that old(1) h(4) by auto
  have "chained (hp_sections s) (m_Head s) (map fst L) 0"
    using inv by (simp add: heap_inv_def)
  then have "chained (hp_sections s') (m_Head s) (map fst L) 0"
    by (rule chained_cong) (use hn(1) in simp)
  then show "chained (hp_sections s') (m_Head s') (map fst ((x, bs) # L)) 0"
    using st(1) h(3) new(1) by simp
  have "x \<notin> fst ` set L"
  proof
    assume "x \<in> fst ` set L"
    then obtain cs where "(x, cs) \<in> set L"
      by auto
    from old(1) [OF this] show False
      by simp
  qed
  then show "distinct (map fst ((x, bs) # L))"
    using inv by (simp add: heap_inv_def)
  show "\<forall>(y, cs) \<in> set ((x, bs) # L). section_ok s' y cs"
    using new(2) sec(1) by auto
  show "\<forall>y \<in> fst ` set ((x, bs) # L). \<forall>y' \<in> fst ` set ((x, bs) # L). y \<noteq> y' \<longrightarrow> section_span s' y \<inter> section_span s' y' = {}"
  proof -
    have one: "section_span s' y = section_span s y" "section_span s' x \<inter> section_span s' y = {}" if y: "y \<in> fst ` set L" for y
    proof -
      obtain cs where "(y, cs) \<in> set L"
        using y by auto
      then show "section_span s' y = section_span s y" "section_span s' x \<inter> section_span s' y = {}"
        using sec(2) old(2) h(2) by simp_all
    qed
    have two: "section_span s y \<inter> section_span s y' = {}" if "y \<in> fst ` set L" "y' \<in> fst ` set L" "y \<noteq> y'" for y y'
      using that inv unfolding heap_inv_def by blast
    have F: "fst ` set ((x, bs) # L) = insert x (fst ` set L)"
      by simp
    show ?thesis
      unfolding F
    proof (intro ballI impI)
      fix y y'
      assume "y \<in> insert x (fst ` set L)" "y' \<in> insert x (fst ` set L)" "y \<noteq> y'"
      then consider "y = x" "y' \<in> fst ` set L" | "y \<in> fst ` set L" "y' = x" | "y \<in> fst ` set L" "y' \<in> fst ` set L"
        by blast
      then show "section_span s' y \<inter> section_span s' y' = {}"
        using one two \<open>y \<noteq> y'\<close> by cases (simp_all add: Int_commute)
    qed
  qed
  show "source_ok (m_SectionAllocator s') I"
    using inv st(2) by (simp add: heap_inv_def)
  show "\<exists>R. I (hp_world s') R \<and> (\<forall>y \<in> fst ` set ((x, bs) # L). (y, hs_size (hp_sections s' y) + 32) \<in> R)"
    using w hn(2) h(1) by (intro exI [of _ "insert (x, S) R"]) auto
  show "counted_sizes s' ((x, bs) # L)"
    by (rule new(3))
qed

lemma place_section_ok:
  assumes inv: "heap_inv I s L" and w: "I w (insert (x, S) R)" "\<forall>y \<in> fst ` set L. (y, hs_size (hp_sections s y) + 32) \<in> R"
    and x: "x \<noteq> 0" "\<forall>r \<in> R. range_of (x, S) \<inter> range_of r = {}"
    and S: "unat S = n + 48" "n + 48 < 2 ^ 63" "unat x + n + 48 < 2 ^ 64" "16 dvd n" "64 \<le> n" and k: "unat sz \<le> n" "16 dvd unat sz" and lk: "hp_lock s = 0"
  shows "\<exists>s'. place_section sz S x (s\<lparr>hp_world := w\<rparr>) = Inr (s', x + 48) \<and> hp_lock s' = 1 \<and> heap_inv I s' ((x, cut_tile (x + 32) n (unat sz)) # L) \<and>
    hp_bytes s' = hp_bytes s"
proof -
  define part where "part \<longleftrightarrow> unat sz + 32 < n"
  let ?a = "x + 32" and ?nb = "x + 32 + 16 + sz" and ?bs = "cut_tile (x + 32) n (unat sz)"
  define t where "t = s\<lparr>hp_world := w\<rparr>"
  have t: "hp_lock t = 0" "hp_blocks t = hp_blocks s" "hp_sections t = hp_sections s" "m_Head t = m_Head s" "m_SectionAllocator t = m_SectionAllocator s"
      "hp_world t = w" "hp_bytes t = hp_bytes s" "m_TotalMemory t = m_TotalMemory s" "m_UsedMemory t = m_UsedMemory s" "m_FreeMemory t = m_FreeMemory s"
      "m_MetadataMemory t = m_MetadataMemory s"
    using lk by (simp_all add: t_def)
  obtain s' where s': "place_section sz S x t = Inr (s', x + 48)" "hp_lock s' = 1"
    "hp_blocks s' = (\<lambda>b. if b = ?a then \<lparr>hb_size = of_nat (if part then unat sz else n), hb_free = False, hb_next = 0\<rparr>
      else if part \<and> b = ?nb then \<lparr>hb_size = of_nat (n - unat sz - 16), hb_free = True, hb_next = 0\<rparr> else hp_blocks s b)"
    "hp_sections s' = (hp_sections s)(x := (hp_sections s x)\<lparr>hs_size := S - 32, hs_next := m_Head s, hs_firstBlock := if part then ?nb else 0\<rparr>)"
    and st: "m_Head s' = x" "m_SectionAllocator s' = m_SectionAllocator s" "hp_world s' = w" "hp_bytes s' = hp_bytes s"
    "m_TotalMemory s' = m_TotalMemory s + S" "m_UsedMemory s' = m_UsedMemory s + of_nat (if part then unat sz else n)"
    "m_FreeMemory s' = m_FreeMemory s + (if part then of_nat (n - unat sz - 16) else 0)" "m_MetadataMemory s' = m_MetadataMemory s + 48 + (if part then 16 else 0)"
    using place_section_eq [OF S(1-3) k(1) t(1), folded part_def, unfolded t(2-11)] by blast
  have ua: "unat ?a = unat x + 32" and uz: "unat (S - 32) = n + 16"
    using S(1,3) by (simp_all add: unat_word_ariths unat_sub_nowrap)
  have "unat (16 + sz) = 16 + unat sz"
    using k(1) S(2) by (subst unat_add_nowrap) auto
  then have unb: "unat ?nb = unat x + 48 + unat sz"
    using k(1) S(3) ua unat_add_nowrap [of ?a "16 + sz"] by (simp add: add.assoc)
  have h: "hs_size (hp_sections s' x) = S - 32" "hs_firstBlock (hp_sections s' x) = (if part then ?nb else 0)" "hs_next (hp_sections s' x) = m_Head s"
    "\<And>y. y \<noteq> x \<Longrightarrow> hp_sections s' y = hp_sections s y"
    by (simp_all add: s'(4))
  have "16 dvd n - unat sz"
    using S(4) k(2) by (rule dvd_diff_nat)
  then have "part \<Longrightarrow> 48 \<le> n - unat sz"
    by (auto simp: part_def elim!: dvdE)
  then have far: "part \<Longrightarrow> unat ?nb + 48 \<le> unat x + 32 + unat (S - 32)" "unat ?a + 48 \<le> unat x + 32 + unat (S - 32)"
    using unb ua uz S(5) by simp_all
  have "unat ?nb \<noteq> unat ?a" "unat ?nb \<noteq> unat (0 :: u64)"
    using ua unb by simp_all
  then have nz: "?nb \<noteq> ?a" "?nb \<noteq> 0"
    by metis+
  have bs: "?bs = (if part then [(?a, unat sz, False), (?nb, n - unat sz - 16, True)] else [(?a, n, False)])"
    by (simp add: cut_tile_def part_def)
  have new: "section_ok s' x ?bs"
    unfolding content_ok_def h(1,2)
  proof (intro conjI)
    show "tiling (unat x + 32) ?bs (unat x + 32 + unat (S - 32))"
      by (rule cut_tiling [OF k(2)]) (use ua uz S(3,4) in auto)
    show "\<forall>(b, j, f) \<in> set ?bs. hb_size (hp_blocks s' b) = of_nat j \<and> hb_free (hp_blocks s' b) = f \<and> unat b + 48 \<le> unat x + 32 + unat (S - 32)"
      using far nz by (auto simp: bs s'(3))
    show "linked (hp_blocks s') (if part then ?nb else 0) (frees ?bs) 0"
      using nz by (simp add: bs s'(3))
    show "successively (\<lambda>b c. \<not> (snd (snd b) \<and> snd (snd c))) ?bs"
      by (simp add: bs)
  qed (use x(1) uz S(2,3) in simp_all)
  note old = fresh_section_apart [OF inv w(2) x(2)]
  have S0: "0 < unat S"
    using S(1) by simp
  have hs: "hs_size (hp_sections s' x) + 32 = S"
    by (simp add: h(1))
  have ox: "range_of (x, S) = section_span s' x"
    using uz S(1) by (simp add: range_of_def section_span_def h(1) ac_simps)
  have keep: "hp_blocks s' b = hp_blocks s b" if "unat b \<notin> range_of (x, S)" for b
    using that ua unb S(1) k(1) by (auto simp: s'(3) range_of_def part_def)
  have "hs_size (hp_sections s' y) = hs_size (hp_sections s y)" if "(y, cs) \<in> set L" for y cs
    using h(4) old(1) [OF S0 that] by simp
  then have "(\<Sum>(y, cs) \<leftarrow> L. 32 + hs_size (hp_sections s' y)) = (\<Sum>(y, cs) \<leftarrow> L. 32 + hs_size (hp_sections s y))"
    by (intro arg_cong [of _ _ sum_list] map_cong) auto
  then have cnt: "counted_sizes s' ((x, ?bs) # L)"
    using inv st(5-8) h(1) by (simp add: heap_inv_def counted_sizes_def bs)
  have "heap_inv I s' ((x, ?bs) # L)"
    by (rule heap_inv_add [OF inv w(1) [folded st(3)] w(2) old(1) [OF S0] old(2) [OF S0] x(1) new cnt hs ox h(3,4) keep st(1,2)])
  then show ?thesis
    using s'(1,2) st(4) by (auto simp: t_def)
qed

section \<open>Allocation\<close>

lemma heap_inv_lock [simp]: "heap_inv I (s\<lparr>hp_lock := l\<rparr>) L = heap_inv I s L"
  by (simp add: heap_inv_def section_span_def counted_sizes_def)

lemma aligned_size:
  assumes "unat sz \<le> 2 ^ 62"
  shows "16 dvd unat (ALIGN_UP sz HEAP_MIN_BLOCK_SIZE)" "unat sz \<le> unat (ALIGN_UP sz HEAP_MIN_BLOCK_SIZE)" "unat (ALIGN_UP sz HEAP_MIN_BLOCK_SIZE) < unat sz + 16"
proof -
  have u: "unat (ALIGN_UP sz HEAP_MIN_BLOCK_SIZE) = (unat sz + 16 - 1) div 16 * 16"
    using assms by (subst unat_ALIGN_UP) (simp_all add: HEAP_MIN_BLOCK_SIZE_def)
  show "16 dvd unat (ALIGN_UP sz HEAP_MIN_BLOCK_SIZE)" "unat sz \<le> unat (ALIGN_UP sz HEAP_MIN_BLOCK_SIZE)" "unat (ALIGN_UP sz HEAP_MIN_BLOCK_SIZE) < unat sz + 16"
    unfolding u using div_roundup_mult_le [of 16 "unat sz"] by simp_all
qed

lemma section_size:
  assumes "unat k \<le> 2 ^ 62 + 16"
  defines "S \<equiv> ALIGN_UP (sizeof_HeapSection + sizeof_HeapBlock + k) HEAP_MIN_SECTION_SIZE"
  obtains n where "unat S = n + 48" "n + 48 < 2 ^ 63" "16 dvd n" "unat k \<le> n" "64 \<le> n"
proof -
  have k: "unat (48 + k) = 48 + unat k"
    using assms(1) by (subst unat_add_nowrap) auto
  have u: "unat S = (48 + unat k + 131072 - 1) div 131072 * 131072"
    using assms(1) k by (simp add: S_def unat_ALIGN_UP HEAP_MIN_SECTION_SIZE_def PAGE_SIZE_def sizeof_HeapSection_def sizeof_HeapBlock_def)
  note b = div_roundup_mult_le [of 131072 "48 + unat k", folded u]
  have "1 \<le> (48 + unat k + 131072 - 1) div 131072"
    by (simp add: less_eq_div_iff_mult_less_eq)
  then have "131072 \<le> unat S"
    unfolding u by linarith
  moreover have "16 dvd (131072 :: nat)" "16 dvd (48 :: nat)"
    by simp_all
  then have "16 dvd unat S - 48"
    unfolding u by (intro dvd_diff_nat dvd_mult) simp_all
  ultimately show thesis
    using that [of "unat S - 48"] b assms(1) by simp
qed

lemma Allocate_section_ok:
  assumes ok: "heap_inv I s L" "hp_lock s = 0" and k: "unat k \<le> 2 ^ 62 + 16" "16 dvd unat k"
  shows "\<exists>s' p. Allocate_section k s = Inr (s', p) \<and> hp_lock s' = 1 \<and> hp_bytes s' = hp_bytes s \<and>
    (if p = 0 then heap_inv I s' L else \<exists>x n. p = x + 48 \<and> unat k \<le> n \<and> heap_inv I s' ((x, cut_tile (x + 32) n (unat k)) # L))"
proof (cases "Option.bind (m_SectionAllocator s) sa_Allocate")
  case None
  then show ?thesis
    using ok by (simp add: Allocate_section_def)
next
  case (Some allocate)
  define S where "S = ALIGN_UP (sizeof_HeapSection + sizeof_HeapBlock + k) HEAP_MIN_SECTION_SIZE"
  obtain n where n: "unat S = n + 48" "n + 48 < 2 ^ 63" "16 dvd n" "unat k \<le> n" "64 \<le> n"
    using section_size [OF k(1)] unfolding S_def by blast
  obtain R where R: "I (hp_world s) R" "\<forall>y \<in> fst ` set L. (y, hs_size (hp_sections s y) + 32) \<in> R" and src: "source_ok (m_SectionAllocator s) I"
    using ok(1) unfolding heap_inv_def by blast
  obtain w x where w: "allocate (hp_world s) S = Inr (w, x)"
      "if x = 0 then I w R else unat x + unat S < 2 ^ 64 \<and> (\<forall>r \<in> R. range_of (x, S) \<inter> range_of r = {}) \<and> I w (insert (x, S) R)"
    using src R(1) Some unfolding source_ok_def by blast
  have go: "Allocate_section k s = (if x = 0 then Inr (s\<lparr>hp_world := w, hp_lock := 1\<rparr>, 0) else place_section k S x (s\<lparr>hp_world := w\<rparr>))"
    using Some w(1) ok(2) by (simp add: Allocate_section_def S_def)
  show ?thesis
  proof (cases "x = 0")
    case True
    then have "heap_inv I (s\<lparr>hp_world := w\<rparr>) L"
      using ok(1) w(2) R(2) unfolding heap_inv_def by (auto simp: section_span_def counted_sizes_def)
    then show ?thesis
      using go True by simp
  next
    case False
    then have x: "unat x + n + 48 < 2 ^ 64" "\<forall>r \<in> R. range_of (x, S) \<inter> range_of r = {}" "I w (insert (x, S) R)"
      using w(2) n(1) by auto
    obtain s' where "place_section k S x (s\<lparr>hp_world := w\<rparr>) = Inr (s', x + 48)" "hp_lock s' = 1" "heap_inv I s' ((x, cut_tile (x + 32) n (unat k)) # L)"
        "hp_bytes s' = hp_bytes s"
      using place_section_ok [OF ok(1) x(3) R(2) False x(2) n(1,2) x(1) n(3,5,4) k(2) ok(2)] by blast
    moreover have "unat (x + 48) = unat x + 48"
      using x(1) by (subst unat_add_nowrap) auto
    then have "x + 48 \<noteq> 0"
      by auto
    ultimately show ?thesis
      using go False n(4) by auto
  qed
qed

text \<open>A block lies in one section and occurs once; blocks do not overlap.\<close>

lemma tile_in_span: "section_ok s x bs \<Longrightarrow> (a, n, f) \<in> set bs \<Longrightarrow> {unat a ..< unat a + 16 + n} \<subseteq> section_span s x \<and> unat a \<in> section_span s x"
  using content_mem(3,4,9) [of "hp_blocks s" x] by (fastforce simp: section_span_def)

lemma tiling_apart:
  assumes "tiling x bs e" "(a, n, f) \<in> set bs" "(b, m, g) \<in> set bs" "(a, n, f) \<noteq> (b, m, g)"
  shows "{unat a ..< unat a + 16 + n} \<inter> {unat b ..< unat b + 16 + m} = {}" "a \<noteq> b"
proof -
  obtain pre post where bs: "bs = pre @ (a, n, f) # post"
    using assms(2) split_list by metis
  have "(b, m, g) \<in> set pre \<or> (b, m, g) \<in> set post"
    using assms(3,4) bs by auto
  then have "unat b + 16 + m \<le> unat a \<or> unat a + 16 + n \<le> unat b"
    using tiling_split(6,7) [of x pre a n f post e] assms(1) bs by blast
  then show "{unat a ..< unat a + 16 + n} \<inter> {unat b ..< unat b + 16 + m} = {}" "a \<noteq> b"
    by auto
qed

lemma heap_tiles_apart:
  assumes inv: "heap_inv I s L" and m: "(x, bs) \<in> set L" "(y, cs) \<in> set L" "(a, n, f) \<in> set bs" "(b, m, g) \<in> set cs" "(a, n, f) \<noteq> (b, m, g) \<or> x \<noteq> y"
  shows "{unat a ..< unat a + 16 + n} \<inter> {unat b ..< unat b + 16 + m} = {}" "a \<noteq> b"
proof -
  note c = heap_inv_member [OF inv m(1)] heap_inv_member [OF inv m(2)]
  have "{unat a ..< unat a + 16 + n} \<inter> {unat b ..< unat b + 16 + m} = {} \<and> a \<noteq> b"
  proof (cases "x = y")
    case True
    have "distinct (map fst L)"
      using inv by (simp add: heap_inv_def)
    then have "cs = bs"
      using eq_key_imp_eq_value [of L x bs cs] m(1,2) True by simp
    moreover have "tiling (unat x + 32) bs (unat x + 32 + unat (hs_size (hp_sections s x)))"
      using c(1) by (simp add: content_ok_def)
    ultimately show ?thesis
      using tiling_apart [of "unat x + 32" bs _ a n f b m g] m(3-5) True by blast
  next
    case False
    then have "section_span s x \<inter> section_span s y = {}"
      by (rule heap_inv_apart [OF inv m(1,2)])
    then show ?thesis
      using tile_in_span [OF c(1) m(3)] tile_in_span [OF c(2) m(4)] by blast
  qed
  then show "{unat a ..< unat a + 16 + n} \<inter> {unat b ..< unat b + 16 + m} = {}" "a \<noteq> b"
    by blast+
qed

lemma used_member: "(a, n) \<in> used L \<longleftrightarrow> (\<exists>x bs. (x, bs) \<in> set L \<and> (a, n, False) \<in> set bs)"
  by (auto simp: used_def used_tiles_def)

lemma used_cut: "used_tiles (cut_tile a n k) = {(a, if k + 32 < n then k else n)}"
  by (simp add: cut_tile_def)

lemma Allocate_reuse:
  assumes ok: "heap_ok I s L" and L: "L = L1 @ (x, pre @ (a, n, True) # post) # L2" and k: "16 dvd unat k" "unat k \<le> n"
  shows "\<exists>s' L'. Allocate_take k x (last_or0 (frees pre)) a (s\<lparr>hp_lock := 0\<rparr>) = Inr (s', a + 16) \<and> hp_bytes s' = hp_bytes s \<and> a + 16 \<noteq> 0 \<and>
    heap_ok I s' L' \<and> used L' = insert (a, if unat k + 32 < n then unat k else n) (used L) \<and>
    a \<notin> fst ` used L"
proof -
  let ?s = "s\<lparr>hp_lock := 0\<rparr>" and ?L = "L1 @ (x, pre @ cut_tile a n (unat k) @ post) # L2"
  have inv: "heap_inv I ?s L" and busy: "\<forall>(x, bs) \<in> set L. used_tiles bs \<noteq> {}"
    using ok by (simp_all add: heap_ok_def)
  have c: "section_ok ?s x (pre @ (a, n, True) # post)"
    by (rule heap_inv_member [OF inv]) (simp add: L)
  obtain s' where s': "Allocate_take k x (last_or0 (frees pre)) a ?s = Inr (s', a + 16)" "hp_lock s' = 1"
      "section_ok s' x (pre @ cut_tile a n (unat k) @ post)" "section_step x [(a, n, True)] (cut_tile a n (unat k)) ?s s'"
    using Allocate_take_ok [OF c k] by auto
  have "section_step x (pre @ (a, n, True) # post) (pre @ cut_tile a n (unat k) @ post) ?s s'"
    using section_step_context [OF s'(4), of pre post] by simp
  then have inv': "heap_inv I s' ?L"
    using heap_inv_step [OF inv [unfolded L] _ s'(3)] by blast
  have "\<forall>(y, cs) \<in> set ?L. used_tiles cs \<noteq> {}"
    using busy unfolding L by (auto simp: used_cut)
  then have ok': "heap_ok I s' ?L"
    using s'(2) inv' unfolding heap_ok_def by blast
  have fresh: "a \<notin> fst ` used L"
  proof
    assume "a \<in> fst ` used L"
    then obtain m y cs where y: "(y, cs) \<in> set L" "(a, m, False) \<in> set cs"
      using used_member by fastforce
    then show False
      using heap_tiles_apart(2) [OF inv _ y(1) _ y(2), of x "pre @ (a, n, True) # post" a n True] L by simp
  qed
  have "unat (a + 16) = unat a + 16"
    using content_mem(4,9) [OF c, of a n True] c by (subst unat_add_nowrap) (auto simp: content_ok_def)
  then have nz: "a + 16 \<noteq> 0"
    by auto
  have "hp_bytes s' = hp_bytes s"
    using s'(4) by (simp add: section_step_def)
  moreover have "used ?L = insert (a, if unat k + 32 < n then unat k else n) (used L)"
    unfolding L by (simp add: used_cut)
  ultimately show ?thesis
    by (intro exI conjI) (rule s'(1) nz ok' fresh | assumption)+
qed

lemma heap_ok_add:
  assumes inv: "heap_inv I s' ((x, cut_tile (x + 32) n k) # L)" and l: "hp_lock s' = 1" and busy: "\<forall>(x, bs) \<in> set L. used_tiles bs \<noteq> {}"
  shows "heap_ok I s' ((x, cut_tile (x + 32) n k) # L)" "x + 32 \<notin> fst ` used L"
    "used ((x, cut_tile (x + 32) n k) # L) = insert (x + 32, if k + 32 < n then k else n) (used L)"
proof -
  show "heap_ok I s' ((x, cut_tile (x + 32) n k) # L)"
    using inv l busy by (auto simp: heap_ok_def used_cut)
  show "used ((x, cut_tile (x + 32) n k) # L) = insert (x + 32, if k + 32 < n then k else n) (used L)"
    by (simp add: used_cut)
  let ?n = "if k + 32 < n then k else n"
  show "x + 32 \<notin> fst ` used L"
  proof
    assume "x + 32 \<in> fst ` used L"
    then obtain m y cs where y: "(y, cs) \<in> set L" "(x + 32, m, False) \<in> set cs"
      using used_member by fastforce
    moreover have "(x + 32, ?n, False) \<in> set (cut_tile (x + 32) n k)" "x \<noteq> y"
      using inv imageI [OF y(1), of fst] by (auto simp: cut_tile_def heap_inv_def)
    ultimately show False
      using heap_tiles_apart(2) [OF inv, of x "cut_tile (x + 32) n k" y cs "x + 32" ?n False "x + 32" m False] by simp
  qed
qed

lemma Allocate_ok:
  assumes ok: "heap_ok I s L" and sz: "unat sz \<le> 2 ^ 62"
  shows "\<exists>s' p. Allocate sz s = Inr (s', p) \<and> hp_bytes s' = hp_bytes s \<and>
    (if p = 0 then heap_ok I s' L \<and> (\<forall>(x, bs) \<in> set L. too_small (ALIGN_UP sz HEAP_MIN_BLOCK_SIZE) bs)
     else \<exists>L' n. heap_ok I s' L' \<and> unat sz \<le> n \<and> used L' = insert (p - 16, n) (used L) \<and> p - 16 \<notin> fst ` used L)"
proof -
  let ?k = "ALIGN_UP sz HEAP_MIN_BLOCK_SIZE" and ?s = "s\<lparr>hp_lock := 0\<rparr>"
  note k = aligned_size [OF sz]
  have inv: "heap_inv I ?s L" and l1: "hp_lock s = 1" and busy: "\<forall>(x, bs) \<in> set L. used_tiles bs \<noteq> {}"
    using ok by (simp_all add: heap_ok_def)
  have ch: "chained (hp_sections ?s) (m_Head ?s) (map fst L) 0"
    using inv by (simp add: heap_inv_def)
  have "\<forall>(x, bs) \<in> set L. section_ok ?s x bs"
    using inv unfolding heap_inv_def by blast
  from find_section_ok [OF ch this, of ?k] show ?thesis
  proof (elim disjE exE conjE)
    fix L1 x pre a n post L2
    assume f: "L = L1 @ (x, pre @ (a, n, True) # post) # L2" "unat ?k \<le> n" "a \<noteq> 0"
      "find_section (hp_blocks ?s) (hp_sections ?s) ?k (m_Head ?s) = Some (x, last_or0 (frees pre), a)"
    let ?n = "if unat ?k + 32 < n then unat ?k else n"
    obtain s' L' where s': "Allocate_take ?k x (last_or0 (frees pre)) a ?s = Inr (s', a + 16)" "hp_bytes s' = hp_bytes s" "a + 16 \<noteq> 0"
        "heap_ok I s' L'" "used L' = insert (a, ?n) (used L)" "a \<notin> fst ` used L"
      using Allocate_reuse [OF ok f(1) k(1) f(2)] by blast
    have go: "Allocate sz s = Inr (s', a + 16)"
      using f(3,4) s'(1) l1 by (simp add: Allocate_def)
    have "unat sz \<le> ?n"
      using k(2) f(2) by simp
    then have "\<exists>L' n. heap_ok I s' L' \<and> unat sz \<le> n \<and> used L' = insert (a + 16 - 16, n) (used L) \<and> a + 16 - 16 \<notin> fst ` used L"
      using s'(4-6) by (intro exI [of _ L'] exI [of _ ?n]) simp
    then show ?thesis
      using go s'(2,3) by auto
  next
    assume f: "\<forall>(y, cs) \<in> set L. too_small ?k cs" "find_section (hp_blocks ?s) (hp_sections ?s) ?k (m_Head ?s) = Some (0, 0, 0)"
    have go: "Allocate sz s = Allocate_section ?k ?s"
      using f(2) l1 by (simp add: Allocate_def)
    obtain s' p where s': "Allocate_section ?k ?s = Inr (s', p)" "hp_lock s' = 1" "hp_bytes s' = hp_bytes s"
        "if p = 0 then heap_inv I s' L else \<exists>x n. p = x + 48 \<and> unat ?k \<le> n \<and> heap_inv I s' ((x, cut_tile (x + 32) n (unat ?k)) # L)"
      using Allocate_section_ok [OF inv, of ?k] k sz by auto
    show ?thesis
    proof (cases "p = 0")
      case True
      then show ?thesis
        using go s' f(1) busy by (intro exI [of _ s'] exI [of _ p]) (simp add: heap_ok_def)
    next
      case False
      then obtain x n where x: "p = x + 48" "unat ?k \<le> n" "heap_inv I s' ((x, cut_tile (x + 32) n (unat ?k)) # L)"
        using s'(4) by auto
      let ?n = "if unat ?k + 32 < n then unat ?k else n"
      have p: "p - 16 = x + 32"
        by (simp add: x(1))
      have "unat sz \<le> ?n"
        using k(2) x(2) by simp
      then have "\<exists>L' n. heap_ok I s' L' \<and> unat sz \<le> n \<and> used L' = insert (p - 16, n) (used L) \<and> p - 16 \<notin> fst ` used L"
        unfolding p using heap_ok_add [OF x(3) s'(2) busy] by blast
      then show ?thesis
        using go s'(1,3) False by auto
    qed
  qed
qed

end
