(* ===== verification/HeapFree.thy ===== *)
theory HeapFree
  imports HeapOps
begin

text \<open>
  A release finds the section of the block, gives the block back to it, and returns the section to the section
  allocator if no block of it is in use any more.
\<close>

section \<open>The owner of a block\<close>

lemma section_words:
  assumes "section_ok s y cs"
  shows "unat (y + 32) = unat y + 32" "unat (y + hs_size (hp_sections s y)) = unat y + unat (hs_size (hp_sections s y))"
  using assms by (auto simp: content_ok_def unat_add_nowrap)

lemma find_owner_ok:
  assumes "chained (hp_sections s) h (map fst L) 0" "\<forall>(y, cs) \<in> set L. section_ok s y cs" "(x, bs) \<in> set L" "(a, n, f) \<in> set bs"
    "\<forall>y \<in> fst ` set L. y \<noteq> x \<longrightarrow> section_span s x \<inter> section_span s y = {}"
  shows "find_owner (hp_sections s) a h = Some x"
  using assms(1-3,5)
proof (induction L arbitrary: h)
  case (Cons e L)
  obtain y cs where e: "e = (y, cs)"
    by (cases e)
  have h: "h = y" "y \<noteq> 0" "chained (hp_sections s) (hs_next (hp_sections s y)) (map fst L) 0" and c: "section_ok s y cs" and cx: "section_ok s x bs"
    using Cons.prems e by auto
  note w = section_words [OF c] and step = find_owner.simps [of "hp_sections s" a h] and b = content_mem [OF cx assms(4)]
  show ?case
  proof (cases "y = x")
    case True
    then have "a \<ge> y + 32" "a < y + hs_size (hp_sections s y)"
      using b(3,9) w by (auto simp: word_le_nat_alt word_less_nat_alt)
    then show ?thesis
      using step h True by (simp add: sizeof_HeapSection_def)
  next
    case False
    then have "section_span s x \<inter> section_span s y = {}"
      using Cons.prems(4) e by simp
    then have "unat a \<notin> section_span s y"
      using tile_in_span [OF cx assms(4)] by blast
    then have "\<not> (a \<ge> y + 32 \<and> a < y + hs_size (hp_sections s y))"
      using w by (auto simp: word_le_nat_alt word_less_nat_alt section_span_def)
    then have "find_owner (hp_sections s) a h = find_owner (hp_sections s) a (hs_next (hp_sections s y))"
      using step h by (simp add: sizeof_HeapSection_def) metis
    then show ?thesis
      using Cons.IH [OF h(3)] Cons.prems e False by auto
  qed
qed simp

section \<open>Sections without a block in use\<close>

lemma all_free_single:
  assumes "successively (\<lambda>b c. \<not> (snd (snd b) \<and> snd (snd c))) bs" "used_tiles bs = {}" "bs \<noteq> []"
  obtains a n where "bs = [(a, n, True)]"
proof -
  obtain b cs where bs: "bs = b # cs"
    using assms(3) by (cases bs) auto
  have free: "snd (snd t)" if "t \<in> set bs" for t
    using that assms(2) by (cases "snd (snd t)") (auto simp: used_tiles_def, metis prod.collapse)
  have "cs = []"
    using assms(1) free bs by (cases cs) auto
  then show thesis
    using that [of "fst b" "fst (snd b)"] free bs by (cases b) auto
qed

lemma unused_iff:
  assumes c: "section_ok s x bs" and ne: "bs \<noteq> []"
  shows "unused_section s x \<longleftrightarrow> used_tiles bs = {}"
proof -
  let ?m = "hp_blocks s" and ?z = "hs_size (hp_sections s x)" and ?h = "hs_firstBlock (hp_sections s x)"
  have l: "linked ?m ?h (frees bs) 0" and t: "tiling (unat x + 32) bs (unat x + 32 + unat ?z)"
    and su: "successively (\<lambda>b c. \<not> (snd (snd b) \<and> snd (snd c))) bs"
    using c by (simp_all add: content_ok_def)
  show ?thesis
  proof
    assume "used_tiles bs = {}"
    then obtain a n where bs: "bs = [(a, n, True)]"
      using all_free_single [OF su _ ne] by blast
    then have "n + 16 = unat ?z"
      using t by simp
    then have "unat (of_nat n + 16 :: u64) = unat ?z"
      using content_mem(6) [OF c, of a n True] bs by (subst unat_add_nowrap) auto
    then have "of_nat n + 16 = ?z"
      by (rule unat_inj)
    then show "unused_section s x"
      using l bs content_mem(1) [OF c, of a n True] by (auto simp: unused_section_def sizeof_HeapBlock_def)
  next
    assume u: "unused_section s x"
    show "used_tiles bs = {}"
    proof (rule ccontr)
      assume "used_tiles bs \<noteq> {}"
      then obtain b m where b: "(b, m, False) \<in> set bs"
        by (auto simp: used_tiles_def)
      have "?h \<noteq> 0" "hb_size (?m ?h) + 16 = ?z"
        using u by (auto simp: unused_section_def Let_def sizeof_HeapBlock_def)
      then have "?h \<in> set (frees bs)"
        using l by (cases "frees bs") auto
      then obtain n where n: "(?h, n, True) \<in> set bs"
        by (auto simp: frees_set)
      have "unat (of_nat n + 16 :: u64) = unat ?z"
        using content_mem(1) [OF c n] \<open>_ + 16 = ?z\<close> by simp
      moreover have "unat (of_nat n + 16 :: u64) = n + 16"
        using content_mem(6,7) [OF c n] c by (subst unat_add_nowrap) (auto simp: content_ok_def)
      moreover have "{unat ?h ..< unat ?h + 16 + n} \<inter> {unat b ..< unat b + 16 + m} = {}"
        by (rule tiling_apart(1) [OF t n b]) simp
      moreover have "unat x + 32 \<le> unat b" "unat b + 16 + m \<le> unat x + 32 + unat ?z" "unat x + 32 \<le> unat ?h" "unat ?h + 16 + n \<le> unat x + 32 + unat ?z"
        using content_mem(3,4) [OF c b] content_mem(3,4) [OF c n] by auto
      ultimately show False
        by (auto simp: disjoint_iff)
    qed
  qed
qed

text \<open>The walk over the sections leaves those with a block in use.\<close>

definition busy :: "(u64 \<times> tile list) list \<Rightarrow> bool" where
  "busy L \<longleftrightarrow> (\<forall>(x, bs) \<in> set L. used_tiles bs \<noteq> {})"

lemma drop_skip:
  assumes "chained (hp_sections s) h (map fst L) r" "\<forall>(y, cs) \<in> set L. section_ok s y cs" "busy L"
  shows "drop_unused p h s = drop_unused (if L = [] then p else fst (last L)) r s"
  using assms
proof (induction L arbitrary: h p)
  case (Cons e L)
  obtain y cs where e: "e = (y, cs)"
    by (cases e)
  have h: "h = y" "y \<noteq> 0" "chained (hp_sections s) (hs_next (hp_sections s y)) (map fst L) r" and c: "section_ok s y cs" "used_tiles cs \<noteq> {}"
    using Cons.prems e by (auto simp: busy_def)
  then have "\<not> unused_section s y"
    using unused_iff [OF c(1)] by fastforce
  then have "drop_unused p h s = drop_unused y (hs_next (hp_sections s y)) s"
    using h by (subst drop_unused.simps) simp
  then show ?case
    using Cons.IH [OF h(3), of y] Cons.prems e by (auto simp: busy_def)
qed simp

lemma drop_none:
  assumes "chained (hp_sections s) h (map fst L) 0" "\<forall>(y, cs) \<in> set L. section_ok s y cs" "busy L"
  shows "drop_unused p h s = Some (Inr s)"
  using drop_skip [OF assms] by (simp add: drop_unused.simps)

text \<open>A section that leaves the chain.\<close>

lemma chained_last:
  assumes "chained ss h (xs @ x # ys) 0" "distinct (xs @ x # ys)"
  shows "chained (if xs = [] then ss else ss(last xs := (ss (last xs))\<lparr>hs_next := hs_next (ss x)\<rparr>)) (if xs = [] then hs_next (ss x) else h) (xs @ ys) 0"
  using assms
proof (induction xs arbitrary: h)
  case (Cons y xs)
  show ?case
  proof (cases "xs = []")
    case True
    have "chained (ss(y := (ss y)\<lparr>hs_next := hs_next (ss x)\<rparr>)) (hs_next (ss x)) ys 0"
      by (rule chained_cong [of ss]) (use Cons.prems True in auto)
    then show ?thesis
      using Cons.prems True by (simp del: fun_upd_apply add: fun_upd_same)
  next
    case False
    then show ?thesis
      using Cons.IH [of "hs_next (ss y)"] Cons.prems last_in_set [of xs] by auto
  qed
qed simp

lemma drop_section_ok:
  assumes inv: "heap_inv I s (L1 @ (x, [(a, n, True)]) # L2)"
  defines "p \<equiv> if L1 = [] then 0 else fst (last L1)"
  shows "\<exists>s'. drop_section p x s = Inr s' \<and> heap_inv I s' (L1 @ L2) \<and> hp_lock s' = hp_lock s \<and> hp_bytes s' = hp_bytes s \<and>
    chained (hp_sections s') (hs_next (hp_sections s x)) (map fst L2) 0"
proof -
  let ?L = "L1 @ (x, [(a, n, True)]) # L2" and ?x = "hp_sections s x"
  have c: "section_ok s x [(a, n, True)]"
    by (rule heap_inv_member [OF inv]) simp
  have ch: "chained (hp_sections s) (m_Head s) (map fst L1 @ x # map fst L2) 0" and d: "distinct (map fst L1 @ x # map fst L2)"
    and cnt: "counted_sizes s ?L" and src: "source_ok (m_SectionAllocator s) I"
    using inv by (simp_all add: heap_inv_def)
  obtain R where R: "I (hp_world s) R" "\<forall>y \<in> fst ` set ?L. (y, hs_size (hp_sections s y) + 32) \<in> R"
    using inv unfolding heap_inv_def by blast
  have p0: "p = 0 \<longleftrightarrow> L1 = []"
  proof -
    have "section_ok s (fst (last L1)) (snd (last L1))" if "L1 \<noteq> []"
      using heap_inv_member [OF inv, of "fst (last L1)" "snd (last L1)"] last_in_set [OF that] by simp
    then show ?thesis
      by (auto simp: p_def content_ok_def)
  qed
  define ss where "ss = (if L1 = [] then hp_sections s else (hp_sections s)(p := (hp_sections s p)\<lparr>hs_next := hs_next ?x\<rparr>))"
  define t where "t = s\<lparr>hp_sections := ss, m_Head := (if L1 = [] then hs_next ?x else m_Head s), m_TotalMemory := m_TotalMemory s - (hs_size ?x + 32),
    m_MetadataMemory := m_MetadataMemory s - 48, m_FreeMemory := m_FreeMemory s - (hs_size ?x - 16)\<rparr>"
  have go: "drop_section p x s = (case Option.bind (m_SectionAllocator s) sa_Free of None \<Rightarrow> Inr t
      | Some f \<Rightarrow> bindR (f (hp_world s) x (hs_size ?x + 32)) (\<lambda>w. Inr (t\<lparr>hp_world := w\<rparr>)))"
    using p0 by (auto simp: drop_section_def heap_defs Let_def t_def ss_def split: option.splits)
  have x: "(x, hs_size ?x + 32) \<in> R"
    by (rule bspec [OF R(2)]) simp
  obtain w R' where w: "drop_section p x s = Inr (t\<lparr>hp_world := w\<rparr>)" "I w R'" "R - {(x, hs_size ?x + 32)} \<subseteq> R'"
  proof (cases "Option.bind (m_SectionAllocator s) sa_Free")
    case None
    then show thesis
      using that [of "hp_world s" R] go R(1) by (simp add: t_def)
  next
    case (Some f)
    obtain w where "f (hp_world s) x (hs_size ?x + 32) = Inr w" "I w (R - {(x, hs_size ?x + 32)})"
      using src R(1) x Some unfolding source_ok_def by blast
    then show thesis
      using that [of w "R - {(x, hs_size ?x + 32)}"] go Some by simp
  qed
  let ?t = "t\<lparr>hp_world := w\<rparr>"
  have same: "hs_size (ss y) = hs_size (hp_sections s y)" "hs_firstBlock (ss y) = hs_firstBlock (hp_sections s y)" for y
    by (simp_all add: ss_def)
  have pin: "L1 \<noteq> [] \<Longrightarrow> p \<in> fst ` set L1"
    by (simp add: p_def)
  have "chained (hp_sections s) (hs_next ?x) (map fst L2) 0"
    using ch by (auto simp: chained_append)
  then have ch2: "chained ss (hs_next ?x) (map fst L2) 0"
    by (rule chained_cong) (use d pin in \<open>auto simp: ss_def\<close>)
  have g1: "chained ss (m_Head ?t) (map fst (L1 @ L2)) 0"
    using chained_last [OF ch d] by (cases "L1 = []") (simp_all add: t_def ss_def p_def last_map del: fun_upd_apply)
  have g2: "\<forall>(y, cs) \<in> set (L1 @ L2). section_ok ?t y cs"
    using inv same by (auto simp: heap_inv_def t_def)
  have g3: "\<forall>y \<in> fst ` set (L1 @ L2). \<forall>y' \<in> fst ` set (L1 @ L2). y \<noteq> y' \<longrightarrow> section_span ?t y \<inter> section_span ?t y' = {}"
  proof -
    have sp: "section_span ?t y = section_span s y" for y
      by (simp add: section_span_def t_def same)
    have sub: "fst ` set (L1 @ L2) \<subseteq> fst ` set ?L"
      by auto
    have all: "\<forall>y \<in> fst ` set ?L. \<forall>y' \<in> fst ` set ?L. y \<noteq> y' \<longrightarrow> section_span s y \<inter> section_span s y' = {}"
      using inv unfolding heap_inv_def by blast
    show ?thesis
      unfolding sp using subsetD [OF sub] all by (intro ballI impI) metis
  qed
  have "hs_size ?x - 16 = of_nat n"
  proof -
    have "unat (hs_size ?x - 16) = n"
      using c by (subst unat_sub_nowrap) (auto simp: content_ok_def)
    then show ?thesis
      by (metis of_nat_unat_u64)
  qed
  then have g4: "counted_sizes ?t (L1 @ L2)"
    using cnt by (simp add: counted_sizes_def t_def same case_prod_unfold)
  have g5: "(y, hs_size (ss y) + 32) \<in> R'" if y: "y \<in> fst ` set (L1 @ L2)" for y
  proof -
    have "y \<noteq> x" "(y, hs_size (hp_sections s y) + 32) \<in> R"
      using y d R(2) by auto
    then show ?thesis
      using w(3) same(1) by auto
  qed
  have tf: "hp_sections ?t = ss" "m_SectionAllocator ?t = m_SectionAllocator s" "hp_world ?t = w"
    by (simp_all add: t_def)
  have "distinct (map fst (L1 @ L2))"
    using d by simp
  then have "heap_inv I ?t (L1 @ L2)"
    using g1 g2 g3 g4 g5 src w(2) unfolding heap_inv_def tf by blast
  then show ?thesis
    using w(1) ch2 by (auto simp: t_def)
qed

text \<open>At most one section is without a block in use when the walk starts.\<close>

lemma heap_inv_sections: "heap_inv I s L \<Longrightarrow> \<forall>(y, cs) \<in> set L. section_ok s y cs"
  unfolding heap_inv_def by blast

lemma drop_unused_ok:
  assumes inv: "heap_inv I s (L1 @ (x, bs) # L2)" and b: "busy L1" "busy L2" "bs \<noteq> []"
  shows "\<exists>s' L'. drop_unused 0 (m_Head s) s = Some (Inr s') \<and> heap_inv I s' L' \<and> busy L' \<and> used L' = used (L1 @ (x, bs) # L2) \<and>
    hp_lock s' = hp_lock s \<and> hp_bytes s' = hp_bytes s"
proof -
  let ?L = "L1 @ (x, bs) # L2"
  have ch: "chained (hp_sections s) (m_Head s) (map fst ?L) 0"
    using inv by (simp add: heap_inv_def)
  note secs = heap_inv_sections [OF inv]
  show ?thesis
  proof (cases "used_tiles bs = {}")
    case False
    then have "busy ?L"
      using b by (auto simp: busy_def)
    then show ?thesis
      using drop_none [OF ch secs] inv by blast
  next
    case True
    have c: "section_ok s x bs"
      by (rule heap_inv_member [OF inv]) simp
    obtain a n where bs: "bs = [(a, n, True)]"
      using all_free_single [OF _ True b(3)] c by (auto simp: content_ok_def)
    let ?p = "if L1 = [] then 0 else fst (last L1)"
    have ch1: "chained (hp_sections s) (m_Head s) (map fst L1) x" and x: "x \<noteq> 0"
      using ch by (auto simp: chained_append)
    have "drop_unused 0 (m_Head s) s = drop_unused ?p x s"
      using drop_skip [OF ch1 _ b(1), of 0] secs by auto
    moreover obtain s' where s': "drop_section ?p x s = Inr s'" "heap_inv I s' (L1 @ L2)" "hp_lock s' = hp_lock s" "hp_bytes s' = hp_bytes s"
        "chained (hp_sections s') (hs_next (hp_sections s x)) (map fst L2) 0"
      using drop_section_ok [of I s L1 x a n L2] inv bs by blast
    moreover have "unused_section s x"
      using unused_iff [OF c b(3)] True by simp
    then have "drop_unused ?p x s = drop_unused ?p (hs_next (hp_sections s x)) s'"
      using x s'(1) by (subst drop_unused.simps) simp
    moreover have "drop_unused ?p (hs_next (hp_sections s x)) s' = Some (Inr s')"
      by (rule drop_none [OF s'(5) _ b(2)]) (use heap_inv_sections [OF s'(2)] in auto)
    moreover have "busy (L1 @ L2)" "used (L1 @ L2) = used ?L"
      using b(1,2) by (auto simp: busy_def bs)
    ultimately show ?thesis
      by auto
  qed
qed

section \<open>Release\<close>

lemma Free_ok:
  assumes ok: "heap_ok I s L" and a: "(a, n) \<in> used L"
  shows "\<exists>s' L'. Free (a + 16) s = Inr s' \<and> heap_ok I s' L' \<and> used L' = used L - {(a, n)} \<and> hp_bytes s' = hp_bytes s"
proof -
  let ?s = "s\<lparr>hp_lock := 0\<rparr>"
  have inv: "heap_inv I ?s L" and l1: "hp_lock s = 1" and bz: "busy L"
    using ok by (simp_all add: heap_ok_def busy_def)
  obtain x bs where x: "(x, bs) \<in> set L" "(a, n, False) \<in> set bs"
    using a used_member by blast
  obtain L1 L2 where L: "L = L1 @ (x, bs) # L2"
    using x(1) split_list by metis
  obtain pre post where bs: "bs = pre @ (a, n, False) # post"
    using x(2) split_list by metis
  have c: "section_ok ?s x bs"
    by (rule heap_inv_member [OF inv x(1)])
  note b = content_mem [OF c x(2)]
  let ?t = "upd_block a (\<lambda>b. b\<lparr>hb_free := True\<rparr>) ?s"
  have "chained (hp_sections ?s) (m_Head ?s) (map fst L) 0" "\<forall>y \<in> fst ` set L. y \<noteq> x \<longrightarrow> section_span ?s x \<inter> section_span ?s y = {}"
    using inv imageI [OF x(1), of fst] unfolding heap_inv_def fst_conv by blast+
  then have "find_owner (hp_sections ?s) a (m_Head ?s) = Some x"
    using find_owner_ok [OF _ heap_inv_sections [OF inv] x] by blast
  then have own: "find_owner (hp_sections ?t) a (m_Head ?t) = Some x"
    by (simp add: upd_block_def)
  obtain s1 bs1 where s1: "Free_block x a ?t = Inr s1" "hp_lock s1 = 0" "section_ok s1 x bs1" "section_step x bs bs1 ?s s1"
      "used_tiles bs1 = used_tiles bs - {(a, n)}"
    using Free_block_ok [OF c [unfolded bs]] unfolding bs by auto
  have inv1: "heap_inv I s1 (L1 @ (x, bs1) # L2)"
    by (rule heap_inv_step [OF inv [unfolded L] s1(4,3)])
  have "bs1 \<noteq> []"
    using s1(3,4) b(7) by (auto simp: content_ok_def section_step_def)
  moreover have "busy L1" "busy L2"
    using bz by (auto simp: busy_def L)
  ultimately obtain s2 L' where s2: "drop_unused 0 (m_Head s1) s1 = Some (Inr s2)" "heap_inv I s2 L'" "busy L'" "used L' = used (L1 @ (x, bs1) # L2)"
      "hp_lock s2 = 0" "hp_bytes s2 = hp_bytes s1"
    using drop_unused_ok [OF inv1] s1(2) by auto
  have "unat (a + 16) = unat a + 16"
    using b(9) c by (subst unat_add_nowrap) (auto simp: content_ok_def)
  then have "a + 16 \<noteq> 0"
    by auto
  then have go: "Free (a + 16) s = Inr (s2\<lparr>hp_lock := 1\<rparr>)"
    using l1 b(2) own s1(1) s2(1,5) by (simp add: Free_def sizeof_HeapBlock_def)
  have "(a, n) \<notin> used L1 \<union> used L2"
  proof
    assume "(a, n) \<in> used L1 \<union> used L2"
    then obtain y cs where y: "(y, cs) \<in> set L1 \<union> set L2" "(a, n, False) \<in> set cs"
      unfolding Un_iff used_member by blast
    have "distinct (map fst L)"
      using inv by (simp add: heap_inv_def)
    then have "x \<noteq> y" "(y, cs) \<in> set L"
      using imageI [OF y(1), of fst] y(1) by (auto simp: L)
    then show False
      using heap_tiles_apart(2) [OF inv x(1) _ x(2) y(2)] by blast
  qed
  then have "used L' = used L - {(a, n)}"
    using s2(4) s1(5) by (auto simp: L)
  moreover have "heap_ok I (s2\<lparr>hp_lock := 1\<rparr>) L'"
    using s2(2,3) by (simp add: heap_ok_def busy_def)
  moreover have "hp_bytes s2 = hp_bytes s"
    using s2(6) s1(4) by (simp add: section_step_def)
  ultimately show ?thesis
    using go by (intro exI [of _ "s2\<lparr>hp_lock := 1\<rparr>"] exI [of _ L']) simp
qed

end
