(* ===== verification/HeapProps.thy ===== *)
theory HeapProps
  imports HeapFree PMMCorrect
begin

text \<open>
  The properties of the kernel heap: what allocation, release and reallocation do with the blocks in use, and that
  a program that only uses pointers it owns keeps the heap well formed, its counters exact and itself out of the
  assertions.
\<close>

section \<open>Single operations\<close>

lemma used_tile:
  assumes "heap_inv I s L" "(a, n) \<in> used L"
  shows "GetSize (a + 16) s = of_nat n" "unat (of_nat n :: u64) = n" "unat (a + 16) = unat a + 16" "\<not> hb_free (hp_blocks s a)"
proof -
  obtain x bs where x: "(x, bs) \<in> set L" "(a, n, False) \<in> set bs"
    using assms(2) used_member by blast
  have c: "section_ok s x bs"
    by (rule heap_inv_member [OF assms(1) x(1)])
  note b = content_mem [OF c x(2)]
  show u: "unat (a + 16) = unat a + 16"
    using b(9) c by (subst unat_add_nowrap) (auto simp: content_ok_def)
  then have "a + 16 \<noteq> 0"
    by auto
  then show "GetSize (a + 16) s = of_nat n"
    using b(1) by (simp add: GetSize_def sizeof_HeapBlock_def)
  show "unat (of_nat n :: u64) = n" "\<not> hb_free (hp_blocks s a)"
    using b(2,6) by simp_all
qed

lemma used_apart:
  assumes inv: "heap_inv I s L" and u: "(a, n) \<in> used L" "(b, m) \<in> used L" "(a, n) \<noteq> (b, m)"
  shows "{unat a ..< unat a + 16 + n} \<inter> {unat b ..< unat b + 16 + m} = {}" "a \<noteq> b"
proof -
  obtain x bs y cs where x: "(x, bs) \<in> set L" "(a, n, False) \<in> set bs" and y: "(y, cs) \<in> set L" "(b, m, False) \<in> set cs"
    using u(1,2) unfolding used_member by blast
  have "(a, n, False) \<noteq> (b, m, False) \<or> x \<noteq> y"
    using u(3) by simp
  then show "{unat a ..< unat a + 16 + n} \<inter> {unat b ..< unat b + 16 + m} = {}" "a \<noteq> b"
    by (rule heap_tiles_apart [OF inv x(1) y(1) x(2) y(2)])+
qed

text \<open>Releasing a block that is free already is caught.\<close>

lemma Free_twice:
  assumes ok: "heap_ok I s L" and x: "(x, bs) \<in> set L" "(a, n, True) \<in> set bs"
  shows "Free (a + 16) s = Inl AssertFailed"
proof -
  have inv: "heap_inv I s L" and l: "hp_lock s = 1"
    using ok by (simp_all add: heap_ok_def)
  have c: "section_ok s x bs"
    by (rule heap_inv_member [OF inv x(1)])
  note b = content_mem [OF c x(2)]
  have "unat (a + 16) = unat a + 16"
    using b(9) c by (subst unat_add_nowrap) (auto simp: content_ok_def)
  then have "a + 16 \<noteq> 0"
    by auto
  then show ?thesis
    using l b(2) by (simp add: Free_def sizeof_HeapBlock_def)
qed

lemma heap_ok_bytes [simp]: "heap_ok I (s\<lparr>hp_bytes := m\<rparr>) L = heap_ok I s L"
  by (simp add: heap_ok_def heap_inv_def section_span_def counted_sizes_def)

text \<open>Reallocation moves the contents, or keeps the block if it is large enough.\<close>

lemma krealloc_ok:
  assumes ok: "heap_ok I s L" and a: "(a, n) \<in> used L" and sz: "unat sz \<le> 2 ^ 62" "sz \<noteq> 0" "n \<noteq> 0"
  shows "\<exists>s' q. krealloc (a + 16) sz s = Inr (s', q) \<and>
    (if q = 0 then heap_ok I s' L
     else \<exists>L' m. heap_ok I s' L' \<and> unat sz \<le> m \<and> used L' = insert (q - 16, m) (used L - {(a, n)}) \<and>
       (\<forall>i < min n (unat sz). hp_bytes s' (q + of_nat i) = hp_bytes s (a + 16 + of_nat i)))"
proof -
  have inv: "heap_inv I s L"
    using ok by (simp add: heap_ok_def)
  note g = used_tile [OF inv a]
  have a0: "a + 16 \<noteq> 0"
    using g(3) by auto
  have n0: "GetSize (a + 16) s \<noteq> 0"
    using g(1,2) sz(3) by (metis unat_0)
  show ?thesis
  proof (cases "unat sz \<le> n")
    case True
    then have "sz \<le> GetSize (a + 16) s"
      using g(1,2) by (simp add: word_le_nat_alt)
    then have "krealloc (a + 16) sz s = Inr (s, a + 16)"
      using a0 n0 sz(2) by (simp add: krealloc_def)
    moreover have "used L = insert (a + 16 - 16, n) (used L - {(a, n)})"
      using a by auto
    ultimately show ?thesis
      using a0 ok True by (intro exI [of _ s] exI [of _ "a + 16"]) auto
  next
    case False
    then have lt: "\<not> sz \<le> GetSize (a + 16) s"
      using g(1,2) by (simp add: word_le_nat_alt)
    obtain s1 p where s1: "Allocate sz s = Inr (s1, p)" "hp_bytes s1 = hp_bytes s"
        "if p = 0 then heap_ok I s1 L \<and> (\<forall>(x, bs) \<in> set L. too_small (ALIGN_UP sz HEAP_MIN_BLOCK_SIZE) bs)
         else \<exists>L' m. heap_ok I s1 L' \<and> unat sz \<le> m \<and> used L' = insert (p - 16, m) (used L) \<and> p - 16 \<notin> fst ` used L"
      using Allocate_ok [OF ok sz(1)] by blast
    show ?thesis
    proof (cases "p = 0")
      case True
      then have "krealloc (a + 16) sz s = Inr (s1, 0)"
        using a0 n0 sz(2) lt s1(1) by (simp add: krealloc_def)
      then show ?thesis
        using True s1(3) by auto
    next
      case p: False
      then obtain L1 m where L1: "heap_ok I s1 L1" "unat sz \<le> m" "used L1 = insert (p - 16, m) (used L)" "p - 16 \<notin> fst ` used L"
        using s1(3) by auto
      let ?m = "memcpy_bytes p (a + 16) (of_nat n) (hp_bytes s)" and ?t = "s1\<lparr>hp_bytes := memcpy_bytes p (a + 16) (of_nat n) (hp_bytes s)\<rparr>"
      have "heap_ok I ?t L1" "(a, n) \<in> used L1"
        using L1(1,3) a by simp_all
      then obtain s' L' where s': "Free (a + 16) ?t = Inr s'" "heap_ok I s' L'" "used L' = used L1 - {(a, n)}" "hp_bytes s' = ?m"
        using Free_ok [of I ?t L1 a n] by auto
      have "krealloc (a + 16) sz s = Inr (s', p)"
        using a0 n0 sz(2) lt s1(1,2) p g(1) s'(1) by (simp add: krealloc_def)
      moreover have "(p - 16, m) \<noteq> (a, n)"
        using L1(4) a by (metis fst_conv image_eqI)
      then have "used L' = insert (p - 16, m) (used L - {(a, n)})"
        using s'(3) L1(3) by auto
      moreover have "hp_bytes s' (p + of_nat i) = hp_bytes s (a + 16 + of_nat i)" if "i < n" for i
      proof -
        have "n < 2 ^ 64"
          using g(2) unat_lt_2p64 [of "of_nat n"] by simp
        then have "unat (of_nat i :: u64) < unat (of_nat n :: u64)"
          using that g(2) by (simp add: unat_of_nat)
        then show ?thesis
          by (simp add: s'(4) memcpy_bytes_def)
      qed
      ultimately show ?thesis
        using p s'(2) L1(2) by (intro exI [of _ s'] exI [of _ p]) auto
    qed
  qed
qed

section \<open>Counters\<close>

lemma sint_nonneg:
  assumes "unat (w :: u64) < 2 ^ 63"
  shows "0 \<le> sint w"
proof -
  have "take_bit 63 w = w"
    using assms by (rule take_bit_63)
  then have "\<not> bit w 63"
    by (metis bit_take_bit_iff less_irrefl)
  then show ?thesis
    by (simp add: sint_uint signed_take_bit_nonnegative_iff bit_uint_iff)
qed

lemma sum_list_three:
  fixes u f m :: "'b \<Rightarrow> nat"
  assumes "\<And>x b. (x, b) \<in> set K \<Longrightarrow> u b + f b + m b = t x"
  shows "(\<Sum>(x, b) \<leftarrow> K. u b) + (\<Sum>(x, b) \<leftarrow> K. f b) + (\<Sum>(x, b) \<leftarrow> K. m b) = (\<Sum>(x, b) \<leftarrow> K. t x)"
  using assms
proof (induction K)
  case (Cons e K)
  obtain x b where e: "e = (x, b)"
    by (cases e)
  have "u b + f b + m b = t x"
    using Cons.prems e by simp
  moreover have "(\<Sum>(x, b) \<leftarrow> K. u b) + (\<Sum>(x, b) \<leftarrow> K. f b) + (\<Sum>(x, b) \<leftarrow> K. m b) = (\<Sum>(x, b) \<leftarrow> K. t x)"
    by (rule Cons.IH) (use Cons.prems in simp)
  ultimately show ?case
    using e by simp
qed simp

definition total_size :: "'w HeapAllocator \<Rightarrow> (u64 \<times> tile list) list \<Rightarrow> nat" where
  "total_size s L = (\<Sum>(x, bs) \<leftarrow> L. 32 + unat (hs_size (hp_sections s x)))"

lemma counters_exact:
  assumes inv: "heap_inv I s L"
  obtains U F M where "m_UsedMemory s = of_nat U" "m_FreeMemory s = of_nat F" "m_MetadataMemory s = of_nat M" "m_TotalMemory s = of_nat (total_size s L)"
    "U + F + M = total_size s L"
proof -
  define U where "U = (\<Sum>(x, bs) \<leftarrow> L. used_sum bs)"
  define F where "F = (\<Sum>(x, bs) \<leftarrow> L. free_sum bs)"
  define M where "M = (\<Sum>(x, bs) \<leftarrow> L. 32 + 16 * length bs)"
  have one: "used_sum bs + free_sum bs + (32 + 16 * length bs) = 32 + unat (hs_size (hp_sections s x))" if "(x, bs) \<in> set L" for x bs
    using heap_inv_member [OF inv that] tiling_total [of "unat x + 32" bs] by (fastforce simp: content_ok_def)
  then have "U + F + M = total_size s L"
    unfolding U_def F_def M_def total_size_def by (rule sum_list_three)
  moreover have w: "(\<Sum>(x, bs) \<leftarrow> K. of_nat (f x bs)) = (of_nat (\<Sum>(x, bs) \<leftarrow> K. f x bs) :: u64)" for f :: "u64 \<Rightarrow> tile list \<Rightarrow> nat" and K
    by (induction K) auto
  have "m_UsedMemory s = of_nat U" "m_FreeMemory s = of_nat F" "m_MetadataMemory s = of_nat M" "m_TotalMemory s = of_nat (total_size s L)"
    using inv w [of "\<lambda>x bs. used_sum bs" L] w [of "\<lambda>x bs. free_sum bs" L] w [of "\<lambda>x bs. 32 + 16 * length bs" L]
      w [of "\<lambda>x bs. 32 + unat (hs_size (hp_sections s x))" L]
    by (simp_all add: heap_inv_def counted_sizes_def U_def F_def M_def total_size_def)
  ultimately show thesis
    using that by blast
qed

lemma Heap_Verify_ok:
  assumes "heap_inv I s L" "total_size s L < 2 ^ 63"
  shows "Heap_Verify s = Inr ()"
proof -
  obtain U F M where c: "m_UsedMemory s = of_nat U" "m_FreeMemory s = of_nat F" "m_MetadataMemory s = of_nat M" "m_TotalMemory s = of_nat (total_size s L)"
      "U + F + M = total_size s L"
    using counters_exact [OF assms(1)] .
  have s: "0 \<le> sint (of_nat k :: u64)" if "k \<le> total_size s L" for k
    using that assms(2) by (intro sint_nonneg) (simp add: unat_of_nat)
  have "(of_nat U + of_nat F + of_nat M :: u64) = of_nat (total_size s L)"
    using c(5) by (metis of_nat_add)
  then show ?thesis
    using s [of U] s [of F] s [of M] s [of "total_size s L"] c by (simp add: Heap_Verify_def)
qed

section \<open>Programs that use the heap\<close>

text \<open>
  Calls of the C interface and writes to memory, with the pointers the program owns. A program passes the null
  pointer or a pointer it owns to \<^verbatim>\<open>kfree\<close> and \<^verbatim>\<open>krealloc\<close>.
\<close>

inductive heap_run :: "'w HeapAllocator \<Rightarrow> 'w HeapAllocator \<Rightarrow> u64 set \<Rightarrow> bool" for s0 where
  init: "heap_run s0 s0 {}"
| store: "heap_run s0 s P \<Longrightarrow> heap_run s0 (s\<lparr>hp_bytes := m\<rparr>) P"
| kmalloc: "heap_run s0 s P \<Longrightarrow> unat sz \<le> 2 ^ 62 \<Longrightarrow> kmalloc sz s = Inr (s', p) \<Longrightarrow> heap_run s0 s' (if p = 0 then P else insert p P)"
| kcalloc: "heap_run s0 s P \<Longrightarrow> unat (num * sz) \<le> 2 ^ 62 \<Longrightarrow> kcalloc num sz s = Inr (s', p) \<Longrightarrow> heap_run s0 s' (if p = 0 then P else insert p P)"
| kfree: "heap_run s0 s P \<Longrightarrow> p = 0 \<or> p \<in> P \<Longrightarrow> kfree p s = Inr s' \<Longrightarrow> heap_run s0 s' (P - {p})"
| krealloc: "heap_run s0 s P \<Longrightarrow> p = 0 \<or> p \<in> P \<Longrightarrow> unat sz \<le> 2 ^ 62 \<Longrightarrow> krealloc p sz s = Inr (s', q) \<Longrightarrow>
    heap_run s0 s' (if q \<noteq> 0 then insert q (P - {p}) else if p \<noteq> 0 \<and> sz = 0 then P - {p} else P)"

definition pointers :: "(u64 \<times> tile list) list \<Rightarrow> u64 set" where
  "pointers L = (\<lambda>(a, n). a + 16) ` used L"

lemma pointers_insert: "used L' = insert (p - 16, n) (used L) \<Longrightarrow> pointers L' = insert p (pointers L)"
  by (simp add: pointers_def)

lemma pointers_remove:
  assumes "heap_inv I s L" "(a, n) \<in> used L"
  shows "(\<lambda>(a, n). a + 16) ` (used L - {(a, n)}) = pointers L - {a + 16}"
proof -
  have "m = n" if "(a, m) \<in> used L" for m
    using used_apart(2) [OF assms(1) that assms(2)] by blast
  then show ?thesis
    unfolding pointers_def by (auto simp: image_iff)
qed

text \<open>The invariant after every operation; the operation itself returns.\<close>

lemma kmalloc_run:
  assumes "heap_ok I s L" "unat sz \<le> 2 ^ 62"
  shows "\<exists>s' p L'. Allocate sz s = Inr (s', p) \<and> heap_ok I s' L' \<and> pointers L' = (if p = 0 then pointers L else insert p (pointers L))"
proof -
  obtain s' p where s': "Allocate sz s = Inr (s', p)"
      "if p = 0 then heap_ok I s' L \<and> (\<forall>(x, bs) \<in> set L. too_small (ALIGN_UP sz HEAP_MIN_BLOCK_SIZE) bs)
       else \<exists>L' n. heap_ok I s' L' \<and> unat sz \<le> n \<and> used L' = insert (p - 16, n) (used L) \<and> p - 16 \<notin> fst ` used L"
    using Allocate_ok [OF assms] by blast
  show ?thesis
  proof (cases "p = 0")
    case True
    then show ?thesis
      using s' by auto
  next
    case False
    then obtain L' n where "heap_ok I s' L'" "used L' = insert (p - 16, n) (used L)"
      using s'(2) by auto
    then show ?thesis
      using False s'(1) pointers_insert by metis
  qed
qed

lemma kfree_run:
  assumes "heap_ok I s L" "p = 0 \<or> p \<in> pointers L"
  shows "\<exists>s' L'. Free p s = Inr s' \<and> heap_ok I s' L' \<and> pointers L' = pointers L - {p}"
proof (cases "p \<in> pointers L")
  case True
  then obtain a n where a: "(a, n) \<in> used L" "p = a + 16"
    by (auto simp: pointers_def)
  have "heap_inv I s L"
    using assms(1) by (simp add: heap_ok_def)
  then show ?thesis
    using Free_ok [OF assms(1) a(1)] pointers_remove [OF _ a(1)] a(2) by (metis pointers_def)
next
  case False
  then show ?thesis
    using assms by (auto simp: Free_def)
qed

lemma krealloc_run:
  assumes ok: "heap_ok I s L" and p: "p = 0 \<or> p \<in> pointers L" and sz: "unat sz \<le> 2 ^ 62"
  shows "\<exists>s' q L'. krealloc p sz s = Inr (s', q) \<and> heap_ok I s' L' \<and>
    pointers L' = (if q \<noteq> 0 then insert q (pointers L - {p}) else if p \<noteq> 0 \<and> sz = 0 then pointers L - {p} else pointers L)"
proof -
  have inv: "heap_inv I s L"
    using ok by (simp add: heap_ok_def)
  have nz: "0 \<notin> pointers L"
    using used_tile(3) [OF inv] by (fastforce simp: pointers_def)
  consider "p = 0" | "p \<noteq> 0" "sz = 0" | "p \<noteq> 0" "sz \<noteq> 0" "GetSize p s = 0" | a n where "p = a + 16" "p \<noteq> 0" "sz \<noteq> 0" "GetSize p s \<noteq> 0" "(a, n) \<in> used L"
    using p by (auto simp: pointers_def)
  then show ?thesis
  proof cases
    case 1
    obtain s' q L' where s': "Allocate sz s = Inr (s', q)" "heap_ok I s' L'" "pointers L' = (if q = 0 then pointers L else insert q (pointers L))"
      using kmalloc_run [OF ok sz] by blast
    then have "pointers L' = (if q \<noteq> 0 then insert q (pointers L - {p}) else if p \<noteq> 0 \<and> sz = 0 then pointers L - {p} else pointers L)"
      using 1 nz by simp
    then show ?thesis
      using 1 s'(1,2) unfolding krealloc_def by auto
  next
    case 2
    then show ?thesis
      using kfree_run [OF ok p] by (auto simp: krealloc_def)
  next
    case 3
    then have "krealloc p sz s = Inr (s, 0)"
      by (simp add: krealloc_def)
    then show ?thesis
      using ok 3 by auto
  next
    case (4 a n)
    have "n \<noteq> 0"
    proof
      assume "n = 0"
      then show False
        using used_tile(1) [OF inv 4(5)] 4(1,4) by simp
    qed
    then obtain s' q where s': "krealloc p sz s = Inr (s', q)"
        "if q = 0 then heap_ok I s' L else \<exists>L' m. heap_ok I s' L' \<and> unat sz \<le> m \<and> used L' = insert (q - 16, m) (used L - {(a, n)}) \<and>
          (\<forall>i < min n (unat sz). hp_bytes s' (q + of_nat i) = hp_bytes s (a + 16 + of_nat i))"
      using krealloc_ok [OF ok 4(5) sz 4(3)] 4(1) by blast
    show ?thesis
    proof (cases "q = 0")
      case True
      then show ?thesis
        using s' 4(3) by auto
    next
      case False
      then obtain L' m where L': "heap_ok I s' L'" "used L' = insert (q - 16, m) (used L - {(a, n)})"
        using s'(2) by auto
      have "pointers L' = insert q (pointers L - {p})"
        using L'(2) pointers_remove [OF inv 4(5)] 4(1) by (simp add: pointers_def)
      then show ?thesis
        using False s'(1) L'(1) by auto
    qed
  qed
qed

lemma kcalloc_run:
  assumes "heap_ok I s L" "unat (num * sz) \<le> 2 ^ 62"
  shows "\<exists>s' p L'. kcalloc num sz s = Inr (s', p) \<and> heap_ok I s' L' \<and> pointers L' = (if p = 0 then pointers L else insert p (pointers L))"
proof -
  obtain s1 p L' where s1: "Allocate (num * sz) s = Inr (s1, p)" "heap_ok I s1 L'" "pointers L' = (if p = 0 then pointers L else insert p (pointers L))"
    using kmalloc_run [OF assms] by blast
  then show ?thesis
    by (cases "p = 0") (auto simp: kcalloc_def)
qed

lemma heap_run_ok:
  assumes "heap_run s0 s P" "heap_ok I s0 []"
  shows "\<exists>L. heap_ok I s L \<and> pointers L = P"
  using assms
proof (induction rule: heap_run.induct)
  case init
  then show ?case
    by (intro exI [of _ "[]"]) (simp add: pointers_def)
next
  case (store s P m)
  then show ?case
    by auto
next
  case (kmalloc s P sz s' p)
  then show ?case
    using kmalloc_run [OF _ kmalloc.hyps(2)] by (fastforce simp: kmalloc_def)
next
  case (kcalloc s P num sz s' p)
  then show ?case
    using kcalloc_run [OF _ kcalloc.hyps(2)] by fastforce
next
  case (kfree s P p s')
  then show ?case
    using kfree_run [where p = p] by (fastforce simp: kfree_def)
next
  case (krealloc s P p sz s' q)
  then obtain L where L: "heap_ok I s L" "pointers L = P"
    by blast
  then show ?case
    using krealloc_run [OF L(1), of p sz] krealloc.hyps(2-4) by auto
qed

lemma heap_ok_new: "source_ok sa I \<Longrightarrow> I w {} \<Longrightarrow> heap_ok I (HeapAllocator_new sa w bs ss m) []"
  by (auto simp: heap_ok_def heap_inv_def counted_sizes_def HeapAllocator_new_def)

section \<open>An example\<close>

text \<open>A section allocator that hands out one range after the other and never reuses any.\<close>

definition ex_source :: "u64 HeapSectionAllocator" where
  "ex_source = \<lparr>sa_Allocate = Some (\<lambda>w n. if unat w + unat n < 2 ^ 64 then Inr (w + n, w) else Inr (w, 0)), sa_Free = Some (\<lambda>w a n. Inr w)\<rparr>"

definition ex_handed :: "u64 \<Rightarrow> (u64 \<times> u64) set \<Rightarrow> bool" where
  "ex_handed w R \<longleftrightarrow> w \<noteq> 0 \<and> (\<forall>(a, n) \<in> R. unat a + unat n \<le> unat w)"

definition ex_heap :: "u64 HeapAllocator" where
  "ex_heap = HeapAllocator_new (Some ex_source) 0x10000 (\<lambda>_. \<lparr>hb_size = 0, hb_free = False, hb_next = 0\<rparr>) (\<lambda>_. \<lparr>hs_size = 0, hs_next = 0, hs_firstBlock = 0\<rparr>) (\<lambda>_. 0)"

lemma ex_source_ok: "source_ok (Some ex_source) ex_handed"
proof -
  have "ex_handed (w + n) (insert (w, n) R) \<and> (\<forall>r \<in> R. range_of (w, n) \<inter> range_of r = {})" if h: "ex_handed w R" and u: "unat w + unat n < 2 ^ 64" for w n R
  proof -
    have un: "unat (w + n) = unat w + unat n"
      using u by (subst unat_add_nowrap) auto
    have "w + n \<noteq> 0"
      using un h by (auto simp: ex_handed_def unat_eq_0)
    moreover have "unat a + unat m \<le> unat (w + n)" if "(a, m) \<in> insert (w, n) R" for a m
      using that h un by (fastforce simp: ex_handed_def)
    moreover have "range_of (w, n) \<inter> range_of r = {}" if "r \<in> R" for r
      using that h by (fastforce simp: ex_handed_def range_of_def)
    ultimately show ?thesis
      unfolding ex_handed_def by blast
  qed
  moreover have "ex_handed w (R - {r})" if "ex_handed w R" for w R r
    using that by (auto simp: ex_handed_def)
  moreover have "ex_handed w R \<Longrightarrow> w \<noteq> 0" for w R
    by (simp add: ex_handed_def)
  ultimately show ?thesis
    unfolding source_ok_def ex_source_def by auto
qed

lemma ex_heap_ok: "heap_ok ex_handed ex_heap []"
  unfolding ex_heap_def by (rule heap_ok_new [OF ex_source_ok]) (simp add: ex_handed_def)

lemma ex_kmalloc: "\<exists>s'. kmalloc 100 ex_heap = Inr (s', 0x10030)"
  by (simp add: kmalloc_def Allocate_def find_section.simps Allocate_section_def place_section_def split_new_def heap_defs Let_def ex_heap_def ex_source_def
    HeapAllocator_new_def ALIGN_UP_def DIV_ROUNDUP_def HEAP_MIN_SECTION_SIZE_def PAGE_SIZE_def)

section \<open>The properties\<close>

text \<open>
  C40. On a well-formed heap, with requests of at most \<open>2 ^ 62\<close> bytes: allocation returns the null pointer only
  when no free block has room for the rounded size, and otherwise adds one block of at least that size to the blocks in use, at
  an address that is not in use; releasing a block in use takes just this block out; releasing a free block fails an assertion; and
  reallocation of a block that is not empty keeps the other blocks and the first bytes, up to the smaller of both sizes.
\<close>

theorem Heap_alloc_free:
  assumes "heap_ok I s L" "unat sz \<le> 2 ^ 62"
  shows "(\<exists>s' p. kmalloc sz s = Inr (s', p) \<and> hp_bytes s' = hp_bytes s \<and>
      (if p = 0 then heap_ok I s' L \<and> (\<forall>(x, bs) \<in> set L. too_small (ALIGN_UP sz HEAP_MIN_BLOCK_SIZE) bs)
       else \<exists>L' n. heap_ok I s' L' \<and> unat sz \<le> n \<and> used L' = insert (p - 16, n) (used L) \<and> p - 16 \<notin> fst ` used L)) \<and>
    ((a, n) \<in> used L \<longrightarrow> (\<exists>s' L'. kfree (a + 16) s = Inr s' \<and> heap_ok I s' L' \<and> used L' = used L - {(a, n)} \<and> hp_bytes s' = hp_bytes s)) \<and>
    ((x, bs) \<in> set L \<and> (b, m, True) \<in> set bs \<longrightarrow> kfree (b + 16) s = Inl AssertFailed) \<and>
    ((a, n) \<in> used L \<and> sz \<noteq> 0 \<and> n \<noteq> 0 \<longrightarrow> (\<exists>s' q. krealloc (a + 16) sz s = Inr (s', q) \<and>
      (if q = 0 then heap_ok I s' L
       else \<exists>L' m. heap_ok I s' L' \<and> unat sz \<le> m \<and> used L' = insert (q - 16, m) (used L - {(a, n)}) \<and>
         (\<forall>i < min n (unat sz). hp_bytes s' (q + of_nat i) = hp_bytes s (a + 16 + of_nat i)))))"
proof (intro conjI impI, goal_cases)
  case 1
  show ?case
    using Allocate_ok [OF assms] by (simp add: kmalloc_def)
next
  case 2
  then show ?case
    using Free_ok [OF assms(1)] by (simp add: kfree_def)
next
  case 3
  then show ?case
    using Free_twice [OF assms(1)] by (auto simp: kfree_def)
next
  case 4
  then show ?case
    using krealloc_ok [OF assms(1) _ assms(2)] by blast
qed

theorem Heap_alloc_free_witness:
  "heap_ok ex_handed ex_heap [] \<and> (\<exists>s' s''. kmalloc 100 ex_heap = Inr (s', 0x10030) \<and> hp_bytes s' = hp_bytes ex_heap \<and> kfree 0x10030 s' = Inr s'')"
proof -
  obtain s' where s': "kmalloc 100 ex_heap = Inr (s', 0x10030)"
    using ex_kmalloc by blast
  then obtain L' n where L': "hp_bytes s' = hp_bytes ex_heap" "heap_ok ex_handed s' L'" "used L' = {(0x10020, n)}"
    using Heap_alloc_free [OF ex_heap_ok, of 100] by auto
  have "\<exists>s''. kfree (0x10020 + 16) s' = Inr s''"
    using Heap_alloc_free [OF L'(2), of 100 "0x10020" n, THEN conjunct2, THEN conjunct1] L'(3) by auto
  then show ?thesis
    using s' L'(1) ex_heap_ok by simp
qed

text \<open>
  C6. Whatever calls a program makes with pointers it owns and requests of at most \<open>2 ^ 62\<close> bytes, starting from a new heap: the
  heap stays well formed, with the owned pointers as the blocks in use; the used, free and metadata counters add up to the
  total, and the consistency check passes while the heap has less than \<open>2 ^ 63\<close> bytes; the ranges of two owned
  pointers, headers included, are disjoint; and every further call of \<^verbatim>\<open>kmalloc\<close>, \<^verbatim>\<open>kcalloc\<close>, \<^verbatim>\<open>krealloc\<close> and \<^verbatim>\<open>kfree\<close> of that
  kind returns, so that no assertion fails and no loop runs forever. For \<^verbatim>\<open>kcalloc\<close> the bound is on the product as the code
  computes it, which wraps around; larger requests wrap around when they are rounded up and are outside of this.
\<close>

theorem Heap_wellformed:
  assumes "source_ok sa I" "I w {}" "heap_run (HeapAllocator_new sa w bs ss m) s P"
  shows "(\<exists>L. heap_ok I s L \<and> pointers L = P \<and> (total_size s L < 2 ^ 63 \<longrightarrow> Heap_Verify s = Inr ())) \<and>
    m_UsedMemory s + m_FreeMemory s + m_MetadataMemory s = m_TotalMemory s \<and>
    (\<forall>p \<in> P. \<forall>q \<in> P. p \<noteq> q \<longrightarrow> {unat p - 16 ..< unat p + unat (GetSize p s)} \<inter> {unat q - 16 ..< unat q + unat (GetSize q s)} = {}) \<and>
    (\<forall>p \<in> insert 0 P. \<exists>s'. kfree p s = Inr s') \<and> (unat sz \<le> 2 ^ 62 \<longrightarrow> (\<exists>s' p. kmalloc sz s = Inr (s', p))) \<and>
    (unat (num * sz) \<le> 2 ^ 62 \<longrightarrow> (\<exists>s' p. kcalloc num sz s = Inr (s', p))) \<and>
    (unat sz \<le> 2 ^ 62 \<longrightarrow> (\<forall>p \<in> insert 0 P. \<exists>s' q. krealloc p sz s = Inr (s', q)))"
proof -
  obtain L where L: "heap_ok I s L" "pointers L = P"
    using heap_run_ok [OF assms(3) heap_ok_new [OF assms(1,2)]] by blast
  have inv: "heap_inv I s L"
    using L(1) by (simp add: heap_ok_def)
  obtain U F M where c: "m_UsedMemory s = of_nat U" "m_FreeMemory s = of_nat F" "m_MetadataMemory s = of_nat M" "m_TotalMemory s = of_nat (total_size s L)"
      "U + F + M = total_size s L"
    using counters_exact [OF inv] .
  have "m_UsedMemory s + m_FreeMemory s + m_MetadataMemory s = m_TotalMemory s"
    unfolding c(1-4) using c(5) by (metis of_nat_add)
  moreover have "{unat p - 16 ..< unat p + unat (GetSize p s)} \<inter> {unat q - 16 ..< unat q + unat (GetSize q s)} = {}"
    if pq: "p \<in> P" "q \<in> P" "p \<noteq> q" for p q
  proof -
    obtain a n b k where ab: "(a, n) \<in> used L" "p = a + 16" "(b, k) \<in> used L" "q = b + 16"
      using pq(1,2) L(2) by (auto simp: pointers_def)
    have "(a, n) \<noteq> (b, k)"
      using ab pq(3) by auto
    then show ?thesis
      using used_apart(1) [OF inv ab(1,3)] used_tile(1-3) [OF inv ab(1)] used_tile(1-3) [OF inv ab(3)] ab(2,4) by simp
  qed
  moreover have "\<exists>s'. kfree p s = Inr s'" if "p \<in> insert 0 P" for p
    using kfree_run [OF L(1), of p] that L(2) by (auto simp: kfree_def)
  moreover have "unat sz \<le> 2 ^ 62 \<Longrightarrow> \<exists>s' p. kmalloc sz s = Inr (s', p)"
    using kmalloc_run [OF L(1), of sz] unfolding kmalloc_def by blast
  moreover have "unat (num * sz) \<le> 2 ^ 62 \<Longrightarrow> \<exists>s' p. kcalloc num sz s = Inr (s', p)"
    using kcalloc_run [OF L(1), of num sz] by blast
  moreover have "\<exists>s' q. krealloc p sz s = Inr (s', q)" if "unat sz \<le> 2 ^ 62" "p \<in> insert 0 P" for p
    using krealloc_run [OF L(1), of p sz] that L(2) by blast
  ultimately show ?thesis
    using L Heap_Verify_ok [OF inv] by blast
qed

theorem Heap_wellformed_witness:
  "source_ok (Some ex_source) ex_handed \<and> ex_handed 0x10000 {} \<and>
   (\<exists>s s' q. heap_run ex_heap s {0x10030} \<and> krealloc 0x10030 5000 s = Inr (s', q) \<and> m_UsedMemory s + m_FreeMemory s + m_MetadataMemory s = m_TotalMemory s)"
proof -
  have h: "ex_handed 0x10000 {}"
    by (simp add: ex_handed_def)
  obtain s where "kmalloc 100 ex_heap = Inr (s, 0x10030)"
    using ex_kmalloc by blast
  then have r: "heap_run ex_heap s {0x10030}"
    using heap_run.kmalloc [OF heap_run.init, of 100 ex_heap s "0x10030"] by simp
  note ok = Heap_wellformed [OF ex_source_ok h r [unfolded ex_heap_def]]
  have "m_UsedMemory s + m_FreeMemory s + m_MetadataMemory s = m_TotalMemory s"
    using ok by blast
  moreover have "\<exists>s' q. krealloc 0x10030 5000 s = Inr (s', q)"
    using ok [of 5000] by simp
  ultimately show ?thesis
    using ex_source_ok h r by blast
qed

section \<open>Two requests that go wrong\<close>

text \<open>A request close to the largest size wraps around in the rounding and asks for nothing.\<close>

lemma Allocate_size_wraps: "ALIGN_UP (- 1) HEAP_MIN_BLOCK_SIZE = 0"
  by (simp add: ALIGN_UP_def DIV_ROUNDUP_def HEAP_MIN_BLOCK_SIZE_def)

text \<open>
  The section allocator of the early heap turns the null pointer of a failed page allocation into the base of the direct
  map, which the heap takes for a section.
\<close>

lemma VMM_section_failure:
  assumes "pmm_inv hhdm pmm bs" "0 < k" "bs \<noteq> []" "first_fit k bs = None" "k = DIV_ROUNDUP n PAGE_SIZE" "sa_Allocate (g_VMMHeapSectionAllocator hhdm) = Some f"
  shows "f pmm n = Inr (pmm, hhdm)"
  using AllocatePages_inv [OF assms(1-3)] assms(4-6) by (auto simp: g_VMMHeapSectionAllocator_def to_HHDM_def)

end
