(* ===== verification/Spec2Isabelle.thy ===== *)
theory Spec2Isabelle
  imports AVLTree PMMCorrect PageMapperProps LinkedListProps VMRegionClaims SemaphoreProps HeapProps
begin

text \<open>
  A verification development for the kernel of FrostyOS (src/kernel; file names below are relative to it).

  \<^bold>\<open>The program.\<close> Physical memory is handed out page by page from a free list (src/Memory/PMM.cpp). The page tables take
  their pages from it (src/arch/x86_64/Memory/PageTables.cpp), and the page mapper writes them with the flags of a protection
  and a cache type (PageMapper.cpp, PAT.cpp, PagingUtil.cpp). Ranges of virtual addresses come from the region
  allocator (src/Memory/VMRegionAllocator.cpp), which keeps them in rank-balanced trees (lib/include/DataStructures/tree.h,
  AVLTree.hpp) and linked lists (LinkedList.cpp). The heap (src/Memory/Heap.cpp) cuts sections of such pages into blocks. Threads are
  linked into lists (src/Scheduling/ThreadList.cpp), among which the scheduler of every processor moves them (Scheduler.cpp);
  semaphores and mutexes (Semaphore.cpp, Mutex.hpp) take threads out of the scheduler and give them back.

  \<^bold>\<open>Conventions.\<close> A machine integer is a word of its width, a pointer is a 64 bit word and 0 is the null pointer; structures
  in memory are stores from addresses to records, passed as explicit state. An operation that may stop the machine (a failed
  \<^verbatim>\<open>assert\<close>, a \<^verbatim>\<open>PANIC\<close>, a null dereference, an index outside of an array, a wait that nobody ends, a loop that never
  leaves) returns \<open>fault + 'a\<close> of Prelude, and the theorems say when it returns \<open>Inr\<close>.

  \<^bold>\<open>Theories.\<close> Each opens with a text on what it holds.

  \<^item> Prelude: result type, word arithmetic as arithmetic on natural numbers, the alignment macros of lib/include/util.h.

  \<^item> Sync: spinlocks, and semaphores and mutexes as one running thread sees them, as instances of the locale \<open>lock\<close>; the
    memory components use these.

  \<^item> WAVLTree, AVLTree: insertion, removal, searches and iteration. Shown: the trees stay balanced (logarithmic depth) and sorted,
    lookups follow updates, nearest keys are found, iterations end.

  \<^item> LinkedList, LinkedListProps: the list functions, their classes, the node pool and the bitmap. Shown: they implement
    sequences; which operations of \<^verbatim>\<open>RearInsertLinkedList\<close> and \<^verbatim>\<open>SimpleLinkedList\<close> do not.

  \<^item> PMM, PMMCorrect, PMMTotal: initialisation, allocation and release of pages. Shown: first fit allocation and coalescing
    release change the free bytes by just the pages concerned, blocks that touch are merged so that allocation fails just
    if there is no run of free pages, the counters are exact, a release above the last block loses the size of what was
    released, and release never stops the machine.

  \<^item> PageTables, PageTablesCorrect, PageTablesUnmap, PageTablesRemap, PageTablesProps: walks, mapping with three page sizes,
    unmapping with release of empty tables, changes of flags. Shown: the translation of one page changes as asked, that of the others
    does not, a change of flags maps an absent page to frame 0, and with five levels the release of tables overruns its array.

  \<^item> PageMapper, PageMapperProps, RegionMap: flags, runs of pages, new address spaces, regions with the largest pages.

  \<^item> VMRegionAllocator, VMRegionTiles, VMRegionProps, VMRegionFree, VMRegionClaims: best fit allocation, allocation at an address,
    release with merging, copying, deletion. Shown: the ranges tile the region, the index lists just the free ones, each
    operation changes just the pages it names, and which list nodes go back to the heap they came from.

  \<^item> Heap, HeapBlocks, HeapSections, HeapInv, HeapOps, HeapFree, HeapProps: the kernel heap over any section allocator that hands
    out ranges apart from each other. Shown: blocks tile the sections, blocks in use are disjoint, the counters are exact, and programs
    that pass their own pointers keep all of this and never stop. The section allocator of the class is a pair of function
    pointers in the code and a parameter here; \<open>source_ok\<close> says what it must do.

  \<^item> ThreadList, ThreadListProps: the intrusive lists as instances of the locale \<open>thread_queue\<close>; what their assertions catch.

  \<^item> Scheduler, SchedulerScan, SchedulerInv, SchedulerPick, SchedulerWait, SchedulerOps, SchedulerSafe, SchedulerSteps, SchedulerProps:
    processors, queues by nice level, the choice of the next thread with stealing, timer, yield, sleep and wake-up. Shown:
    every thread is in one list or runs on one processor under the steps of all processors, with wake-ups between a
    thread's leaving and the yield of its processor, no thread starves behind the others of its processor, the timer wakes
    the right threads, and which processors can be removed from the chain.

  \<^item> Semaphores, SemaphoreProps: waits, signals and destruction on top of the scheduler; a wait is cut where it releases the
    lock and where it yields. Shown: units are conserved and no wake-up is lost when these parts interleave.

  \<^bold>\<open>Loops and bounds.\<close> A loop over a list in memory, which could be circular, is a \<open>partial_function (option)\<close>; where \<open>None\<close>
  would mean that it does not return, \<open>loopR\<close> turns it into the fault \<open>Diverged\<close>, and the theorems show that it returns on
  well-formed states. A loop with a fixed number of rounds (page table levels, nice levels, waiting threads of a
  semaphore) is recursion on that number. The heap theorems are for requests of at most \<open>2 ^ 62\<close> bytes, since sizes beyond wrap around
  in the rounding or do not fit the 63 bits of a block header; other bounds are those of the words.

  \<^bold>\<open>Concurrency.\<close> The memory components are modelled as one thread sees them between the acquisition and the release of
  their lock. The scheduler and the semaphores are step relations whose steps are operations of one processor with
  interrupts disabled. A thread that blocks or exits leaves its processor in one step and the processor yields in a
  later one; other processors act in between. Finer interleavings are not part of the model. Three things the code allows are
  excluded from the step relations and listed where they are defined: a forced yield of an idle processor, the sleep of a
  thread before the processor it left has yielded, and yields that call a function a thread has left.

  \<^bold>\<open>Stores.\<close> Structures that share physical memory in the code are separate stores: page table entries and nodes of the
  free list of pages, headers and bytes of the heap. Lists and processor states are taken to lie in memory that was zeroed.

  \<^bold>\<open>Not modelled.\<close> The virtual memory manager, processes, system calls, file systems and the executable loader (virtual
  method calls between objects of components outside of this development); interrupts, timers, ACPI, processor set-up, console and
  graphics (device registers and output); saving and restoring of registers; the formatted output of the C library; the
  splay trees of tree.h, which the kernel does not instantiate; uACPI and other packages.
\<close>

end
